(* ===== verification/Prelude.thy ===== *)
theory Prelude
  imports Main "HOL-Library.Word" "HOL-Library.Monad_Syntax"
begin

unbundle bit_operations_syntax

text \<open>
  The shared vocabulary of the development: the C integer types, byte buffers with
  checked reads, the little-endian accessors of \<^verbatim>\<open>miniz.h\<close>, and the generic
  lemmas on lists, options and bounded sums that the components use.

  A C function that may read outside an object is modelled with result type
  \<open>'a option\<close>; \<^term>\<open>None\<close> is undefined behaviour (a read outside the buffer it
  is given). Sizes, offsets and flag words of the C code are natural numbers, and every
  expression that can leave its C type has its truncation (\<open>u16\<close>, \<open>u32\<close>, \<open>u64\<close>,
  \<open>sub64\<close>) written out where the code computes it.
\<close>

named_theorems rd_simps \<open>evaluation of checked reads\<close>
named_theorems zip_defs \<open>the record updates of the archive model\<close>

type_synonym u8 = "8 word"
type_synonym bytes = "u8 list"

abbreviation (input) MZ_UINT16_MAX :: nat where "MZ_UINT16_MAX \<equiv> 65535"
abbreviation (input) MZ_UINT32_MAX :: nat where "MZ_UINT32_MAX \<equiv> 4294967295"

definition u8t :: "nat \<Rightarrow> nat" where "u8t n = n mod 2 ^ 8"
definition u16 :: "nat \<Rightarrow> nat" where "u16 n = n mod 2 ^ 16"
definition u32 :: "nat \<Rightarrow> nat" where "u32 n = n mod 2 ^ 32"
definition u64 :: "nat \<Rightarrow> nat" where "u64 n = n mod 2 ^ 64"

text \<open>Unsigned subtraction at 32 and 64 bits, with its wrap-around.\<close>

definition sub32 :: "nat \<Rightarrow> nat \<Rightarrow> nat" where
  "sub32 a b = (a + 2 ^ 32 - b mod 2 ^ 32) mod 2 ^ 32"

definition sub64 :: "nat \<Rightarrow> nat \<Rightarrow> nat" where
  "sub64 a b = (a + 2 ^ 64 - b mod 2 ^ 64) mod 2 ^ 64"

lemma u16_less [simp]: "u16 n < 65536" by (simp add: u16_def)
lemma u32_less [simp]: "u32 n < 4294967296" by (simp add: u32_def)
lemma u64_less [simp]: "u64 n < 18446744073709551616" by (simp add: u64_def)

lemma u16_id [simp]: "n < 65536 \<Longrightarrow> u16 n = n" by (simp add: u16_def)
lemma u32_id [simp]: "n < 4294967296 \<Longrightarrow> u32 n = n" by (simp add: u32_def)
lemma u64_id [simp]: "n < 18446744073709551616 \<Longrightarrow> u64 n = n" by (simp add: u64_def)

lemma wrap_sub:
  fixes a b k :: nat
  assumes "b \<le> a" and "a < k"
  shows "(a + k - b mod k) mod k = a - b"
proof -
  have "a + k - b = (a - b) + k" using assms by simp
  moreover have "b mod k = b" and "(a - b) mod k = a - b" using assms by simp_all
  ultimately show ?thesis by simp
qed

lemma sub64_le: "b \<le> a \<Longrightarrow> a < 2 ^ 64 \<Longrightarrow> sub64 a b = a - b"
  unfolding sub64_def by (rule wrap_sub)

lemma sub32_le: "b \<le> a \<Longrightarrow> a < 2 ^ 32 \<Longrightarrow> sub32 a b = a - b"
  unfolding sub32_def by (rule wrap_sub)

lemma sub64_less [simp]: "sub64 a b < 2 ^ 64"
  by (simp add: sub64_def)

lemma int_sub64: "int (sub64 a b) = (int a - int b) mod 2 ^ 64"
proof -
  have "b mod 2 ^ 64 \<le> a + 2 ^ 64"
    by (rule order_trans [OF less_imp_le [OF mod_less_divisor]]) simp_all
  then have "int (a + 2 ^ 64 - b mod 2 ^ 64) = int a + 2 ^ 64 - int b mod 2 ^ 64"
    by (simp only: of_nat_diff of_nat_add of_nat_power of_nat_numeral of_nat_mod)
  then have "int (sub64 a b) = (int a + 2 ^ 64 - int b mod 2 ^ 64) mod 2 ^ 64"
    by (simp only: sub64_def of_nat_mod of_nat_power of_nat_numeral)
  also have "\<dots> = (int a - int b + 2 ^ 64) mod 2 ^ 64"
    by (simp add: mod_simps algebra_simps)
  also have "\<dots> = (int a - int b) mod 2 ^ 64" by (rule mod_add_self2)
  finally show ?thesis .
qed

lemma sub64_sub64: "sub64 a (sub64 b c) = u64 (sub64 a b + c)"
proof -
  have "int (sub64 a (sub64 b c)) = int (u64 (sub64 a b + c))"
    by (simp add: int_sub64 u64_def of_nat_mod mod_simps algebra_simps)
  then show ?thesis by simp
qed

section \<open>Checked reads of a byte buffer\<close>

definition rd8 :: "bytes \<Rightarrow> nat \<Rightarrow> nat option" where
  "rd8 buf i = (if i < length buf then Some (unat (buf ! i)) else None)"

text \<open>\<^verbatim>\<open>MZ_READ_LE16\<close>, \<^verbatim>\<open>MZ_READ_LE32\<close>, \<^verbatim>\<open>MZ_READ_LE64\<close>: the bytes ored together at
  their shifts.\<close>

definition rd16 :: "bytes \<Rightarrow> nat \<Rightarrow> nat option" where
  "rd16 buf i = do {
     a \<leftarrow> rd8 buf i;
     b \<leftarrow> rd8 buf (i + 1);
     Some (a OR push_bit 8 b)
   }"

definition rd32 :: "bytes \<Rightarrow> nat \<Rightarrow> nat option" where
  "rd32 buf i = do {
     a \<leftarrow> rd8 buf i;
     b \<leftarrow> rd8 buf (i + 1);
     c \<leftarrow> rd8 buf (i + 2);
     d \<leftarrow> rd8 buf (i + 3);
     Some (a OR push_bit 8 b OR push_bit 16 c OR push_bit 24 d)
   }"

definition rd64 :: "bytes \<Rightarrow> nat \<Rightarrow> nat option" where
  "rd64 buf i = do {
     lo \<leftarrow> rd32 buf i;
     hi \<leftarrow> rd32 buf (i + 4);
     Some (lo OR push_bit 32 hi)
   }"

text \<open>The \<open>n\<close> bytes at offset \<open>i\<close>, as \<^verbatim>\<open>memcpy\<close> reads them.\<close>

definition rdn :: "bytes \<Rightarrow> nat \<Rightarrow> nat \<Rightarrow> bytes option" where
  "rdn buf i n = (if i + n \<le> length buf then Some (take n (drop i buf)) else None)"

lemma or_disjoint_add:
  fixes a b :: nat
  assumes "a < 2 ^ n"
  shows "a OR push_bit n b = a + b * 2 ^ n"
proof -
  have "a AND push_bit n b = 0"
  proof (rule bit_eqI)
    fix m
    show "bit (a AND push_bit n b) m \<longleftrightarrow> bit (0::nat) m"
    proof (cases "m < n")
      case True
      then show ?thesis by (simp add: bit_simps)
    next
      case False
      then have "\<not> bit a m" using assms
        by (metis bit_take_bit_iff take_bit_nat_eq_self)
      then show ?thesis by (simp add: bit_simps)
    qed
  qed
  then have "a OR push_bit n b = a + push_bit n b"
    by (simp add: disjunctive_add_eq_or)
  then show ?thesis by (simp add: push_bit_nat_def)
qed

lemma unat_u8_less [simp]: "unat (b :: u8) < 256"
  using unsigned_less [of b, where ?'a = nat] by simp

lemma unat_u8_le: "unat (b :: u8) \<le> 255"
  using unat_u8_less [of b] by linarith

lemma unat_ucast_u8 [simp]: "unat (ucast (b :: u8) :: 32 word) = unat b"
proof -
  have "unat b < 2 ^ 32" by (rule less_trans [OF unat_u8_less]) simp
  then show ?thesis by (simp add: unsigned_ucast_eq take_bit_nat_eq_self)
qed

lemma rd8_less: "rd8 buf i = Some v \<Longrightarrow> v < 256"
  by (auto simp: rd8_def split: if_splits)

lemma rd8_defined [rd_simps]: "i < length buf \<Longrightarrow> rd8 buf i = Some (unat (buf ! i))"
  by (simp add: rd8_def)

text \<open>The values of the accessors, as sums of bytes.\<close>

definition le16 :: "bytes \<Rightarrow> nat \<Rightarrow> nat" where
  "le16 buf i = unat (buf ! i) + unat (buf ! (i + 1)) * 256"

definition le32 :: "bytes \<Rightarrow> nat \<Rightarrow> nat" where
  "le32 buf i = le16 buf i + le16 buf (i + 2) * 65536"

definition le64 :: "bytes \<Rightarrow> nat \<Rightarrow> nat" where
  "le64 buf i = le32 buf i + le32 buf (i + 4) * 4294967296"

lemma le16_less [simp]: "le16 buf i < 65536"
  using unat_u8_less [of "buf ! i"] unat_u8_less [of "buf ! (i + 1)"]
  unfolding le16_def by linarith

lemma le32_less [simp]: "le32 buf i < 4294967296"
  using le16_less [of buf i] le16_less [of buf "i + 2"] unfolding le32_def by linarith

lemma le64_less [simp]: "le64 buf i < 18446744073709551616"
  using le32_less [of buf i] le32_less [of buf "i + 4"] unfolding le64_def by linarith

lemma rd16_eq [rd_simps]:
  assumes "i + 1 < length buf"
  shows "rd16 buf i = Some (le16 buf i)"
  using assms or_disjoint_add [of "unat (buf ! i)" 8 "unat (buf ! (i + 1))"]
  by (simp add: rd16_def rd8_def le16_def)

lemma rd32_eq [rd_simps]:
  assumes "i + 3 < length buf"
  shows "rd32 buf i = Some (le32 buf i)"
proof -
  define a b c d where abcd: "a = unat (buf ! i)" "b = unat (buf ! (i + 1))"
    "c = unat (buf ! (i + 2))" "d = unat (buf ! (i + 3))"
  have r: "a < 256" "b < 256" "c < 256" by (simp_all add: abcd)
  have "a OR push_bit 8 b = a + b * 2 ^ 8" using r by (intro or_disjoint_add) simp
  moreover have "(a + b * 2 ^ 8) OR push_bit 16 c = (a + b * 2 ^ 8) + c * 2 ^ 16"
    using r by (intro or_disjoint_add) simp
  moreover have "(a + b * 2 ^ 8 + c * 2 ^ 16) OR push_bit 24 d = (a + b * 2 ^ 8 + c * 2 ^ 16) + d * 2 ^ 24"
    using r by (intro or_disjoint_add) simp
  moreover have "rd32 buf i = Some (((a OR push_bit 8 b) OR push_bit 16 c) OR push_bit 24 d)"
    using assms by (simp add: rd32_def rd8_def abcd or.assoc)
  ultimately have "rd32 buf i = Some (a + b * 2 ^ 8 + c * 2 ^ 16 + d * 2 ^ 24)" by (simp only:)
  moreover have "le32 buf i = a + b * 2 ^ 8 + c * 2 ^ 16 + d * 2 ^ 24"
  proof -
    have "i + 2 + 1 = i + 3" by simp
    then show ?thesis unfolding le32_def le16_def abcd by (simp only:) simp
  qed
  ultimately show ?thesis by simp
qed

lemma rd64_eq [rd_simps]:
  assumes "i + 7 < length buf"
  shows "rd64 buf i = Some (le64 buf i)"
proof -
  have "rd32 buf i = Some (le32 buf i)" "rd32 buf (i + 4) = Some (le32 buf (i + 4))"
    using assms by (simp_all add: rd32_eq)
  moreover have "le32 buf i OR push_bit 32 (le32 buf (i + 4)) = le32 buf i + le32 buf (i + 4) * 2 ^ 32"
    by (rule or_disjoint_add) simp
  ultimately show ?thesis by (simp add: rd64_def le64_def)
qed

text \<open>The same fields seen through a prefix or a suffix of the buffer.\<close>

lemma le16_drop: "k \<le> length buf \<Longrightarrow> le16 (drop k buf) i = le16 buf (k + i)"
  by (simp add: le16_def add.assoc)

lemma le16_take: "i + 1 < n \<Longrightarrow> le16 (take n buf) i = le16 buf i"
  by (simp add: le16_def)

lemma le32_take: "i + 3 < n \<Longrightarrow> le32 (take n buf) i = le32 buf i"
  by (simp add: le32_def le16_take)

lemma rdn_Some [rd_simps]: "i + n \<le> length buf \<Longrightarrow> rdn buf i n = Some (take n (drop i buf))"
  by (simp add: rdn_def)

end
