(* ===== verification/Checksum.thy ===== *)
theory Checksum
  imports Prelude
begin

unbundle bit_operations_syntax

text \<open>
  The two checksums of \<^verbatim>\<open>miniz.c\<close>: \<^verbatim>\<open>mz_adler32\<close> (eight bytes per loop turn, the modulo taken
  once per block of 5552 bytes) and \<^verbatim>\<open>mz_crc32\<close> (a 256-entry table, four bytes per loop turn).
  Both are shown equal to their reference definitions (the modulo after every byte; the
  bitwise division by the reflected polynomial \<^verbatim>\<open>0xEDB88320\<close>), to compose over consecutive
  chunks, and CRC-32 to change when a single byte changes. \<^verbatim>\<open>mz_ulong\<close> values are
  32-bit here, as on the plugin's Windows target and in every use of the result.
\<close>

section \<open>Adler-32\<close>

text \<open>One statement \<^verbatim>\<open>s1 += *ptr++, s2 += s1\<close>.\<close>

definition adler_byte :: "32 word \<times> 32 word \<Rightarrow> u8 \<Rightarrow> 32 word \<times> 32 word" where
  "adler_byte s b = (let s1 = fst s + ucast b in (s1, snd s + s1))"

text \<open>
  The inner loops over the \<open>n\<close> bytes of one block: eight bytes per turn while
  \<^verbatim>\<open>i + 7 < block_len\<close>, then one at a time.
\<close>

fun adler_block_loop :: "32 word \<times> 32 word \<Rightarrow> bytes \<Rightarrow> 32 word \<times> 32 word" where
  "adler_block_loop s (b0 # b1 # b2 # b3 # b4 # b5 # b6 # b7 # bs) =
     adler_block_loop
       (adler_byte (adler_byte (adler_byte (adler_byte (adler_byte (adler_byte
         (adler_byte (adler_byte s b0) b1) b2) b3) b4) b5) b6) b7) bs"
| "adler_block_loop s bs = foldl adler_byte s bs"

text \<open>The outer loop: the first block has \<^verbatim>\<open>buf_len % 5552\<close> bytes, every later one 5552.\<close>

function adler_blocks :: "32 word \<times> 32 word \<Rightarrow> bytes \<Rightarrow> nat \<Rightarrow> 32 word \<times> 32 word" where
  "adler_blocks s buf block_len =
     (if buf = [] then s
      else let s' = adler_block_loop s (take block_len buf)
           in adler_blocks (fst s' mod 65521, snd s' mod 65521) (drop block_len buf) 5552)"
  by pat_completeness auto
termination
  by (relation "measures [\<lambda>(s, buf, n). length buf, \<lambda>(s, buf, n). if n = 0 then 1 else 0]") auto

definition mz_adler32 :: "32 word \<Rightarrow> bytes option \<Rightarrow> 32 word" where
  "mz_adler32 adler ptr =
     (case ptr of None \<Rightarrow> 1
      | Some buf \<Rightarrow>
          (let s = adler_blocks (adler AND 0xffff, drop_bit 16 adler) buf (length buf mod 5552)
           in push_bit 16 (snd s) + fst s))"

section \<open>CRC-32\<close>

definition s_crc_table :: "32 word list" where
  "s_crc_table = [
     0x00000000, 0x77073096, 0xEE0E612C, 0x990951BA, 0x076DC419, 0x706AF48F, 0xE963A535, 0x9E6495A3,
     0x0EDB8832, 0x79DCB8A4, 0xE0D5E91E, 0x97D2D988, 0x09B64C2B, 0x7EB17CBD, 0xE7B82D07, 0x90BF1D91,
     0x1DB71064, 0x6AB020F2, 0xF3B97148, 0x84BE41DE, 0x1ADAD47D, 0x6DDDE4EB, 0xF4D4B551, 0x83D385C7,
     0x136C9856, 0x646BA8C0, 0xFD62F97A, 0x8A65C9EC, 0x14015C4F, 0x63066CD9, 0xFA0F3D63, 0x8D080DF5,
     0x3B6E20C8, 0x4C69105E, 0xD56041E4, 0xA2677172, 0x3C03E4D1, 0x4B04D447, 0xD20D85FD, 0xA50AB56B,
     0x35B5A8FA, 0x42B2986C, 0xDBBBC9D6, 0xACBCF940, 0x32D86CE3, 0x45DF5C75, 0xDCD60DCF, 0xABD13D59,
     0x26D930AC, 0x51DE003A, 0xC8D75180, 0xBFD06116, 0x21B4F4B5, 0x56B3C423, 0xCFBA9599, 0xB8BDA50F,
     0x2802B89E, 0x5F058808, 0xC60CD9B2, 0xB10BE924, 0x2F6F7C87, 0x58684C11, 0xC1611DAB, 0xB6662D3D,
     0x76DC4190, 0x01DB7106, 0x98D220BC, 0xEFD5102A, 0x71B18589, 0x06B6B51F, 0x9FBFE4A5, 0xE8B8D433,
     0x7807C9A2, 0x0F00F934, 0x9609A88E, 0xE10E9818, 0x7F6A0DBB, 0x086D3D2D, 0x91646C97, 0xE6635C01,
     0x6B6B51F4, 0x1C6C6162, 0x856530D8, 0xF262004E, 0x6C0695ED, 0x1B01A57B, 0x8208F4C1, 0xF50FC457,
     0x65B0D9C6, 0x12B7E950, 0x8BBEB8EA, 0xFCB9887C, 0x62DD1DDF, 0x15DA2D49, 0x8CD37CF3, 0xFBD44C65,
     0x4DB26158, 0x3AB551CE, 0xA3BC0074, 0xD4BB30E2, 0x4ADFA541, 0x3DD895D7, 0xA4D1C46D, 0xD3D6F4FB,
     0x4369E96A, 0x346ED9FC, 0xAD678846, 0xDA60B8D0, 0x44042D73, 0x33031DE5, 0xAA0A4C5F, 0xDD0D7CC9,
     0x5005713C, 0x270241AA, 0xBE0B1010, 0xC90C2086, 0x5768B525, 0x206F85B3, 0xB966D409, 0xCE61E49F,
     0x5EDEF90E, 0x29D9C998, 0xB0D09822, 0xC7D7A8B4, 0x59B33D17, 0x2EB40D81, 0xB7BD5C3B, 0xC0BA6CAD,
     0xEDB88320, 0x9ABFB3B6, 0x03B6E20C, 0x74B1D29A, 0xEAD54739, 0x9DD277AF, 0x04DB2615, 0x73DC1683,
     0xE3630B12, 0x94643B84, 0x0D6D6A3E, 0x7A6A5AA8, 0xE40ECF0B, 0x9309FF9D, 0x0A00AE27, 0x7D079EB1,
     0xF00F9344, 0x8708A3D2, 0x1E01F268, 0x6906C2FE, 0xF762575D, 0x806567CB, 0x196C3671, 0x6E6B06E7,
     0xFED41B76, 0x89D32BE0, 0x10DA7A5A, 0x67DD4ACC, 0xF9B9DF6F, 0x8EBEEFF9, 0x17B7BE43, 0x60B08ED5,
     0xD6D6A3E8, 0xA1D1937E, 0x38D8C2C4, 0x4FDFF252, 0xD1BB67F1, 0xA6BC5767, 0x3FB506DD, 0x48B2364B,
     0xD80D2BDA, 0xAF0A1B4C, 0x36034AF6, 0x41047A60, 0xDF60EFC3, 0xA867DF55, 0x316E8EEF, 0x4669BE79,
     0xCB61B38C, 0xBC66831A, 0x256FD2A0, 0x5268E236, 0xCC0C7795, 0xBB0B4703, 0x220216B9, 0x5505262F,
     0xC5BA3BBE, 0xB2BD0B28, 0x2BB45A92, 0x5CB36A04, 0xC2D7FFA7, 0xB5D0CF31, 0x2CD99E8B, 0x5BDEAE1D,
     0x9B64C2B0, 0xEC63F226, 0x756AA39C, 0x026D930A, 0x9C0906A9, 0xEB0E363F, 0x72076785, 0x05005713,
     0x95BF4A82, 0xE2B87A14, 0x7BB12BAE, 0x0CB61B38, 0x92D28E9B, 0xE5D5BE0D, 0x7CDCEFB7, 0x0BDBDF21,
     0x86D3D2D4, 0xF1D4E242, 0x68DDB3F8, 0x1FDA836E, 0x81BE16CD, 0xF6B9265B, 0x6FB077E1, 0x18B74777,
     0x88085AE6, 0xFF0F6A70, 0x66063BCA, 0x11010B5C, 0x8F659EFF, 0xF862AE69, 0x616BFFD3, 0x166CCF45,
     0xA00AE278, 0xD70DD2EE, 0x4E048354, 0x3903B3C2, 0xA7672661, 0xD06016F7, 0x4969474D, 0x3E6E77DB,
     0xAED16A4A, 0xD9D65ADC, 0x40DF0B66, 0x37D83BF0, 0xA9BCAE53, 0xDEBB9EC5, 0x47B2CF7F, 0x30B5FFE9,
     0xBDBDF21C, 0xCABAC28A, 0x53B39330, 0x24B4A3A6, 0xBAD03605, 0xCDD70693, 0x54DE5729, 0x23D967BF,
     0xB3667A2E, 0xC4614AB8, 0x5D681B02, 0x2A6F2B94, 0xB40BBE37, 0xC30C8EA1, 0x5A05DF1B, 0x2D02EF8D]"

text \<open>One statement \<^verbatim>\<open>crc32 = (crc32 >> 8) ^ s_crc_table[(crc32 ^ b) & 0xFF]\<close>.\<close>

definition crc_byte :: "32 word \<Rightarrow> u8 \<Rightarrow> 32 word" where
  "crc_byte crc b = drop_bit 8 crc XOR s_crc_table ! unat ((crc XOR ucast b) AND 0xFF)"

text \<open>Four bytes per turn while \<^verbatim>\<open>buf_len >= 4\<close>, then one at a time.\<close>

fun crc_loop :: "32 word \<Rightarrow> bytes \<Rightarrow> 32 word" where
  "crc_loop crc (b0 # b1 # b2 # b3 # bs) =
     crc_loop (crc_byte (crc_byte (crc_byte (crc_byte crc b0) b1) b2) b3) bs"
| "crc_loop crc bs = foldl crc_byte crc bs"

definition mz_crc32 :: "32 word \<Rightarrow> bytes \<Rightarrow> 32 word" where
  "mz_crc32 crc buf = NOT (crc_loop (crc XOR 0xFFFFFFFF) buf)"

subsection \<open>Adler-32 against its reference\<close>

definition adler_ref_byte :: "nat \<times> nat \<Rightarrow> u8 \<Rightarrow> nat \<times> nat" where
  "adler_ref_byte s b =
     (let s1 = (fst s + unat b) mod 65521 in (s1, (snd s + s1) mod 65521))"

definition adler_unpack :: "32 word \<Rightarrow> nat \<times> nat" where
  "adler_unpack a = (unat a mod 65536, unat a div 65536)"

definition adler_pack :: "nat \<times> nat \<Rightarrow> 32 word" where
  "adler_pack s = word_of_nat (snd s * 65536 + fst s)"

text \<open>The sums of one block with neither wrap-around nor modulo.\<close>

definition adler_sum_byte :: "nat \<times> nat \<Rightarrow> u8 \<Rightarrow> nat \<times> nat" where
  "adler_sum_byte s b = (fst s + unat b, snd s + fst s + unat b)"

lemma adler_byte_sel:
  "fst (adler_ref_byte s b) = (fst s + unat b) mod 65521"
  "snd (adler_ref_byte s b) = (snd s + (fst s + unat b)) mod 65521"
  "fst (adler_sum_byte s b) = fst s + unat b"
  "snd (adler_sum_byte s b) = snd s + fst s + unat b"
  "unat (fst (adler_byte w b)) = (unat (fst w) + unat b) mod 4294967296"
  "unat (snd (adler_byte w b)) = (unat (snd w) + (unat (fst w) + unat b)) mod 4294967296"
  by (simp_all add: adler_ref_byte_def adler_sum_byte_def adler_byte_def Let_def mod_simps
      unat_word_ariths)

lemma adler_block_loop_foldl [simp]: "adler_block_loop s bs = foldl adler_byte s bs"
  by (induction s bs rule: adler_block_loop.induct) simp_all

lemma adler_sum_bounds:
  "fst (foldl adler_sum_byte (a, b) xs) \<le> a + 255 * length xs \<and>
   2 * snd (foldl adler_sum_byte (a, b) xs)
     \<le> 2 * b + 2 * a * length xs + 255 * length xs * (length xs + 1)"
proof (induction xs rule: rev_induct)
  case Nil
  then show ?case by simp
next
  case (snoc x xs)
  have "unat x \<le> 255" by (rule unat_u8_le)
  with snoc show ?case
    by (simp add: adler_sum_byte_def algebra_simps)
qed

lemma adler_block_exact:
  assumes "fst s < 65536" "snd s < 65536" "length xs \<le> 5552"
    and "unat (fst w) = fst s" "unat (snd w) = snd s"
  shows "unat (fst (foldl adler_byte w xs)) = fst (foldl adler_sum_byte s xs) \<and>
         unat (snd (foldl adler_byte w xs)) = snd (foldl adler_sum_byte s xs)"
  using assms(3)
proof (induction xs rule: rev_induct)
  case Nil
  then show ?case using assms by simp
next
  case (snoc x xs)
  obtain a b where s: "s = (a, b)" by (cases s)
  have len: "length (xs @ [x]) \<le> 5552" using snoc.prems by simp
  let ?n = "length (xs @ [x])"
  let ?S = "foldl adler_sum_byte s (xs @ [x])"
  have b1: "fst ?S \<le> a + 255 * ?n"
    and b2: "2 * snd ?S \<le> 2 * b + 2 * a * ?n + 255 * ?n * (?n + 1)"
    using adler_sum_bounds [of a b "xs @ [x]"] s by auto
  have ab: "a \<le> 65535" "b \<le> 65535" using assms(1,2) s by auto
  have "2 * a * ?n \<le> 2 * 65535 * 5552"
    using ab len by (intro mult_le_mono) auto
  moreover have "255 * ?n * (?n + 1) \<le> 255 * 5552 * 5553"
    using len by (intro mult_le_mono) auto
  ultimately have S2: "snd ?S < 4294967296" using b2 ab by simp
  have S1: "fst ?S < 4294967296" using b1 ab len by simp
  have IH: "unat (fst (foldl adler_byte w xs)) = fst (foldl adler_sum_byte s xs)"
    "unat (snd (foldl adler_byte w xs)) = snd (foldl adler_sum_byte s xs)"
    using snoc by auto
  show ?case
    using S1 S2 IH
    by (simp add: adler_byte_sel add.assoc)
qed

lemma adler_ref_mod:
  "fst (foldl adler_ref_byte s xs) mod 65521 = fst (foldl adler_sum_byte s xs) mod 65521 \<and>
   snd (foldl adler_ref_byte s xs) mod 65521 = snd (foldl adler_sum_byte s xs) mod 65521"
proof (induction xs rule: rev_induct)
  case Nil
  then show ?case by simp
next
  case (snoc x xs)
  let ?r = "foldl adler_ref_byte s xs" and ?t = "foldl adler_sum_byte s xs"
  have "(fst ?r + unat x) mod 65521 = (fst ?t + unat x) mod 65521"
    using snoc by (metis mod_add_cong)
  moreover from this have "(snd ?r + (fst ?r + unat x)) mod 65521 = (snd ?t + (fst ?t + unat x)) mod 65521"
    using snoc by (metis mod_add_cong)
  ultimately show ?case
    by (simp add: adler_byte_sel add.assoc)
qed

lemma adler_ref_reduced:
  "xs \<noteq> [] \<Longrightarrow> fst (foldl adler_ref_byte s xs) < 65521 \<and> snd (foldl adler_ref_byte s xs) < 65521"
  by (induction xs rule: rev_induct) (auto simp: adler_ref_byte_def Let_def)

lemma adler_ref_cong:
  assumes "fst s mod 65521 = fst t mod 65521" "snd s mod 65521 = snd t mod 65521" "xs \<noteq> []"
  shows "foldl adler_ref_byte s xs = foldl adler_ref_byte t xs"
proof -
  obtain x ys where xs: "xs = x # ys" using assms(3) by (cases xs) auto
  have "adler_ref_byte s x = adler_ref_byte t x"
    using assms(1,2) unfolding adler_ref_byte_def Let_def
    by (auto intro!: mod_add_cong)
  then show ?thesis by (simp add: xs)
qed


lemma adler_blocks_ref:
  assumes "unat (fst w) < 65536" "unat (snd w) < 65536" "n \<le> 5552" "buf \<noteq> []"
  shows "unat (fst (adler_blocks w buf n)) = fst (foldl adler_ref_byte (unat (fst w), unat (snd w)) buf) \<and>
         unat (snd (adler_blocks w buf n)) = snd (foldl adler_ref_byte (unat (fst w), unat (snd w)) buf)"
  using assms
proof (induction w buf n rule: adler_blocks.induct)
  case (1 w buf n)
  let ?s = "(unat (fst w), unat (snd w))"
  let ?w = "foldl adler_byte w (take n buf)"
  let ?w' = "(fst ?w mod 65521, snd ?w mod 65521)"
  have ex: "unat (fst ?w) = fst (foldl adler_sum_byte ?s (take n buf)) \<and>
            unat (snd ?w) = snd (foldl adler_sum_byte ?s (take n buf))"
    using "1.prems" by (intro adler_block_exact) auto
  then have w': "unat (fst ?w') = fst (foldl adler_ref_byte ?s (take n buf)) mod 65521"
    "unat (snd ?w') = snd (foldl adler_ref_byte ?s (take n buf)) mod 65521"
    using adler_ref_mod [of ?s "take n buf"] by (simp_all add: unat_mod_distrib)
  have lt: "unat (fst ?w') < 65536" "unat (snd ?w') < 65536"
    unfolding w' by (simp_all add: less_trans [OF mod_less_divisor])
  have unf: "adler_blocks w buf n = adler_blocks ?w' (drop n buf) 5552"
    using "1.prems"(4) by (subst adler_blocks.simps) (simp add: Let_def)
  show ?case
  proof (cases "drop n buf = []")
    case True
    then have tk: "take n buf = buf" by simp
    then have red: "fst (foldl adler_ref_byte ?s (take n buf)) < 65521"
      "snd (foldl adler_ref_byte ?s (take n buf)) < 65521"
      using adler_ref_reduced [OF "1.prems"(4), of ?s] by auto
    have "adler_blocks ?w' (drop n buf) 5552 = ?w'"
      using True by (subst adler_blocks.simps) simp
    then show ?thesis using unf w' red tk by simp
  next
    case False
    have "foldl adler_ref_byte ?s buf =
        foldl adler_ref_byte (foldl adler_ref_byte ?s (take n buf)) (drop n buf)"
      by (metis append_take_drop_id foldl_append)
    also have "\<dots> = foldl adler_ref_byte (unat (fst ?w'), unat (snd ?w')) (drop n buf)"
      using False w' by (intro adler_ref_cong) simp_all
    finally have "foldl adler_ref_byte ?s buf =
        foldl adler_ref_byte (unat (fst ?w'), unat (snd ?w')) (drop n buf)" .
    then show ?thesis
      using "1.IH" [OF "1.prems"(4), of "adler_block_loop w (take n buf)"] False lt unf by simp
  qed
qed

lemma unat_of_nat_small: "k < 2 ^ 32 \<Longrightarrow> unat (word_of_nat k :: 32 word) = k"
  by (simp add: unsigned_of_nat take_bit_nat_eq_self)

lemma adler_unpack_pack:
  "x < 65536 \<Longrightarrow> y < 65536 \<Longrightarrow> adler_unpack (adler_pack (x, y)) = (x, y)"
proof -
  assume xy: "x < 65536" "y < 65536"
  then have "y * 65536 + x < 2 ^ 32" by simp
  then have "unat (word_of_nat (y * 65536 + x) :: 32 word) = y * 65536 + x"
    by (rule unat_of_nat_small)
  with xy show ?thesis by (simp add: adler_unpack_def adler_pack_def)
qed

lemma adler_pack_unpack [simp]: "adler_pack (adler_unpack a) = a"
  by (simp add: adler_unpack_def adler_pack_def)

lemma adler_result:
  "push_bit 16 (snd w) + fst w = adler_pack (unat (fst w), unat (snd w))" for w :: "32 word \<times> 32 word"
  by (simp add: adler_pack_def push_bit_eq_mult mult.commute)

lemma adler_halves:
  "unat (a AND 0xffff :: 32 word) = unat a mod 65536"
  "unat (drop_bit 16 a :: 32 word) = unat a div 65536"
proof -
  have *: "a AND 0xffff = take_bit 16 a" by (simp add: take_bit_eq_mask mask_eq_exp_minus_1)
  show "unat (a AND 0xffff :: 32 word) = unat a mod 65536"
    unfolding * unsigned_take_bit_eq by (simp add: take_bit_eq_mod del: take_bit_word_eq_self)
  show "unat (drop_bit 16 a :: 32 word) = unat a div 65536"
    by (simp only: drop_bit_eq_div unat_div_distrib) simp
qed

definition adler_ref :: "32 word \<Rightarrow> bytes \<Rightarrow> 32 word" where
  "adler_ref a buf = adler_pack (foldl adler_ref_byte (adler_unpack a) buf)"

lemma mz_adler32_eq_ref: "mz_adler32 a (Some buf) = adler_ref a buf"
proof (cases "buf = []")
  case True
  have "adler_blocks w [] n = w" for w n by (subst adler_blocks.simps) simp
  then show ?thesis
    by (simp add: True mz_adler32_def adler_result adler_halves adler_ref_def adler_unpack_def
        [symmetric])
next
  case False
  let ?w = "(a AND 0xffff, drop_bit 16 a)"
  have "unat a div 65536 < 65536" using unsigned_less [of a, where ?'a = nat] by simp
  then have "unat (fst ?w) < 65536" "unat (snd ?w) < 65536" by (simp_all add: adler_halves)
  from adler_blocks_ref [OF this _ False, of "length buf mod 5552"]
  show ?thesis
    by (simp add: mz_adler32_def Let_def adler_result adler_ref_def adler_unpack_def adler_halves
        less_imp_le)
qed

lemma adler_ref_append: "adler_ref a (xs @ ys) = adler_ref (adler_ref a xs) ys"
proof (cases "xs = []")
  case True
  then show ?thesis by (simp add: adler_ref_def)
next
  case False
  obtain x y where xy: "foldl adler_ref_byte (adler_unpack a) xs = (x, y)" by fastforce
  with adler_ref_reduced [OF False, of "adler_unpack a"] have "x < 65536" "y < 65536" by auto
  then show ?thesis by (simp add: adler_ref_def xy adler_unpack_pack)
qed

subsection \<open>CRC-32 against the bitwise division\<close>

definition crc_ref_bit :: "32 word \<Rightarrow> 32 word" where
  "crc_ref_bit c = (if bit c 0 then drop_bit 1 c XOR 0xEDB88320 else drop_bit 1 c)"

definition crc_ref_byte :: "32 word \<Rightarrow> u8 \<Rightarrow> 32 word" where
  "crc_ref_byte c b = (crc_ref_bit ^^ 8) (c XOR ucast b)"

definition crc_ref :: "32 word \<Rightarrow> bytes \<Rightarrow> 32 word" where
  "crc_ref crc buf = NOT (foldl crc_ref_byte (NOT crc) buf)"

lemma crc_loop_foldl [simp]: "crc_loop c bs = foldl crc_byte c bs"
  by (induction c bs rule: crc_loop.induct) simp_all

lemma crc_ref_bit_xor: "crc_ref_bit (x XOR y) = crc_ref_bit x XOR crc_ref_bit y"
  by (auto simp: crc_ref_bit_def bit_xor_iff drop_bit_xor ac_simps)

lemma crc_ref_bits_xor: "(crc_ref_bit ^^ n) (x XOR y) = (crc_ref_bit ^^ n) x XOR (crc_ref_bit ^^ n) y"
  by (induction n) (simp_all add: crc_ref_bit_xor)

text \<open>
  The table entry of \<open>i + 2 ^ k\<close> is the entry of \<open>i\<close> xored with that of \<open>2 ^ k\<close>, so eight
  evaluations of the division determine all 256 entries.
\<close>

definition crc_tab :: "nat \<Rightarrow> 32 word list" where
  "crc_tab k = map (\<lambda>i. (crc_ref_bit ^^ 8) (word_of_nat i)) [0..<2 ^ k]"

lemma word_add_pow_xor:
  assumes "i < 2 ^ k"
  shows "(word_of_nat (i + 2 ^ k) :: 32 word) = word_of_nat i XOR 2 ^ k"
proof -
  have "(word_of_nat i :: 32 word) AND 2 ^ k = 0"
  proof (rule bit_eqI)
    fix n
    have "\<not> bit i k" using assms by (metis bit_take_bit_iff less_irrefl take_bit_nat_eq_self)
    then show "bit ((word_of_nat i :: 32 word) AND 2 ^ k) n \<longleftrightarrow> bit (0 :: 32 word) n"
      by (auto simp: bit_and_iff bit_exp_iff bit_of_nat_iff)
  qed
  then have "word_of_nat i + 2 ^ k = (word_of_nat i :: 32 word) XOR 2 ^ k"
    by (rule disjunctive_add_eq_xor)
  then show ?thesis by simp
qed

lemma crc_tab_0: "crc_tab 0 = [0]"
proof -
  have "(crc_ref_bit ^^ n) 0 = 0" for n by (induction n) (simp_all add: crc_ref_bit_def)
  then show ?thesis by (simp add: crc_tab_def)
qed

lemma upt_double: "[0..<2 ^ Suc k] = [0..<2 ^ k] @ map (\<lambda>i. i + 2 ^ k) [0..<2 ^ k]"
proof -
  have "[0..<2 ^ k + 2 ^ k] = [0..<2 ^ k] @ [2 ^ k..<2 ^ k + 2 ^ k]"
    by (rule upt_add_eq_append) simp
  moreover have "[2 ^ k..<2 ^ k + 2 ^ k] = map (\<lambda>i. i + 2 ^ k) [0..<2 ^ k]"
    by (simp only: map_add_upt add_0)
  ultimately show ?thesis by (simp only: power_Suc mult_2)
qed

lemma crc_tab_Suc:
  "crc_tab (Suc k) = crc_tab k @ map (\<lambda>x. x XOR (crc_ref_bit ^^ 8) (2 ^ k)) (crc_tab k)"
proof -
  have "map (\<lambda>i. (crc_ref_bit ^^ 8) (word_of_nat (i + 2 ^ k))) [0..<2 ^ k] =
      map (\<lambda>i. (crc_ref_bit ^^ 8) (word_of_nat i) XOR (crc_ref_bit ^^ 8) (2 ^ k)) [0..<2 ^ k]"
    by (rule map_cong [OF refl]) (simp only: word_add_pow_xor crc_ref_bits_xor set_upt atLeastLessThan_iff)
  then show ?thesis
    unfolding crc_tab_def upt_double map_append map_map comp_def by (simp only:)
qed

lemma crc_tab_foldl:
  "crc_tab k = foldl (\<lambda>t p. t @ map (\<lambda>x. x XOR p) t) [0] (map (\<lambda>j. (crc_ref_bit ^^ 8) (2 ^ j)) [0..<k])"
  by (induction k) (simp_all only: crc_tab_0 crc_tab_Suc upt_Suc map_append foldl_append
      list.map foldl.simps upt_0 le0 if_True)

lemma crc_powers:
  "map (\<lambda>j. (crc_ref_bit ^^ 8) (2 ^ j)) [0..<8] =
    [0x77073096, 0xee0e612c, 0x76dc419, 0xedb8832,
     0x1db71064, 0x3b6e20c8, 0x76dc4190, 0xedb88320]"
  by code_simp

lemma s_crc_table_bits: "s_crc_table = map (\<lambda>i. (crc_ref_bit ^^ 8) (word_of_nat i)) [0..<256]"
proof -
  have "s_crc_table = crc_tab 8"
    unfolding crc_tab_foldl crc_powers s_crc_table_def by simp
  moreover have "(2 :: nat) ^ 8 = 256" by simp
  ultimately show ?thesis unfolding crc_tab_def by (simp only:)
qed

lemma crc_ref_bits_shift:
  "(\<And>i. i < n \<Longrightarrow> \<not> bit x i) \<Longrightarrow> (crc_ref_bit ^^ n) x = drop_bit n x"
proof (induction n)
  case 0
  then show ?case by simp
next
  case (Suc n)
  then have "(crc_ref_bit ^^ n) x = drop_bit n x" by simp
  moreover have "\<not> bit (drop_bit n x) 0" using Suc.prems [of n] by (simp add: bit_drop_bit_eq)
  ultimately show ?case by (simp add: crc_ref_bit_def [of "drop_bit n x"])
qed

lemma xor_cancel32: "x XOR k = y XOR k \<Longrightarrow> x = y" for x y k :: "32 word"
  by (metis xor.assoc xor.right_neutral xor_self_eq)

lemma low_byte_split:
  "x = (x AND mask 8) XOR (x AND NOT (mask 8))" for x :: "32 word"
  by (rule bit_eqI) (auto simp only: bit_and_iff bit_not_iff bit_mask_iff bit_xor_iff)

lemma crc_ref_bits_high:
  "(crc_ref_bit ^^ 8) ((c XOR ucast (b :: u8)) AND NOT (mask 8)) = drop_bit 8 c"
proof -
  let ?h = "(c XOR ucast b) AND NOT (mask 8) :: 32 word"
  have low: "\<not> bit (ucast b :: 32 word) (n + 8)" for n
    by (auto simp: bit_ucast_iff dest: bit_imp_le_length)
  have "(crc_ref_bit ^^ 8) ?h = drop_bit 8 ?h"
    by (rule crc_ref_bits_shift) (simp only: bit_and_iff bit_not_iff bit_mask_iff, simp)
  also have "\<dots> = drop_bit 8 c"
  proof (rule bit_eqI)
    fix n
    assume "possible_bit TYPE(32 word) n"
    then show "bit (drop_bit 8 ?h) n \<longleftrightarrow> bit (drop_bit 8 c) n"
      using low [of n] bit_imp_le_length [of c "8 + n"]
      by (auto simp only: bit_drop_bit_eq comp_apply bit_and_iff bit_not_iff bit_mask_iff
          bit_xor_iff possible_bit_word add.commute)
  qed
  finally show ?thesis .
qed

lemma crc_byte_eq_ref: "crc_byte c b = crc_ref_byte c b"
proof -
  let ?x = "c XOR ucast b :: 32 word"
  have m: "(0xFF :: 32 word) = mask 8" by (simp add: mask_eq_exp_minus_1)
  have "?x AND 0xFF \<le> 0xFF" by (rule word_and_le1)
  then have lt: "unat (?x AND 0xFF) < 256" by (simp add: word_le_nat_alt)
  have T: "s_crc_table ! unat (?x AND 0xFF) = (crc_ref_bit ^^ 8) (?x AND 0xFF)"
    using lt by (simp add: s_crc_table_bits)
  have "crc_ref_byte c b = (crc_ref_bit ^^ 8) (?x AND mask 8) XOR (crc_ref_bit ^^ 8) (?x AND NOT (mask 8))"
    unfolding crc_ref_byte_def by (subst low_byte_split) (rule crc_ref_bits_xor)
  then show ?thesis
    unfolding crc_byte_def T unfolding m crc_ref_bits_high by (simp only: xor.commute)
qed

lemma mz_crc32_eq_ref: "mz_crc32 crc buf = crc_ref crc buf"
proof -
  have "crc_byte = crc_ref_byte" by (intro ext) (rule crc_byte_eq_ref)
  moreover have "crc XOR 0xFFFFFFFF = NOT crc"
  proof -
    have "(0xFFFFFFFF :: 32 word) = - 1" by simp
    then show ?thesis
      by (simp only: bit.xor_one_right)
  qed
  ultimately show ?thesis by (simp add: mz_crc32_def crc_ref_def)
qed

lemma crc_ref_append: "crc_ref c (xs @ ys) = crc_ref (crc_ref c xs) ys"
  by (simp add: crc_ref_def)

lemma crc_ref_bit_inj: "crc_ref_bit x = crc_ref_bit y \<Longrightarrow> x = y"
proof -
  assume eq: "crc_ref_bit x = crc_ref_bit y"
  have top: "bit (crc_ref_bit z) 31 = bit z 0" for z
    by (auto simp: crc_ref_bit_def bit_simps dest: bit_imp_le_length)
  then have b0: "bit x 0 = bit y 0" using eq by metis
  with eq have "drop_bit 1 x = drop_bit 1 y"
    unfolding crc_ref_bit_def by (metis xor_cancel32)
  then have "bit x (Suc n) = bit y (Suc n)" for n
    by (metis bit_drop_bit_eq comp_apply plus_1_eq_Suc)
  with b0 show "x = y"
    by (intro bit_eqI) (metis not0_implies_Suc)
qed

lemma crc_ref_bits_inj: "(crc_ref_bit ^^ n) x = (crc_ref_bit ^^ n) y \<Longrightarrow> x = y"
  by (induction n) (auto dest: crc_ref_bit_inj)

lemma crc_ref_fold_inj: "foldl crc_ref_byte c xs = foldl crc_ref_byte d xs \<Longrightarrow> c = d"
proof (induction xs arbitrary: c d)
  case Nil
  then show ?case by simp
next
  case (Cons x xs)
  then have "crc_ref_byte c x = crc_ref_byte d x" by simp
  then have "c XOR ucast x = d XOR ucast x"
    unfolding crc_ref_byte_def by (rule crc_ref_bits_inj)
  then show ?case by (rule xor_cancel32)
qed

section \<open>Checksums over a stream of chunks\<close>

text \<open>
  The interface the extraction loops rely on: a running checksum that can be fed a stream
  chunk by chunk. Every chunking of the same bytes gives the same value.
\<close>

locale chunked_checksum =
  fixes upd :: "'c \<Rightarrow> bytes \<Rightarrow> 'c"
  assumes upd_nil: "upd c [] = c"
    and upd_append: "upd c (xs @ ys) = upd (upd c xs) ys"
begin

lemma upd_chunks: "foldl upd c chunks = upd c (concat chunks)"
  by (induction chunks arbitrary: c) (simp_all add: upd_nil upd_append)

lemma upd_rechunk: "concat cs = concat ds \<Longrightarrow> foldl upd c cs = foldl upd c ds"
  by (simp add: upd_chunks)

end

interpretation crc: chunked_checksum mz_crc32
  by unfold_locales (simp_all add: mz_crc32_eq_ref crc_ref_append, simp add: crc_ref_def)

interpretation adler: chunked_checksum "\<lambda>a buf. mz_adler32 a (Some buf)"
  by unfold_locales (simp_all add: mz_adler32_eq_ref adler_ref_append, simp add: adler_ref_def)

section \<open>Properties\<close>

text \<open>C21. \<^verbatim>\<open>mz_adler32\<close>, with its eight-byte inner loop, its blocks of 5552 bytes and its delayed
  modulo in 32-bit arithmetic, computes the Adler-32 checksum as defined: both sums reduced
  modulo 65521 after every byte.\<close>

theorem adler32_correct: "mz_adler32 a (Some buf) = adler_ref a buf"
  by (rule mz_adler32_eq_ref)

text \<open>C18. \<^verbatim>\<open>mz_crc32\<close>, with its 256-entry table and its loop over four bytes at a time, computes
  CRC-32 as defined: the bitwise division by the reflected polynomial 0xEDB88320.\<close>

theorem crc32_correct: "mz_crc32 crc buf = crc_ref crc buf"
  by (rule mz_crc32_eq_ref)

text \<open>C19. Feeding \<^verbatim>\<open>mz_crc32\<close> a stream chunk by chunk, as the extraction loops do, gives the checksum
  of the whole stream, however it is cut.\<close>

theorem crc32_chunks: "foldl mz_crc32 c chunks = mz_crc32 c (concat chunks)"
  by (rule crc.upd_chunks)

text \<open>C20. Changing one byte of a stream always changes its CRC-32, so the extraction's comparison
  with the central directory detects every single-byte corruption.\<close>

theorem crc32_changed_byte:
  "mz_crc32 c (xs @ b # ys) = mz_crc32 c (xs @ b' # ys) \<longleftrightarrow> b = b'"
proof
  assume "mz_crc32 c (xs @ b # ys) = mz_crc32 c (xs @ b' # ys)"
  then have "foldl crc_ref_byte (foldl crc_ref_byte (NOT c) xs) (b # ys) =
      foldl crc_ref_byte (foldl crc_ref_byte (NOT c) xs) (b' # ys)"
    by (simp add: mz_crc32_eq_ref crc_ref_def)
  then have "crc_ref_byte (foldl crc_ref_byte (NOT c) xs) b = crc_ref_byte (foldl crc_ref_byte (NOT c) xs) b'"
    by (simp only: foldl_Cons) (rule crc_ref_fold_inj)
  then have "foldl crc_ref_byte (NOT c) xs XOR ucast b = foldl crc_ref_byte (NOT c) xs XOR ucast b'"
    unfolding crc_ref_byte_def by (rule crc_ref_bits_inj)
  then have "(ucast b :: 32 word) XOR foldl crc_ref_byte (NOT c) xs =
      ucast b' XOR foldl crc_ref_byte (NOT c) xs"
    by (simp only: xor.commute)
  then have "(ucast b :: 32 word) = ucast b'" by (rule xor_cancel32)
  then have "unat (ucast b :: 32 word) = unat (ucast b' :: 32 word)" by (rule arg_cong)
  then have "unat b = unat b'" by (simp only: unat_ucast_u8)
  then show "b = b'" by (simp add: word_unat_eq_iff)
next
  assume "b = b'"
  then show "mz_crc32 c (xs @ b # ys) = mz_crc32 c (xs @ b' # ys)" by (simp only:)
qed

end
