(* ===== verification/ZipTypes.thy ===== *)
theory ZipTypes
  imports Prelude
begin

unbundle bit_operations_syntax

text \<open>
  The data of the archive reader of \<^verbatim>\<open>src/miniz.h\<close> and \<^verbatim>\<open>src/miniz.c\<close>: the enumerations, the
  structures \<^verbatim>\<open>mz_zip_archive\<close>, \<^verbatim>\<open>mz_zip_internal_state\<close> and \<^verbatim>\<open>mz_zip_archive_file_stat\<close> as
  records, the read callbacks, and the error protocol.

  A C function \<^verbatim>\<open>mz_bool f(mz_zip_archive *pZip, ...)\<close> is a function from the archive to
  \<open>zret\<close>: \<^term>\<open>None\<close> when the C code has undefined behaviour (it reads outside an object),
  otherwise the archive afterwards with \<open>Inr\<close> for \<^verbatim>\<open>MZ_TRUE\<close> and \<open>Inl e\<close> for \<^verbatim>\<open>MZ_FALSE\<close>,
  \<open>e\<close> being the error code the failing call stored. The pointer \<^verbatim>\<open>pZip\<close> is never null.
\<close>

section \<open>Enumerations\<close>

datatype mz_zip_mode =
    MZ_ZIP_MODE_INVALID
  | MZ_ZIP_MODE_READING
  | MZ_ZIP_MODE_WRITING
  | MZ_ZIP_MODE_WRITING_HAS_BEEN_FINALIZED

datatype mz_zip_type =
    MZ_ZIP_TYPE_INVALID
  | MZ_ZIP_TYPE_USER
  | MZ_ZIP_TYPE_MEMORY
  | MZ_ZIP_TYPE_HEAP
  | MZ_ZIP_TYPE_FILE
  | MZ_ZIP_TYPE_CFILE

datatype mz_zip_error =
    MZ_ZIP_NO_ERROR
  | MZ_ZIP_UNDEFINED_ERROR
  | MZ_ZIP_TOO_MANY_FILES
  | MZ_ZIP_FILE_TOO_LARGE
  | MZ_ZIP_UNSUPPORTED_METHOD
  | MZ_ZIP_UNSUPPORTED_ENCRYPTION
  | MZ_ZIP_UNSUPPORTED_FEATURE
  | MZ_ZIP_FAILED_FINDING_CENTRAL_DIR
  | MZ_ZIP_NOT_AN_ARCHIVE
  | MZ_ZIP_INVALID_HEADER_OR_CORRUPTED
  | MZ_ZIP_UNSUPPORTED_MULTIDISK
  | MZ_ZIP_DECOMPRESSION_FAILED
  | MZ_ZIP_COMPRESSION_FAILED
  | MZ_ZIP_UNEXPECTED_DECOMPRESSED_SIZE
  | MZ_ZIP_CRC_CHECK_FAILED
  | MZ_ZIP_UNSUPPORTED_CDIR_SIZE
  | MZ_ZIP_ALLOC_FAILED
  | MZ_ZIP_FILE_OPEN_FAILED
  | MZ_ZIP_FILE_CREATE_FAILED
  | MZ_ZIP_FILE_WRITE_FAILED
  | MZ_ZIP_FILE_READ_FAILED
  | MZ_ZIP_FILE_CLOSE_FAILED
  | MZ_ZIP_FILE_SEEK_FAILED
  | MZ_ZIP_FILE_STAT_FAILED
  | MZ_ZIP_INVALID_PARAMETER
  | MZ_ZIP_INVALID_FILENAME
  | MZ_ZIP_BUF_TOO_SMALL
  | MZ_ZIP_INTERNAL_ERROR
  | MZ_ZIP_FILE_NOT_FOUND
  | MZ_ZIP_ARCHIVE_TOO_LARGE
  | MZ_ZIP_VALIDATION_FAILED
  | MZ_ZIP_WRITE_CALLBACK_FAILED

text \<open>\<^verbatim>\<open>mz_zip_flags\<close>.\<close>

abbreviation (input) MZ_ZIP_FLAG_CASE_SENSITIVE :: nat where "MZ_ZIP_FLAG_CASE_SENSITIVE \<equiv> 0x100"
abbreviation (input) MZ_ZIP_FLAG_IGNORE_PATH :: nat where "MZ_ZIP_FLAG_IGNORE_PATH \<equiv> 0x200"
abbreviation (input) MZ_ZIP_FLAG_COMPRESSED_DATA :: nat where "MZ_ZIP_FLAG_COMPRESSED_DATA \<equiv> 0x400"
abbreviation (input) MZ_ZIP_FLAG_DO_NOT_SORT_CENTRAL_DIRECTORY :: nat
  where "MZ_ZIP_FLAG_DO_NOT_SORT_CENTRAL_DIRECTORY \<equiv> 0x800"
abbreviation (input) MZ_ZIP_FLAG_VALIDATE_LOCATE_FILE_FLAG :: nat
  where "MZ_ZIP_FLAG_VALIDATE_LOCATE_FILE_FLAG \<equiv> 0x1000"
abbreviation (input) MZ_ZIP_FLAG_VALIDATE_HEADERS_ONLY :: nat
  where "MZ_ZIP_FLAG_VALIDATE_HEADERS_ONLY \<equiv> 0x2000"

text \<open>Record sizes and signatures of the ZIP format.\<close>

abbreviation (input) MZ_ZIP_END_OF_CENTRAL_DIR_HEADER_SIG :: nat
  where "MZ_ZIP_END_OF_CENTRAL_DIR_HEADER_SIG \<equiv> 0x06054b50"
abbreviation (input) MZ_ZIP_CENTRAL_DIR_HEADER_SIG :: nat where "MZ_ZIP_CENTRAL_DIR_HEADER_SIG \<equiv> 0x02014b50"
abbreviation (input) MZ_ZIP_LOCAL_DIR_HEADER_SIG :: nat where "MZ_ZIP_LOCAL_DIR_HEADER_SIG \<equiv> 0x04034b50"
abbreviation (input) MZ_ZIP_LOCAL_DIR_HEADER_SIZE :: nat where "MZ_ZIP_LOCAL_DIR_HEADER_SIZE \<equiv> 30"
abbreviation (input) MZ_ZIP_CENTRAL_DIR_HEADER_SIZE :: nat where "MZ_ZIP_CENTRAL_DIR_HEADER_SIZE \<equiv> 46"
abbreviation (input) MZ_ZIP_END_OF_CENTRAL_DIR_HEADER_SIZE :: nat
  where "MZ_ZIP_END_OF_CENTRAL_DIR_HEADER_SIZE \<equiv> 22"
abbreviation (input) MZ_ZIP64_END_OF_CENTRAL_DIR_HEADER_SIG :: nat
  where "MZ_ZIP64_END_OF_CENTRAL_DIR_HEADER_SIG \<equiv> 0x06064b50"
abbreviation (input) MZ_ZIP64_END_OF_CENTRAL_DIR_LOCATOR_SIG :: nat
  where "MZ_ZIP64_END_OF_CENTRAL_DIR_LOCATOR_SIG \<equiv> 0x07064b50"
abbreviation (input) MZ_ZIP64_END_OF_CENTRAL_DIR_HEADER_SIZE :: nat
  where "MZ_ZIP64_END_OF_CENTRAL_DIR_HEADER_SIZE \<equiv> 56"
abbreviation (input) MZ_ZIP64_END_OF_CENTRAL_DIR_LOCATOR_SIZE :: nat
  where "MZ_ZIP64_END_OF_CENTRAL_DIR_LOCATOR_SIZE \<equiv> 20"
abbreviation (input) MZ_ZIP64_EXTENDED_INFORMATION_FIELD_HEADER_ID :: nat
  where "MZ_ZIP64_EXTENDED_INFORMATION_FIELD_HEADER_ID \<equiv> 1"
abbreviation (input) MZ_ZIP_DATA_DESCRIPTOR_ID :: nat where "MZ_ZIP_DATA_DESCRIPTOR_ID \<equiv> 0x08074b50"

text \<open>Offsets in a central directory header and in a local directory header.\<close>

abbreviation (input) MZ_ZIP_CDH_VERSION_MADE_BY_OFS :: nat where "MZ_ZIP_CDH_VERSION_MADE_BY_OFS \<equiv> 4"
abbreviation (input) MZ_ZIP_CDH_VERSION_NEEDED_OFS :: nat where "MZ_ZIP_CDH_VERSION_NEEDED_OFS \<equiv> 6"
abbreviation (input) MZ_ZIP_CDH_BIT_FLAG_OFS :: nat where "MZ_ZIP_CDH_BIT_FLAG_OFS \<equiv> 8"
abbreviation (input) MZ_ZIP_CDH_METHOD_OFS :: nat where "MZ_ZIP_CDH_METHOD_OFS \<equiv> 10"
abbreviation (input) MZ_ZIP_CDH_FILE_TIME_OFS :: nat where "MZ_ZIP_CDH_FILE_TIME_OFS \<equiv> 12"
abbreviation (input) MZ_ZIP_CDH_FILE_DATE_OFS :: nat where "MZ_ZIP_CDH_FILE_DATE_OFS \<equiv> 14"
abbreviation (input) MZ_ZIP_CDH_CRC32_OFS :: nat where "MZ_ZIP_CDH_CRC32_OFS \<equiv> 16"
abbreviation (input) MZ_ZIP_CDH_COMPRESSED_SIZE_OFS :: nat where "MZ_ZIP_CDH_COMPRESSED_SIZE_OFS \<equiv> 20"
abbreviation (input) MZ_ZIP_CDH_DECOMPRESSED_SIZE_OFS :: nat where "MZ_ZIP_CDH_DECOMPRESSED_SIZE_OFS \<equiv> 24"
abbreviation (input) MZ_ZIP_CDH_FILENAME_LEN_OFS :: nat where "MZ_ZIP_CDH_FILENAME_LEN_OFS \<equiv> 28"
abbreviation (input) MZ_ZIP_CDH_EXTRA_LEN_OFS :: nat where "MZ_ZIP_CDH_EXTRA_LEN_OFS \<equiv> 30"
abbreviation (input) MZ_ZIP_CDH_COMMENT_LEN_OFS :: nat where "MZ_ZIP_CDH_COMMENT_LEN_OFS \<equiv> 32"
abbreviation (input) MZ_ZIP_CDH_DISK_START_OFS :: nat where "MZ_ZIP_CDH_DISK_START_OFS \<equiv> 34"
abbreviation (input) MZ_ZIP_CDH_INTERNAL_ATTR_OFS :: nat where "MZ_ZIP_CDH_INTERNAL_ATTR_OFS \<equiv> 36"
abbreviation (input) MZ_ZIP_CDH_EXTERNAL_ATTR_OFS :: nat where "MZ_ZIP_CDH_EXTERNAL_ATTR_OFS \<equiv> 38"
abbreviation (input) MZ_ZIP_CDH_LOCAL_HEADER_OFS :: nat where "MZ_ZIP_CDH_LOCAL_HEADER_OFS \<equiv> 42"

abbreviation (input) MZ_ZIP_LDH_BIT_FLAG_OFS :: nat where "MZ_ZIP_LDH_BIT_FLAG_OFS \<equiv> 6"
abbreviation (input) MZ_ZIP_LDH_CRC32_OFS :: nat where "MZ_ZIP_LDH_CRC32_OFS \<equiv> 14"
abbreviation (input) MZ_ZIP_LDH_COMPRESSED_SIZE_OFS :: nat where "MZ_ZIP_LDH_COMPRESSED_SIZE_OFS \<equiv> 18"
abbreviation (input) MZ_ZIP_LDH_DECOMPRESSED_SIZE_OFS :: nat where "MZ_ZIP_LDH_DECOMPRESSED_SIZE_OFS \<equiv> 22"
abbreviation (input) MZ_ZIP_LDH_FILENAME_LEN_OFS :: nat where "MZ_ZIP_LDH_FILENAME_LEN_OFS \<equiv> 26"
abbreviation (input) MZ_ZIP_LDH_EXTRA_LEN_OFS :: nat where "MZ_ZIP_LDH_EXTRA_LEN_OFS \<equiv> 28"

text \<open>Offsets in the end of central directory records.\<close>

abbreviation (input) MZ_ZIP_ECDH_NUM_THIS_DISK_OFS :: nat where "MZ_ZIP_ECDH_NUM_THIS_DISK_OFS \<equiv> 4"
abbreviation (input) MZ_ZIP_ECDH_NUM_DISK_CDIR_OFS :: nat where "MZ_ZIP_ECDH_NUM_DISK_CDIR_OFS \<equiv> 6"
abbreviation (input) MZ_ZIP_ECDH_CDIR_NUM_ENTRIES_ON_DISK_OFS :: nat
  where "MZ_ZIP_ECDH_CDIR_NUM_ENTRIES_ON_DISK_OFS \<equiv> 8"
abbreviation (input) MZ_ZIP_ECDH_CDIR_TOTAL_ENTRIES_OFS :: nat
  where "MZ_ZIP_ECDH_CDIR_TOTAL_ENTRIES_OFS \<equiv> 10"
abbreviation (input) MZ_ZIP_ECDH_CDIR_SIZE_OFS :: nat where "MZ_ZIP_ECDH_CDIR_SIZE_OFS \<equiv> 12"
abbreviation (input) MZ_ZIP_ECDH_CDIR_OFS_OFS :: nat where "MZ_ZIP_ECDH_CDIR_OFS_OFS \<equiv> 16"
abbreviation (input) MZ_ZIP64_ECDL_REL_OFS_TO_ZIP64_ECDR_OFS :: nat
  where "MZ_ZIP64_ECDL_REL_OFS_TO_ZIP64_ECDR_OFS \<equiv> 8"
abbreviation (input) MZ_ZIP64_ECDL_TOTAL_NUMBER_OF_DISKS_OFS :: nat
  where "MZ_ZIP64_ECDL_TOTAL_NUMBER_OF_DISKS_OFS \<equiv> 16"
abbreviation (input) MZ_ZIP64_ECDH_SIZE_OF_RECORD_OFS :: nat where "MZ_ZIP64_ECDH_SIZE_OF_RECORD_OFS \<equiv> 4"
abbreviation (input) MZ_ZIP64_ECDH_NUM_THIS_DISK_OFS :: nat where "MZ_ZIP64_ECDH_NUM_THIS_DISK_OFS \<equiv> 16"
abbreviation (input) MZ_ZIP64_ECDH_NUM_DISK_CDIR_OFS :: nat where "MZ_ZIP64_ECDH_NUM_DISK_CDIR_OFS \<equiv> 20"
abbreviation (input) MZ_ZIP64_ECDH_CDIR_NUM_ENTRIES_ON_DISK_OFS :: nat
  where "MZ_ZIP64_ECDH_CDIR_NUM_ENTRIES_ON_DISK_OFS \<equiv> 24"
abbreviation (input) MZ_ZIP64_ECDH_CDIR_TOTAL_ENTRIES_OFS :: nat
  where "MZ_ZIP64_ECDH_CDIR_TOTAL_ENTRIES_OFS \<equiv> 32"
abbreviation (input) MZ_ZIP64_ECDH_CDIR_SIZE_OFS :: nat where "MZ_ZIP64_ECDH_CDIR_SIZE_OFS \<equiv> 40"
abbreviation (input) MZ_ZIP64_ECDH_CDIR_OFS_OFS :: nat where "MZ_ZIP64_ECDH_CDIR_OFS_OFS \<equiv> 48"

section \<open>The archive\<close>

text \<open>
  The three \<^verbatim>\<open>mz_zip_array\<close> members are the lists of the elements stored so far. The open
  \<^verbatim>\<open>MZ_FILE\<close> is the contents of the file; a read error of the C library is a \<open>Client_read\<close>
  that answers short.
\<close>

record mz_zip_internal_state =
  m_central_dir :: bytes
  m_central_dir_offsets :: "nat list"
  m_sorted_central_dir_offsets :: "nat list"
  m_init_flags :: nat
  m_zip64 :: bool
  m_zip64_has_extended_info_fields :: bool
  m_pFile :: "bytes option"
  m_file_archive_start_ofs :: nat
  m_pMem :: "bytes option"
  m_mem_size :: nat

text \<open>What \<^verbatim>\<open>m_pRead\<close> points to: the two functions of \<^verbatim>\<open>miniz.c\<close> or a function of the client.\<close>

datatype mz_file_read_func =
    Mem_read
  | File_read
  | Client_read "nat \<Rightarrow> nat \<Rightarrow> bytes"

text \<open>Whether an allocation of that many items of that size succeeds.\<close>

type_synonym alloc_func = "nat \<Rightarrow> nat \<Rightarrow> bool"

text \<open>
  \<open>m_heap\<close> and \<open>m_fclose\<close> are the environment: what \<^verbatim>\<open>malloc\<close> answers behind the default
  allocator, and whether \<^verbatim>\<open>fclose\<close> succeeds. \<open>m_pFree\<close> says whether the pointer is set.
\<close>

record mz_zip_archive =
  m_archive_size :: nat
  m_central_directory_file_ofs :: nat
  m_total_files :: nat
  m_zip_mode :: mz_zip_mode
  m_zip_type :: mz_zip_type
  m_last_error :: mz_zip_error
  m_pAlloc :: "alloc_func option"
  m_pFree :: bool
  m_pRealloc :: "alloc_func option"
  m_pRead :: "mz_file_read_func option"
  m_pState :: "mz_zip_internal_state option"
  m_heap :: alloc_func
  m_fclose :: bool

text \<open>The broken-down time handed to \<^verbatim>\<open>mktime\<close>, which the C library turns into a \<^verbatim>\<open>time_t\<close>.\<close>

record tm =
  tm_year :: int
  tm_mon :: int
  tm_mday :: int
  tm_hour :: int
  tm_min :: int
  tm_sec :: int
  tm_isdst :: int

text \<open>
  \<^verbatim>\<open>m_filename\<close> and \<^verbatim>\<open>m_comment\<close> are the bytes before the terminating zero that the code writes,
  at most 511; a C string function sees them up to the first zero byte (\<open>c_str\<close>).
\<close>

record mz_zip_archive_file_stat =
  m_file_index :: nat
  m_central_dir_ofs :: nat
  m_version_made_by :: nat
  m_version_needed :: nat
  m_bit_flag :: nat
  m_method :: nat
  m_crc32 :: nat
  m_comp_size :: nat
  m_uncomp_size :: nat
  m_internal_attr :: nat
  m_external_attr :: nat
  m_local_header_ofs :: nat
  m_comment_size :: nat
  m_is_directory :: bool
  m_is_encrypted :: bool
  m_is_supported :: bool
  m_filename :: bytes
  m_comment :: bytes
  m_time :: tm

definition c_str :: "bytes \<Rightarrow> bytes" where
  "c_str bs = takeWhile (\<lambda>b. b \<noteq> 0) bs"

section \<open>The error protocol\<close>

type_synonym 'a zret = "(mz_zip_archive \<times> (mz_zip_error + 'a)) option"

text \<open>\<^verbatim>\<open>return mz_zip_set_error(pZip, err_num)\<close>.\<close>

definition mz_zip_set_error :: "mz_zip_archive \<Rightarrow> mz_zip_error \<Rightarrow> 'a zret" where
  "mz_zip_set_error pZip err_num = Some (pZip\<lparr>m_last_error := err_num\<rparr>, Inl err_num)"

text \<open>Success with a value, and a call whose failure is returned at once.\<close>

definition zok :: "mz_zip_archive \<Rightarrow> 'a \<Rightarrow> 'a zret" where
  "zok pZip a = Some (pZip, Inr a)"

definition zbind :: "'a zret \<Rightarrow> (mz_zip_archive \<Rightarrow> 'a \<Rightarrow> 'b zret) \<Rightarrow> 'b zret" where
  "zbind m f = (case m of None \<Rightarrow> None
     | Some (z, Inl e) \<Rightarrow> Some (z, Inl e)
     | Some (z, Inr a) \<Rightarrow> f z a)"

text \<open>A property of every value a call can return, given that it has defined behaviour.\<close>

definition zpost :: "'a zret \<Rightarrow> (mz_zip_archive \<Rightarrow> (mz_zip_error + 'a) \<Rightarrow> bool) \<Rightarrow> bool" where
  "zpost m P = (case m of None \<Rightarrow> False | Some (z, r) \<Rightarrow> P z r)"

lemma zpost_zok [simp]: "zpost (zok z a) P \<longleftrightarrow> P z (Inr a)"
  by (simp add: zpost_def zok_def)

lemma zpost_set_error [simp]:
  "zpost (mz_zip_set_error z e) P \<longleftrightarrow> P (z\<lparr>m_last_error := e\<rparr>) (Inl e)"
  by (simp add: zpost_def mz_zip_set_error_def)

lemma zpost_zbind:
  assumes "zpost m Q"
    and "\<And>z e. Q z (Inl e) \<Longrightarrow> P z (Inl e)"
    and "\<And>z a. Q z (Inr a) \<Longrightarrow> zpost (f z a) P"
  shows "zpost (zbind m f) P"
proof (cases m)
  case None
  then show ?thesis using assms(1) by (simp add: zpost_def)
next
  case (Some zr)
  show ?thesis
  proof (cases "snd zr")
    case (Inl e)
    then show ?thesis using Some assms(1,2) by (cases zr) (simp add: zpost_def zbind_def)
  next
    case (Inr a)
    then have "Q (fst zr) (Inr a)" using Some assms(1) by (cases zr) (simp add: zpost_def)
    then have "zpost (f (fst zr) a) P" by (rule assms(3))
    then show ?thesis using Some Inr by (cases zr) (simp add: zbind_def)
  qed
qed

lemma zpost_mono: "zpost m Q \<Longrightarrow> (\<And>z r. Q z r \<Longrightarrow> P z r) \<Longrightarrow> zpost m P"
  by (auto simp: zpost_def split: option.splits)

lemma zpost_Some [simp]: "zpost (Some (z, r)) P \<longleftrightarrow> P z r"
  by (simp add: zpost_def)

lemma zpost_None [simp]: "\<not> zpost None P"
  by (simp add: zpost_def)

lemma zpost_bind: "x = Some v \<Longrightarrow> zpost (f v) P \<Longrightarrow> zpost (Option.bind x f) P"
  by simp

lemma zpost_if: "(c \<Longrightarrow> zpost a P) \<Longrightarrow> (\<not> c \<Longrightarrow> zpost b P) \<Longrightarrow> zpost (if c then a else b) P"
  by simp

lemma zbind_zok [simp]: "zbind (zok z a) f = f z a"
  by (simp add: zbind_def zok_def)

lemma zbind_set_error [simp]: "zbind (mz_zip_set_error z e) f = mz_zip_set_error z e"
  by (simp add: zbind_def mz_zip_set_error_def)

section \<open>Setting up and tearing down\<close>

text \<open>A freshly zeroed \<^verbatim>\<open>mz_zip_archive\<close>, and a zeroed internal state with the flags stored.\<close>

definition mz_zip_zero_struct :: "mz_zip_archive \<Rightarrow> mz_zip_archive" where
  "mz_zip_zero_struct pZip = pZip\<lparr>m_archive_size := 0, m_central_directory_file_ofs := 0,
     m_total_files := 0, m_zip_mode := MZ_ZIP_MODE_INVALID, m_zip_type := MZ_ZIP_TYPE_INVALID,
     m_last_error := MZ_ZIP_NO_ERROR, m_pAlloc := None, m_pFree := False, m_pRealloc := None,
     m_pRead := None, m_pState := None\<rparr>"

definition zero_state :: "nat \<Rightarrow> mz_zip_internal_state" where
  "zero_state flags = \<lparr>m_central_dir = [], m_central_dir_offsets = [],
     m_sorted_central_dir_offsets = [], m_init_flags = flags, m_zip64 = False,
     m_zip64_has_extended_info_fields = False, m_pFile = None, m_file_archive_start_ofs = 0,
     m_pMem = None, m_mem_size = 0\<rparr>"

text \<open>\<^verbatim>\<open>sizeof(mz_zip_internal_state)\<close> on a 64-bit target.\<close>

definition sizeof_internal_state :: nat where "sizeof_internal_state = 152"

definition mz_zip_reader_init_internal :: "mz_zip_archive \<Rightarrow> nat \<Rightarrow> unit zret" where
  "mz_zip_reader_init_internal pZip flags =
     (if m_pState pZip \<noteq> None \<or> m_zip_mode pZip \<noteq> MZ_ZIP_MODE_INVALID
      then mz_zip_set_error pZip MZ_ZIP_INVALID_PARAMETER
      else let
        alloc = (case m_pAlloc pZip of Some f \<Rightarrow> f | None \<Rightarrow> m_heap pZip);
        realloc = (case m_pRealloc pZip of Some f \<Rightarrow> f | None \<Rightarrow> m_heap pZip);
        pZip = pZip\<lparr>m_pAlloc := Some alloc, m_pFree := True, m_pRealloc := Some realloc,
          m_archive_size := 0, m_central_directory_file_ofs := 0, m_total_files := 0,
          m_last_error := MZ_ZIP_NO_ERROR\<rparr>
      in if \<not> alloc 1 sizeof_internal_state then mz_zip_set_error pZip MZ_ZIP_ALLOC_FAILED
         else zok (pZip\<lparr>m_pState := Some (zero_state flags), m_zip_mode := MZ_ZIP_MODE_READING\<rparr>) ())"

definition mz_zip_reader_end_internal :: "mz_zip_archive \<Rightarrow> bool \<Rightarrow> unit zret" where
  "mz_zip_reader_end_internal pZip set_last_error =
     (case m_pState pZip of
        None \<Rightarrow> Some (if set_last_error then pZip\<lparr>m_last_error := MZ_ZIP_INVALID_PARAMETER\<rparr> else pZip,
                  Inl MZ_ZIP_INVALID_PARAMETER)
      | Some pState \<Rightarrow>
          if m_pAlloc pZip = None \<or> \<not> m_pFree pZip \<or> m_zip_mode pZip \<noteq> MZ_ZIP_MODE_READING
          then Some (if set_last_error then pZip\<lparr>m_last_error := MZ_ZIP_INVALID_PARAMETER\<rparr> else pZip,
                  Inl MZ_ZIP_INVALID_PARAMETER)
          else let
            close_failed = (m_pFile pState \<noteq> None \<and> m_zip_type pZip = MZ_ZIP_TYPE_FILE \<and> \<not> m_fclose pZip);
            pZip = pZip\<lparr>m_pState := None\<rparr>;
            pZip = (if close_failed \<and> set_last_error
              then pZip\<lparr>m_last_error := MZ_ZIP_FILE_CLOSE_FAILED\<rparr> else pZip);
            pZip = pZip\<lparr>m_zip_mode := MZ_ZIP_MODE_INVALID\<rparr>
          in Some (pZip, if close_failed then Inl MZ_ZIP_FILE_CLOSE_FAILED else Inr ()))"

definition mz_zip_reader_end :: "mz_zip_archive \<Rightarrow> unit zret" where
  "mz_zip_reader_end pZip = mz_zip_reader_end_internal pZip True"

text \<open>\<^verbatim>\<open>mz_zip_array_resize\<close> of an array that holds nothing yet (its capacity is 0).\<close>

definition mz_zip_array_resize :: "mz_zip_archive \<Rightarrow> nat \<Rightarrow> nat \<Rightarrow> bool option" where
  "mz_zip_array_resize pZip element_size new_size =
     (if new_size = 0 then Some True
      else case m_pRealloc pZip of None \<Rightarrow> None | Some realloc \<Rightarrow> Some (realloc element_size new_size))"

section \<open>The read callbacks\<close>

text \<open>
  The bytes a read of \<open>n\<close> bytes at \<open>file_ofs\<close> puts into the caller's buffer; their number is the
  callback's return value.
\<close>

definition mz_zip_mem_read_func :: "mz_zip_archive \<Rightarrow> nat \<Rightarrow> nat \<Rightarrow> bytes option" where
  "mz_zip_mem_read_func pZip file_ofs n =
     (let s = (if m_archive_size pZip \<le> file_ofs then 0
               else min (m_archive_size pZip - file_ofs) n)
      in if s = 0 then Some []
         else do {
           st \<leftarrow> m_pState pZip;
           mem \<leftarrow> m_pMem st;
           rdn mem file_ofs s
         })"

definition mz_zip_file_read_func :: "mz_zip_archive \<Rightarrow> nat \<Rightarrow> nat \<Rightarrow> bytes option" where
  "mz_zip_file_read_func pZip file_ofs n = do {
     st \<leftarrow> m_pState pZip;
     f \<leftarrow> m_pFile st;
     (let ofs = u64 (file_ofs + m_file_archive_start_ofs st)
      in Some (if 2 ^ 63 \<le> ofs then [] else take n (drop ofs f)))
   }"

text \<open>\<^verbatim>\<open>pZip->m_pRead(pZip->m_pIO_opaque, file_ofs, pBuf, n)\<close>.\<close>

definition call_read :: "mz_zip_archive \<Rightarrow> nat \<Rightarrow> nat \<Rightarrow> bytes option" where
  "call_read pZip file_ofs n =
     (case m_pRead pZip of
        None \<Rightarrow> None
      | Some Mem_read \<Rightarrow> mz_zip_mem_read_func pZip file_ofs n
      | Some File_read \<Rightarrow> mz_zip_file_read_func pZip file_ofs n
      | Some (Client_read f) \<Rightarrow> Some (f file_ofs n))"

text \<open>
  The contract of a reader, on which every user of the archive relies: it never reads out of
  bounds and never delivers more than it is asked for.
\<close>

definition reader_ok :: "mz_zip_archive \<Rightarrow> bool" where
  "reader_ok z = (case m_pRead z of
      None \<Rightarrow> False
    | Some Mem_read \<Rightarrow> (case m_pState z of None \<Rightarrow> False
        | Some st \<Rightarrow> (case m_pMem st of None \<Rightarrow> False | Some mem \<Rightarrow> m_archive_size z \<le> length mem))
    | Some File_read \<Rightarrow> (case m_pState z of None \<Rightarrow> False | Some st \<Rightarrow> m_pFile st \<noteq> None)
    | Some (Client_read f) \<Rightarrow> (\<forall>ofs n. length (f ofs n) \<le> n))"

locale reader =
  fixes read :: "mz_zip_archive \<Rightarrow> nat \<Rightarrow> nat \<Rightarrow> bytes option" and ok :: "mz_zip_archive \<Rightarrow> bool"
  assumes read_bounded: "ok z \<Longrightarrow> \<exists>bs. read z ofs n = Some bs \<and> length bs \<le> n"
begin

text \<open>A caller that compares the count with the size it asked for has a full buffer or an error.\<close>

lemma read_cases:
  assumes "ok z"
  obtains (short) bs where "read z ofs n = Some bs" "length bs < n"
  | (full) bs where "read z ofs n = Some bs" "length bs = n"
  using read_bounded [OF assms, of ofs n] by fastforce

lemma read_defined: "ok z \<Longrightarrow> read z ofs n \<noteq> None"
  by (drule read_bounded [of z ofs n]) auto

end

lemma mem_read_bounded:
  assumes "m_pState z = Some st" "m_pMem st = Some mem" "m_archive_size z \<le> length mem"
  shows "\<exists>bs. mz_zip_mem_read_func z ofs n = Some bs \<and> length bs \<le> n"
  using assms by (auto simp: mz_zip_mem_read_func_def Let_def rdn_def)

lemma file_read_bounded:
  assumes "m_pState z = Some st" "m_pFile st \<noteq> None"
  shows "\<exists>bs. mz_zip_file_read_func z ofs n = Some bs \<and> length bs \<le> n"
  using assms by (auto simp: mz_zip_file_read_func_def Let_def)

interpretation rd: reader call_read reader_ok
  by unfold_locales
    (auto simp: reader_ok_def call_read_def mem_read_bounded file_read_bounded
      split: option.splits mz_file_read_func.splits)

interpretation mem_rd: reader mz_zip_mem_read_func
  "\<lambda>z. case m_pState z of None \<Rightarrow> False
      | Some st \<Rightarrow> (case m_pMem st of None \<Rightarrow> False | Some mem \<Rightarrow> m_archive_size z \<le> length mem)"
  by unfold_locales (auto simp: mem_read_bounded split: option.splits)

interpretation file_rd: reader mz_zip_file_read_func
  "\<lambda>z. case m_pState z of None \<Rightarrow> False | Some st \<Rightarrow> m_pFile st \<noteq> None"
  by unfold_locales (auto simp: file_read_bounded split: option.splits)

text \<open>What a read from memory delivers.\<close>

lemma mem_read_full:
  assumes "m_pState z = Some st" "m_pMem st = Some mem" "m_archive_size z \<le> length mem"
    and "ofs + n \<le> m_archive_size z"
  shows "mz_zip_mem_read_func z ofs n = Some (take n (drop ofs mem))"
  using assms by (auto simp: mz_zip_mem_read_func_def Let_def rdn_def)

end
