(* ===== verification/ZipSort.thy ===== *)
theory ZipSort
  imports ZipTypes "HOL-Library.Multiset" "HOL-Library.List_Lexorder"
begin

unbundle bit_operations_syntax

text \<open>
  The order of the central directory: \<^verbatim>\<open>mz_zip_reader_filename_less\<close> (names compared
  byte by byte in lower case, a proper prefix first) and the in-place heap sort of
  \<^verbatim>\<open>mz_zip_reader_sort_central_dir_offsets_by_filename\<close> over the entry indices. The sort is
  written over an arbitrary comparator, whose contract is the locale \<open>comparator\<close> below; it is
  shown to return a sorted permutation for every comparator meeting it.
\<close>

section \<open>The comparator\<close>

text \<open>\<^verbatim>\<open>MZ_TOLOWER\<close>, on the byte it is applied to.\<close>

definition MZ_TOLOWER :: "nat \<Rightarrow> nat" where
  "MZ_TOLOWER c = (if 65 \<le> c \<and> c \<le> 90 then c - 65 + 97 else c)"

definition nth_o :: "'a list \<Rightarrow> nat \<Rightarrow> 'a option" where
  "nth_o xs i = (if i < length xs then Some (xs ! i) else None)"

text \<open>
  The loop \<^verbatim>\<open>while (pL < pE)\<close> over the \<open>n\<close> bytes left: the pair of lower-case bytes that differ, or
  \<open>None\<close> inside when \<^verbatim>\<open>pE\<close> is reached.
\<close>

fun name_diff :: "bytes \<Rightarrow> nat \<Rightarrow> bytes \<Rightarrow> nat \<Rightarrow> nat \<Rightarrow> (nat \<times> nat) option option" where
  "name_diff L pL R pR 0 = Some None"
| "name_diff L pL R pR (Suc n) = do {
     a \<leftarrow> rd8 L pL;
     b \<leftarrow> rd8 R pR;
     (let l = MZ_TOLOWER a; r = MZ_TOLOWER b
      in if l \<noteq> r then Some (Some (l, r)) else name_diff L (pL + 1) R (pR + 1) n)
   }"

definition mz_zip_reader_filename_less :: "bytes \<Rightarrow> nat list \<Rightarrow> nat \<Rightarrow> nat \<Rightarrow> bool option" where
  "mz_zip_reader_filename_less central_dir central_dir_offsets l_index r_index = do {
     pL \<leftarrow> nth_o central_dir_offsets l_index;
     pR \<leftarrow> nth_o central_dir_offsets r_index;
     l_len \<leftarrow> rd16 central_dir (pL + MZ_ZIP_CDH_FILENAME_LEN_OFS);
     r_len \<leftarrow> rd16 central_dir (pR + MZ_ZIP_CDH_FILENAME_LEN_OFS);
     d \<leftarrow> name_diff central_dir (pL + MZ_ZIP_CENTRAL_DIR_HEADER_SIZE)
            central_dir (pR + MZ_ZIP_CENTRAL_DIR_HEADER_SIZE) (min l_len r_len);
     Some (case d of None \<Rightarrow> l_len < r_len | Some (l, r) \<Rightarrow> l < r)
   }"

section \<open>The heap sort\<close>

text \<open>The inner loop of both phases: sink \<open>root\<close> in the heap of the first \<open>sz\<close> indices.\<close>

function sift_down :: "(nat \<Rightarrow> nat \<Rightarrow> bool option) \<Rightarrow> nat \<Rightarrow> nat \<Rightarrow> nat list \<Rightarrow> nat list option" where
  "sift_down cmp sz root idx =
     (let child = root * 2 + 1
      in if sz \<le> child then Some idx
         else do {
           v \<leftarrow> nth_o idx child;
           bump \<leftarrow> (if child + 1 < sz then do { w \<leftarrow> nth_o idx (child + 1); cmp v w } else Some False);
           (let child = (if bump then child + 1 else child)
            in do {
              r \<leftarrow> nth_o idx root;
              c \<leftarrow> nth_o idx child;
              b \<leftarrow> cmp r c;
              (if \<not> b then Some idx
               else sift_down cmp sz child (idx[root := c, child := r]))
            })
         })"
  by pat_completeness auto
termination
  by (relation "measure (\<lambda>(cmp, sz, root, idx). sz - root)") (auto split: if_splits)

declare sift_down.simps [simp del]

text \<open>The first phase: \<^verbatim>\<open>start\<close> runs from \<^verbatim>\<open>(sz - 2) >> 1\<close> down to 0.\<close>

fun build_heap :: "(nat \<Rightarrow> nat \<Rightarrow> bool option) \<Rightarrow> nat \<Rightarrow> nat \<Rightarrow> nat list \<Rightarrow> nat list option" where
  "build_heap cmp sz 0 idx = sift_down cmp sz 0 idx"
| "build_heap cmp sz (Suc start) idx =
     do { idx \<leftarrow> sift_down cmp sz (Suc start) idx; build_heap cmp sz start idx }"

text \<open>The second phase: while \<^verbatim>\<open>end > 0\<close>, swap the maximum to \<^verbatim>\<open>end\<close> and sink the new root.\<close>

fun drain_heap :: "(nat \<Rightarrow> nat \<Rightarrow> bool option) \<Rightarrow> nat \<Rightarrow> nat list \<Rightarrow> nat list option" where
  "drain_heap cmp 0 idx = Some idx"
| "drain_heap cmp (Suc e) idx = do {
     t \<leftarrow> nth_o idx (Suc e);
     r \<leftarrow> nth_o idx 0;
     idx \<leftarrow> sift_down cmp (Suc e) 0 (idx[Suc e := r, 0 := t]);
     drain_heap cmp e idx
   }"

definition heap_sort :: "(nat \<Rightarrow> nat \<Rightarrow> bool option) \<Rightarrow> nat \<Rightarrow> nat list \<Rightarrow> nat list option" where
  "heap_sort cmp sz idx =
     (if sz \<le> 1 then Some idx
      else do { idx \<leftarrow> build_heap cmp sz ((sz - 2) div 2) idx; drain_heap cmp (sz - 1) idx })"

definition mz_zip_reader_sort_central_dir_offsets_by_filename ::
    "mz_zip_archive \<Rightarrow> mz_zip_archive option" where
  "mz_zip_reader_sort_central_dir_offsets_by_filename pZip = do {
     pState \<leftarrow> m_pState pZip;
     idx \<leftarrow> heap_sort
       (mz_zip_reader_filename_less (m_central_dir pState) (m_central_dir_offsets pState))
       (m_total_files pZip) (m_sorted_central_dir_offsets pState);
     Some (pZip\<lparr>m_pState := Some (pState\<lparr>m_sorted_central_dir_offsets := idx\<rparr>)\<rparr>)
   }"

lemma nth_o_Some [rd_simps]: "i < length xs \<Longrightarrow> nth_o xs i = Some (xs ! i)"
  by (simp add: nth_o_def)

lemma mset_swap2:
  assumes "i < length xs" "j < length xs"
  shows "mset (xs[i := xs ! j, j := xs ! i]) = mset xs"
  using mset_swap [OF assms] by (cases "i = j") (simp_all add: list_update_swap)

section \<open>The sort of a comparator is a sorted permutation\<close>

text \<open>
  The contract: on the indices in \<open>D\<close> the comparison is defined and is a strict weak order.
\<close>

locale comparator =
  fixes cmp :: "nat \<Rightarrow> nat \<Rightarrow> bool option" and lt :: "nat \<Rightarrow> nat \<Rightarrow> bool" and D :: "nat set"
  assumes cmp_lt: "i \<in> D \<Longrightarrow> j \<in> D \<Longrightarrow> cmp i j = Some (lt i j)"
    and lt_irrefl: "i \<in> D \<Longrightarrow> \<not> lt i i"
    and lt_ntrans: "i \<in> D \<Longrightarrow> j \<in> D \<Longrightarrow> k \<in> D \<Longrightarrow> \<not> lt i j \<Longrightarrow> \<not> lt j k \<Longrightarrow> \<not> lt i k"
    and lt_trans: "i \<in> D \<Longrightarrow> j \<in> D \<Longrightarrow> k \<in> D \<Longrightarrow> lt i j \<Longrightarrow> lt j k \<Longrightarrow> lt i k"
begin

lemma lt_asym: "i \<in> D \<Longrightarrow> j \<in> D \<Longrightarrow> lt i j \<Longrightarrow> \<not> lt j i"
  using lt_trans lt_irrefl by blast

text \<open>The parent dominates the child, for the parents from \<open>a\<close> on, inside the first \<open>n\<close> positions.\<close>

definition heap_from :: "nat \<Rightarrow> nat \<Rightarrow> nat list \<Rightarrow> bool" where
  "heap_from a n xs \<longleftrightarrow> (\<forall>c. 0 < c \<longrightarrow> c < n \<longrightarrow> a \<le> (c - 1) div 2 \<longrightarrow> \<not> lt (xs ! ((c - 1) div 2)) (xs ! c))"

text \<open>The same with the exception of the one parent \<open>r\<close> that is being sunk.\<close>

definition heap_but :: "nat \<Rightarrow> nat \<Rightarrow> nat \<Rightarrow> nat list \<Rightarrow> bool" where
  "heap_but r a n xs \<longleftrightarrow>
     (\<forall>c. 0 < c \<longrightarrow> c < n \<longrightarrow> a \<le> (c - 1) div 2 \<longrightarrow> (c - 1) div 2 \<noteq> r \<longrightarrow>
        \<not> lt (xs ! ((c - 1) div 2)) (xs ! c)) \<and>
     (0 < r \<longrightarrow> a \<le> (r - 1) div 2 \<longrightarrow>
        (\<forall>c. 0 < c \<longrightarrow> c < n \<longrightarrow> (c - 1) div 2 = r \<longrightarrow> \<not> lt (xs ! ((r - 1) div 2)) (xs ! c)))"

lemma parent_cases: "0 < c \<Longrightarrow> (c - 1) div 2 = r \<longleftrightarrow> c = 2 * r + 1 \<or> c = 2 * r + 2" for c r :: nat
  by arith

lemma sift_down_correct:
  assumes "set xs \<subseteq> D" "n \<le> length xs" "r < n" "a \<le> r" "heap_but r a n xs"
  shows "\<exists>ys. sift_down cmp n r xs = Some ys \<and> mset ys = mset xs \<and> drop n ys = drop n xs \<and>
    heap_from a n ys"
  using assms
proof (induction "n - r" arbitrary: r xs rule: less_induct)
  case less
  have inD: "xs ! i \<in> D" if "i < n" for i
    using less.prems(1,2) that by (meson less_le_trans nth_mem subsetD)
  have cmp: "cmp (xs ! i) (xs ! j) = Some (lt (xs ! i) (xs ! j))" if "i < n" "j < n" for i j
    using cmp_lt inD that by simp
  have nth: "nth_o xs i = Some (xs ! i)" if "i < n" for i
    using that less.prems(2) by (simp add: nth_o_def)
  note hb = less.prems(5)[unfolded heap_but_def]
  show ?case
  proof (cases "2 * r + 1 < n")
    case False
    then have "sift_down cmp n r xs = Some xs" by (subst sift_down.simps) (simp add: mult.commute)
    moreover have "heap_from a n xs"
      using hb False parent_cases unfolding heap_from_def by fastforce
    ultimately show ?thesis by simp
  next
    case True
    define c where "c = (if 2 * r + 2 < n \<and> lt (xs ! (2 * r + 1)) (xs ! (2 * r + 2)) then 2 * r + 2 else 2 * r + 1)"
    have c: "c < n" "r < c" "(c - 1) div 2 = r" "0 < c" "c = 2 * r + 1 \<or> c = 2 * r + 2"
      using True by (auto simp: c_def)
    have best: "\<not> lt (xs ! c) (xs ! k)" if "0 < k" "k < n" "(k - 1) div 2 = r" for k
    proof (cases "k = c")
      case True
      then show ?thesis using lt_irrefl [OF inD [OF that(2)]] by simp
    next
      case False
      have two: "k = 2 * r + 1 \<or> k = 2 * r + 2" using parent_cases [OF that(1)] that(3) by blast
      show ?thesis
      proof (cases "c = 2 * r + 2")
        case True
        then have k: "k = 2 * r + 1" using two False by simp
        have "lt (xs ! k) (xs ! c)" using True k by (simp add: c_def split: if_splits)
        then show ?thesis using lt_asym inD that(2) c(1) by blast
      next
        case False
        then have "k = 2 * r + 2" "c = 2 * r + 1" using two \<open>k \<noteq> c\<close> c(5) by simp_all
        then show ?thesis using that(2) by (simp add: c_def split: if_splits)
      qed
    qed
    have step: "sift_down cmp n r xs =
        (if lt (xs ! r) (xs ! c) then sift_down cmp n c (xs[r := xs ! c, c := xs ! r]) else Some xs)"
    proof -
      have two: "r * 2 + 1 = 2 * r + 1" "2 * r + 1 + 1 = 2 * r + 2" by simp_all
      have bump: "(if 2 * r + 2 < n then do { w \<leftarrow> nth_o xs (2 * r + 2); cmp (xs ! (2 * r + 1)) w }
          else Some False) = Some (2 * r + 2 < n \<and> lt (xs ! (2 * r + 1)) (xs ! (2 * r + 2)))"
        using True by (simp add: nth cmp)
      have c': "(if 2 * r + 2 < n \<and> lt (xs ! (2 * r + 1)) (xs ! (2 * r + 2)) then 2 * r + 2 else 2 * r + 1) = c"
        by (simp only: c_def)
      show ?thesis
        unfolding sift_down.simps [of cmp n r xs] two Let_def nth [OF True] bind.bind_lunit bump c'
          nth [OF c(1)] nth [OF less.prems(3)] cmp [OF less.prems(3) c(1)]
        using True by simp
    qed
    show ?thesis
    proof (cases "lt (xs ! r) (xs ! c)")
      case False
      have "heap_from a n xs"
        unfolding heap_from_def
      proof (intro allI impI)
        fix k assume k: "0 < k" "k < n" "a \<le> (k - 1) div 2"
        show "\<not> lt (xs ! ((k - 1) div 2)) (xs ! k)"
        proof (cases "(k - 1) div 2 = r")
          case True
          then show ?thesis
            using lt_ntrans [OF inD inD inD False best] k c(1) less.prems(3) by simp
        next
          case False
          then show ?thesis using hb k by blast
        qed
      qed
      then show ?thesis using step False by simp
    next
      case True
      define ys where "ys = xs[r := xs ! c, c := xs ! r]"
      have rl: "r < length xs" "c < length xs" using less.prems(2,3) c(1) by simp_all
      have ys: "mset ys = mset xs" "length ys = length xs" "drop n ys = drop n xs"
        using mset_swap2 [OF rl] c less.prems(3) by (simp_all add: ys_def)
      have at: "ys ! k = (if k = r then xs ! c else if k = c then xs ! r else xs ! k)" for k
        using rl c by (auto simp: ys_def nth_list_update)
      have "heap_but c a n ys"
        unfolding heap_but_def
      proof (intro conjI allI impI)
        fix k assume k: "0 < k" "k < n" "a \<le> (k - 1) div 2" "(k - 1) div 2 \<noteq> c"
        consider "(k - 1) div 2 = r" | "k = r" | "(k - 1) div 2 \<noteq> r" "k \<noteq> r" by blast
        then show "\<not> lt (ys ! ((k - 1) div 2)) (ys ! k)"
        proof cases
          case 1
          then have "k \<noteq> r" using k(1) by presburger
          then show ?thesis using 1 k best lt_asym [OF inD inD True] less.prems(3) c(1) by (simp add: at)
        next
          case 2
          then have "(r - 1) div 2 < r" using k by simp
          then show ?thesis using 2 k hb c by (auto simp: at)
        next
          case 3
          then have "k \<noteq> c" using c(3) by blast
          then show ?thesis using 3 k hb by (simp add: at)
        qed
      next
        fix k assume k: "0 < k" "k < n" "(k - 1) div 2 = c"
        then have "c < k" by simp
        then show "\<not> lt (ys ! ((c - 1) div 2)) (ys ! k)"
          using k hb c less.prems(4) by (auto simp: at)
      qed
      moreover have "set ys \<subseteq> D" using less.prems(1) ys(1) by (metis set_mset_mset)
      moreover have "n - c < n - r" using c by simp
      ultimately obtain zs where "sift_down cmp n c ys = Some zs" "mset zs = mset ys"
        "drop n zs = drop n ys" "heap_from a n zs"
        using less.hyps [of c ys] ys(2) less.prems(2,4) c by fastforce
      then show ?thesis using step True ys by (auto simp: ys_def)
    qed
  qed
qed

lemma build_heap_correct:
  assumes "set xs \<subseteq> D" "n \<le> length xs" "s < n" "heap_from (Suc s) n xs"
  shows "\<exists>ys. build_heap cmp n s xs = Some ys \<and> mset ys = mset xs \<and> heap_from 0 n ys"
  using assms
proof (induction s arbitrary: xs)
  case 0
  then have "heap_but 0 0 n xs" by (auto simp: heap_but_def heap_from_def)
  then show ?case using sift_down_correct [of xs n 0 0] 0 by auto
next
  case (Suc s)
  then have "heap_but (Suc s) (Suc s) n xs" by (auto simp: heap_but_def heap_from_def)
  then obtain ys where ys: "sift_down cmp n (Suc s) xs = Some ys" "mset ys = mset xs"
      "heap_from (Suc s) n ys"
    using sift_down_correct [of xs n "Suc s" "Suc s"] Suc.prems by auto
  have "set ys \<subseteq> D" "n \<le> length ys"
    using Suc.prems(1,2) mset_eq_setD [OF ys(2)] mset_eq_length [OF ys(2)] by simp_all
  with Suc.IH [of ys] Suc.prems(3) ys show ?case by simp
qed

lemma heap_root:
  assumes "set xs \<subseteq> D" "n \<le> length xs" "heap_from 0 n xs" "k < n"
  shows "\<not> lt (xs ! 0) (xs ! k)"
  using assms(4)
proof (induction k rule: less_induct)
  case (less k)
  have inD: "xs ! i \<in> D" if "i < n" for i
    using assms(1,2) that by (meson less_le_trans nth_mem subsetD)
  show ?case
  proof (cases "k = 0")
    case True
    then show ?thesis using lt_irrefl inD less.prems by simp
  next
    case False
    then have p: "(k - 1) div 2 < k" by simp
    then have "\<not> lt (xs ! 0) (xs ! ((k - 1) div 2))" using less by simp
    moreover have "\<not> lt (xs ! ((k - 1) div 2)) (xs ! k)"
      using assms(3) less.prems False by (simp add: heap_from_def)
    ultimately show ?thesis using lt_ntrans inD p less.prems by (meson False less_trans not_gr_zero)
  qed
qed

text \<open>\<open>e\<close> and what follows is sorted, and nothing before \<open>e\<close> is above it.\<close>

definition drained :: "nat \<Rightarrow> nat list \<Rightarrow> bool" where
  "drained e xs \<longleftrightarrow> (\<forall>i j. i < j \<longrightarrow> e \<le> j \<longrightarrow> j < length xs \<longrightarrow> \<not> lt (xs ! j) (xs ! i))"

lemma drained_sift:
  assumes "drained n ys" "mset zs = mset ys" "drop n zs = drop n ys"
  shows "drained n zs"
  unfolding drained_def
proof (intro allI impI)
  fix i j assume ij: "i < j" "n \<le> j" "j < length zs"
  have len: "length zs = length ys" using assms(2) by (rule mset_eq_length)
  have same: "zs ! k = ys ! k" if "n \<le> k" "k < length zs" for k
  proof -
    have "zs ! k = drop n zs ! (k - n)" "ys ! k = drop n ys ! (k - n)" using that len by simp_all
    then show ?thesis using assms(3) by simp
  qed
  have "mset (take n zs) + mset (drop n zs) = mset (take n ys) + mset (drop n ys)"
    using assms(2) by (simp flip: mset_append)
  then have st: "set (take n zs) = set (take n ys)"
    using assms(3) by (metis add_right_cancel set_mset_mset)
  obtain i' where i': "i' < j" "zs ! i = ys ! i'"
  proof (cases "i < n")
    case True
    then have "zs ! i \<in> set (take n zs)" using ij by (auto simp: in_set_conv_nth intro: exI [of _ i])
    then have "zs ! i \<in> set (take n ys)" using st by simp
    then obtain k where "k < n" "zs ! i = ys ! k" by (auto simp: in_set_conv_nth)
    then show ?thesis using that [of k] ij by simp
  next
    case False
    then show ?thesis using that [of i] same ij by simp
  qed
  then show "\<not> lt (zs ! j) (zs ! i)"
    using assms(1) ij len same by (simp add: drained_def)
qed

lemma drain_heap_correct:
  assumes "set xs \<subseteq> D" "e < length xs" "heap_from 0 (Suc e) xs" "drained (Suc e) xs"
  shows "\<exists>ys. drain_heap cmp e xs = Some ys \<and> mset ys = mset xs \<and> drained 0 ys"
  using assms
proof (induction e arbitrary: xs)
  case 0
  then have "drained 0 xs" by (auto simp: drained_def)
  then show ?case by simp
next
  case (Suc e)
  define ys where "ys = xs[Suc e := xs ! 0, 0 := xs ! Suc e]"
  have rl: "Suc e < length xs" "0 < length xs" using Suc.prems(2) by (simp_all del: length_greater_0_conv)
  have ys: "mset ys = mset xs" "length ys = length xs"
    using mset_swap2 [OF rl] by (simp_all add: ys_def)
  have at: "ys ! k = (if k = 0 then xs ! Suc e else if k = Suc e then xs ! 0 else xs ! k)" for k
    using rl by (auto simp: ys_def nth_list_update)
  have D: "set ys \<subseteq> D" using Suc.prems(1) mset_eq_setD [OF ys(1)] by simp
  have "heap_but 0 0 (Suc e) ys"
    using Suc.prems(3) by (auto simp: heap_but_def heap_from_def at)
  then obtain zs where zs: "sift_down cmp (Suc e) 0 ys = Some zs" "mset zs = mset ys"
      "drop (Suc e) zs = drop (Suc e) ys" "heap_from 0 (Suc e) zs"
    using sift_down_correct [of ys "Suc e" 0 0] D Suc.prems(2) ys(2) by auto
  have "drained (Suc e) ys"
    unfolding drained_def
  proof (intro allI impI)
    fix i j assume ij: "i < j" "Suc e \<le> j" "j < length ys"
    show "\<not> lt (ys ! j) (ys ! i)"
    proof (cases "j = Suc e")
      case True
      have "\<not> lt (xs ! 0) (xs ! k)" if "k < Suc (Suc e)" for k
        using heap_root [OF Suc.prems(1) _ Suc.prems(3)] that Suc.prems(2) by simp
      then show ?thesis using True ij by (simp add: at)
    next
      case False
      then show ?thesis using Suc.prems(4) ij ys(2) by (auto simp: drained_def at)
    qed
  qed
  then have "drained (Suc e) zs" using drained_sift zs by blast
  moreover have "set zs \<subseteq> D" "e < length zs"
    using D mset_eq_setD [OF zs(2)] mset_eq_length [OF zs(2)] ys(2) Suc.prems(2) by simp_all
  ultimately obtain ws where "drain_heap cmp e zs = Some ws" "mset ws = mset zs" "drained 0 ws"
    using Suc.IH zs(4) by blast
  then show ?case using zs ys rl by (simp add: nth_o_def ys_def)
qed

lemma heap_sort_correct:
  assumes "set xs \<subseteq> D" "length xs = n"
  shows "\<exists>ys. heap_sort cmp n xs = Some ys \<and> mset ys = mset xs \<and> drained 0 ys"
proof (cases "n \<le> 1")
  case True
  then show ?thesis using assms(2) by (auto simp: heap_sort_def drained_def)
next
  case False
  then have "heap_from (Suc ((n - 2) div 2)) n xs" by (auto simp: heap_from_def)
  then obtain ys where ys: "build_heap cmp n ((n - 2) div 2) xs = Some ys" "mset ys = mset xs"
      "heap_from 0 n ys"
  proof -
    have "(n - 2) div 2 < n" using False by presburger
    then show ?thesis
      using build_heap_correct [of xs n "(n - 2) div 2"] assms \<open>heap_from _ n xs\<close> that by auto
  qed
  have "set ys \<subseteq> D" "length ys = n"
    using assms mset_eq_setD [OF ys(2)] mset_eq_length [OF ys(2)] by simp_all
  then show ?thesis
    using drain_heap_correct [of ys "n - 1"] ys False
    by (auto simp: heap_sort_def drained_def)
qed

end

section \<open>File names compare as a strict weak order\<close>

text \<open>A central directory header at \<open>o\<close> whose name lies inside the directory, and its lower-case name.\<close>

definition name_in :: "bytes \<Rightarrow> nat \<Rightarrow> bool" where
  "name_in cd p \<longleftrightarrow> p + MZ_ZIP_CENTRAL_DIR_HEADER_SIZE + le16 cd (p + MZ_ZIP_CDH_FILENAME_LEN_OFS) \<le> length cd"

definition lower :: "bytes \<Rightarrow> nat list" where
  "lower bs = map (\<lambda>b. MZ_TOLOWER (unat b)) bs"

definition cdh_filename :: "bytes \<Rightarrow> nat \<Rightarrow> bytes" where
  "cdh_filename cd p = take (le16 cd (p + MZ_ZIP_CDH_FILENAME_LEN_OFS))
     (drop (p + MZ_ZIP_CENTRAL_DIR_HEADER_SIZE) cd)"

definition name_lt :: "bytes \<Rightarrow> nat list \<Rightarrow> nat \<Rightarrow> nat \<Rightarrow> bool" where
  "name_lt cd offs i j \<longleftrightarrow> lower (cdh_filename cd (offs ! i)) < lower (cdh_filename cd (offs ! j))"

lemma lower_simps [simp]:
  "lower [] = []" "lower (b # bs) = MZ_TOLOWER (unat b) # lower bs" "length (lower bs) = length bs"
  by (simp_all add: lower_def)

lemma name_diff_spec:
  assumes "pL + l \<le> length L" "pR + r \<le> length R"
  shows "\<exists>d. name_diff L pL R pR (min l r) = Some d \<and>
    (case d of
      None \<Rightarrow> (l < r \<longleftrightarrow> lower (take l (drop pL L)) < lower (take r (drop pR R))) \<and>
        (l = r \<longleftrightarrow> lower (take l (drop pL L)) = lower (take r (drop pR R)))
    | Some (a, b) \<Rightarrow> a \<noteq> b \<and> (a < b \<longleftrightarrow> lower (take l (drop pL L)) < lower (take r (drop pR R))) \<and>
        lower (take l (drop pL L)) \<noteq> lower (take r (drop pR R)))"
  using assms
proof (induction l arbitrary: r pL pR)
  case 0
  then show ?case by (cases "drop pR R"; cases r) auto
next
  case (Suc l)
  show ?case
  proof (cases r)
    case 0
    then show ?thesis by (cases "drop pL L") (use Suc.prems in auto)
  next
    case (Suc r')
    have l: "drop pL L = L ! pL # drop (pL + 1) L" "pL < length L"
      using Suc.prems(1) by (simp_all add: Cons_nth_drop_Suc)
    have r: "drop pR R = R ! pR # drop (pR + 1) R" "pR < length R"
      using Suc.prems(2) \<open>r = Suc r'\<close> by (simp_all add: Cons_nth_drop_Suc)
    define X where "X = lower (take l (drop (pL + 1) L))"
    define Y where "Y = lower (take r' (drop (pR + 1) R))"
    obtain d where d: "name_diff L (pL + 1) R (pR + 1) (min l r') = Some d"
      and IH: "case d of None \<Rightarrow> (l < r' \<longleftrightarrow> X < Y) \<and> (l = r' \<longleftrightarrow> X = Y)
        | Some (a, b) \<Rightarrow> a \<noteq> b \<and> (a < b \<longleftrightarrow> X < Y) \<and> X \<noteq> Y"
      using Suc.IH [of "pL + 1" "pR + 1" r'] Suc.prems \<open>r = Suc r'\<close>
      unfolding X_def Y_def by auto
    have XY: "lower (take (Suc l) (drop pL L)) = MZ_TOLOWER (unat (L ! pL)) # X"
      "lower (take r (drop pR R)) = MZ_TOLOWER (unat (R ! pR)) # Y"
      unfolding l(1) r(1) Suc by (simp_all add: X_def Y_def)
    show ?thesis
    proof (cases "MZ_TOLOWER (unat (L ! pL)) = MZ_TOLOWER (unat (R ! pR))")
      case True
      have "name_diff L pL R pR (min (Suc l) r) = Some d"
        using True l(2) r(2) d by (simp add: rd8_def Let_def Suc)
      moreover have "(Suc l < r) = (l < r')" "(Suc l = r) = (l = r')" using Suc by simp_all
      ultimately show ?thesis
        using IH True unfolding XY by (intro exI [of _ d]) (simp split: option.splits prod.splits)
    next
      case False
      then show ?thesis
        unfolding XY using l(2) r(2) by (auto simp: rd8_def Let_def Suc)
    qed
  qed
qed

lemma rd16_name_len:
  "name_in cd p \<Longrightarrow> rd16 cd (p + MZ_ZIP_CDH_FILENAME_LEN_OFS) = Some (le16 cd (p + MZ_ZIP_CDH_FILENAME_LEN_OFS))"
  by (rule rd16_eq) (simp add: name_in_def)

lemma filename_less_eq:
  assumes "i < length offs" "j < length offs" "name_in cd (offs ! i)" "name_in cd (offs ! j)"
  shows "mz_zip_reader_filename_less cd offs i j = Some (name_lt cd offs i j)"
proof -
  let ?p = "offs ! i" and ?q = "offs ! j"
  obtain d where d: "name_diff cd (?p + 46) cd (?q + 46) (min (le16 cd (?p + 28)) (le16 cd (?q + 28))) = Some d"
    and spec: "case d of
      None \<Rightarrow> (le16 cd (?p + 28) < le16 cd (?q + 28) \<longleftrightarrow> name_lt cd offs i j) \<and>
        (le16 cd (?p + 28) = le16 cd (?q + 28) \<longleftrightarrow> lower (cdh_filename cd ?p) = lower (cdh_filename cd ?q))
    | Some (a, b) \<Rightarrow> a \<noteq> b \<and> (a < b \<longleftrightarrow> name_lt cd offs i j) \<and>
        lower (cdh_filename cd ?p) \<noteq> lower (cdh_filename cd ?q)"
    using name_diff_spec [of "?p + 46" "le16 cd (?p + 28)" cd "?q + 46" "le16 cd (?q + 28)" cd] assms(3,4)
    unfolding name_in_def name_lt_def cdh_filename_def by blast
  have "mz_zip_reader_filename_less cd offs i j =
      Some (case d of None \<Rightarrow> le16 cd (?p + 28) < le16 cd (?q + 28) | Some (l, r) \<Rightarrow> l < r)"
    using assms d rd16_name_len [OF assms(3)] rd16_name_len [OF assms(4)]
    by (simp add: mz_zip_reader_filename_less_def nth_o_def)
  then show ?thesis using spec by (simp split: option.splits prod.splits)
qed

text \<open>The entries that the order is about: the indices of a directory whose names are all inside.\<close>

definition named :: "bytes \<Rightarrow> nat list \<Rightarrow> nat set" where
  "named cd offs = {i. i < length offs \<and> name_in cd (offs ! i)}"

interpretation by_name: comparator "mz_zip_reader_filename_less cd offs" "name_lt cd offs" "named cd offs"
  for cd offs
  by unfold_locales (auto simp: named_def filename_less_eq name_lt_def)

text \<open>The sort of the central directory leaves a permutation of the indices, sorted by name.\<close>

lemma sort_central_dir_correct:
  assumes st: "m_pState z = Some st"
    and len: "length (m_sorted_central_dir_offsets st) = m_total_files z"
    and dom: "set (m_sorted_central_dir_offsets st) \<subseteq> named (m_central_dir st) (m_central_dir_offsets st)"
  shows "\<exists>idx. mz_zip_reader_sort_central_dir_offsets_by_filename z =
        Some (z\<lparr>m_pState := Some (st\<lparr>m_sorted_central_dir_offsets := idx\<rparr>)\<rparr>) \<and>
      mset idx = mset (m_sorted_central_dir_offsets st) \<and>
      sorted_wrt (\<lambda>i j. \<not> name_lt (m_central_dir st) (m_central_dir_offsets st) j i) idx"
proof -
  obtain idx where idx: "heap_sort (mz_zip_reader_filename_less (m_central_dir st) (m_central_dir_offsets st))
        (m_total_files z) (m_sorted_central_dir_offsets st) = Some idx"
      "mset idx = mset (m_sorted_central_dir_offsets st)"
      "by_name.drained (m_central_dir st) (m_central_dir_offsets st) 0 idx"
    using by_name.heap_sort_correct [OF dom len] by blast
  then show ?thesis
    using st by (intro exI [of _ idx])
      (simp add: mz_zip_reader_sort_central_dir_offsets_by_filename_def
        by_name.drained_def sorted_wrt_iff_nth_less)
qed

end
