(* ===== verification/ZipReader.thy ===== *)
theory ZipReader
  imports ZipSort
begin

unbundle bit_operations_syntax

text \<open>
  Opening an archive: the backward scan for the end-of-central-directory record
  (\<^verbatim>\<open>mz_zip_reader_locate_header_sig\<close>), the classic and the zip64 end records, the consistency
  checks, the load of the central directory with the checks on every entry, and the sort
  (\<^verbatim>\<open>mz_zip_reader_read_central_dir\<close>), with the entry points \<^verbatim>\<open>mz_zip_reader_init\<close>,
  \<^verbatim>\<open>..._init_mem\<close>, \<^verbatim>\<open>..._init_file_v2\<close> and \<^verbatim>\<open>..._init_cfile\<close>.

  The theorems: opening never reads outside a buffer, whatever the bytes of the archive are
  (the result is never \<^term>\<open>None\<close>), and a successful opening leaves an archive satisfying
  \<open>wf_archive\<close>, on which the later operations rely.
\<close>

section \<open>Finding the end record\<close>

text \<open>\<^verbatim>\<open>for (i = n - 4; i >= 0; --i)\<close>, from \<open>k = i + 1\<close>.\<close>

fun sig_scan :: "nat \<Rightarrow> nat \<Rightarrow> nat \<Rightarrow> nat \<Rightarrow> bytes \<Rightarrow> nat \<Rightarrow> nat option option" where
  "sig_scan archive_size cur_file_ofs record_sig record_size pBuf 0 = Some None"
| "sig_scan archive_size cur_file_ofs record_sig record_size pBuf (Suc i) = do {
     s \<leftarrow> rd32 pBuf i;
     (if s = record_sig \<and> record_size \<le> sub64 archive_size (cur_file_ofs + i) then Some (Some i)
      else sig_scan archive_size cur_file_ofs record_sig record_size pBuf i)
   }"

text \<open>
  The loop over 4096-byte windows. \<open>cur_file_ofs\<close> is the 64-bit pattern of the C variable: the
  expression \<^verbatim>\<open>MZ_MAX(cur_file_ofs - (sizeof(buf_u32) - 3), 0)\<close> is computed in an unsigned type, so
  the maximum with 0 has no effect and the offset can wrap below zero.
\<close>

function locate_loop :: "mz_zip_archive \<Rightarrow> nat \<Rightarrow> nat \<Rightarrow> nat \<Rightarrow> nat option option" where
  "locate_loop pZip record_sig record_size cur_file_ofs =
     (let n = min 4096 (sub64 (m_archive_size pZip) cur_file_ofs)
      in do {
        pBuf \<leftarrow> call_read pZip cur_file_ofs n;
        (if length pBuf \<noteq> n then Some None
         else do {
           hit \<leftarrow> sig_scan (m_archive_size pZip) cur_file_ofs record_sig record_size pBuf (n - 3);
           (case hit of
              Some i \<Rightarrow> Some (Some (u64 (cur_file_ofs + i)))
            | None \<Rightarrow>
                if cur_file_ofs = 0 \<or>
                   MZ_UINT16_MAX + u32 record_size \<le> sub64 (m_archive_size pZip) cur_file_ofs
                then Some None
                else locate_loop pZip record_sig record_size (sub64 cur_file_ofs 4093))
         })
      })"
  by pat_completeness auto
termination
proof (relation "measure (\<lambda>(z, sig, n, cur). MZ_UINT16_MAX + u32 n - sub64 (m_archive_size z) cur)", goal_cases)
  case 1
  then show ?case by simp
next
  case (2 pZip sig sz cur n buf hit)
  then have d: "sub64 (m_archive_size pZip) cur < MZ_UINT16_MAX + u32 sz" by auto
  moreover have "u32 sz < 4294967296" by simp
  ultimately have "sub64 (m_archive_size pZip) cur + 4093 < 18446744073709551616" by linarith
  then have "sub64 (m_archive_size pZip) (sub64 cur 4093) = sub64 (m_archive_size pZip) cur + 4093"
    by (simp add: sub64_sub64)
  then show ?case using d by simp
qed

declare locate_loop.simps [simp del]

text \<open>The signed computation of the first offset overflows for sizes just above \<^term>\<open>2 ^ 63 :: nat\<close>.\<close>

definition mz_zip_reader_locate_header_sig :: "mz_zip_archive \<Rightarrow> nat \<Rightarrow> nat \<Rightarrow> nat option option" where
  "mz_zip_reader_locate_header_sig pZip record_sig record_size =
     (let size = m_archive_size pZip
      in if size < record_size then Some None
         else if 2 ^ 63 \<le> size \<and> size < 2 ^ 63 + 4096 then None
         else locate_loop pZip record_sig record_size (if size < 2 ^ 63 then size - 4096 else 0))"

section \<open>The end records\<close>

text \<open>\<^verbatim>\<open>pBuf\<close> as it is after a successful check.\<close>

definition mz_zip_reader_eocd64_valid :: "mz_zip_archive \<Rightarrow> nat \<Rightarrow> bytes option option" where
  "mz_zip_reader_eocd64_valid pZip offset = do {
     buf \<leftarrow> call_read pZip offset MZ_ZIP64_END_OF_CENTRAL_DIR_HEADER_SIZE;
     (if length buf = MZ_ZIP64_END_OF_CENTRAL_DIR_HEADER_SIZE
      then do {
        sig \<leftarrow> rd32 buf 0;
        Some (if sig = MZ_ZIP64_END_OF_CENTRAL_DIR_HEADER_SIG then Some buf else None)
      }
      else Some None)
   }"

text \<open>The start of \<^verbatim>\<open>mz_zip_reader_read_central_dir\<close>: its offset and the 22 bytes of the record.\<close>

definition read_eocd :: "mz_zip_archive \<Rightarrow> (nat \<times> bytes) zret" where
  "read_eocd pZip =
     (if m_archive_size pZip < MZ_ZIP_END_OF_CENTRAL_DIR_HEADER_SIZE
      then mz_zip_set_error pZip MZ_ZIP_NOT_AN_ARCHIVE
      else do {
        found \<leftarrow> mz_zip_reader_locate_header_sig pZip MZ_ZIP_END_OF_CENTRAL_DIR_HEADER_SIG
          MZ_ZIP_END_OF_CENTRAL_DIR_HEADER_SIZE;
        (case found of
           None \<Rightarrow> mz_zip_set_error pZip MZ_ZIP_FAILED_FINDING_CENTRAL_DIR
         | Some cur_file_ofs \<Rightarrow> do {
             pBuf \<leftarrow> call_read pZip cur_file_ofs MZ_ZIP_END_OF_CENTRAL_DIR_HEADER_SIZE;
             (if length pBuf \<noteq> MZ_ZIP_END_OF_CENTRAL_DIR_HEADER_SIZE
              then mz_zip_set_error pZip MZ_ZIP_FILE_READ_FAILED
              else do {
                sig \<leftarrow> rd32 pBuf 0;
                (if sig \<noteq> MZ_ZIP_END_OF_CENTRAL_DIR_HEADER_SIG
                 then mz_zip_set_error pZip MZ_ZIP_NOT_AN_ARCHIVE
                 else zok pZip (cur_file_ofs, pBuf))
              })
           })
      })"

text \<open>The signed comparison \<^verbatim>\<open>cur_file_ofs >= 76\<close>.\<close>

definition room_for_zip64 :: "nat \<Rightarrow> bool" where
  "room_for_zip64 cur_file_ofs \<longleftrightarrow> cur_file_ofs < 2 ^ 63 \<and>
     MZ_ZIP64_END_OF_CENTRAL_DIR_LOCATOR_SIZE + MZ_ZIP64_END_OF_CENTRAL_DIR_HEADER_SIZE \<le> cur_file_ofs"

definition set_state :: "mz_zip_archive \<Rightarrow> mz_zip_internal_state \<Rightarrow> mz_zip_archive" where
  "set_state pZip st = pZip\<lparr>m_pState := Some st\<rparr>"

text \<open>The zip64 locator, and the flag \<^verbatim>\<open>m_zip64\<close> when its signature is there.\<close>

definition read_zip64_locator :: "mz_zip_archive \<Rightarrow> nat \<Rightarrow> bytes zret" where
  "read_zip64_locator pZip cur_file_ofs =
     (if room_for_zip64 cur_file_ofs
      then do {
        loc \<leftarrow> call_read pZip (cur_file_ofs - MZ_ZIP64_END_OF_CENTRAL_DIR_LOCATOR_SIZE)
          MZ_ZIP64_END_OF_CENTRAL_DIR_LOCATOR_SIZE;
        (if length loc = MZ_ZIP64_END_OF_CENTRAL_DIR_LOCATOR_SIZE
         then do {
           sig \<leftarrow> rd32 loc 0;
           (if sig = MZ_ZIP64_END_OF_CENTRAL_DIR_LOCATOR_SIG
            then do { st \<leftarrow> m_pState pZip; zok (set_state pZip (st\<lparr>m_zip64 := True\<rparr>)) loc }
            else zok pZip loc)
         }
         else zok pZip loc)
      }
      else zok pZip [])"

text \<open>The zip64 end record: just before the locator, or else where the locator says.\<close>

definition read_eocd64 :: "mz_zip_archive \<Rightarrow> nat \<Rightarrow> bytes \<Rightarrow> bytes zret" where
  "read_eocd64 pZip cur_file_ofs loc = do {
     st \<leftarrow> m_pState pZip;
     (if \<not> m_zip64 st then zok pZip []
      else if \<not> room_for_zip64 cur_file_ofs then mz_zip_set_error pZip MZ_ZIP_NOT_AN_ARCHIVE
      else do {
        near \<leftarrow> mz_zip_reader_eocd64_valid pZip
          (cur_file_ofs - MZ_ZIP64_END_OF_CENTRAL_DIR_LOCATOR_SIZE - MZ_ZIP64_END_OF_CENTRAL_DIR_HEADER_SIZE);
        (case near of
           Some buf \<Rightarrow> zok pZip buf
         | None \<Rightarrow> do {
             ofs \<leftarrow> rd64 loc MZ_ZIP64_ECDL_REL_OFS_TO_ZIP64_ECDR_OFS;
             (if sub64 (m_archive_size pZip) MZ_ZIP64_END_OF_CENTRAL_DIR_HEADER_SIZE < ofs
              then mz_zip_set_error pZip MZ_ZIP_NOT_AN_ARCHIVE
              else do {
                there \<leftarrow> mz_zip_reader_eocd64_valid pZip ofs;
                (case there of
                   None \<Rightarrow> mz_zip_set_error pZip MZ_ZIP_NOT_AN_ARCHIVE
                 | Some buf \<Rightarrow> zok pZip buf)
              })
           })
      })
   }"

text \<open>The local variables the end records fill, besides \<^verbatim>\<open>m_total_files\<close>.\<close>

record cdir_fields =
  cdir_entries_on_this_disk :: nat
  num_this_disk :: nat
  cdir_disk_index :: nat
  cdir_size :: nat
  cdir_ofs :: nat

definition read_fields32 :: "bytes \<Rightarrow> (nat \<times> cdir_fields) option" where
  "read_fields32 pBuf = do {
     total \<leftarrow> rd16 pBuf MZ_ZIP_ECDH_CDIR_TOTAL_ENTRIES_OFS;
     entries \<leftarrow> rd16 pBuf MZ_ZIP_ECDH_CDIR_NUM_ENTRIES_ON_DISK_OFS;
     disk \<leftarrow> rd16 pBuf MZ_ZIP_ECDH_NUM_THIS_DISK_OFS;
     index \<leftarrow> rd16 pBuf MZ_ZIP_ECDH_NUM_DISK_CDIR_OFS;
     size \<leftarrow> rd32 pBuf MZ_ZIP_ECDH_CDIR_SIZE_OFS;
     ofs \<leftarrow> rd32 pBuf MZ_ZIP_ECDH_CDIR_OFS_OFS;
     Some (total, \<lparr>cdir_entries_on_this_disk = entries, num_this_disk = disk,
       cdir_disk_index = index, cdir_size = size, cdir_ofs = ofs\<rparr>)
   }"

definition read_fields64 :: "mz_zip_archive \<Rightarrow> bytes \<Rightarrow> bytes \<Rightarrow> cdir_fields zret" where
  "read_fields64 pZip loc rec = do {
     disks \<leftarrow> rd32 loc MZ_ZIP64_ECDL_TOTAL_NUMBER_OF_DISKS_OFS;
     total \<leftarrow> rd64 rec MZ_ZIP64_ECDH_CDIR_TOTAL_ENTRIES_OFS;
     entries \<leftarrow> rd64 rec MZ_ZIP64_ECDH_CDIR_NUM_ENTRIES_ON_DISK_OFS;
     rec_size \<leftarrow> rd64 rec MZ_ZIP64_ECDH_SIZE_OF_RECORD_OFS;
     size \<leftarrow> rd64 rec MZ_ZIP64_ECDH_CDIR_SIZE_OFS;
     (if rec_size < MZ_ZIP64_END_OF_CENTRAL_DIR_HEADER_SIZE - 12
      then mz_zip_set_error pZip MZ_ZIP_INVALID_HEADER_OR_CORRUPTED
      else if disks \<noteq> 1 then mz_zip_set_error pZip MZ_ZIP_UNSUPPORTED_MULTIDISK
      else if MZ_UINT32_MAX < total then mz_zip_set_error pZip MZ_ZIP_TOO_MANY_FILES
      else let pZip = pZip\<lparr>m_total_files := total\<rparr>
      in if MZ_UINT32_MAX < entries then mz_zip_set_error pZip MZ_ZIP_TOO_MANY_FILES
      else if MZ_UINT32_MAX < size then mz_zip_set_error pZip MZ_ZIP_UNSUPPORTED_CDIR_SIZE
      else do {
        disk \<leftarrow> rd32 rec MZ_ZIP64_ECDH_NUM_THIS_DISK_OFS;
        index \<leftarrow> rd32 rec MZ_ZIP64_ECDH_NUM_DISK_CDIR_OFS;
        ofs \<leftarrow> rd64 rec MZ_ZIP64_ECDH_CDIR_OFS_OFS;
        zok pZip \<lparr>cdir_entries_on_this_disk = entries, num_this_disk = disk,
          cdir_disk_index = index, cdir_size = size, cdir_ofs = ofs\<rparr>
      })
   }"

definition read_fields :: "mz_zip_archive \<Rightarrow> bytes \<Rightarrow> bytes \<Rightarrow> bytes \<Rightarrow> cdir_fields zret" where
  "read_fields pZip pBuf loc rec = do {
     st \<leftarrow> m_pState pZip;
     (total, f) \<leftarrow> read_fields32 pBuf;
     (let pZip = pZip\<lparr>m_total_files := total\<rparr>
      in if m_zip64 st then read_fields64 pZip loc rec else zok pZip f)
   }"

text \<open>The consistency checks, and the offset at which the archive starts inside its file.\<close>

definition check_cdir :: "mz_zip_archive \<Rightarrow> nat \<Rightarrow> cdir_fields \<Rightarrow> unit zret" where
  "check_cdir pZip eocd_ofs f = do {
     st \<leftarrow> m_pState pZip;
     (if m_total_files pZip \<noteq> cdir_entries_on_this_disk f
      then mz_zip_set_error pZip MZ_ZIP_UNSUPPORTED_MULTIDISK
      else if num_this_disk f OR cdir_disk_index f \<noteq> 0 \<and> (num_this_disk f \<noteq> 1 \<or> cdir_disk_index f \<noteq> 1)
      then mz_zip_set_error pZip MZ_ZIP_UNSUPPORTED_MULTIDISK
      else if cdir_size f < m_total_files pZip * MZ_ZIP_CENTRAL_DIR_HEADER_SIZE
      then mz_zip_set_error pZip MZ_ZIP_INVALID_HEADER_OR_CORRUPTED
      else if m_archive_size pZip < cdir_size f \<or> m_archive_size pZip - cdir_size f < cdir_ofs f
      then mz_zip_set_error pZip MZ_ZIP_INVALID_HEADER_OR_CORRUPTED
      else if eocd_ofs < cdir_ofs f + cdir_size f
      then mz_zip_set_error pZip MZ_ZIP_INVALID_HEADER_OR_CORRUPTED
      else let
        archive_ofs = eocd_ofs - (cdir_ofs f + cdir_size f);
        trailer = MZ_ZIP64_END_OF_CENTRAL_DIR_HEADER_SIZE + MZ_ZIP64_END_OF_CENTRAL_DIR_LOCATOR_SIZE
      in if m_zip64 st \<and> archive_ofs < trailer
      then mz_zip_set_error pZip MZ_ZIP_INVALID_HEADER_OR_CORRUPTED
      else let
        archive_ofs = (if m_zip64 st then archive_ofs - trailer else archive_ofs);
        pZip = (if m_zip_type pZip \<in> {MZ_ZIP_TYPE_FILE, MZ_ZIP_TYPE_CFILE, MZ_ZIP_TYPE_USER} \<and>
                   m_file_archive_start_ofs st = 0
                then (set_state pZip (st\<lparr>m_file_archive_start_ofs := archive_ofs\<rparr>))
                  \<lparr>m_archive_size := sub64 (m_archive_size pZip) archive_ofs\<rparr>
                else pZip)
      in zok (pZip\<lparr>m_central_directory_file_ofs := cdir_ofs f\<rparr>) ())
   }"

section \<open>The entries of the central directory\<close>

text \<open>
  The walk over the fields of an extra-data block of \<open>extra_size_remaining\<close> bytes: the position and
  the size of the data of the zip64 field, nothing when there is none, or the corruption error.
\<close>

function extra_walk :: "bytes \<Rightarrow> nat \<Rightarrow> nat \<Rightarrow> (mz_zip_error + (nat \<times> nat) option) option" where
  "extra_walk buf pExtra_data extra_size_remaining =
     (if extra_size_remaining < 4 then Some (Inl MZ_ZIP_INVALID_HEADER_OR_CORRUPTED)
      else do {
        field_id \<leftarrow> rd16 buf pExtra_data;
        field_data_size \<leftarrow> rd16 buf (pExtra_data + 2);
        (if extra_size_remaining < field_data_size + 4
         then Some (Inl MZ_ZIP_INVALID_HEADER_OR_CORRUPTED)
         else if field_id = MZ_ZIP64_EXTENDED_INFORMATION_FIELD_HEADER_ID
         then Some (Inr (Some (pExtra_data + 4, field_data_size)))
         else if extra_size_remaining - 4 - field_data_size = 0 then Some (Inr None)
         else extra_walk buf (pExtra_data + 4 + field_data_size) (extra_size_remaining - 4 - field_data_size))
      })"
  by pat_completeness auto
termination by (relation "measure (\<lambda>(buf, p, n). n)") auto

declare extra_walk.simps [simp del]

text \<open>\<open>MZ_MAX(MZ_MAX(comp_size, decomp_size), local_header_ofs) == MZ_UINT32_MAX\<close>.\<close>

definition needs_zip64 :: "nat \<Rightarrow> nat \<Rightarrow> nat \<Rightarrow> bool" where
  "needs_zip64 comp_size decomp_size local_header_ofs \<longleftrightarrow>
     max (max comp_size decomp_size) local_header_ofs = MZ_UINT32_MAX"

text \<open>The search for the zip64 field of one entry at \<open>p\<close>, with \<open>n\<close> bytes of directory left.\<close>

definition entry_zip64 :: "mz_zip_archive \<Rightarrow> nat \<Rightarrow> nat \<Rightarrow> nat \<Rightarrow> unit zret" where
  "entry_zip64 pZip cdofs p n = do {
     st \<leftarrow> m_pState pZip;
     comp_size \<leftarrow> rd32 (m_central_dir st) (p + MZ_ZIP_CDH_COMPRESSED_SIZE_OFS);
     decomp_size \<leftarrow> rd32 (m_central_dir st) (p + MZ_ZIP_CDH_DECOMPRESSED_SIZE_OFS);
     local_header_ofs \<leftarrow> rd32 (m_central_dir st) (p + MZ_ZIP_CDH_LOCAL_HEADER_OFS);
     filename_size \<leftarrow> rd16 (m_central_dir st) (p + MZ_ZIP_CDH_FILENAME_LEN_OFS);
     ext_data_size \<leftarrow> rd16 (m_central_dir st) (p + MZ_ZIP_CDH_EXTRA_LEN_OFS);
     (if m_zip64_has_extended_info_fields st \<or> ext_data_size = 0 \<or>
         \<not> needs_zip64 comp_size decomp_size local_header_ofs
      then zok pZip ()
      else let finish = (\<lambda>buf pos. do {
             r \<leftarrow> extra_walk buf pos ext_data_size;
             (case r of
                Inl e \<Rightarrow> mz_zip_set_error pZip e
              | Inr None \<Rightarrow> zok pZip ()
              | Inr (Some _) \<Rightarrow>
                  zok (set_state pZip (st\<lparr>m_zip64 := True, m_zip64_has_extended_info_fields := True\<rparr>)) ())
           })
      in if n < MZ_ZIP_CENTRAL_DIR_HEADER_SIZE + filename_size + ext_data_size
      then if \<not> m_heap pZip 1 ext_data_size then mz_zip_set_error pZip MZ_ZIP_ALLOC_FAILED
        else do {
          buf \<leftarrow> call_read pZip (u64 (cdofs + MZ_ZIP_CENTRAL_DIR_HEADER_SIZE + filename_size)) ext_data_size;
          (if length buf \<noteq> ext_data_size then mz_zip_set_error pZip MZ_ZIP_FILE_READ_FAILED
           else finish buf 0)
        }
      else finish (m_central_dir st) (p + MZ_ZIP_CENTRAL_DIR_HEADER_SIZE + filename_size))
   }"

text \<open>
  The checks on the header. \<open>method32\<close> is the 32-bit read at the offset of the 16-bit method,
  as the code does it: it covers the file time too.
\<close>

definition entry_checks :: "mz_zip_archive \<Rightarrow> nat \<Rightarrow> nat \<Rightarrow> nat \<Rightarrow> nat zret" where
  "entry_checks pZip disk p n = do {
     st \<leftarrow> m_pState pZip;
     let cd = m_central_dir st;
     comp_size \<leftarrow> rd32 cd (p + MZ_ZIP_CDH_COMPRESSED_SIZE_OFS);
     decomp_size \<leftarrow> rd32 cd (p + MZ_ZIP_CDH_DECOMPRESSED_SIZE_OFS);
     method32 \<leftarrow> rd32 cd (p + MZ_ZIP_CDH_METHOD_OFS);
     disk_index \<leftarrow> rd16 cd (p + MZ_ZIP_CDH_DISK_START_OFS);
     local_header_ofs \<leftarrow> rd32 cd (p + MZ_ZIP_CDH_LOCAL_HEADER_OFS);
     bit_flags \<leftarrow> rd16 cd (p + MZ_ZIP_CDH_BIT_FLAG_OFS);
     filename_len \<leftarrow> rd16 cd (p + MZ_ZIP_CDH_FILENAME_LEN_OFS);
     extra_len \<leftarrow> rd16 cd (p + MZ_ZIP_CDH_EXTRA_LEN_OFS);
     comment_len \<leftarrow> rd16 cd (p + MZ_ZIP_CDH_COMMENT_LEN_OFS);
     (let total_header_size = MZ_ZIP_CENTRAL_DIR_HEADER_SIZE + filename_len + extra_len + comment_len
      in if comp_size \<noteq> MZ_UINT32_MAX \<and> decomp_size \<noteq> MZ_UINT32_MAX \<and>
            (method32 = 0 \<and> decomp_size \<noteq> comp_size \<or> decomp_size \<noteq> 0 \<and> comp_size = 0)
      then mz_zip_set_error pZip MZ_ZIP_INVALID_HEADER_OR_CORRUPTED
      else if disk_index = MZ_UINT16_MAX \<or> disk_index \<noteq> disk \<and> disk_index \<noteq> 1
      then mz_zip_set_error pZip MZ_ZIP_UNSUPPORTED_MULTIDISK
      else if comp_size \<noteq> MZ_UINT32_MAX \<and>
              m_archive_size pZip < local_header_ofs + MZ_ZIP_LOCAL_DIR_HEADER_SIZE + comp_size
      then mz_zip_set_error pZip MZ_ZIP_INVALID_HEADER_OR_CORRUPTED
      else if bit_flags AND 8192 \<noteq> 0
      then mz_zip_set_error pZip MZ_ZIP_UNSUPPORTED_ENCRYPTION
      else if n < total_header_size
      then mz_zip_set_error pZip MZ_ZIP_INVALID_HEADER_OR_CORRUPTED
      else zok pZip total_header_size)
   }"

text \<open>One turn of the loop over the entries: entry \<open>i\<close> at \<open>p\<close>, \<open>n\<close> bytes left; its total size.\<close>

definition read_entry :: "mz_zip_archive \<Rightarrow> nat \<Rightarrow> nat \<Rightarrow> bool \<Rightarrow> nat \<Rightarrow> nat \<Rightarrow> nat \<Rightarrow> nat zret" where
  "read_entry pZip disk cdofs sort_central_dir i p n = do {
     st \<leftarrow> m_pState pZip;
     sig \<leftarrow> (if n < MZ_ZIP_CENTRAL_DIR_HEADER_SIZE then Some 0 else rd32 (m_central_dir st) p);
     (if n < MZ_ZIP_CENTRAL_DIR_HEADER_SIZE \<or> sig \<noteq> MZ_ZIP_CENTRAL_DIR_HEADER_SIG
      then mz_zip_set_error pZip MZ_ZIP_INVALID_HEADER_OR_CORRUPTED
      else zbind
        (entry_zip64
          (set_state pZip (st\<lparr>m_central_dir_offsets := m_central_dir_offsets st @ [u32 p],
             m_sorted_central_dir_offsets :=
               (if sort_central_dir then m_sorted_central_dir_offsets st @ [i]
                else m_sorted_central_dir_offsets st)\<rparr>))
          cdofs p n)
        (\<lambda>pZip _. entry_checks pZip disk p n))
   }"

fun read_entries :: "mz_zip_archive \<Rightarrow> nat \<Rightarrow> nat \<Rightarrow> bool \<Rightarrow> nat \<Rightarrow> nat \<Rightarrow> nat \<Rightarrow> nat \<Rightarrow> unit zret" where
  "read_entries pZip disk cdofs sort_central_dir 0 i p n = zok pZip ()"
| "read_entries pZip disk cdofs sort_central_dir (Suc left) i p n =
     zbind (read_entry pZip disk cdofs sort_central_dir i p n)
       (\<lambda>pZip total_header_size.
          read_entries pZip disk cdofs sort_central_dir left (i + 1) (p + total_header_size) (n - total_header_size))"

text \<open>The allocations and the read of the whole directory, then the loop.\<close>

definition load_cdir :: "mz_zip_archive \<Rightarrow> cdir_fields \<Rightarrow> bool \<Rightarrow> unit zret" where
  "load_cdir pZip f sort_central_dir =
     (if m_total_files pZip = 0 then zok pZip ()
      else do {
        a \<leftarrow> mz_zip_array_resize pZip 1 (cdir_size f);
        b \<leftarrow> mz_zip_array_resize pZip 4 (m_total_files pZip);
        c \<leftarrow> mz_zip_array_resize pZip 4 (m_total_files pZip);
        (if \<not> a \<or> \<not> b then mz_zip_set_error pZip MZ_ZIP_ALLOC_FAILED
         else if sort_central_dir \<and> \<not> c then mz_zip_set_error pZip MZ_ZIP_ALLOC_FAILED
         else do {
           dir \<leftarrow> call_read pZip (cdir_ofs f) (cdir_size f);
           (if length dir \<noteq> cdir_size f then mz_zip_set_error pZip MZ_ZIP_FILE_READ_FAILED
            else do {
              st \<leftarrow> m_pState pZip;
              read_entries (set_state pZip (st\<lparr>m_central_dir := dir\<rparr>)) (num_this_disk f) (cdir_ofs f)
                sort_central_dir (m_total_files pZip) 0 0 (cdir_size f)
            })
         })
      })"

definition mz_zip_reader_read_central_dir :: "mz_zip_archive \<Rightarrow> nat \<Rightarrow> unit zret" where
  "mz_zip_reader_read_central_dir pZip flags =
     (let sort_central_dir = (flags AND MZ_ZIP_FLAG_DO_NOT_SORT_CENTRAL_DIRECTORY = 0)
      in zbind (read_eocd pZip) (\<lambda>pZip (cur_file_ofs, pBuf).
         zbind (read_zip64_locator pZip cur_file_ofs) (\<lambda>pZip loc.
         zbind (read_eocd64 pZip cur_file_ofs loc) (\<lambda>pZip rec.
         zbind (read_fields pZip pBuf loc rec) (\<lambda>pZip f.
         zbind (check_cdir pZip cur_file_ofs f) (\<lambda>pZip _.
         zbind (load_cdir pZip f sort_central_dir) (\<lambda>pZip _.
           if sort_central_dir
           then do { pZip \<leftarrow> mz_zip_reader_sort_central_dir_offsets_by_filename pZip; zok pZip () }
           else zok pZip ())))))))"

section \<open>The entry points\<close>

text \<open>The last step of each: a failed read of the directory closes the reader again.\<close>

definition finish_init :: "mz_zip_archive \<Rightarrow> nat \<Rightarrow> unit zret" where
  "finish_init pZip flags =
     (case mz_zip_reader_read_central_dir pZip flags of
        None \<Rightarrow> None
      | Some (pZip, Inr _) \<Rightarrow> zok pZip ()
      | Some (pZip, Inl e) \<Rightarrow>
          (case mz_zip_reader_end_internal pZip False of
             None \<Rightarrow> None
           | Some (pZip, _) \<Rightarrow> Some (pZip, Inl e)))"

definition mz_zip_reader_init :: "mz_zip_archive \<Rightarrow> nat \<Rightarrow> nat \<Rightarrow> unit zret" where
  "mz_zip_reader_init pZip sz flags =
     (if m_pRead pZip = None then mz_zip_set_error pZip MZ_ZIP_INVALID_PARAMETER
      else zbind (mz_zip_reader_init_internal pZip flags) (\<lambda>pZip _.
        finish_init (pZip\<lparr>m_zip_type := MZ_ZIP_TYPE_USER, m_archive_size := sz\<rparr>) flags))"

definition mz_zip_reader_init_mem :: "mz_zip_archive \<Rightarrow> bytes option \<Rightarrow> nat \<Rightarrow> nat \<Rightarrow> unit zret" where
  "mz_zip_reader_init_mem pZip pMem sz flags =
     (if pMem = None then mz_zip_set_error pZip MZ_ZIP_INVALID_PARAMETER
      else if sz < MZ_ZIP_END_OF_CENTRAL_DIR_HEADER_SIZE
      then mz_zip_set_error pZip MZ_ZIP_NOT_AN_ARCHIVE
      else zbind (mz_zip_reader_init_internal pZip flags) (\<lambda>pZip _. do {
        st \<leftarrow> m_pState pZip;
        finish_init (set_state (pZip\<lparr>m_zip_type := MZ_ZIP_TYPE_MEMORY, m_archive_size := sz,
            m_pRead := Some Mem_read\<rparr>) (st\<lparr>m_pMem := pMem, m_mem_size := sz\<rparr>)) flags
      }))"

text \<open>
  \<open>fopen\<close> is the contents of the file when it can be opened, \<open>fseek_end\<close> whether seeking to its
  end succeeds; both are answers of the C library.
\<close>

definition mz_zip_reader_init_file_v2 ::
    "mz_zip_archive \<Rightarrow> bytes option \<Rightarrow> bool \<Rightarrow> nat \<Rightarrow> nat \<Rightarrow> nat \<Rightarrow> unit zret" where
  "mz_zip_reader_init_file_v2 pZip fopen fseek_end flags file_start_ofs archive_size =
     (if archive_size \<noteq> 0 \<and> archive_size < MZ_ZIP_END_OF_CENTRAL_DIR_HEADER_SIZE
      then mz_zip_set_error pZip MZ_ZIP_INVALID_PARAMETER
      else case fopen of
        None \<Rightarrow> mz_zip_set_error pZip MZ_ZIP_FILE_OPEN_FAILED
      | Some contents \<Rightarrow>
          if archive_size = 0 \<and> \<not> fseek_end then mz_zip_set_error pZip MZ_ZIP_FILE_SEEK_FAILED
          else let file_size = (if archive_size = 0 then length contents else archive_size)
          in if file_size < MZ_ZIP_END_OF_CENTRAL_DIR_HEADER_SIZE
          then mz_zip_set_error pZip MZ_ZIP_NOT_AN_ARCHIVE
          else zbind (mz_zip_reader_init_internal pZip flags) (\<lambda>pZip _. do {
            st \<leftarrow> m_pState pZip;
            finish_init (set_state (pZip\<lparr>m_zip_type := MZ_ZIP_TYPE_FILE, m_pRead := Some File_read,
                m_archive_size := file_size\<rparr>)
              (st\<lparr>m_pFile := Some contents, m_file_archive_start_ofs := file_start_ofs\<rparr>)) flags
          }))"

definition mz_zip_reader_init_file :: "mz_zip_archive \<Rightarrow> bytes option \<Rightarrow> bool \<Rightarrow> nat \<Rightarrow> unit zret" where
  "mz_zip_reader_init_file pZip fopen fseek_end flags =
     mz_zip_reader_init_file_v2 pZip fopen fseek_end flags 0 0"

text \<open>\<open>pFile\<close> is the contents of the stream and its current position.\<close>

definition mz_zip_reader_init_cfile ::
    "mz_zip_archive \<Rightarrow> (bytes \<times> nat) option \<Rightarrow> bool \<Rightarrow> nat \<Rightarrow> nat \<Rightarrow> unit zret" where
  "mz_zip_reader_init_cfile pZip pFile fseek_end archive_size flags =
     (case pFile of
        None \<Rightarrow> mz_zip_set_error pZip MZ_ZIP_FILE_OPEN_FAILED
      | Some (contents, cur_file_ofs) \<Rightarrow>
          if archive_size = 0 \<and> \<not> fseek_end then mz_zip_set_error pZip MZ_ZIP_FILE_SEEK_FAILED
          else let sz = (if archive_size = 0 then sub64 (length contents) cur_file_ofs else archive_size)
          in if archive_size = 0 \<and> sz < MZ_ZIP_END_OF_CENTRAL_DIR_HEADER_SIZE
          then mz_zip_set_error pZip MZ_ZIP_NOT_AN_ARCHIVE
          else zbind (mz_zip_reader_init_internal pZip flags) (\<lambda>pZip _. do {
            st \<leftarrow> m_pState pZip;
            finish_init (set_state (pZip\<lparr>m_zip_type := MZ_ZIP_TYPE_CFILE, m_pRead := Some File_read,
                m_archive_size := sz\<rparr>)
              (st\<lparr>m_pFile := Some contents, m_file_archive_start_ofs := cur_file_ofs\<rparr>)) flags
          }))"

section \<open>What an open archive satisfies\<close>

text \<open>
  A central directory entry at \<open>p\<close>: header, name, extra data and comment lie inside the directory,
  and the local header with the compressed data inside the archive, unless its size is in the zip64
  field.
\<close>

definition entry_ok :: "bytes \<Rightarrow> nat \<Rightarrow> nat \<Rightarrow> bool" where
  "entry_ok cd archive_size p \<longleftrightarrow>
     p + MZ_ZIP_CENTRAL_DIR_HEADER_SIZE + le16 cd (p + MZ_ZIP_CDH_FILENAME_LEN_OFS) +
       le16 cd (p + MZ_ZIP_CDH_EXTRA_LEN_OFS) + le16 cd (p + MZ_ZIP_CDH_COMMENT_LEN_OFS) \<le> length cd \<and>
     le32 cd p = MZ_ZIP_CENTRAL_DIR_HEADER_SIG \<and>
     (le32 cd (p + MZ_ZIP_CDH_COMPRESSED_SIZE_OFS) \<noteq> MZ_UINT32_MAX \<longrightarrow>
        le32 cd (p + MZ_ZIP_CDH_LOCAL_HEADER_OFS) + MZ_ZIP_LOCAL_DIR_HEADER_SIZE +
          le32 cd (p + MZ_ZIP_CDH_COMPRESSED_SIZE_OFS) \<le> archive_size)"

definition being_read :: "nat \<Rightarrow> mz_zip_archive \<Rightarrow> bool" where
  "being_read flags z \<longleftrightarrow> (case m_pState z of None \<Rightarrow> False
     | Some st \<Rightarrow> m_zip_mode z = MZ_ZIP_MODE_READING \<and> m_pAlloc z \<noteq> None \<and> m_pFree z \<and>
         m_pRealloc z \<noteq> None \<and> reader_ok z \<and> m_init_flags st = flags \<and>
         (m_pRead z = Some Mem_read \<longrightarrow> m_zip_type z = MZ_ZIP_TYPE_MEMORY))"

text \<open>The entry list: as many entries as announced, each inside, and the index sorted by name.\<close>

definition entries_ok :: "mz_zip_internal_state \<Rightarrow> nat \<Rightarrow> nat \<Rightarrow> bool" where
  "entries_ok st archive_size total_files \<longleftrightarrow>
     length (m_central_dir_offsets st) = total_files \<and>
     (\<forall>p \<in> set (m_central_dir_offsets st). entry_ok (m_central_dir st) archive_size p)"

definition index_ok :: "mz_zip_internal_state \<Rightarrow> nat \<Rightarrow> bool" where
  "index_ok st total_files \<longleftrightarrow>
     (if m_init_flags st AND MZ_ZIP_FLAG_DO_NOT_SORT_CENTRAL_DIRECTORY = 0
      then mset (m_sorted_central_dir_offsets st) = mset [0..<total_files] \<and>
        sorted_wrt (\<lambda>i j. \<not> name_lt (m_central_dir st) (m_central_dir_offsets st) j i)
          (m_sorted_central_dir_offsets st)
      else m_sorted_central_dir_offsets st = [])"

definition wf_archive :: "mz_zip_archive \<Rightarrow> bool" where
  "wf_archive z \<longleftrightarrow> (case m_pState z of None \<Rightarrow> False
     | Some st \<Rightarrow> being_read (m_init_flags st) z \<and>
         entries_ok st (m_archive_size z) (m_total_files z) \<and> index_ok st (m_total_files z))"

definition fresh :: "mz_zip_archive \<Rightarrow> bool" where
  "fresh z \<longleftrightarrow> (case m_pState z of None \<Rightarrow> False
     | Some st \<Rightarrow> m_central_dir_offsets st = [] \<and> m_sorted_central_dir_offsets st = [])"

lemma being_read_updates [simp]:
  "being_read fl (z\<lparr>m_last_error := e\<rparr>) = being_read fl z"
  "being_read fl (z\<lparr>m_total_files := n\<rparr>) = being_read fl z"
  "being_read fl (z\<lparr>m_central_directory_file_ofs := n\<rparr>) = being_read fl z"
  by (auto simp: being_read_def reader_ok_def split: option.splits mz_file_read_func.splits)

lemma fresh_updates [simp]:
  "fresh (z\<lparr>m_last_error := e\<rparr>) = fresh z"
  "fresh (z\<lparr>m_total_files := n\<rparr>) = fresh z"
  "fresh (z\<lparr>m_central_directory_file_ofs := n\<rparr>) = fresh z"
  "fresh (z\<lparr>m_archive_size := n\<rparr>) = fresh z"
  by (auto simp: fresh_def split: option.splits)

lemma set_state_simps [simp]:
  "m_pState (set_state z st) = Some st"
  "m_archive_size (set_state z st) = m_archive_size z"
  "m_total_files (set_state z st) = m_total_files z"
  "m_zip_mode (set_state z st) = m_zip_mode z"
  "m_zip_type (set_state z st) = m_zip_type z"
  "m_pRead (set_state z st) = m_pRead z"
  "m_pAlloc (set_state z st) = m_pAlloc z"
  "m_pFree (set_state z st) = m_pFree z"
  "m_pRealloc (set_state z st) = m_pRealloc z"
  "m_heap (set_state z st) = m_heap z"
  by (simp_all add: set_state_def)

text \<open>Changing a state keeps the reader as long as memory, file and flags stay.\<close>

lemma being_read_set_state:
  assumes "being_read fl z" "m_pState z = Some st" "m_pMem st' = m_pMem st" "m_pFile st' = m_pFile st"
    "m_init_flags st' = m_init_flags st"
  shows "being_read fl (set_state z st')"
  using assms by (auto simp: being_read_def reader_ok_def split: option.splits mz_file_read_func.splits)

lemma being_read_archive_size:
  assumes "being_read fl z" "m_zip_type z \<noteq> MZ_ZIP_TYPE_MEMORY"
  shows "being_read fl (z\<lparr>m_archive_size := n\<rparr>)"
  using assms by (auto simp: being_read_def reader_ok_def split: option.splits mz_file_read_func.splits)

lemma being_read_reader: "being_read fl z \<Longrightarrow> reader_ok z"
  by (simp add: being_read_def split: option.splits)

lemma being_read_state: "being_read fl z \<Longrightarrow> \<exists>st. m_pState z = Some st \<and> m_init_flags st = fl"
  by (auto simp: being_read_def split: option.splits)

section \<open>Opening never reads out of bounds\<close>

lemma zpost_call_read:
  assumes "reader_ok z" "\<And>bs. length bs \<le> n \<Longrightarrow> zpost (f bs) P"
  shows "zpost (Option.bind (call_read z ofs n) f) P"
  using rd.read_bounded [OF assms(1), of ofs n] assms(2) by auto

lemma zpost_rd16: "i + 1 < length buf \<Longrightarrow> zpost (f (le16 buf i)) P \<Longrightarrow> zpost (Option.bind (rd16 buf i) f) P"
  by (simp add: rd16_eq)

lemma zpost_rd32: "i + 3 < length buf \<Longrightarrow> zpost (f (le32 buf i)) P \<Longrightarrow> zpost (Option.bind (rd32 buf i) f) P"
  by (simp add: rd32_eq)

lemma zpost_rd64: "i + 7 < length buf \<Longrightarrow> zpost (f (le64 buf i)) P \<Longrightarrow> zpost (Option.bind (rd64 buf i) f) P"
  by (simp add: rd64_eq)

lemma zpost_state: "m_pState z = Some st \<Longrightarrow> zpost (f st) P \<Longrightarrow> zpost (Option.bind (m_pState z) f) P"
  by simp

lemmas zpost_intros = zpost_if zpost_rd16 zpost_rd32 zpost_rd64

lemma sig_scan_defined:
  assumes "k + 3 \<le> length buf \<or> k = 0"
  shows "\<exists>hit. sig_scan A cur sig n buf k = Some hit \<and>
    (\<forall>i. hit = Some i \<longrightarrow> i < k \<and> le32 buf i = sig \<and> n \<le> sub64 A (cur + i))"
  using assms
proof (induction k)
  case (Suc k)
  then have "rd32 buf k = Some (le32 buf k)" by (intro rd32_eq) simp
  moreover obtain hit where "sig_scan A cur sig n buf k = Some hit"
      "\<forall>i. hit = Some i \<longrightarrow> i < k \<and> le32 buf i = sig \<and> n \<le> sub64 A (cur + i)"
    using Suc by auto
  ultimately show ?case by (auto intro: less_SucI)
qed simp

lemma locate_loop_defined:
  assumes "reader_ok z"
  shows "locate_loop z sig n cur \<noteq> None"
  using assms
proof (induction z sig n cur rule: locate_loop.induct)
  case (1 z sig n cur)
  define w where "w = min 4096 (sub64 (m_archive_size z) cur)"
  obtain buf where buf: "call_read z cur w = Some buf" using rd.read_defined [OF 1(2)] by blast
  show ?case
  proof (cases "length buf = w")
    case False
    then show ?thesis using buf by (subst locate_loop.simps) (simp add: w_def)
  next
    case True
    then obtain hit where hit: "sig_scan (m_archive_size z) cur sig n buf (w - 3) = Some hit"
      using sig_scan_defined [of "w - 3" buf] by fastforce
    show ?thesis
    proof (cases "hit = None \<and> \<not> (cur = 0 \<or> MZ_UINT16_MAX + u32 n \<le> sub64 (m_archive_size z) cur)")
      case True
      then have "locate_loop z sig n cur = locate_loop z sig n (sub64 cur 4093)"
        using buf hit \<open>length buf = w\<close> by (subst locate_loop.simps) (simp add: w_def)
      moreover have "locate_loop z sig n (sub64 cur 4093) \<noteq> None"
        using True buf hit \<open>length buf = w\<close> 1(2) by (intro 1(1) [OF refl, of buf hit]) (simp_all add: w_def)
      ultimately show ?thesis by simp
    next
      case False
      then show ?thesis using buf hit \<open>length buf = w\<close>
        by (subst locate_loop.simps) (auto simp: w_def split: option.splits)
    qed
  qed
qed

lemma locate_header_sig_defined:
  assumes "reader_ok z" "m_archive_size z < 2 ^ 63"
  shows "mz_zip_reader_locate_header_sig z sig n \<noteq> None"
  using assms locate_loop_defined [OF assms(1)] by (simp add: mz_zip_reader_locate_header_sig_def Let_def)

definition zip64_of :: "mz_zip_archive \<Rightarrow> bool" where
  "zip64_of z \<longleftrightarrow> (case m_pState z of None \<Rightarrow> False | Some st \<Rightarrow> m_zip64 st)"

text \<open>The shape of every phase: the reader stays usable, and on success \<open>Q\<close> holds.\<close>

definition phase :: "nat \<Rightarrow> (mz_zip_archive \<Rightarrow> 'a \<Rightarrow> bool) \<Rightarrow> mz_zip_archive \<Rightarrow> (mz_zip_error + 'a) \<Rightarrow> bool" where
  "phase fl Q z r \<longleftrightarrow> being_read fl z \<and> (case r of Inl e \<Rightarrow> m_last_error z = e | Inr a \<Rightarrow> Q z a)"

lemma phase_simps [simp]:
  "phase fl Q z (Inl e) \<longleftrightarrow> being_read fl z \<and> m_last_error z = e"
  "phase fl Q z (Inr a) \<longleftrightarrow> being_read fl z \<and> Q z a"
  by (simp_all add: phase_def)

lemma phase_zbind:
  assumes "zpost m (phase fl Q)"
    and "\<And>z a. being_read fl z \<Longrightarrow> Q z a \<Longrightarrow> zpost (f z a) (phase fl R)"
  shows "zpost (zbind m f) (phase fl R)"
  by (rule zpost_zbind [OF assms(1)]) (auto intro: assms(2))

lemma read_eocd_post:
  assumes "being_read fl z" "fresh z" "\<not> zip64_of z" "m_archive_size z < 2 ^ 63"
  shows "zpost (read_eocd z) (phase fl (\<lambda>z' (cur, buf). fresh z' \<and> \<not> zip64_of z' \<and> length buf = 22))"
proof -
  have r: "reader_ok z" using assms(1) by (rule being_read_reader)
  obtain found where "mz_zip_reader_locate_header_sig z MZ_ZIP_END_OF_CENTRAL_DIR_HEADER_SIG 22 = Some found"
    using locate_header_sig_defined [OF r assms(4)] by blast
  then show ?thesis
    using assms by (auto simp: read_eocd_def rd32_eq split: option.splits
        intro!: zpost_call_read [OF r])
qed

lemma read_zip64_locator_post:
  assumes "being_read fl z" "fresh z" "\<not> zip64_of z"
  shows "zpost (read_zip64_locator z cur)
    (phase fl (\<lambda>z' loc. fresh z' \<and> (zip64_of z' \<longrightarrow> length loc = 20)))"
proof -
  have r: "reader_ok z" using assms(1) by (rule being_read_reader)
  obtain st where st: "m_pState z = Some st" using being_read_state [OF assms(1)] by blast
  then have up: "being_read fl (set_state z (st\<lparr>m_zip64 := True\<rparr>))"
    using assms(1) by (intro being_read_set_state) simp_all
  show ?thesis
    using assms up st by (auto simp: read_zip64_locator_def rd32_eq fresh_def
        intro!: zpost_call_read [OF r])
qed

lemma eocd64_valid_defined:
  assumes "reader_ok z"
  shows "\<exists>v. mz_zip_reader_eocd64_valid z ofs = Some v \<and> (\<forall>buf. v = Some buf \<longrightarrow> length buf = 56)"
  using rd.read_bounded [OF assms, of ofs 56]
  by (auto simp: mz_zip_reader_eocd64_valid_def rd32_eq)

lemma read_eocd64_post:
  assumes "being_read fl z" "fresh z" "zip64_of z \<longrightarrow> length loc = 20"
  shows "zpost (read_eocd64 z cur loc)
    (phase fl (\<lambda>z' rec. z' = z \<and> (zip64_of z' \<longrightarrow> length rec = 56)))"
proof -
  have r: "reader_ok z" using assms(1) by (rule being_read_reader)
  obtain st where st: "m_pState z = Some st" using being_read_state [OF assms(1)] by blast
  obtain near where near: "mz_zip_reader_eocd64_valid z (cur - 20 - 56) = Some near"
      "\<forall>buf. near = Some buf \<longrightarrow> length buf = 56"
    using eocd64_valid_defined [OF r] by blast
  have there: "\<exists>v. mz_zip_reader_eocd64_valid z ofs = Some v \<and> (\<forall>buf. v = Some buf \<longrightarrow> length buf = 56)" for ofs
    using eocd64_valid_defined [OF r] by blast
  show ?thesis
  proof (cases "m_zip64 st \<and> room_for_zip64 cur \<and> near = None")
    case True
    moreover have "rd64 loc 8 = Some (le64 loc 8)"
      using True assms(3) st by (intro rd64_eq) (simp add: zip64_of_def)
    ultimately show ?thesis
      using there [of "le64 loc 8"] assms st near
      by (auto simp: read_eocd64_def zip64_of_def split: option.splits)
  next
    case False
    then show ?thesis
      using assms st near by (auto simp: read_eocd64_def zip64_of_def split: option.splits)
  qed
qed

lemma read_fields32_eq:
  assumes "length buf = 22"
  shows "read_fields32 buf = Some (le16 buf 10, \<lparr>cdir_entries_on_this_disk = le16 buf 8,
    num_this_disk = le16 buf 4, cdir_disk_index = le16 buf 6, cdir_size = le32 buf 12,
    cdir_ofs = le32 buf 16\<rparr>)"
  using assms by (simp add: read_fields32_def rd16_eq rd32_eq)

lemma read_fields64_post:
  assumes "being_read fl z" "length loc = 20" "length rec = 56" "fresh z"
  shows "zpost (read_fields64 z loc rec)
    (phase fl (\<lambda>z' f. fresh z' \<and> cdir_size f < 2 ^ 32 \<and> m_total_files z' < 2 ^ 32))"
  using assms by (auto simp: read_fields64_def rd32_eq rd64_eq Let_def)

lemma read_fields_post:
  assumes "being_read fl z" "length buf = 22" "fresh z"
    "zip64_of z \<longrightarrow> length loc = 20" "zip64_of z \<longrightarrow> length rec = 56"
  shows "zpost (read_fields z buf loc rec)
    (phase fl (\<lambda>z' f. fresh z' \<and> cdir_size f < 2 ^ 32 \<and> m_total_files z' < 2 ^ 32))"
proof -
  obtain st where st: "m_pState z = Some st" using being_read_state [OF assms(1)] by blast
  have l: "le16 buf 10 < 4294967296" by (rule less_trans [OF le16_less]) simp
  show ?thesis
  proof (cases "m_zip64 st")
    case True
    then have "zip64_of z" using st by (simp add: zip64_of_def)
    then show ?thesis
      using assms st True read_fields64_post [of fl "z\<lparr>m_total_files := le16 buf 10\<rparr>" loc rec]
      by (simp add: read_fields_def read_fields32_eq Let_def)
  next
    case False
    then show ?thesis
      using assms st l by (simp add: read_fields_def read_fields32_eq Let_def)
  qed
qed

lemma check_cdir_post:
  assumes "being_read fl z" "fresh z"
  shows "zpost (check_cdir z eocd_ofs f)
    (phase fl (\<lambda>z' _. fresh z' \<and> m_total_files z' = m_total_files z))"
proof -
  obtain st where st: "m_pState z = Some st" using being_read_state [OF assms(1)] by blast
  have up: "being_read fl ((set_state z (st\<lparr>m_file_archive_start_ofs := n\<rparr>))\<lparr>m_archive_size := k\<rparr>)"
    if "m_zip_type z \<in> {MZ_ZIP_TYPE_FILE, MZ_ZIP_TYPE_CFILE, MZ_ZIP_TYPE_USER}" for n k
    using that assms(1) st by (intro being_read_archive_size being_read_set_state [of fl z st]) auto
  have fr: "fresh (set_state z (st\<lparr>m_file_archive_start_ofs := n\<rparr>))" for n
    using assms(2) st by (simp add: fresh_def)
  show ?thesis
    unfolding check_cdir_def Let_def
    by (intro zpost_state [OF st] zpost_if) (use assms up fr in simp_all)
qed

lemma extra_walk_defined:
  assumes "pos + n \<le> length buf"
  shows "\<exists>r. extra_walk buf pos n = Some r \<and>
    (\<forall>q sz. r = Inr (Some (q, sz)) \<longrightarrow> q + sz \<le> pos + n)"
  using assms
proof (induction buf pos n rule: extra_walk.induct)
  case (1 buf pos n)
  show ?case
  proof (cases "n < 4")
    case True
    then show ?thesis by (simp add: extra_walk.simps [of buf pos n])
  next
    case False
    define sz where "sz = le16 buf (pos + 2)"
    have rd: "rd16 buf pos = Some (le16 buf pos)" "rd16 buf (pos + 2) = Some sz"
      using False 1(2) by (simp_all add: rd16_eq sz_def)
    show ?thesis
    proof (cases "n < sz + 4 \<or> le16 buf pos = 1 \<or> n - 4 - sz = 0")
      case True
      then show ?thesis using False rd by (subst extra_walk.simps) auto
    next
      case more: False
      then have "extra_walk buf pos n = extra_walk buf (pos + 4 + sz) (n - 4 - sz)"
        using False rd by (subst extra_walk.simps) simp
      moreover have "\<exists>r. extra_walk buf (pos + 4 + sz) (n - 4 - sz) = Some r \<and>
          (\<forall>q k. r = Inr (Some (q, k)) \<longrightarrow> q + k \<le> pos + 4 + sz + (n - 4 - sz))"
        using more False 1(2) by (intro 1(1) [OF False, of "le16 buf pos" sz]) (use rd in simp_all)
      ultimately show ?thesis using more by (simp add: algebra_simps)
    qed
  qed
qed

definition same_dir :: "mz_zip_internal_state \<Rightarrow> mz_zip_internal_state \<Rightarrow> bool" where
  "same_dir st st' \<longleftrightarrow> m_central_dir st' = m_central_dir st \<and>
     m_central_dir_offsets st' = m_central_dir_offsets st \<and>
     m_sorted_central_dir_offsets st' = m_sorted_central_dir_offsets st"

lemma entry_zip64_post:
  assumes br: "being_read fl z" and st: "m_pState z = Some st"
    and p: "p + n = length (m_central_dir st)" "46 \<le> n"
  shows "zpost (entry_zip64 z cdofs p n)
    (phase fl (\<lambda>z' _. \<exists>st'. m_pState z' = Some st' \<and> same_dir st st' \<and>
       m_archive_size z' = m_archive_size z \<and> m_total_files z' = m_total_files z))"
proof -
  define fn where "fn = le16 (m_central_dir st) (p + 28)"
  define ex where "ex = le16 (m_central_dir st) (p + 30)"
  have up: "being_read fl (set_state z (st\<lparr>m_zip64 := True, m_zip64_has_extended_info_fields := True\<rparr>))"
    using br st by (intro being_read_set_state) simp_all
  let ?R = "phase fl (\<lambda>z' (_::unit). \<exists>st'. m_pState z' = Some st' \<and> same_dir st st' \<and>
       m_archive_size z' = m_archive_size z \<and> m_total_files z' = m_total_files z)"
  have finish: "zpost (Option.bind (extra_walk buf pos ex)
      (\<lambda>r. case r of Inl e \<Rightarrow> mz_zip_set_error z e | Inr None \<Rightarrow> zok z ()
        | Inr (Some x) \<Rightarrow> zok (set_state z (st\<lparr>m_zip64 := True, m_zip64_has_extended_info_fields := True\<rparr>)) ())) ?R"
    if "pos + ex \<le> length buf" for buf pos
    using extra_walk_defined [OF that] br up st
    by (auto simp: same_dir_def split: sum.splits option.splits)
  have rd: "rd32 (m_central_dir st) (p + 20) = Some (le32 (m_central_dir st) (p + 20))"
    "rd32 (m_central_dir st) (p + 24) = Some (le32 (m_central_dir st) (p + 24))"
    "rd32 (m_central_dir st) (p + 42) = Some (le32 (m_central_dir st) (p + 42))"
    "rd16 (m_central_dir st) (p + 28) = Some fn"
    "rd16 (m_central_dir st) (p + 30) = Some ex"
    using p by (auto simp: rd32_eq rd16_eq fn_def ex_def)
  show ?thesis
    unfolding entry_zip64_def Let_def rd st bind.bind_lunit
    by (intro zpost_if zpost_call_read [OF being_read_reader [OF br]] finish)
      (use br st p in \<open>simp_all add: same_dir_def\<close>)
qed

lemma entry_checks_post:
  assumes br: "being_read fl z" and st: "m_pState z = Some st"
    and p: "p + n = length (m_central_dir st)" "46 \<le> n" "le32 (m_central_dir st) p = MZ_ZIP_CENTRAL_DIR_HEADER_SIG"
  shows "zpost (entry_checks z disk p n)
    (phase fl (\<lambda>z' sz. z' = z \<and> sz \<le> n \<and> entry_ok (m_central_dir st) (m_archive_size z) p))"
proof -
  let ?cd = "m_central_dir st"
  have rd: "rd32 ?cd (p + 20) = Some (le32 ?cd (p + 20))" "rd32 ?cd (p + 24) = Some (le32 ?cd (p + 24))"
    "rd32 ?cd (p + 10) = Some (le32 ?cd (p + 10))" "rd16 ?cd (p + 34) = Some (le16 ?cd (p + 34))"
    "rd32 ?cd (p + 42) = Some (le32 ?cd (p + 42))" "rd16 ?cd (p + 8) = Some (le16 ?cd (p + 8))"
    "rd16 ?cd (p + 28) = Some (le16 ?cd (p + 28))" "rd16 ?cd (p + 30) = Some (le16 ?cd (p + 30))"
    "rd16 ?cd (p + 32) = Some (le16 ?cd (p + 32))"
    using p by (auto simp: rd32_eq rd16_eq)
  show ?thesis
    unfolding entry_checks_def Let_def rd st bind.bind_lunit
    by (intro zpost_if) (use br p in \<open>auto simp: entry_ok_def\<close>)
qed

text \<open>The invariant of the loop over the entries.\<close>

definition loading :: "nat \<Rightarrow> bytes \<Rightarrow> nat \<Rightarrow> bool \<Rightarrow> nat \<Rightarrow> mz_zip_archive \<Rightarrow> bool" where
  "loading fl cd total_files sort_central_dir i z \<longleftrightarrow> being_read fl z \<and> m_total_files z = total_files \<and>
     (case m_pState z of None \<Rightarrow> False
      | Some st \<Rightarrow> m_central_dir st = cd \<and> entries_ok st (m_archive_size z) i \<and>
          m_sorted_central_dir_offsets st = (if sort_central_dir then [0..<i] else []))"

lemma read_entry_post:
  assumes inv: "loading fl cd tot srt i z" and p: "p + n = length cd" "length cd < 2 ^ 32"
  shows "zpost (read_entry z disk cdofs srt i p n)
    (phase fl (\<lambda>z' sz. sz \<le> n \<and> loading fl cd tot srt (Suc i) z'))"
proof -
  obtain st where st: "m_pState z = Some st" "m_central_dir st = cd"
      "entries_ok st (m_archive_size z) i" "m_sorted_central_dir_offsets st = (if srt then [0..<i] else [])"
    and br: "being_read fl z" and tot: "m_total_files z = tot"
    using inv by (auto simp: loading_def split: option.splits)
  show ?thesis
  proof (cases "n < 46 \<or> le32 cd p \<noteq> MZ_ZIP_CENTRAL_DIR_HEADER_SIG")
    case True
    then show ?thesis using st br p by (auto simp: read_entry_def rd32_eq)
  next
    case False
    define st1 where "st1 = st\<lparr>m_central_dir_offsets := m_central_dir_offsets st @ [u32 p],
       m_sorted_central_dir_offsets := (if srt then m_sorted_central_dir_offsets st @ [i]
         else m_sorted_central_dir_offsets st)\<rparr>"
    define z1 where "z1 = set_state z st1"
    have br1: "being_read fl z1"
      unfolding z1_def by (rule being_read_set_state [OF br st(1)]) (simp_all add: st1_def)
    have u: "u32 p = p" using p by simp
    have cd1: "m_central_dir st1 = cd" using st by (simp add: st1_def)
    have step: "read_entry z disk cdofs srt i p n = zbind (entry_zip64 z1 cdofs p n)
        (\<lambda>z _. entry_checks z disk p n)"
      using False st p by (simp add: read_entry_def rd32_eq z1_def st1_def)
    show ?thesis
      unfolding step
    proof (rule phase_zbind [OF entry_zip64_post [OF br1, of st1]])
      show "m_pState z1 = Some st1" "p + n = length (m_central_dir st1)" "46 \<le> n"
        using p False cd1 by (simp_all add: z1_def)
    next
      fix z2 and u :: unit
      assume br2: "being_read fl z2" and "\<exists>st'. m_pState z2 = Some st' \<and> same_dir st1 st' \<and>
        m_archive_size z2 = m_archive_size z1 \<and> m_total_files z2 = m_total_files z1"
      then obtain st2 where st2: "m_pState z2 = Some st2" "same_dir st1 st2"
        "m_archive_size z2 = m_archive_size z" "m_total_files z2 = tot"
        using tot by (auto simp: z1_def)
      have cd2: "m_central_dir st2 = cd" using st2(2) cd1 by (simp add: same_dir_def)
      show "zpost (entry_checks z2 disk p n)
          (phase fl (\<lambda>z' sz. sz \<le> n \<and> loading fl cd tot srt (Suc i) z'))"
      proof (rule zpost_mono [OF entry_checks_post [OF br2 st2(1)]])
        show "p + n = length (m_central_dir st2)" "46 \<le> n"
          "le32 (m_central_dir st2) p = MZ_ZIP_CENTRAL_DIR_HEADER_SIG"
          using p False cd2 by simp_all
      next
        fix z3 r
        assume "phase fl (\<lambda>z' sz. z' = z2 \<and> sz \<le> n \<and> entry_ok (m_central_dir st2) (m_archive_size z2) p) z3 r"
        then show "phase fl (\<lambda>z' sz. sz \<le> n \<and> loading fl cd tot srt (Suc i) z') z3 r"
          using st2 br2 st cd2 u
          by (cases r) (auto simp: loading_def same_dir_def entries_ok_def st1_def)
      qed
    qed
  qed
qed

lemma read_entries_post:
  assumes "loading fl cd tot srt i z" "p + n = length cd" "length cd < 2 ^ 32"
  shows "zpost (read_entries z disk cdofs srt left i p n)
    (phase fl (\<lambda>z' _. loading fl cd tot srt (i + left) z'))"
  using assms
proof (induction left arbitrary: z i p n)
  case 0
  then show ?case by (simp add: loading_def)
next
  case (Suc left)
  show ?case
    unfolding read_entries.simps
  proof (rule phase_zbind [OF read_entry_post [OF Suc.prems]])
    fix z' sz
    assume "sz \<le> n \<and> loading fl cd tot srt (Suc i) z'"
    then show "zpost (read_entries z' disk cdofs srt left (i + 1) (p + sz) (n - sz))
        (phase fl (\<lambda>z' _. loading fl cd tot srt (i + Suc left) z'))"
      using Suc.IH [of "Suc i" z' "p + sz" "n - sz"] Suc.prems by simp
  qed
qed

lemma load_cdir_post:
  assumes "being_read fl z" "fresh z" "cdir_size f < 2 ^ 32"
  shows "zpost (load_cdir z f srt)
    (phase fl (\<lambda>z' _. \<exists>cd. loading fl cd (m_total_files z') srt (m_total_files z') z'))"
proof -
  have r: "reader_ok z" using assms(1) by (rule being_read_reader)
  obtain st where st: "m_pState z = Some st" using being_read_state [OF assms(1)] by blast
  have start: "loading fl (m_central_dir st) (m_total_files z) srt 0 z"
    using assms(1,2) st by (simp add: loading_def entries_ok_def fresh_def)
  obtain realloc where ra: "m_pRealloc z = Some realloc"
    using assms(1) st by (auto simp: being_read_def)
  show ?thesis
  proof (cases "m_total_files z = 0")
    case True
    then show ?thesis using start assms(1) by (auto simp: load_cdir_def)
  next
    case False
    have entries: "zpost (read_entries (set_state z (st\<lparr>m_central_dir := dir\<rparr>)) (num_this_disk f) (cdir_ofs f)
        srt (m_total_files z) 0 0 (cdir_size f))
      (phase fl (\<lambda>z' _. \<exists>cd. loading fl cd (m_total_files z') srt (m_total_files z') z'))"
      if "length dir = cdir_size f" for dir
    proof (rule zpost_mono [OF read_entries_post])
      have "being_read fl (set_state z (st\<lparr>m_central_dir := dir\<rparr>))"
        by (rule being_read_set_state [OF assms(1) st]) simp_all
      then show "loading fl dir (m_total_files z) srt 0 (set_state z (st\<lparr>m_central_dir := dir\<rparr>))"
        using assms(2) st by (simp add: loading_def entries_ok_def fresh_def)
      show "0 + cdir_size f = length dir" "length dir < 2 ^ 32" using that assms(3) by simp_all
    next
      fix z' r
      assume "phase fl (\<lambda>z' _. loading fl dir (m_total_files z) srt (0 + m_total_files z) z') z' r"
      then show "phase fl (\<lambda>z' _. \<exists>cd. loading fl cd (m_total_files z') srt (m_total_files z') z') z' r"
        by (cases r) (auto simp: loading_def intro!: exI [of _ dir] split: option.splits)
    qed
    have rs: "mz_zip_array_resize z k n = Some (n = 0 \<or> realloc k n)" for k n
      using ra by (simp add: mz_zip_array_resize_def)
    show ?thesis
      unfolding load_cdir_def rs bind.bind_lunit
      by (intro zpost_if zpost_call_read [OF r]) (use False assms(1) st entries in simp_all)
  qed
qed

lemma entry_ok_name_in: "entry_ok cd n p \<Longrightarrow> name_in cd p"
  by (simp add: entry_ok_def name_in_def)

lemma sorted_archive_wf:
  assumes "loading fl cd (m_total_files z) True (m_total_files z) z"
    and "fl AND MZ_ZIP_FLAG_DO_NOT_SORT_CENTRAL_DIRECTORY = 0"
  shows "\<exists>z'. mz_zip_reader_sort_central_dir_offsets_by_filename z = Some z' \<and>
    being_read fl z' \<and> wf_archive z'"
proof -
  obtain st where st: "m_pState z = Some st" "m_central_dir st = cd"
      "entries_ok st (m_archive_size z) (m_total_files z)" "m_sorted_central_dir_offsets st = [0..<m_total_files z]"
    and br: "being_read fl z"
    using assms(1) by (auto simp: loading_def split: option.splits)
  have fl: "m_init_flags st = fl" using being_read_state [OF br] st(1) by simp
  have "set (m_sorted_central_dir_offsets st) \<subseteq> named (m_central_dir st) (m_central_dir_offsets st)"
    using st(3,4) by (auto simp: named_def entries_ok_def intro!: entry_ok_name_in)
  then obtain idx where idx: "mz_zip_reader_sort_central_dir_offsets_by_filename z =
        Some (z\<lparr>m_pState := Some (st\<lparr>m_sorted_central_dir_offsets := idx\<rparr>)\<rparr>)"
      "mset idx = mset (m_sorted_central_dir_offsets st)"
      "sorted_wrt (\<lambda>i j. \<not> name_lt (m_central_dir st) (m_central_dir_offsets st) j i) idx"
    using sort_central_dir_correct [OF st(1)] st(4) by auto
  have br': "being_read fl (set_state z (st\<lparr>m_sorted_central_dir_offsets := idx\<rparr>))"
    by (rule being_read_set_state [OF br st(1)]) simp_all
  moreover have "wf_archive (set_state z (st\<lparr>m_sorted_central_dir_offsets := idx\<rparr>))"
    using br' st(3,4) idx assms(2) fl
    by (simp add: wf_archive_def entries_ok_def index_ok_def)
  ultimately show ?thesis using idx(1) by (simp add: set_state_def)
qed

text \<open>Loading and sorting, as the last phase of \<^verbatim>\<open>mz_zip_reader_read_central_dir\<close>.\<close>

lemma load_and_sort_post:
  assumes "being_read flags z" "fresh z" "cdir_size f < 2 ^ 32"
  defines "srt \<equiv> flags AND MZ_ZIP_FLAG_DO_NOT_SORT_CENTRAL_DIRECTORY = 0"
  shows "zpost (zbind (load_cdir z f srt) (\<lambda>z _. if srt
      then do { z \<leftarrow> mz_zip_reader_sort_central_dir_offsets_by_filename z; zok z () }
      else zok z ())) (phase flags (\<lambda>z' _. wf_archive z'))"
proof (rule phase_zbind [OF load_cdir_post [OF assms(1-3)]], elim exE)
  fix z' cd and u :: unit
  assume z': "being_read flags z'" "loading flags cd (m_total_files z') srt (m_total_files z') z'"
  show "zpost (if srt then do { z \<leftarrow> mz_zip_reader_sort_central_dir_offsets_by_filename z'; zok z () }
      else zok z' ()) (phase flags (\<lambda>z' _. wf_archive z'))"
  proof (cases srt)
    case True
    then show ?thesis using sorted_archive_wf [of flags cd z'] z' by (auto simp: srt_def)
  next
    case False
    then have "wf_archive z'"
      using z' being_read_state [OF z'(1)]
      by (auto simp: loading_def wf_archive_def index_ok_def srt_def)
    then show ?thesis using False z' by simp
  qed
qed

lemma read_central_dir_post:
  assumes "being_read flags z" "fresh z" "\<not> zip64_of z" "m_archive_size z < 2 ^ 63"
  shows "zpost (mz_zip_reader_read_central_dir z flags) (phase flags (\<lambda>z' _. wf_archive z'))"
  unfolding mz_zip_reader_read_central_dir_def Let_def
  apply (rule phase_zbind [OF read_eocd_post [OF assms]], clarsimp)
  apply (rule phase_zbind [OF read_zip64_locator_post], assumption+, elim conjE)
  apply (rule phase_zbind [OF read_eocd64_post], assumption+, elim conjE, hypsubst)
  apply (rule phase_zbind [OF read_fields_post], assumption+, elim conjE)
  apply (rule phase_zbind [OF check_cdir_post], assumption+, elim conjE)
  apply (rule load_and_sort_post, assumption+)
  done

text \<open>
  The outcome of an opening call: an archive satisfying \<open>wf_archive\<close>, or the error that
  \<^verbatim>\<open>mz_zip_get_last_error\<close> then reports and a closed reader.
\<close>

definition opened :: "nat \<Rightarrow> mz_zip_archive \<Rightarrow> (mz_zip_error + unit) \<Rightarrow> bool" where
  "opened flags z r \<longleftrightarrow> (case r of
      Inr _ \<Rightarrow> wf_archive z \<and> being_read flags z
    | Inl e \<Rightarrow> m_last_error z = e \<and> m_pState z = None)"

lemma end_internal_closes:
  assumes "being_read fl z"
  shows "\<exists>z' r. mz_zip_reader_end_internal z False = Some (z', r) \<and> m_last_error z' = m_last_error z \<and>
    m_pState z' = None \<and> m_zip_mode z' = MZ_ZIP_MODE_INVALID"
  using assms by (auto simp: being_read_def mz_zip_reader_end_internal_def Let_def split: option.splits)

lemma finish_init_post:
  assumes "being_read flags z" "fresh z" "\<not> zip64_of z" "m_archive_size z < 2 ^ 63"
  shows "zpost (finish_init z flags) (opened flags)"
proof -
  obtain z' r where zr: "mz_zip_reader_read_central_dir z flags = Some (z', r)"
      "phase flags (\<lambda>z' _. wf_archive z') z' r"
    using read_central_dir_post [OF assms] by (auto simp: zpost_def split: option.splits)
  show ?thesis
  proof (cases r)
    case (Inl e)
    then show ?thesis using zr end_internal_closes [of flags z']
      by (auto simp: finish_init_def opened_def)
  next
    case (Inr u)
    then show ?thesis using zr by (simp add: finish_init_def opened_def)
  qed
qed

lemma init_internal_post:
  assumes "m_pState z = None"
  shows "zpost (mz_zip_reader_init_internal z flags) (\<lambda>z' r. (case r of
      Inl e \<Rightarrow> m_last_error z' = e \<and> m_pState z' = None
    | Inr _ \<Rightarrow> m_pState z' = Some (zero_state flags) \<and> m_zip_mode z' = MZ_ZIP_MODE_READING \<and>
        m_pAlloc z' \<noteq> None \<and> m_pFree z' \<and> m_pRealloc z' \<noteq> None \<and> m_pRead z' = m_pRead z))"
  using assms by (simp add: mz_zip_reader_init_internal_def Let_def)

lemma init_internal_then:
  assumes "m_pState z = None"
    and "\<And>z'. m_pState z' = Some (zero_state flags) \<Longrightarrow> m_zip_mode z' = MZ_ZIP_MODE_READING \<Longrightarrow>
      m_pAlloc z' \<noteq> None \<Longrightarrow> m_pFree z' \<Longrightarrow> m_pRealloc z' \<noteq> None \<Longrightarrow> m_pRead z' = m_pRead z \<Longrightarrow>
      zpost (f z' ()) (opened flags)"
  shows "zpost (zbind (mz_zip_reader_init_internal z flags) f) (opened flags)"
  by (rule zpost_zbind [OF init_internal_post [OF assms(1)]])
    (auto simp: opened_def intro: assms(2))

lemma init_file_post:
  assumes "length contents < 2 ^ 63" and "archive_size < 2 ^ 63" and "m_pState z = None"
  shows "zpost (mz_zip_reader_init_file_v2 z (Some contents) fseek_end flags file_start_ofs archive_size)
    (opened flags)"
proof -
  have "zpost (zbind (mz_zip_reader_init_internal z flags) (\<lambda>z _. do {
      st \<leftarrow> m_pState z;
      finish_init (set_state (z\<lparr>m_zip_type := MZ_ZIP_TYPE_FILE, m_pRead := Some File_read,
        m_archive_size := n\<rparr>)
        (st\<lparr>m_pFile := Some contents, m_file_archive_start_ofs := file_start_ofs\<rparr>)) flags
    })) (opened flags)" if "n < 2 ^ 63" for n
    by (rule init_internal_then [OF assms(3)])
      (use assms that in \<open>auto simp: zero_state_def being_read_def fresh_def zip64_of_def reader_ok_def
        intro!: finish_init_post\<close>)
  then show ?thesis
    unfolding mz_zip_reader_init_file_v2_def option.case Let_def
    by (intro zpost_if) (use assms in \<open>simp_all add: opened_def\<close>)
qed

section \<open>Properties\<close>

text \<open>C1. Opening an archive in memory has defined behaviour on every byte sequence, whatever its
  headers say: no read leaves the buffer. Success leaves a well-formed archive, whose directory
  entries all lie inside it and whose name index is a sorted permutation of the entries; failure
  leaves a closed reader and the error code of the check that failed.\<close>

theorem init_mem_safe:
  assumes "sz \<le> length mem" and "sz < 2 ^ 63" and "m_pState z = None"
  shows "zpost (mz_zip_reader_init_mem z (Some mem) sz flags) (opened flags)"
proof -
  have "zpost (zbind (mz_zip_reader_init_internal z flags) (\<lambda>z _. do {
      st \<leftarrow> m_pState z;
      finish_init (set_state (z\<lparr>m_zip_type := MZ_ZIP_TYPE_MEMORY, m_archive_size := sz,
        m_pRead := Some Mem_read\<rparr>) (st\<lparr>m_pMem := Some mem, m_mem_size := sz\<rparr>)) flags
    })) (opened flags)"
    by (rule init_internal_then [OF assms(3)])
      (use assms in \<open>auto simp: zero_state_def being_read_def fresh_def zip64_of_def reader_ok_def
        intro!: finish_init_post\<close>)
  then show ?thesis
    using assms by (simp add: mz_zip_reader_init_mem_def opened_def)
qed


text \<open>A cleared archive structure whose environment grants every request, for the witnesses.\<close>

definition cleared :: mz_zip_archive where
  "cleared = \<lparr>m_archive_size = 0, m_central_directory_file_ofs = 0, m_total_files = 0,
     m_zip_mode = MZ_ZIP_MODE_INVALID, m_zip_type = MZ_ZIP_TYPE_INVALID,
     m_last_error = MZ_ZIP_NO_ERROR, m_pAlloc = None, m_pFree = False, m_pRealloc = None,
     m_pRead = None, m_pState = None, m_heap = (\<lambda>_ _. True), m_fclose = True\<rparr>"

definition empty_zip :: bytes where
  "empty_zip = [0x50, 0x4b, 5, 6] @ replicate 18 0"

lemma init_mem_safe_witness:
  "zpost (mz_zip_reader_init_mem cleared (Some empty_zip) 22 0) (opened 0)"
  by (rule init_mem_safe) (simp_all add: cleared_def empty_zip_def)


end
