(* ===== verification/ZipStat.thy ===== *)
theory ZipStat
  imports ZipReader
begin

unbundle bit_operations_syntax

text \<open>
  The queries on one entry of an open archive (\<^verbatim>\<open>mz_zip_reader_is_file_encrypted\<close>,
  \<^verbatim>\<open>..._is_file_supported\<close>, \<^verbatim>\<open>..._is_file_a_directory\<close>, \<^verbatim>\<open>..._get_filename\<close>,
  \<^verbatim>\<open>mz_zip_file_stat_internal\<close>) and the accessors at the end of \<^verbatim>\<open>miniz.c\<close>. On a well-formed
  archive every query is defined for every index and leaves the archive as it was, the error
  code apart.
\<close>

section \<open>Queries\<close>

text \<open>\<open>Some None\<close> is the null pointer, \<open>Some (Some p)\<close> an offset in the central directory.\<close>

definition mz_zip_get_cdh :: "mz_zip_archive \<Rightarrow> nat \<Rightarrow> nat option option" where
  "mz_zip_get_cdh pZip file_index =
     (case m_pState pZip of
        None \<Rightarrow> Some None
      | Some st \<Rightarrow>
          if m_total_files pZip \<le> file_index then Some None
          else do { p \<leftarrow> nth_o (m_central_dir_offsets st) file_index; Some (Some p) })"

text \<open>A query answers the archive, with its error code, and a truth value.\<close>

type_synonym query = "(mz_zip_archive \<times> bool) option"

definition with_cdh :: "mz_zip_archive \<Rightarrow> nat \<Rightarrow> (bytes \<Rightarrow> nat \<Rightarrow> query) \<Rightarrow> query" where
  "with_cdh pZip file_index f = do {
     p \<leftarrow> mz_zip_get_cdh pZip file_index;
     (case p of
        None \<Rightarrow> Some (pZip\<lparr>m_last_error := MZ_ZIP_INVALID_PARAMETER\<rparr>, False)
      | Some p \<Rightarrow> do { st \<leftarrow> m_pState pZip; f (m_central_dir st) p })
   }"

definition mz_zip_reader_is_file_encrypted :: "mz_zip_archive \<Rightarrow> nat \<Rightarrow> query" where
  "mz_zip_reader_is_file_encrypted pZip file_index =
     with_cdh pZip file_index (\<lambda>cd p. do {
       bit_flag \<leftarrow> rd16 cd (p + MZ_ZIP_CDH_BIT_FLAG_OFS);
       Some (pZip, bit_flag AND (1 OR 64) \<noteq> 0)
     })"

definition mz_zip_reader_is_file_supported :: "mz_zip_archive \<Rightarrow> nat \<Rightarrow> query" where
  "mz_zip_reader_is_file_supported pZip file_index =
     with_cdh pZip file_index (\<lambda>cd p. do {
       method \<leftarrow> rd16 cd (p + MZ_ZIP_CDH_METHOD_OFS);
       bit_flag \<leftarrow> rd16 cd (p + MZ_ZIP_CDH_BIT_FLAG_OFS);
       Some (if method \<noteq> 0 \<and> method \<noteq> 8
         then (pZip\<lparr>m_last_error := MZ_ZIP_UNSUPPORTED_METHOD\<rparr>, False)
         else if bit_flag AND (1 OR 64) \<noteq> 0
         then (pZip\<lparr>m_last_error := MZ_ZIP_UNSUPPORTED_ENCRYPTION\<rparr>, False)
         else if bit_flag AND 32 \<noteq> 0
         then (pZip\<lparr>m_last_error := MZ_ZIP_UNSUPPORTED_FEATURE\<rparr>, False)
         else (pZip, True))
     })"

definition mz_zip_reader_is_file_a_directory :: "mz_zip_archive \<Rightarrow> nat \<Rightarrow> query" where
  "mz_zip_reader_is_file_a_directory pZip file_index =
     with_cdh pZip file_index (\<lambda>cd p. do {
       filename_len \<leftarrow> rd16 cd (p + MZ_ZIP_CDH_FILENAME_LEN_OFS);
       last \<leftarrow> (if filename_len \<noteq> 0
         then rd8 cd (p + MZ_ZIP_CENTRAL_DIR_HEADER_SIZE + filename_len - 1) else Some 0);
       (if filename_len \<noteq> 0 \<and> last = 47 then Some (pZip, True)
        else do {
          external_attr \<leftarrow> rd32 cd (p + MZ_ZIP_CDH_EXTERNAL_ATTR_OFS);
          Some (pZip, external_attr AND 0x10 \<noteq> 0)
        })
     })"

text \<open>\<^verbatim>\<open>mz_zip_reader_get_filename\<close>: the bytes written before the zero, and the value returned.\<close>

definition mz_zip_reader_get_filename ::
    "mz_zip_archive \<Rightarrow> nat \<Rightarrow> nat \<Rightarrow> (mz_zip_archive \<times> bytes \<times> nat) option" where
  "mz_zip_reader_get_filename pZip file_index filename_buf_size = do {
     p \<leftarrow> mz_zip_get_cdh pZip file_index;
     (case p of
        None \<Rightarrow> Some (pZip\<lparr>m_last_error := MZ_ZIP_INVALID_PARAMETER\<rparr>, [], 0)
      | Some p \<Rightarrow> do {
          st \<leftarrow> m_pState pZip;
          n \<leftarrow> rd16 (m_central_dir st) (p + MZ_ZIP_CDH_FILENAME_LEN_OFS);
          (if filename_buf_size = 0 then Some (pZip, [], n + 1)
           else let n = min n (filename_buf_size - 1) in do {
             name \<leftarrow> rdn (m_central_dir st) (p + MZ_ZIP_CENTRAL_DIR_HEADER_SIZE) n;
             Some (pZip, name, n + 1)
           })
        })
   }"

text \<open>\<^verbatim>\<open>mz_zip_dos_to_time_t\<close>, up to the call of \<^verbatim>\<open>mktime\<close>.\<close>

definition mz_zip_dos_to_tm :: "nat \<Rightarrow> nat \<Rightarrow> tm" where
  "mz_zip_dos_to_tm dos_time dos_date =
     \<lparr>tm_year = int (drop_bit 9 dos_date AND 127) + 1980 - 1900,
      tm_mon = int (drop_bit 5 dos_date AND 15) - 1,
      tm_mday = int (dos_date AND 31),
      tm_hour = int (drop_bit 11 dos_time AND 31),
      tm_min = int (drop_bit 5 dos_time AND 63),
      tm_sec = int (push_bit 1 dos_time AND 62),
      tm_isdst = - 1\<rparr>"

section \<open>The file statistics\<close>

text \<open>The fixed fields of the record at \<open>p\<close>, with the name and the comment cut to 511 bytes.\<close>

definition stat_fields :: "mz_zip_internal_state \<Rightarrow> nat \<Rightarrow> nat \<Rightarrow> mz_zip_archive_file_stat option" where
  "stat_fields st file_index p = do {
     let cd = m_central_dir st;
     ofs \<leftarrow> nth_o (m_central_dir_offsets st) file_index;
     made_by \<leftarrow> rd16 cd (p + MZ_ZIP_CDH_VERSION_MADE_BY_OFS);
     needed \<leftarrow> rd16 cd (p + MZ_ZIP_CDH_VERSION_NEEDED_OFS);
     bit_flag \<leftarrow> rd16 cd (p + MZ_ZIP_CDH_BIT_FLAG_OFS);
     method \<leftarrow> rd16 cd (p + MZ_ZIP_CDH_METHOD_OFS);
     dos_time \<leftarrow> rd16 cd (p + MZ_ZIP_CDH_FILE_TIME_OFS);
     dos_date \<leftarrow> rd16 cd (p + MZ_ZIP_CDH_FILE_DATE_OFS);
     crc \<leftarrow> rd32 cd (p + MZ_ZIP_CDH_CRC32_OFS);
     comp \<leftarrow> rd32 cd (p + MZ_ZIP_CDH_COMPRESSED_SIZE_OFS);
     uncomp \<leftarrow> rd32 cd (p + MZ_ZIP_CDH_DECOMPRESSED_SIZE_OFS);
     internal \<leftarrow> rd16 cd (p + MZ_ZIP_CDH_INTERNAL_ATTR_OFS);
     external \<leftarrow> rd32 cd (p + MZ_ZIP_CDH_EXTERNAL_ATTR_OFS);
     local_ofs \<leftarrow> rd32 cd (p + MZ_ZIP_CDH_LOCAL_HEADER_OFS);
     name_len \<leftarrow> rd16 cd (p + MZ_ZIP_CDH_FILENAME_LEN_OFS);
     extra_len \<leftarrow> rd16 cd (p + MZ_ZIP_CDH_EXTRA_LEN_OFS);
     comment_len \<leftarrow> rd16 cd (p + MZ_ZIP_CDH_COMMENT_LEN_OFS);
     name \<leftarrow> rdn cd (p + MZ_ZIP_CENTRAL_DIR_HEADER_SIZE) (min name_len 511);
     comment \<leftarrow> rdn cd (p + MZ_ZIP_CENTRAL_DIR_HEADER_SIZE + name_len + extra_len) (min comment_len 511);
     Some \<lparr>m_file_index = file_index, m_central_dir_ofs = ofs, m_version_made_by = made_by,
       m_version_needed = needed, m_bit_flag = bit_flag, m_method = method, m_crc32 = crc,
       m_comp_size = comp, m_uncomp_size = uncomp, m_internal_attr = internal,
       m_external_attr = external, m_local_header_ofs = local_ofs,
       m_comment_size = min comment_len 511, m_is_directory = False, m_is_encrypted = False,
       m_is_supported = False, m_filename = name, m_comment = comment,
       m_time = mz_zip_dos_to_tm dos_time dos_date\<rparr>
   }"

text \<open>One 64-bit value of the zip64 field, taken when the 32-bit one is all ones.\<close>

definition zip64_value :: "bytes \<Rightarrow> nat \<Rightarrow> nat \<Rightarrow> nat \<Rightarrow> (mz_zip_error + nat \<times> nat \<times> nat) option" where
  "zip64_value cd v pField_data field_data_remaining =
     (if v \<noteq> MZ_UINT32_MAX then Some (Inr (v, pField_data, field_data_remaining))
      else if field_data_remaining < 8 then Some (Inl MZ_ZIP_INVALID_HEADER_OR_CORRUPTED)
      else do {
        x \<leftarrow> rd64 cd pField_data;
        Some (Inr (x, pField_data + 8, field_data_remaining - 8))
      })"

text \<open>The three values in the order of the format: uncompressed size, compressed size, offset.\<close>

definition zip64_fields ::
    "bytes \<Rightarrow> mz_zip_archive_file_stat \<Rightarrow> nat \<Rightarrow> nat \<Rightarrow> (mz_zip_error + mz_zip_archive_file_stat) option" where
  "zip64_fields cd s q n = do {
     u \<leftarrow> zip64_value cd (m_uncomp_size s) q n;
     (case u of Inl e \<Rightarrow> Some (Inl e) | Inr (uncomp, q, n) \<Rightarrow> do {
       c \<leftarrow> zip64_value cd (m_comp_size s) q n;
       (case c of Inl e \<Rightarrow> Some (Inl e) | Inr (csize, q, n) \<Rightarrow> do {
         l \<leftarrow> zip64_value cd (m_local_header_ofs s) q n;
         Some (case l of Inl e \<Rightarrow> Inl e | Inr (ofs, _) \<Rightarrow>
           Inr (s\<lparr>m_uncomp_size := uncomp, m_comp_size := csize, m_local_header_ofs := ofs\<rparr>))
       })
     })
   }"

text \<open>The statistics, and whether a zip64 field was found.\<close>

definition mz_zip_file_stat_internal ::
    "mz_zip_archive \<Rightarrow> nat \<Rightarrow> nat option \<Rightarrow> (mz_zip_archive_file_stat \<times> bool) zret" where
  "mz_zip_file_stat_internal pZip file_index cdh =
     (case cdh of
        None \<Rightarrow> mz_zip_set_error pZip MZ_ZIP_INVALID_PARAMETER
      | Some p \<Rightarrow> do {
          st \<leftarrow> m_pState pZip;
          s \<leftarrow> stat_fields st file_index p;
          (pZip, dir) \<leftarrow> mz_zip_reader_is_file_a_directory pZip file_index;
          (pZip, enc) \<leftarrow> mz_zip_reader_is_file_encrypted pZip file_index;
          (pZip, sup) \<leftarrow> mz_zip_reader_is_file_supported pZip file_index;
          (let s = s\<lparr>m_is_directory := dir, m_is_encrypted := enc, m_is_supported := sup\<rparr>;
               cd = m_central_dir st
           in do {
             extra_len \<leftarrow> rd16 cd (p + MZ_ZIP_CDH_EXTRA_LEN_OFS);
             name_len \<leftarrow> rd16 cd (p + MZ_ZIP_CDH_FILENAME_LEN_OFS);
             (if \<not> needs_zip64 (m_comp_size s) (m_uncomp_size s) (m_local_header_ofs s) \<or> extra_len = 0
              then zok pZip (s, False)
              else do {
                w \<leftarrow> extra_walk cd (p + MZ_ZIP_CENTRAL_DIR_HEADER_SIZE + name_len) extra_len;
                (case w of
                   Inl e \<Rightarrow> mz_zip_set_error pZip e
                 | Inr None \<Rightarrow> zok pZip (s, False)
                 | Inr (Some (q, n)) \<Rightarrow> do {
                     r \<leftarrow> zip64_fields cd s q n;
                     (case r of
                        Inl e \<Rightarrow> mz_zip_set_error pZip e
                      | Inr s \<Rightarrow> zok pZip (s, True))
                   })
              })
           })
        })"

definition mz_zip_reader_file_stat :: "mz_zip_archive \<Rightarrow> nat \<Rightarrow> mz_zip_archive_file_stat zret" where
  "mz_zip_reader_file_stat pZip file_index = do {
     p \<leftarrow> mz_zip_get_cdh pZip file_index;
     zbind (mz_zip_file_stat_internal pZip file_index p) (\<lambda>pZip (s, found). zok pZip s)
   }"

section \<open>Accessors\<close>

definition mz_zip_set_last_error :: "mz_zip_archive \<Rightarrow> mz_zip_error \<Rightarrow> mz_zip_archive \<times> mz_zip_error" where
  "mz_zip_set_last_error pZip err_num = (pZip\<lparr>m_last_error := err_num\<rparr>, m_last_error pZip)"

definition mz_zip_peek_last_error :: "mz_zip_archive \<Rightarrow> mz_zip_error" where
  "mz_zip_peek_last_error pZip = m_last_error pZip"

definition mz_zip_clear_last_error :: "mz_zip_archive \<Rightarrow> mz_zip_archive \<times> mz_zip_error" where
  "mz_zip_clear_last_error pZip = mz_zip_set_last_error pZip MZ_ZIP_NO_ERROR"

definition mz_zip_get_last_error :: "mz_zip_archive \<Rightarrow> mz_zip_archive \<times> mz_zip_error" where
  "mz_zip_get_last_error pZip = (pZip\<lparr>m_last_error := MZ_ZIP_NO_ERROR\<rparr>, m_last_error pZip)"

definition mz_zip_is_zip64 :: "mz_zip_archive \<Rightarrow> bool" where
  "mz_zip_is_zip64 pZip = (case m_pState pZip of None \<Rightarrow> False | Some st \<Rightarrow> m_zip64 st)"

definition mz_zip_get_central_dir_size :: "mz_zip_archive \<Rightarrow> nat" where
  "mz_zip_get_central_dir_size pZip =
     (case m_pState pZip of None \<Rightarrow> 0 | Some st \<Rightarrow> length (m_central_dir st))"

definition mz_zip_reader_get_num_files :: "mz_zip_archive \<Rightarrow> nat" where
  "mz_zip_reader_get_num_files pZip = m_total_files pZip"

definition mz_zip_get_archive_file_start_offset :: "mz_zip_archive \<Rightarrow> nat" where
  "mz_zip_get_archive_file_start_offset pZip =
     (case m_pState pZip of None \<Rightarrow> 0 | Some st \<Rightarrow> m_file_archive_start_ofs st)"

definition mz_zip_read_archive_data :: "mz_zip_archive \<Rightarrow> nat \<Rightarrow> nat \<Rightarrow> (mz_zip_archive \<times> bytes) option" where
  "mz_zip_read_archive_data pZip file_ofs n =
     (if m_pState pZip = None \<or> m_pRead pZip = None
      then Some (pZip\<lparr>m_last_error := MZ_ZIP_INVALID_PARAMETER\<rparr>, [])
      else do { bs \<leftarrow> call_read pZip file_ofs n; Some (pZip, bs) })"

definition mz_zip_get_error_string :: "mz_zip_error \<Rightarrow> string" where
  "mz_zip_get_error_string mz_err = (case mz_err of
      MZ_ZIP_NO_ERROR \<Rightarrow> ''no error''
    | MZ_ZIP_UNDEFINED_ERROR \<Rightarrow> ''undefined error''
    | MZ_ZIP_TOO_MANY_FILES \<Rightarrow> ''too many files''
    | MZ_ZIP_FILE_TOO_LARGE \<Rightarrow> ''file too large''
    | MZ_ZIP_UNSUPPORTED_METHOD \<Rightarrow> ''unsupported method''
    | MZ_ZIP_UNSUPPORTED_ENCRYPTION \<Rightarrow> ''unsupported encryption''
    | MZ_ZIP_UNSUPPORTED_FEATURE \<Rightarrow> ''unsupported feature''
    | MZ_ZIP_FAILED_FINDING_CENTRAL_DIR \<Rightarrow> ''failed finding central directory''
    | MZ_ZIP_NOT_AN_ARCHIVE \<Rightarrow> ''not a ZIP archive''
    | MZ_ZIP_INVALID_HEADER_OR_CORRUPTED \<Rightarrow> ''invalid header or archive is corrupted''
    | MZ_ZIP_UNSUPPORTED_MULTIDISK \<Rightarrow> ''unsupported multidisk archive''
    | MZ_ZIP_DECOMPRESSION_FAILED \<Rightarrow> ''decompression failed or archive is corrupted''
    | MZ_ZIP_COMPRESSION_FAILED \<Rightarrow> ''compression failed''
    | MZ_ZIP_UNEXPECTED_DECOMPRESSED_SIZE \<Rightarrow> ''unexpected decompressed size''
    | MZ_ZIP_CRC_CHECK_FAILED \<Rightarrow> ''CRC-32 check failed''
    | MZ_ZIP_UNSUPPORTED_CDIR_SIZE \<Rightarrow> ''unsupported central directory size''
    | MZ_ZIP_ALLOC_FAILED \<Rightarrow> ''allocation failed''
    | MZ_ZIP_FILE_OPEN_FAILED \<Rightarrow> ''file open failed''
    | MZ_ZIP_FILE_CREATE_FAILED \<Rightarrow> ''file create failed''
    | MZ_ZIP_FILE_WRITE_FAILED \<Rightarrow> ''file write failed''
    | MZ_ZIP_FILE_READ_FAILED \<Rightarrow> ''file read failed''
    | MZ_ZIP_FILE_CLOSE_FAILED \<Rightarrow> ''file close failed''
    | MZ_ZIP_FILE_SEEK_FAILED \<Rightarrow> ''file seek failed''
    | MZ_ZIP_FILE_STAT_FAILED \<Rightarrow> ''file stat failed''
    | MZ_ZIP_INVALID_PARAMETER \<Rightarrow> ''invalid parameter''
    | MZ_ZIP_INVALID_FILENAME \<Rightarrow> ''invalid filename''
    | MZ_ZIP_BUF_TOO_SMALL \<Rightarrow> ''buffer too small''
    | MZ_ZIP_INTERNAL_ERROR \<Rightarrow> ''internal error''
    | MZ_ZIP_FILE_NOT_FOUND \<Rightarrow> ''file not found''
    | MZ_ZIP_ARCHIVE_TOO_LARGE \<Rightarrow> ''archive is too large''
    | MZ_ZIP_VALIDATION_FAILED \<Rightarrow> ''validation failed''
    | MZ_ZIP_WRITE_CALLBACK_FAILED \<Rightarrow> ''write callback failed'')"

section \<open>Queries on a well-formed archive\<close>

text \<open>The header of entry \<open>i\<close>, and its fields by name.\<close>

definition cdh_of :: "mz_zip_archive \<Rightarrow> nat \<Rightarrow> bytes \<times> nat" where
  "cdh_of z i = (case m_pState z of None \<Rightarrow> ([], 0)
     | Some st \<Rightarrow> (m_central_dir st, m_central_dir_offsets st ! i))"

lemma wf_archive_entry:
  assumes "wf_archive z" "i < m_total_files z"
  shows "\<exists>st. m_pState z = Some st \<and> cdh_of z i = (m_central_dir st, m_central_dir_offsets st ! i) \<and>
    mz_zip_get_cdh z i = Some (Some (m_central_dir_offsets st ! i)) \<and>
    entry_ok (m_central_dir st) (m_archive_size z) (m_central_dir_offsets st ! i) \<and>
    i < length (m_central_dir_offsets st)"
  using assms
  by (auto simp: wf_archive_def entries_ok_def cdh_of_def mz_zip_get_cdh_def nth_o_def
      split: option.splits)

lemma get_cdh_out_of_range: "m_total_files z \<le> i \<Longrightarrow> mz_zip_get_cdh z i = Some None"
  by (simp add: mz_zip_get_cdh_def split: option.splits)

lemma with_cdh_entry:
  assumes "wf_archive z" "i < m_total_files z"
  shows "with_cdh z i f = (case cdh_of z i of (cd, p) \<Rightarrow> f cd p)"
proof -
  obtain st where "m_pState z = Some st" "cdh_of z i = (m_central_dir st, m_central_dir_offsets st ! i)"
    "mz_zip_get_cdh z i = Some (Some (m_central_dir_offsets st ! i))"
    using wf_archive_entry [OF assms] by blast
  then show ?thesis by (simp add: with_cdh_def)
qed

text \<open>What the three queries answer, in terms of the header.\<close>

definition entry_encrypted :: "mz_zip_archive \<Rightarrow> nat \<Rightarrow> bool" where
  "entry_encrypted z i = (case cdh_of z i of (cd, p) \<Rightarrow> le16 cd (p + 8) AND 65 \<noteq> 0)"

definition entry_directory :: "mz_zip_archive \<Rightarrow> nat \<Rightarrow> bool" where
  "entry_directory z i = (case cdh_of z i of (cd, p) \<Rightarrow>
     (cdh_filename cd p \<noteq> [] \<and> last (cdh_filename cd p) = 47) \<or> le32 cd (p + 38) AND 16 \<noteq> 0)"

definition entry_supported :: "mz_zip_archive \<Rightarrow> nat \<Rightarrow> bool" where
  "entry_supported z i = (case cdh_of z i of (cd, p) \<Rightarrow>
     (le16 cd (p + 10) = 0 \<or> le16 cd (p + 10) = 8) \<and> le16 cd (p + 8) AND 65 = 0 \<and> le16 cd (p + 8) AND 32 = 0)"

lemma or_1_64: "(1 OR 64 :: nat) = 65" by simp

lemma is_encrypted_eq:
  assumes "wf_archive z" "i < m_total_files z"
  shows "mz_zip_reader_is_file_encrypted z i = Some (z, entry_encrypted z i)"
proof -
  obtain st where st0: "m_pState z = Some st" and st: "cdh_of z i = (m_central_dir st, m_central_dir_offsets st ! i)"
    "entry_ok (m_central_dir st) (m_archive_size z) (m_central_dir_offsets st ! i)"
    using wf_archive_entry [OF assms] by blast
  then have "rd16 (m_central_dir st) (m_central_dir_offsets st ! i + 8) =
      Some (le16 (m_central_dir st) (m_central_dir_offsets st ! i + 8))"
    by (intro rd16_eq) (simp add: entry_ok_def)
  then show ?thesis
    using st(1) by (simp add: mz_zip_reader_is_file_encrypted_def with_cdh_entry [OF assms]
        entry_encrypted_def or_1_64)
qed

lemma is_supported_eq:
  assumes "wf_archive z" "i < m_total_files z"
  shows "\<exists>e. mz_zip_reader_is_file_supported z i = Some (z\<lparr>m_last_error := e\<rparr>, entry_supported z i)"
proof -
  obtain st where st0: "m_pState z = Some st" and st: "cdh_of z i = (m_central_dir st, m_central_dir_offsets st ! i)"
    "entry_ok (m_central_dir st) (m_archive_size z) (m_central_dir_offsets st ! i)"
    using wf_archive_entry [OF assms] by blast
  let ?cd = "m_central_dir st" and ?p = "m_central_dir_offsets st ! i"
  have "rd16 ?cd (?p + 8) = Some (le16 ?cd (?p + 8))" "rd16 ?cd (?p + 10) = Some (le16 ?cd (?p + 10))"
    using st(2) by (auto intro!: rd16_eq simp: entry_ok_def)
  then show ?thesis
    using st(1) by (auto simp: mz_zip_reader_is_file_supported_def with_cdh_entry [OF assms]
        entry_supported_def or_1_64 intro: exI [of _ "m_last_error z"])
qed

lemma cdh_filename_last:
  assumes "entry_ok cd n p" "le16 cd (p + 28) \<noteq> 0"
  shows "cdh_filename cd p \<noteq> []" "last (cdh_filename cd p) = cd ! (p + 46 + le16 cd (p + 28) - 1)"
proof -
  have len: "length (cdh_filename cd p) = le16 cd (p + 28)"
    using assms(1) by (auto simp: cdh_filename_def entry_ok_def min_def)
  then show ne: "cdh_filename cd p \<noteq> []" using assms(2) by (metis length_0_conv)
  have "last (cdh_filename cd p) = cdh_filename cd p ! (le16 cd (p + 28) - 1)"
    using ne len by (simp add: last_conv_nth)
  also have "\<dots> = cd ! (p + 46 + (le16 cd (p + 28) - 1))"
    using assms by (simp add: cdh_filename_def entry_ok_def)
  finally show "last (cdh_filename cd p) = cd ! (p + 46 + le16 cd (p + 28) - 1)"
    using assms(2) by simp
qed

lemma is_directory_eq:
  assumes "wf_archive z" "i < m_total_files z"
  shows "mz_zip_reader_is_file_a_directory z i = Some (z, entry_directory z i)"
proof -
  obtain st where st0: "m_pState z = Some st" and st: "cdh_of z i = (m_central_dir st, m_central_dir_offsets st ! i)"
    and ok: "entry_ok (m_central_dir st) (m_archive_size z) (m_central_dir_offsets st ! i)"
    using wf_archive_entry [OF assms] by blast
  let ?cd = "m_central_dir st" and ?p = "m_central_dir_offsets st ! i"
  let ?n = "le16 ?cd (?p + 28)"
  have rd: "rd16 ?cd (?p + 28) = Some ?n" "rd32 ?cd (?p + 38) = Some (le32 ?cd (?p + 38))"
    using ok by (auto intro!: rd16_eq rd32_eq simp: entry_ok_def)
  have rdl: "rd8 ?cd (?p + 46 + ?n - 1) = Some (unat (?cd ! (?p + 46 + ?n - 1)))" if "?n \<noteq> 0"
    using ok that by (intro rd8_defined) (simp add: entry_ok_def)
  have slash: "unat (?cd ! (?p + 46 + ?n - 1)) = 47 \<longleftrightarrow> ?cd ! (?p + 46 + ?n - 1) = 47"
    by (simp add: word_unat_eq_iff)
  show ?thesis
  proof (cases "?n = 0")
    case True
    then have "cdh_filename ?cd ?p = []" by (simp add: cdh_filename_def)
    then show ?thesis
      using st rd True by (simp add: mz_zip_reader_is_file_a_directory_def with_cdh_entry [OF assms]
          entry_directory_def)
  next
    case False
    show ?thesis
      using st rd rdl [OF False] False cdh_filename_last [OF ok False] slash
      by (simp add: mz_zip_reader_is_file_a_directory_def with_cdh_entry [OF assms]
          entry_directory_def)
  qed
qed

lemma zip64_value_defined:
  assumes "q + n \<le> length cd"
  shows "\<exists>r. zip64_value cd v q n = Some r \<and> (case r of
      Inl e \<Rightarrow> e = MZ_ZIP_INVALID_HEADER_OR_CORRUPTED
    | Inr (x, q', n') \<Rightarrow> q' + n' \<le> length cd \<and> (v \<noteq> MZ_UINT32_MAX \<longrightarrow> x = v) \<and> (v < 2 ^ 64 \<longrightarrow> x < 2 ^ 64))"
  using assms by (auto simp: zip64_value_def rd64_eq)

lemma zip64_fields_defined:
  assumes "q + n \<le> length cd"
  shows "\<exists>r. zip64_fields cd s q n = Some r \<and> (case r of
      Inl e \<Rightarrow> e = MZ_ZIP_INVALID_HEADER_OR_CORRUPTED
    | Inr s' \<Rightarrow> \<exists>u c l. s' = s\<lparr>m_uncomp_size := u, m_comp_size := c, m_local_header_ofs := l\<rparr> \<and>
        (m_uncomp_size s \<noteq> MZ_UINT32_MAX \<longrightarrow> u = m_uncomp_size s) \<and>
        (m_comp_size s \<noteq> MZ_UINT32_MAX \<longrightarrow> c = m_comp_size s) \<and>
        (m_local_header_ofs s \<noteq> MZ_UINT32_MAX \<longrightarrow> l = m_local_header_ofs s) \<and>
        (m_uncomp_size s < 2 ^ 64 \<longrightarrow> u < 2 ^ 64) \<and> (m_comp_size s < 2 ^ 64 \<longrightarrow> c < 2 ^ 64) \<and>
        (m_local_header_ofs s < 2 ^ 64 \<longrightarrow> l < 2 ^ 64))"
proof -
  obtain u where u: "zip64_value cd (m_uncomp_size s) q n = Some u" "case u of
      Inl e \<Rightarrow> e = MZ_ZIP_INVALID_HEADER_OR_CORRUPTED
    | Inr (x, q', n') \<Rightarrow> q' + n' \<le> length cd \<and> (m_uncomp_size s \<noteq> MZ_UINT32_MAX \<longrightarrow> x = m_uncomp_size s) \<and>
        (m_uncomp_size s < 2 ^ 64 \<longrightarrow> x < 2 ^ 64)"
    using zip64_value_defined [OF assms] by blast
  show ?thesis
  proof (cases u)
    case (Inl e)
    then show ?thesis using u by (simp add: zip64_fields_def)
  next
    case (Inr t)
    then obtain x q' n' where t: "u = Inr (x, q', n')" by (cases t) auto
    then have q': "q' + n' \<le> length cd" using u(2) by simp
    obtain c where c: "zip64_value cd (m_comp_size s) q' n' = Some c" "case c of
        Inl e \<Rightarrow> e = MZ_ZIP_INVALID_HEADER_OR_CORRUPTED
      | Inr (x, q', n') \<Rightarrow> q' + n' \<le> length cd \<and> (m_comp_size s \<noteq> MZ_UINT32_MAX \<longrightarrow> x = m_comp_size s) \<and>
          (m_comp_size s < 2 ^ 64 \<longrightarrow> x < 2 ^ 64)"
      using zip64_value_defined [OF q'] by blast
    show ?thesis
    proof (cases c)
      case (Inl e)
      then show ?thesis using u t c by (simp add: zip64_fields_def)
    next
      case (Inr t')
      then obtain y q'' n'' where t': "c = Inr (y, q'', n'')" by (cases t') auto
      then have q'': "q'' + n'' \<le> length cd" using c(2) by simp
      obtain l where "zip64_value cd (m_local_header_ofs s) q'' n'' = Some l" "case l of
          Inl e \<Rightarrow> e = MZ_ZIP_INVALID_HEADER_OR_CORRUPTED
        | Inr (x, q', n') \<Rightarrow> q' + n' \<le> length cd \<and> (m_local_header_ofs s \<noteq> MZ_UINT32_MAX \<longrightarrow> x = m_local_header_ofs s) \<and>
            (m_local_header_ofs s < 2 ^ 64 \<longrightarrow> x < 2 ^ 64)"
        using zip64_value_defined [OF q''] by blast
      then show ?thesis using u t c t' by (auto simp: zip64_fields_def split: sum.splits)
    qed
  qed
qed

lemma extra_walk_error: "extra_walk buf pos n = Some (Inl e) \<Longrightarrow> e = MZ_ZIP_INVALID_HEADER_OR_CORRUPTED"
proof (induction buf pos n rule: extra_walk.induct)
  case (1 buf pos n)
  show ?case
  proof (cases "n < 4")
    case True
    then show ?thesis using 1(2) by (simp add: extra_walk.simps [of buf pos n])
  next
    case False
    obtain f sz where rd: "rd16 buf pos = Some f" "rd16 buf (pos + 2) = Some sz"
      using False 1(2) by (auto simp: extra_walk.simps [of buf pos n] split: bind_splits)
    show ?thesis
      using 1(1) [OF False rd] 1(2) False rd
      by (auto simp: extra_walk.simps [of buf pos n] split: if_splits)
  qed
qed

text \<open>What the statistics say about the header of entry \<open>i\<close>.\<close>

definition stat_matches :: "mz_zip_archive \<Rightarrow> nat \<Rightarrow> mz_zip_archive_file_stat \<Rightarrow> bool" where
  "stat_matches z i s \<longleftrightarrow> (case cdh_of z i of (cd, p) \<Rightarrow>
     m_file_index s = i \<and> m_central_dir_ofs s = p \<and>
     m_method s = le16 cd (p + 10) \<and> m_bit_flag s = le16 cd (p + 8) \<and> m_crc32 s = le32 cd (p + 16) \<and>
     m_external_attr s = le32 cd (p + 38) \<and>
     m_filename s = take 511 (cdh_filename cd p) \<and>
     m_is_directory s = entry_directory z i \<and> m_is_encrypted s = entry_encrypted z i \<and>
     m_is_supported s = entry_supported z i \<and>
     (le32 cd (p + 20) \<noteq> MZ_UINT32_MAX \<longrightarrow> m_comp_size s = le32 cd (p + 20)) \<and>
     (le32 cd (p + 24) \<noteq> MZ_UINT32_MAX \<longrightarrow> m_uncomp_size s = le32 cd (p + 24)) \<and>
     (le32 cd (p + 42) \<noteq> MZ_UINT32_MAX \<longrightarrow> m_local_header_ofs s = le32 cd (p + 42)) \<and>
     m_comp_size s < 2 ^ 64 \<and> m_uncomp_size s < 2 ^ 64 \<and> m_local_header_ofs s < 2 ^ 64)"

lemma stat_fields_eq:
  assumes "entry_ok cd n p" "m_central_dir st = cd" "i < length (m_central_dir_offsets st)"
    "m_central_dir_offsets st ! i = p"
  shows "\<exists>s. stat_fields st i p = Some s \<and> m_file_index s = i \<and> m_central_dir_ofs s = p \<and>
    m_method s = le16 cd (p + 10) \<and> m_bit_flag s = le16 cd (p + 8) \<and> m_crc32 s = le32 cd (p + 16) \<and>
    m_external_attr s = le32 cd (p + 38) \<and> m_filename s = take 511 (cdh_filename cd p) \<and>
    m_comp_size s = le32 cd (p + 20) \<and> m_uncomp_size s = le32 cd (p + 24) \<and>
    m_local_header_ofs s = le32 cd (p + 42)"
proof -
  have len: "p + 46 + le16 cd (p + 28) + le16 cd (p + 30) + le16 cd (p + 32) \<le> length cd"
    using assms(1) by (simp add: entry_ok_def)
  have r16: "rd16 cd (p + k) = Some (le16 cd (p + k))" if "k < 45" for k
    using len that by (intro rd16_eq) linarith
  have r32: "rd32 cd (p + k) = Some (le32 cd (p + k))" if "k < 43" for k
    using len that by (intro rd32_eq) linarith
  have nm: "rdn cd (p + 46) (min (le16 cd (p + 28)) 511) = Some (take 511 (cdh_filename cd p))"
    using len by (subst rdn_Some) (auto simp: cdh_filename_def min.commute)
  have cm: "rdn cd (p + 46 + le16 cd (p + 28) + le16 cd (p + 30)) (min (le16 cd (p + 32)) 511) =
      Some (take (min (le16 cd (p + 32)) 511) (drop (p + 46 + le16 cd (p + 28) + le16 cd (p + 30)) cd))"
    using len by (intro rdn_Some) linarith
  show ?thesis
    using assms by (simp add: stat_fields_def nth_o_def r16 r32 nm cm)
qed

lemma file_stat_internal_post:
  assumes "wf_archive z" "i < m_total_files z" "mz_zip_get_cdh z i = Some cdh"
  shows "zpost (mz_zip_file_stat_internal z i cdh) (\<lambda>z' r. (\<exists>e. z' = z\<lparr>m_last_error := e\<rparr>) \<and>
    (case r of Inl e \<Rightarrow> m_last_error z' = e \<and> e = MZ_ZIP_INVALID_HEADER_OR_CORRUPTED
     | Inr (s, found) \<Rightarrow> stat_matches z i s))"
proof -
  obtain st where st: "m_pState z = Some st" "cdh_of z i = (m_central_dir st, m_central_dir_offsets st ! i)"
    "mz_zip_get_cdh z i = Some (Some (m_central_dir_offsets st ! i))"
    and ok: "entry_ok (m_central_dir st) (m_archive_size z) (m_central_dir_offsets st ! i)"
    and i: "i < length (m_central_dir_offsets st)"
    using wf_archive_entry [OF assms(1,2)] by blast
  define cd p where cd: "cd = m_central_dir st" and p: "p = m_central_dir_offsets st ! i"
  obtain s where s: "stat_fields st i p = Some s" and sf: "m_file_index s = i" "m_central_dir_ofs s = p"
    "m_method s = le16 cd (p + 10)" "m_bit_flag s = le16 cd (p + 8)" "m_crc32 s = le32 cd (p + 16)"
    "m_external_attr s = le32 cd (p + 38)" "m_filename s = take 511 (cdh_filename cd p)"
    "m_comp_size s = le32 cd (p + 20)" "m_uncomp_size s = le32 cd (p + 24)"
    "m_local_header_ofs s = le32 cd (p + 42)"
    using stat_fields_eq [OF ok refl i refl, folded cd p] by blast
  obtain e where sup: "mz_zip_reader_is_file_supported z i = Some (z\<lparr>m_last_error := e\<rparr>, entry_supported z i)"
    using is_supported_eq [OF assms(1,2)] by blast
  have rd: "rd16 cd (p + 30) = Some (le16 cd (p + 30))" "rd16 cd (p + 28) = Some (le16 cd (p + 28))"
    using ok by (auto intro!: rd16_eq simp: entry_ok_def cd p)
  obtain w where w: "extra_walk cd (p + 46 + le16 cd (p + 28)) (le16 cd (p + 30)) = Some w"
    and wq: "\<And>q n. w = Inr (Some (q, n)) \<Longrightarrow> q + n \<le> length cd"
    using extra_walk_defined [of "p + 46 + le16 cd (p + 28)" "le16 cd (p + 30)" cd] ok
    by (fastforce simp: entry_ok_def cd p)
  define s1 where "s1 = s\<lparr>m_is_directory := entry_directory z i, m_is_encrypted := entry_encrypted z i,
     m_is_supported := entry_supported z i\<rparr>"
  have big: "le32 b k < 18446744073709551616" for b k
    by (rule less_trans [OF le32_less]) simp
  have cdp: "cdh_of z i = (cd, p)" using st(2) by (simp add: cd p)
  have m1: "stat_matches z i s1"
    using sf big by (simp add: stat_matches_def s1_def cdp)
  have m2: "stat_matches z i s2" if zf: "zip64_fields cd s1 q n = Some (Inr s2)" "q + n \<le> length cd" for q n s2
  proof -
    obtain u c l where s2: "s2 = s1\<lparr>m_uncomp_size := u, m_comp_size := c, m_local_header_ofs := l\<rparr>"
      and "m_uncomp_size s1 \<noteq> MZ_UINT32_MAX \<longrightarrow> u = m_uncomp_size s1"
        "m_comp_size s1 \<noteq> MZ_UINT32_MAX \<longrightarrow> c = m_comp_size s1"
        "m_local_header_ofs s1 \<noteq> MZ_UINT32_MAX \<longrightarrow> l = m_local_header_ofs s1"
        "m_uncomp_size s1 < 2 ^ 64 \<longrightarrow> u < 2 ^ 64" "m_comp_size s1 < 2 ^ 64 \<longrightarrow> c < 2 ^ 64"
        "m_local_header_ofs s1 < 2 ^ 64 \<longrightarrow> l < 2 ^ 64"
      using zip64_fields_defined [OF zf(2), of s1] zf(1) by auto
    then show ?thesis
      using sf big by (simp add: stat_matches_def s1_def cdp)
  qed
  have err: "e' = MZ_ZIP_INVALID_HEADER_OR_CORRUPTED"
    if "zip64_fields cd s1 q n = Some (Inl e')" "q + n \<le> length cd" for q n e'
    using zip64_fields_defined [OF that(2), of s1] that(1) by auto
  have run: "mz_zip_file_stat_internal z i cdh =
      (let z' = z\<lparr>m_last_error := e\<rparr> in
       if \<not> needs_zip64 (m_comp_size s1) (m_uncomp_size s1) (m_local_header_ofs s1) \<or> le16 cd (p + 30) = 0
       then zok z' (s1, False)
       else case w of Inl e \<Rightarrow> mz_zip_set_error z' e
         | Inr None \<Rightarrow> zok z' (s1, False)
         | Inr (Some (q, n)) \<Rightarrow> do {
             r \<leftarrow> zip64_fields cd s1 q n;
             (case r of Inl e \<Rightarrow> mz_zip_set_error z' e | Inr s \<Rightarrow> zok z' (s, True)) })"
  proof -
    have "cdh = Some p" "m_central_dir st = cd" using assms(3) st by (simp_all add: cd p)
    then show ?thesis
      using st(1) s sup rd w is_directory_eq [OF assms(1,2)] is_encrypted_eq [OF assms(1,2)]
      by (simp add: mz_zip_file_stat_internal_def s1_def Let_def split: sum.split option.split)
  qed
  show ?thesis
  proof (cases "\<not> needs_zip64 (m_comp_size s1) (m_uncomp_size s1) (m_local_header_ofs s1) \<or> le16 cd (p + 30) = 0")
    case True
    then show ?thesis using m1 unfolding run Let_def by auto
  next
    case more: False
    show ?thesis
    proof (cases "\<exists>q n. w = Inr (Some (q, n))")
      case True
      then obtain q n where wn: "w = Inr (Some (q, n))" by blast
      then have qn: "q + n \<le> length cd" by (rule wq)
      then obtain r where "zip64_fields cd s1 q n = Some r" using zip64_fields_defined by blast
      then show ?thesis
        using more wn m2 [OF _ qn] err [OF _ qn] unfolding run Let_def by (cases r) auto
    next
      case False
      have "e' = MZ_ZIP_INVALID_HEADER_OR_CORRUPTED" if "w = Inl e'" for e'
        using w that by (auto dest: extra_walk_error)
      then show ?thesis
        using more m1 False unfolding run Let_def by (auto split: sum.splits option.splits)
    qed
  qed
qed

lemma file_stat_post:
  assumes "wf_archive z"
  shows "zpost (mz_zip_reader_file_stat z i) (\<lambda>z' r. (\<exists>e. z' = z\<lparr>m_last_error := e\<rparr>) \<and>
    (case r of
      Inl e \<Rightarrow> m_last_error z' = e \<and>
        (if i < m_total_files z then e = MZ_ZIP_INVALID_HEADER_OR_CORRUPTED else e = MZ_ZIP_INVALID_PARAMETER)
    | Inr s \<Rightarrow> i < m_total_files z \<and> stat_matches z i s))"
proof (cases "i < m_total_files z")
  case True
  then obtain cdh where c: "mz_zip_get_cdh z i = Some cdh" using wf_archive_entry [OF assms] by blast
  show ?thesis
    unfolding mz_zip_reader_file_stat_def c bind.bind_lunit
    by (rule zpost_zbind [OF file_stat_internal_post [OF assms True c]]) (use True in auto)
next
  case False
  then show ?thesis
    by (auto simp: mz_zip_reader_file_stat_def get_cdh_out_of_range mz_zip_file_stat_internal_def)
qed


text \<open>An open archive with one stored, empty entry named \<^verbatim>\<open>a\<close>, for the witnesses.\<close>

definition demo_cd :: bytes where
  "demo_cd = [80, 75, 1, 2, 0, 0, 0, 0, 0, 0, 0, 0, 0, 0, 0, 0, 0, 0, 0, 0, 0, 0, 0, 0,
     0, 0, 0, 0, 1, 0, 0, 0, 0, 0, 0, 0, 0, 0, 0, 0, 0, 0, 0, 0, 0, 0, 97]"

definition demo_archive :: mz_zip_archive where
  "demo_archive = cleared\<lparr>m_archive_size := 100, m_total_files := 1, m_zip_mode := MZ_ZIP_MODE_READING,
     m_zip_type := MZ_ZIP_TYPE_MEMORY, m_pAlloc := Some (\<lambda>_ _. True), m_pFree := True,
     m_pRealloc := Some (\<lambda>_ _. True), m_pRead := Some Mem_read,
     m_pState := Some ((zero_state 0)\<lparr>m_pMem := Some (replicate 100 0), m_central_dir := demo_cd,
       m_central_dir_offsets := [0], m_sorted_central_dir_offsets := [0]\<rparr>)\<rparr>"

lemma demo_archive_wf: "wf_archive demo_archive"
  by (simp add: wf_archive_def demo_archive_def zero_state_def cleared_def being_read_def reader_ok_def
      entries_ok_def index_ok_def entry_ok_def demo_cd_def le32_def le16_def)


end
