(* ===== verification/ZipLocate.thy ===== *)
theory ZipLocate
  imports ZipStat
begin

unbundle bit_operations_syntax

text \<open>
  Finding an entry by name: \<^verbatim>\<open>mz_zip_string_equal\<close>, \<^verbatim>\<open>mz_zip_filename_compare\<close>, the binary search
  over the sorted index, and the linear scan of \<^verbatim>\<open>mz_zip_reader_locate_file_v2\<close> with its
  case-sensitive, path-ignoring and comment-matching variants. The binary search is shown
  complete: it finds an entry exactly when one with that name (up to case) exists, so it agrees
  with the linear scan.
\<close>

section \<open>Comparisons\<close>

text \<open>\<^verbatim>\<open>mz_zip_string_equal\<close> on the \<open>len\<close> bytes at \<open>a\<close> of one buffer and at \<open>b\<close> of another.\<close>

fun string_equal_loop :: "(nat \<Rightarrow> nat) \<Rightarrow> bytes \<Rightarrow> nat \<Rightarrow> bytes \<Rightarrow> nat \<Rightarrow> nat \<Rightarrow> bool option" where
  "string_equal_loop f pA a pB b 0 = Some True"
| "string_equal_loop f pA a pB b (Suc len) = do {
     x \<leftarrow> rd8 pA a;
     y \<leftarrow> rd8 pB b;
     (if f x \<noteq> f y then Some False else string_equal_loop f pA (a + 1) pB (b + 1) len)
   }"

definition mz_zip_string_equal :: "bytes \<Rightarrow> nat \<Rightarrow> bytes \<Rightarrow> nat \<Rightarrow> nat \<Rightarrow> nat \<Rightarrow> bool option" where
  "mz_zip_string_equal pA a pB b len flags =
     (if flags AND MZ_ZIP_FLAG_CASE_SENSITIVE \<noteq> 0
      then do { x \<leftarrow> rdn pA a len; y \<leftarrow> rdn pB b len; Some (x = y) }
      else string_equal_loop MZ_TOLOWER pA a pB b len)"

text \<open>The value of the 32-bit pattern of a difference read as \<^verbatim>\<open>int\<close>.\<close>

definition s32 :: "int \<Rightarrow> int" where
  "s32 x = (x + 2 ^ 31) mod 2 ^ 32 - 2 ^ 31"

definition mz_zip_filename_compare :: "bytes \<Rightarrow> nat list \<Rightarrow> nat \<Rightarrow> bytes \<Rightarrow> nat \<Rightarrow> int option" where
  "mz_zip_filename_compare central_dir central_dir_offsets l_index pR r_len = do {
     pL \<leftarrow> nth_o central_dir_offsets l_index;
     l_len \<leftarrow> rd16 central_dir (pL + MZ_ZIP_CDH_FILENAME_LEN_OFS);
     d \<leftarrow> name_diff central_dir (pL + MZ_ZIP_CENTRAL_DIR_HEADER_SIZE) pR 0 (min l_len r_len);
     Some (case d of None \<Rightarrow> s32 (int l_len - int r_len) | Some (l, r) \<Rightarrow> int l - int r)
   }"

section \<open>The binary search\<close>

function bsearch_loop :: "bytes \<Rightarrow> nat list \<Rightarrow> nat list \<Rightarrow> bytes \<Rightarrow> nat \<Rightarrow> int \<Rightarrow> int \<Rightarrow> nat option option" where
  "bsearch_loop cd offs pIndices pFilename filename_len l h =
     (if h < l then Some None
      else let m = l + (h - l) div 2 in do {
        file_index \<leftarrow> nth_o pIndices (nat m);
        c \<leftarrow> mz_zip_filename_compare cd offs file_index pFilename filename_len;
        (if c = 0 then Some (Some file_index)
         else if c < 0 then bsearch_loop cd offs pIndices pFilename filename_len (m + 1) h
         else bsearch_loop cd offs pIndices pFilename filename_len l (m - 1))
      })"
  by pat_completeness auto
termination
  by (relation "measure (\<lambda>(cd, offs, idx, f, n, l, h). nat (h - l + 1))") auto

declare bsearch_loop.simps [simp del]

definition mz_zip_locate_file_binary_search :: "mz_zip_archive \<Rightarrow> bytes \<Rightarrow> nat zret" where
  "mz_zip_locate_file_binary_search pZip pFilename = do {
     st \<leftarrow> m_pState pZip;
     found \<leftarrow> (if m_total_files pZip = 0 then Some None
       else bsearch_loop (m_central_dir st) (m_central_dir_offsets st) (m_sorted_central_dir_offsets st)
         pFilename (u32 (length pFilename)) 0 (int (m_total_files pZip) - 1));
     (case found of
        Some i \<Rightarrow> zok pZip i
      | None \<Rightarrow> mz_zip_set_error pZip MZ_ZIP_FILE_NOT_FOUND)
   }"

section \<open>The linear scan\<close>

text \<open>
  The \<^verbatim>\<open>do ... while (--ofs >= 0)\<close> that skips the path: the offset after the last separator among
  the first \<open>k = ofs + 1\<close> bytes at \<open>base\<close>, 0 when there is none.
\<close>

fun base_name_ofs :: "bytes \<Rightarrow> nat \<Rightarrow> nat \<Rightarrow> nat option" where
  "base_name_ofs cd base 0 = Some 0"
| "base_name_ofs cd base (Suc ofs) = do {
     c \<leftarrow> rd8 cd (base + ofs);
     (if c = 47 \<or> c = 92 \<or> c = 58 then Some (Suc ofs) else base_name_ofs cd base ofs)
   }"

text \<open>Whether the header at \<open>p\<close> matches the name and, when one is asked for, the comment.\<close>

definition entry_matches :: "bytes \<Rightarrow> nat \<Rightarrow> bytes \<Rightarrow> bytes \<Rightarrow> nat \<Rightarrow> bool option" where
  "entry_matches cd p pName pComment flags = do {
     filename_len \<leftarrow> rd16 cd (p + MZ_ZIP_CDH_FILENAME_LEN_OFS);
     (if filename_len < length pName then Some False
      else do {
        comment_ok \<leftarrow> (if pComment = [] then Some True
          else do {
            file_extra_len \<leftarrow> rd16 cd (p + MZ_ZIP_CDH_EXTRA_LEN_OFS);
            file_comment_len \<leftarrow> rd16 cd (p + MZ_ZIP_CDH_COMMENT_LEN_OFS);
            (if file_comment_len \<noteq> length pComment then Some False
             else mz_zip_string_equal pComment 0 cd
               (p + MZ_ZIP_CENTRAL_DIR_HEADER_SIZE + filename_len + file_extra_len) file_comment_len flags)
          });
        (if \<not> comment_ok then Some False
         else do {
           ofs \<leftarrow> (if flags AND MZ_ZIP_FLAG_IGNORE_PATH \<noteq> 0 \<and> filename_len \<noteq> 0
             then base_name_ofs cd (p + MZ_ZIP_CENTRAL_DIR_HEADER_SIZE) filename_len else Some 0);
           (if filename_len - ofs \<noteq> length pName then Some False
            else mz_zip_string_equal pName 0 cd (p + MZ_ZIP_CENTRAL_DIR_HEADER_SIZE + ofs)
              (filename_len - ofs) flags)
         })
      })
   }"

text \<open>The loop over \<^verbatim>\<open>file_index\<close>, with \<open>left\<close> entries to go.\<close>

fun locate_scan :: "bytes \<Rightarrow> nat list \<Rightarrow> bytes \<Rightarrow> bytes \<Rightarrow> nat \<Rightarrow> nat \<Rightarrow> nat \<Rightarrow> nat option option" where
  "locate_scan cd offs pName pComment flags file_index 0 = Some None"
| "locate_scan cd offs pName pComment flags file_index (Suc left) = do {
     p \<leftarrow> nth_o offs file_index;
     b \<leftarrow> entry_matches cd p pName pComment flags;
     (if b then Some (Some file_index)
      else locate_scan cd offs pName pComment flags (file_index + 1) left)
   }"

text \<open>\<open>pName\<close> and \<open>pComment\<close> are C strings: the bytes before the terminating zero.\<close>

definition mz_zip_reader_locate_file_v2 ::
    "mz_zip_archive \<Rightarrow> bytes option \<Rightarrow> bytes option \<Rightarrow> nat \<Rightarrow> nat zret" where
  "mz_zip_reader_locate_file_v2 pZip pName pComment flags =
     (case (m_pState pZip, pName) of
        (Some st, Some name) \<Rightarrow>
          if m_init_flags st AND MZ_ZIP_FLAG_DO_NOT_SORT_CENTRAL_DIRECTORY = 0 \<and>
             m_zip_mode pZip = MZ_ZIP_MODE_READING \<and>
             flags AND (MZ_ZIP_FLAG_IGNORE_PATH OR MZ_ZIP_FLAG_CASE_SENSITIVE) = 0 \<and>
             pComment = None \<and> m_sorted_central_dir_offsets st \<noteq> []
          then mz_zip_locate_file_binary_search pZip name
          else let comment = (case pComment of None \<Rightarrow> [] | Some c \<Rightarrow> c)
          in if MZ_UINT16_MAX < length name \<or> MZ_UINT16_MAX < length comment
          then mz_zip_set_error pZip MZ_ZIP_INVALID_PARAMETER
          else do {
            found \<leftarrow> locate_scan (m_central_dir st) (m_central_dir_offsets st) name comment flags 0
              (m_total_files pZip);
            (case found of
               Some i \<Rightarrow> zok pZip i
             | None \<Rightarrow> mz_zip_set_error pZip MZ_ZIP_FILE_NOT_FOUND)
          }
      | _ \<Rightarrow> mz_zip_set_error pZip MZ_ZIP_INVALID_PARAMETER)"

definition mz_zip_reader_locate_file ::
    "mz_zip_archive \<Rightarrow> bytes option \<Rightarrow> bytes option \<Rightarrow> nat \<Rightarrow> (mz_zip_archive \<times> int) option" where
  "mz_zip_reader_locate_file pZip pName pComment flags =
     (case mz_zip_reader_locate_file_v2 pZip pName pComment flags of
        None \<Rightarrow> None
      | Some (z, Inl _) \<Rightarrow> Some (z, - 1)
      | Some (z, Inr i) \<Rightarrow> Some (z, s32 (int i)))"

section \<open>Correctness\<close>

definition entry_name :: "mz_zip_archive \<Rightarrow> nat \<Rightarrow> bytes" where
  "entry_name z i = (case cdh_of z i of (cd, p) \<Rightarrow> cdh_filename cd p)"

lemma filename_compare_sign:
  assumes "i < length offs" "name_in cd (offs ! i)" "length nm < 2 ^ 31"
  shows "\<exists>c. mz_zip_filename_compare cd offs i nm (length nm) = Some c \<and>
    (c < 0 \<longleftrightarrow> lower (cdh_filename cd (offs ! i)) < lower nm) \<and>
    (c = 0 \<longleftrightarrow> lower (cdh_filename cd (offs ! i)) = lower nm)"
proof -
  let ?p = "offs ! i"
  let ?n = "le16 cd (?p + 28)"
  obtain d where d: "name_diff cd (?p + 46) nm 0 (min ?n (length nm)) = Some d"
    and spec: "case d of
      None \<Rightarrow> (?n < length nm \<longleftrightarrow> lower (cdh_filename cd ?p) < lower nm) \<and>
        (?n = length nm \<longleftrightarrow> lower (cdh_filename cd ?p) = lower nm)
    | Some (a, b) \<Rightarrow> a \<noteq> b \<and> (a < b \<longleftrightarrow> lower (cdh_filename cd ?p) < lower nm) \<and>
        lower (cdh_filename cd ?p) \<noteq> lower nm"
  proof -
    have "?p + 46 + ?n \<le> length cd" using assms(2) by (simp add: name_in_def)
    moreover have "0 + length nm \<le> length nm" "take (length nm) (drop 0 nm) = nm" by simp_all
    ultimately show ?thesis
      using that name_diff_spec [of "?p + 46" ?n cd 0 "length nm" nm, folded cdh_filename_def]
      by (simp only:) blast
  qed
  have s: "s32 (int ?n - int (length nm)) = int ?n - int (length nm)"
  proof -
    have "int ?n < 65536" using le16_less [of cd "?p + 28"] by linarith
    moreover have "int (length nm) < 2147483648" using assms(3) by simp
    ultimately have "- 2147483648 \<le> int ?n - int (length nm)" "int ?n - int (length nm) < 2147483648"
      by linarith+
    then show ?thesis unfolding s32_def by (subst mod_pos_pos_trivial) simp_all
  qed
  have "mz_zip_filename_compare cd offs i nm (length nm) =
      Some (case d of None \<Rightarrow> int ?n - int (length nm) | Some (l, r) \<Rightarrow> int l - int r)"
    using assms d rd16_name_len [OF assms(2)] s
    by (simp add: mz_zip_filename_compare_def nth_o_def split: option.split)
  then show ?thesis using spec by (auto split: option.splits prod.splits)
qed

text \<open>The window of the search: outside it no entry has the name.\<close>

lemma bsearch_loop_correct:
  assumes idx: "\<forall>i \<in> set idx. i < length offs \<and> name_in cd (offs ! i)"
    and nm: "length nm < 2 ^ 31"
    and sorted: "sorted_wrt (\<lambda>i j. \<not> name_lt cd offs j i) idx"
    and window: "0 \<le> l" "h < int (length idx)"
  shows "\<exists>r. bsearch_loop cd offs idx nm (length nm) l h = Some r \<and> (case r of
      Some i \<Rightarrow> i \<in> set idx \<and> lower (cdh_filename cd (offs ! i)) = lower nm
    | None \<Rightarrow> \<forall>k. l \<le> int k \<and> int k \<le> h \<longrightarrow> lower (cdh_filename cd (offs ! (idx ! k))) \<noteq> lower nm)"
  using window
proof (induction "nat (h - l + 1)" arbitrary: l h rule: less_induct)
  case less
  let ?key = "\<lambda>k. lower (cdh_filename cd (offs ! (idx ! k)))"
  have mono: "?key j \<le> ?key k" if "j \<le> k" "k < length idx" for j k
    using sorted that by (cases "j = k") (auto simp: sorted_wrt_iff_nth_less name_lt_def not_less)
  show ?case
  proof (cases "h < l")
    case True
    then show ?thesis by (subst bsearch_loop.simps) auto
  next
    case False
    define m where "m = l + (h - l) div 2"
    have m: "l \<le> m" "m \<le> h" using False by (auto simp: m_def)
    then have ml: "nat m < length idx" using less.prems by simp
    obtain c where c: "mz_zip_filename_compare cd offs (idx ! nat m) nm (length nm) = Some c"
      "c < 0 \<longleftrightarrow> ?key (nat m) < lower nm" "c = 0 \<longleftrightarrow> ?key (nat m) = lower nm"
      using filename_compare_sign [of "idx ! nat m" offs cd nm] idx nm ml nth_mem [OF ml] by blast
    have step: "bsearch_loop cd offs idx nm (length nm) l h =
        (if c = 0 then Some (Some (idx ! nat m))
         else if c < 0 then bsearch_loop cd offs idx nm (length nm) (m + 1) h
         else bsearch_loop cd offs idx nm (length nm) l (m - 1))"
      using False ml c(1) by (subst bsearch_loop.simps) (simp add: m_def [symmetric] nth_o_def)
    consider "c = 0" | "c < 0" | "c > 0" by linarith
    then show ?thesis
    proof cases
      case 1
      then show ?thesis using step c(3) nth_mem [OF ml] by simp
    next
      case 2
      have out: "?key k \<noteq> lower nm" if "int k \<le> m" for k
      proof -
        have "k \<le> nat m" using that by linarith
        then have "?key k \<le> ?key (nat m)" using mono ml by blast
        moreover have "?key (nat m) < lower nm" using c(2) 2 by blast
        ultimately show ?thesis by simp
      qed
      obtain r where "bsearch_loop cd offs idx nm (length nm) (m + 1) h = Some r" "case r of
          Some i \<Rightarrow> i \<in> set idx \<and> lower (cdh_filename cd (offs ! i)) = lower nm
        | None \<Rightarrow> \<forall>k. m + 1 \<le> int k \<and> int k \<le> h \<longrightarrow> ?key k \<noteq> lower nm"
        using less.hyps [of h "m + 1"] m less.prems by auto
      then show ?thesis using step 2 out
        by (intro exI [of _ r]) (cases r; simp; metis linorder_not_le zle_add1_eq_le add1_zle_eq)
    next
      case 3
      then have gt: "lower nm < ?key (nat m)" using c by auto
      have out: "?key k \<noteq> lower nm" if "m \<le> int k" "int k \<le> h" for k
      proof -
        have "nat m \<le> k" "k < length idx" using that less.prems by linarith+
        then have "?key (nat m) \<le> ?key k" using mono by blast
        then show ?thesis using gt by simp
      qed
      obtain r where "bsearch_loop cd offs idx nm (length nm) l (m - 1) = Some r" "case r of
          Some i \<Rightarrow> i \<in> set idx \<and> lower (cdh_filename cd (offs ! i)) = lower nm
        | None \<Rightarrow> \<forall>k. l \<le> int k \<and> int k \<le> m - 1 \<longrightarrow> ?key k \<noteq> lower nm"
        using less.hyps [of "m - 1" l] m less.prems by auto
      then show ?thesis using step 3 out
        by (intro exI [of _ r]) (cases r; simp; metis linorder_not_le zle_add1_eq_le add1_zle_eq)
    qed
  qed
qed

lemma string_equal_loop_eq:
  assumes "a + len \<le> length A" "b + len \<le> length B"
  shows "string_equal_loop f A a B b len =
    Some (map (\<lambda>x. f (unat x)) (take len (drop a A)) = map (\<lambda>x. f (unat x)) (take len (drop b B)))"
  using assms
proof (induction len arbitrary: a b)
  case (Suc len)
  have "drop a A = A ! a # drop (a + 1) A" "drop b B = B ! b # drop (b + 1) B"
    using Suc.prems by (simp_all add: Cons_nth_drop_Suc)
  then show ?case using Suc by (simp add: rd8_def)
qed simp

lemma string_equal_eq:
  assumes "a + len \<le> length A" "b + len \<le> length B"
  shows "mz_zip_string_equal A a B b len flags =
    Some (if flags AND MZ_ZIP_FLAG_CASE_SENSITIVE \<noteq> 0 then take len (drop a A) = take len (drop b B)
      else lower (take len (drop a A)) = lower (take len (drop b B)))"
  using assms by (simp add: mz_zip_string_equal_def string_equal_loop_eq lower_def rdn_Some)

text \<open>The last component of a path, and what the scan accepts.\<close>

definition path_separator :: "u8 \<Rightarrow> bool" where
  "path_separator c \<longleftrightarrow> unat c = 47 \<or> unat c = 92 \<or> unat c = 58"

definition base_name :: "bytes \<Rightarrow> bytes" where
  "base_name nm = rev (takeWhile (\<lambda>c. \<not> path_separator c) (rev nm))"

definition name_matches :: "nat \<Rightarrow> bytes \<Rightarrow> bytes \<Rightarrow> bool" where
  "name_matches flags wanted nm =
     (let n = (if flags AND MZ_ZIP_FLAG_IGNORE_PATH \<noteq> 0 then base_name nm else nm)
      in if flags AND MZ_ZIP_FLAG_CASE_SENSITIVE \<noteq> 0 then n = wanted else lower n = lower wanted)"

lemma base_name_snoc: "base_name (xs @ [c]) = (if path_separator c then [] else base_name xs @ [c])"
  by (simp add: base_name_def)

lemma base_name_ofs_eq:
  assumes "base + k \<le> length cd"
  shows "\<exists>ofs. base_name_ofs cd base k = Some ofs \<and> ofs \<le> k \<and>
    take (k - ofs) (drop (base + ofs) cd) = base_name (take k (drop base cd))"
  using assms
proof (induction k)
  case 0
  then show ?case by (simp add: base_name_def)
next
  case (Suc k)
  have snoc: "take (Suc k) (drop base cd) = take k (drop base cd) @ [cd ! (base + k)]"
    using Suc.prems by (simp add: take_Suc_conv_app_nth)
  show ?case
  proof (cases "path_separator (cd ! (base + k))")
    case True
    then have "base_name_ofs cd base (Suc k) = Some (Suc k)"
      using Suc.prems by (auto simp: rd8_def path_separator_def)
    then show ?thesis using True unfolding snoc base_name_snoc by simp
  next
    case False
    obtain ofs where o: "base_name_ofs cd base k = Some ofs" "ofs \<le> k"
      "take (k - ofs) (drop (base + ofs) cd) = base_name (take k (drop base cd))"
      using Suc by auto
    have "base_name_ofs cd base (Suc k) = Some ofs"
      using False o(1) Suc.prems by (auto simp: rd8_def path_separator_def)
    moreover have "take (Suc k - ofs) (drop (base + ofs) cd) =
        take (k - ofs) (drop (base + ofs) cd) @ [cd ! (base + k)]"
      using o(2) Suc.prems by (simp add: Suc_diff_le take_Suc_conv_app_nth)
    ultimately show ?thesis using False o unfolding snoc base_name_snoc by simp
  qed
qed

lemma entry_matches_eq:
  assumes "entry_ok cd n p"
  shows "entry_matches cd p nm [] flags = Some (name_matches flags nm (cdh_filename cd p))"
proof -
  define len where "len = le16 cd (p + 28)"
  have inside: "p + 46 + len \<le> length cd" using assms by (simp add: entry_ok_def len_def)
  have rd: "rd16 cd (p + 28) = Some len" using inside by (simp add: rd16_eq len_def)
  have fnm: "cdh_filename cd p = take len (drop (p + 46) cd)" by (simp add: cdh_filename_def len_def)
  define skip where "skip = (flags AND MZ_ZIP_FLAG_IGNORE_PATH \<noteq> 0)"
  obtain ofs where o: "(if skip \<and> len \<noteq> 0 then base_name_ofs cd (p + 46) len else Some 0) = Some ofs"
    "ofs \<le> len"
    "take (len - ofs) (drop (p + 46 + ofs) cd) = (if skip then base_name (cdh_filename cd p) else cdh_filename cd p)"
    using base_name_ofs_eq [OF inside] by (cases "skip \<and> len \<noteq> 0") (auto simp: fnm base_name_def)
  have len_o: "length (take (len - ofs) (drop (p + 46 + ofs) cd)) = len - ofs"
    using o(2) inside by simp
  have lower_len: "lower xs = lower ys \<Longrightarrow> length xs = length ys" for xs ys
    by (metis lower_simps(3))
  have matches: "name_matches flags nm (cdh_filename cd p) =
      (if flags AND MZ_ZIP_FLAG_CASE_SENSITIVE \<noteq> 0 then nm = take (len - ofs) (drop (p + 46 + ofs) cd)
       else lower nm = lower (take (len - ofs) (drop (p + 46 + ofs) cd)))"
    unfolding name_matches_def Let_def o(3) skip_def by auto
  show ?thesis
  proof (cases "len - ofs = length nm")
    case True
    then have "\<not> len < length nm" by linarith
    from True have "mz_zip_string_equal nm 0 cd (p + 46 + ofs) (len - ofs) flags =
        Some (name_matches flags nm (cdh_filename cd p))"
      using o(2) inside by (subst string_equal_eq) (auto simp: matches)
    then show ?thesis
      using True rd o(1) \<open>\<not> len < length nm\<close> by (simp add: entry_matches_def skip_def)
  next
    case False
    then have "\<not> name_matches flags nm (cdh_filename cd p)"
      unfolding matches using len_o lower_len by (metis (full_types))
    then show ?thesis
      using False rd o(1) by (simp add: entry_matches_def skip_def)
  qed
qed

lemma locate_scan_correct:
  assumes "\<forall>p \<in> set offs. entry_ok cd n p" "i + left = length offs"
  shows "\<exists>r. locate_scan cd offs nm [] flags i left = Some r \<and> (case r of
      Some k \<Rightarrow> k < length offs \<and> name_matches flags nm (cdh_filename cd (offs ! k))
    | None \<Rightarrow> \<forall>k. i \<le> k \<and> k < length offs \<longrightarrow> \<not> name_matches flags nm (cdh_filename cd (offs ! k)))"
  using assms
proof (induction left arbitrary: i)
  case 0
  then show ?case by auto
next
  case (Suc left)
  have i: "i < length offs" using Suc.prems(2) by simp
  then have e: "entry_matches cd (offs ! i) nm [] flags = Some (name_matches flags nm (cdh_filename cd (offs ! i)))"
    using Suc.prems(1) entry_matches_eq nth_mem by blast
  show ?case
  proof (cases "name_matches flags nm (cdh_filename cd (offs ! i))")
    case True
    then show ?thesis using i e by (simp add: nth_o_def)
  next
    case False
    obtain r where r: "locate_scan cd offs nm [] flags (Suc i) left = Some r" "case r of
        Some k \<Rightarrow> k < length offs \<and> name_matches flags nm (cdh_filename cd (offs ! k))
      | None \<Rightarrow> \<forall>k. Suc i \<le> k \<and> k < length offs \<longrightarrow> \<not> name_matches flags nm (cdh_filename cd (offs ! k))"
      using Suc.IH [of "Suc i"] Suc.prems by auto
    have "\<not> name_matches flags nm (cdh_filename cd (offs ! k))"
      if "r = None" "i \<le> k" "k < length offs" for k
      using that r(2) False by (cases "k = i") auto
    then show ?thesis using i e False r by (auto simp: nth_o_def split: option.splits)
  qed
qed

lemma name_matches_fold:
  "flags AND (MZ_ZIP_FLAG_IGNORE_PATH OR MZ_ZIP_FLAG_CASE_SENSITIVE) = 0 \<Longrightarrow>
   name_matches flags nm x \<longleftrightarrow> lower x = lower nm"
proof -
  assume a: "flags AND (MZ_ZIP_FLAG_IGNORE_PATH OR MZ_ZIP_FLAG_CASE_SENSITIVE) = 0"
  have "flags AND MZ_ZIP_FLAG_IGNORE_PATH = 0 \<and> flags AND MZ_ZIP_FLAG_CASE_SENSITIVE = 0"
  proof
    have "flags AND MZ_ZIP_FLAG_IGNORE_PATH =
        (flags AND (MZ_ZIP_FLAG_IGNORE_PATH OR MZ_ZIP_FLAG_CASE_SENSITIVE)) AND MZ_ZIP_FLAG_IGNORE_PATH"
      by (simp add: and.assoc)
    then show "flags AND MZ_ZIP_FLAG_IGNORE_PATH = 0" using a by simp
    have "flags AND MZ_ZIP_FLAG_CASE_SENSITIVE =
        (flags AND (MZ_ZIP_FLAG_IGNORE_PATH OR MZ_ZIP_FLAG_CASE_SENSITIVE)) AND MZ_ZIP_FLAG_CASE_SENSITIVE"
      by (simp add: and.assoc)
    then show "flags AND MZ_ZIP_FLAG_CASE_SENSITIVE = 0" using a by simp
  qed
  then show ?thesis by (simp add: name_matches_def)
qed

lemma locate_linear:
  assumes "wf_archive z" "m_pState z = Some st"
  shows "\<exists>r. locate_scan (m_central_dir st) (m_central_dir_offsets st) nm [] flags 0 (m_total_files z) = Some r \<and>
    (case r of
      Some i \<Rightarrow> i < m_total_files z \<and> name_matches flags nm (entry_name z i)
    | None \<Rightarrow> \<forall>i < m_total_files z. \<not> name_matches flags nm (entry_name z i))"
proof -
  have offs: "length (m_central_dir_offsets st) = m_total_files z"
    "\<forall>p \<in> set (m_central_dir_offsets st). entry_ok (m_central_dir st) (m_archive_size z) p"
    using assms by (auto simp: wf_archive_def entries_ok_def)
  have nm: "entry_name z i = cdh_filename (m_central_dir st) (m_central_dir_offsets st ! i)" for i
    using assms(2) by (simp add: entry_name_def cdh_of_def)
  obtain r where "locate_scan (m_central_dir st) (m_central_dir_offsets st) nm [] flags 0 (m_total_files z) = Some r"
    "case r of
      Some k \<Rightarrow> k < m_total_files z \<and> name_matches flags nm (entry_name z k)
    | None \<Rightarrow> \<forall>k. 0 \<le> k \<and> k < m_total_files z \<longrightarrow> \<not> name_matches flags nm (entry_name z k)"
    using locate_scan_correct [OF offs(2), of 0 "m_total_files z" nm flags] unfolding nm offs(1) by auto
  then show ?thesis by (intro exI [of _ r]) (cases r; simp)
qed

lemma locate_binary:
  assumes "wf_archive z" "m_pState z = Some st" "length nm < 2 ^ 31" "0 < m_total_files z"
    "m_init_flags st AND MZ_ZIP_FLAG_DO_NOT_SORT_CENTRAL_DIRECTORY = 0"
  shows "\<exists>r. bsearch_loop (m_central_dir st) (m_central_dir_offsets st) (m_sorted_central_dir_offsets st)
      nm (length nm) 0 (int (m_total_files z) - 1) = Some r \<and>
    (case r of
      Some i \<Rightarrow> i < m_total_files z \<and> lower (entry_name z i) = lower nm
    | None \<Rightarrow> \<forall>i < m_total_files z. lower (entry_name z i) \<noteq> lower nm)"
proof -
  let ?idx = "m_sorted_central_dir_offsets st"
  have offs: "length (m_central_dir_offsets st) = m_total_files z"
    "\<forall>p \<in> set (m_central_dir_offsets st). entry_ok (m_central_dir st) (m_archive_size z) p"
    using assms(1,2) by (auto simp: wf_archive_def entries_ok_def)
  have perm: "mset ?idx = mset [0..<m_total_files z]"
    and sorted: "sorted_wrt (\<lambda>i j. \<not> name_lt (m_central_dir st) (m_central_dir_offsets st) j i) ?idx"
    using assms(1,2,5) by (auto simp: wf_archive_def index_ok_def)
  have set_idx: "set ?idx = {0..<m_total_files z}" using mset_eq_setD [OF perm] by simp
  have len_idx: "length ?idx = m_total_files z" using mset_eq_length [OF perm] by simp
  have inside: "\<forall>i \<in> set ?idx. i < length (m_central_dir_offsets st) \<and>
      name_in (m_central_dir st) (m_central_dir_offsets st ! i)"
    using offs by (auto simp: set_idx intro!: entry_ok_name_in)
  have nm: "entry_name z i = cdh_filename (m_central_dir st) (m_central_dir_offsets st ! i)" for i
    using assms(2) by (simp add: entry_name_def cdh_of_def)
  obtain r where r: "bsearch_loop (m_central_dir st) (m_central_dir_offsets st) ?idx
      nm (length nm) 0 (int (m_total_files z) - 1) = Some r" "case r of
        Some i \<Rightarrow> i \<in> set ?idx \<and> lower (entry_name z i) = lower nm
      | None \<Rightarrow> \<forall>k. 0 \<le> int k \<and> int k \<le> int (m_total_files z) - 1 \<longrightarrow> lower (entry_name z (?idx ! k)) \<noteq> lower nm"
    using bsearch_loop_correct [OF inside assms(3) sorted, of 0 "int (m_total_files z) - 1"] len_idx
    unfolding nm by auto
  have "lower (entry_name z i) \<noteq> lower nm" if "r = None" "i < m_total_files z" for i
  proof -
    have "i \<in> set ?idx" using that(2) by (simp add: set_idx)
    then obtain k where "k < length ?idx" "?idx ! k = i" by (auto simp: in_set_conv_nth)
    moreover from this have "int k \<le> int (m_total_files z) - 1" using len_idx by linarith
    ultimately show ?thesis using r(2) that(1) by auto
  qed
  then show ?thesis using r by (auto simp: set_idx split: option.splits)
qed

section \<open>Properties\<close>

text \<open>C16. Locating an entry by name is sound and complete on every open archive and for every
  combination of the flags, whether the code takes the binary search over the sorted index or the
  linear scan: it answers the index of an entry whose name matches (up to case unless asked
  otherwise, on the last path component if asked), and fails with \<^verbatim>\<open>FILE_NOT_FOUND\<close> only when no
  entry of the archive matches. The search never reads out of bounds.\<close>

theorem locate_file_correct:
  assumes "wf_archive z" and "length nm \<le> 65535"
  shows "zpost (mz_zip_reader_locate_file_v2 z (Some nm) None flags) (\<lambda>z' r. case r of
      Inr i \<Rightarrow> z' = z \<and> i < m_total_files z \<and> name_matches flags nm (entry_name z i)
    | Inl e \<Rightarrow> e = MZ_ZIP_FILE_NOT_FOUND \<and> (\<forall>i < m_total_files z. \<not> name_matches flags nm (entry_name z i)))"
proof -
  obtain st where st: "m_pState z = Some st" using assms(1) by (auto simp: wf_archive_def split: option.splits)
  define quick where "quick \<longleftrightarrow> m_init_flags st AND MZ_ZIP_FLAG_DO_NOT_SORT_CENTRAL_DIRECTORY = 0 \<and>
     m_zip_mode z = MZ_ZIP_MODE_READING \<and>
     flags AND (MZ_ZIP_FLAG_IGNORE_PATH OR MZ_ZIP_FLAG_CASE_SENSITIVE) = 0 \<and>
     m_sorted_central_dir_offsets st \<noteq> []"
  show ?thesis
  proof (cases quick)
    case True
    have len: "u32 (length nm) = length nm" "length nm < 2 ^ 31" using assms(2) by simp_all
    have "m_total_files z \<noteq> 0"
      using assms(1) True st by (intro notI) (simp add: wf_archive_def index_ok_def quick_def)
    moreover have "m_init_flags st AND MZ_ZIP_FLAG_DO_NOT_SORT_CENTRAL_DIRECTORY = 0"
      using True unfolding quick_def by blast
    ultimately obtain r where "bsearch_loop (m_central_dir st) (m_central_dir_offsets st)
        (m_sorted_central_dir_offsets st) nm (length nm) 0 (int (m_total_files z) - 1) = Some r" "case r of
          Some i \<Rightarrow> i < m_total_files z \<and> lower (entry_name z i) = lower nm
        | None \<Rightarrow> \<forall>i < m_total_files z. lower (entry_name z i) \<noteq> lower nm"
      using locate_binary [OF assms(1) st len(2)] by auto
    then show ?thesis
      using True st len \<open>m_total_files z \<noteq> 0\<close>
      by (auto simp: mz_zip_reader_locate_file_v2_def mz_zip_locate_file_binary_search_def
          quick_def [symmetric] name_matches_fold quick_def split: option.splits)
  next
    case False
    then show ?thesis
      using locate_linear [OF assms(1) st, of nm flags] assms(2) st
      by (auto simp: mz_zip_reader_locate_file_v2_def quick_def Let_def split: option.splits)
  qed
qed

lemma locate_file_correct_witness:
  "zpost (mz_zip_reader_locate_file_v2 demo_archive (Some [65]) None 0) (\<lambda>z' r. case r of
      Inr i \<Rightarrow> z' = demo_archive \<and> i < m_total_files demo_archive \<and> name_matches 0 [65] (entry_name demo_archive i)
    | Inl e \<Rightarrow> e = MZ_ZIP_FILE_NOT_FOUND \<and>
        (\<forall>i < m_total_files demo_archive. \<not> name_matches 0 [65] (entry_name demo_archive i)))"
  by (rule locate_file_correct [OF demo_archive_wf]) simp

end
