(* ===== verification/TinflTables.thy ===== *)
theory TinflTables
  imports Prelude ZipSort
begin

unbundle bit_operations_syntax

text \<open>
  The decompressor's state and its Huffman tables: the structure \<^verbatim>\<open>tinfl_decompressor\<close> and the
  table construction in the loop of \<^verbatim>\<open>tinfl_decompress\<close> over \<^verbatim>\<open>m_type\<close>. A table has 1024 entries
  indexed by the next ten bits: \<^verbatim>\<open>(code_size << 9) | symbol\<close> for the short codes, a negative
  number \<open>t\<close> pointing to the pair of tree nodes at \<open>- t - 1\<close> for the longer ones, and 0 for bits no
  code begins with. Arrays are lists; an index outside one is undefined behaviour.
\<close>

section \<open>The decompressor\<close>

datatype tinfl_status =
    TINFL_STATUS_FAILED_CANNOT_MAKE_PROGRESS
  | TINFL_STATUS_BAD_PARAM
  | TINFL_STATUS_ADLER32_MISMATCH
  | TINFL_STATUS_FAILED
  | TINFL_STATUS_DONE
  | TINFL_STATUS_NEEDS_MORE_INPUT
  | TINFL_STATUS_HAS_MORE_OUTPUT

text \<open>The enumeration's number.\<close>

definition status_code :: "tinfl_status \<Rightarrow> int" where
  "status_code s = (case s of
      TINFL_STATUS_FAILED_CANNOT_MAKE_PROGRESS \<Rightarrow> - 4
    | TINFL_STATUS_BAD_PARAM \<Rightarrow> - 3
    | TINFL_STATUS_ADLER32_MISMATCH \<Rightarrow> - 2
    | TINFL_STATUS_FAILED \<Rightarrow> - 1
    | TINFL_STATUS_DONE \<Rightarrow> 0
    | TINFL_STATUS_NEEDS_MORE_INPUT \<Rightarrow> 1
    | TINFL_STATUS_HAS_MORE_OUTPUT \<Rightarrow> 2)"

abbreviation (input) TINFL_FLAG_PARSE_ZLIB_HEADER :: nat where "TINFL_FLAG_PARSE_ZLIB_HEADER \<equiv> 1"
abbreviation (input) TINFL_FLAG_HAS_MORE_INPUT :: nat where "TINFL_FLAG_HAS_MORE_INPUT \<equiv> 2"
abbreviation (input) TINFL_FLAG_USING_NON_WRAPPING_OUTPUT_BUF :: nat
  where "TINFL_FLAG_USING_NON_WRAPPING_OUTPUT_BUF \<equiv> 4"
abbreviation (input) TINFL_FLAG_COMPUTE_ADLER32 :: nat where "TINFL_FLAG_COMPUTE_ADLER32 \<equiv> 8"
abbreviation (input) TINFL_FAST_LOOKUP_BITS :: nat where "TINFL_FAST_LOOKUP_BITS \<equiv> 10"
abbreviation (input) TINFL_FAST_LOOKUP_SIZE :: nat where "TINFL_FAST_LOOKUP_SIZE \<equiv> 1024"

record tinfl_decompressor =
  m_state :: nat
  m_num_bits :: nat
  m_zhdr0 :: nat
  m_zhdr1 :: nat
  m_z_adler32 :: nat
  m_final :: nat
  m_type :: nat
  m_check_adler32 :: nat
  m_dist :: nat
  m_counter :: nat
  m_num_extra :: nat
  m_table_sizes :: "nat list"
  m_bit_buf :: nat
  m_dist_from_out_buf_start :: nat
  m_look_up :: "int list list"
  m_tree_0 :: "int list"
  m_tree_1 :: "int list"
  m_tree_2 :: "int list"
  m_code_size_0 :: "nat list"
  m_code_size_1 :: "nat list"
  m_code_size_2 :: "nat list"
  m_raw_header :: "nat list"
  m_len_codes :: "nat list"

text \<open>The arrays have the lengths of their declarations.\<close>

definition decomp_shape :: "tinfl_decompressor \<Rightarrow> bool" where
  "decomp_shape r \<longleftrightarrow> length (m_table_sizes r) = 3 \<and> length (m_look_up r) = 3 \<and>
     (\<forall>t \<in> set (m_look_up r). length t = 1024) \<and>
     length (m_tree_0 r) = 576 \<and> length (m_tree_1 r) = 64 \<and> length (m_tree_2 r) = 38 \<and>
     length (m_code_size_0 r) = 288 \<and> length (m_code_size_1 r) = 32 \<and> length (m_code_size_2 r) = 19 \<and>
     length (m_raw_header r) = 4 \<and> length (m_len_codes r) = 457"

text \<open>\<^verbatim>\<open>tinfl_init\<close> sets the state only.\<close>

definition tinfl_init :: "tinfl_decompressor \<Rightarrow> tinfl_decompressor" where
  "tinfl_init r = r\<lparr>m_state := 0\<rparr>"

text \<open>A checked store.\<close>

definition upd_o :: "'a list \<Rightarrow> nat \<Rightarrow> 'a \<Rightarrow> 'a list option" where
  "upd_o xs i x = (if i < length xs then Some (xs[i := x]) else None)"

text \<open>\<^verbatim>\<open>pTrees[type]\<close> and \<^verbatim>\<open>pCode_sizes[type]\<close>, and the store back.\<close>

definition tree_of :: "tinfl_decompressor \<Rightarrow> nat \<Rightarrow> int list option" where
  "tree_of r type = (if type = 0 then Some (m_tree_0 r) else if type = 1 then Some (m_tree_1 r)
     else if type = 2 then Some (m_tree_2 r) else None)"

definition code_size_of :: "tinfl_decompressor \<Rightarrow> nat \<Rightarrow> nat list option" where
  "code_size_of r type = (if type = 0 then Some (m_code_size_0 r) else if type = 1 then Some (m_code_size_1 r)
     else if type = 2 then Some (m_code_size_2 r) else None)"

definition set_tree :: "tinfl_decompressor \<Rightarrow> nat \<Rightarrow> int list \<Rightarrow> tinfl_decompressor" where
  "set_tree r type t = (if type = 0 then r\<lparr>m_tree_0 := t\<rparr> else if type = 1 then r\<lparr>m_tree_1 := t\<rparr>
     else r\<lparr>m_tree_2 := t\<rparr>)"

definition tinfl_clear_tree :: "tinfl_decompressor \<Rightarrow> tinfl_decompressor" where
  "tinfl_clear_tree r =
     (if m_type r = 0 then r\<lparr>m_tree_0 := replicate (length (m_tree_0 r)) 0\<rparr>
      else if m_type r = 1 then r\<lparr>m_tree_1 := replicate (length (m_tree_1 r)) 0\<rparr>
      else r\<lparr>m_tree_2 := replicate (length (m_tree_2 r)) 0\<rparr>)"

section \<open>Code lengths to codes\<close>

text \<open>\<^verbatim>\<open>for (i = 0; i < n; ++i) total_syms[pCode_size[i]]++\<close>.\<close>

fun count_syms :: "nat list \<Rightarrow> nat \<Rightarrow> nat \<Rightarrow> nat list \<Rightarrow> nat list option" where
  "count_syms pCode_size i 0 total_syms = Some total_syms"
| "count_syms pCode_size i (Suc left) total_syms = do {
     s \<leftarrow> nth_o pCode_size i;
     c \<leftarrow> nth_o total_syms s;
     count_syms pCode_size (i + 1) left (total_syms[s := c + 1])
   }"

text \<open>\<^verbatim>\<open>for (i = 1; i <= 15; ++i)\<close>: the number of used symbols, the Kraft sum, the first codes.\<close>

fun code_starts :: "nat list \<Rightarrow> nat \<Rightarrow> nat \<Rightarrow> nat \<Rightarrow> nat \<Rightarrow> nat list \<Rightarrow> (nat \<times> nat \<times> nat list) option" where
  "code_starts total_syms i 0 used_syms kraft next_code = Some (used_syms, kraft, next_code)"
| "code_starts total_syms i (Suc left) used_syms kraft next_code = do {
     c \<leftarrow> nth_o total_syms i;
     (let kraft' = u32 ((kraft + c) * 2) in do {
        next_code \<leftarrow> upd_o next_code (i + 1) kraft';
        code_starts total_syms (i + 1) left (u32 (used_syms + c)) kraft' next_code
      })
   }"

text \<open>\<^verbatim>\<open>for (l = code_size; l > 0; l--, cur_code >>= 1)\<close>: the code with its bits reversed.\<close>

fun rev_bits :: "nat \<Rightarrow> nat \<Rightarrow> nat \<Rightarrow> nat" where
  "rev_bits 0 cur_code rev_code = rev_code"
| "rev_bits (Suc l) cur_code rev_code =
     rev_bits l (drop_bit 1 cur_code) (u32 (push_bit 1 rev_code OR (cur_code AND 1)))"

text \<open>\<^verbatim>\<open>while (rev_code < TINFL_FAST_LOOKUP_SIZE)\<close>: every index whose low bits are the code.\<close>

function fill_lookup :: "nat \<Rightarrow> int \<Rightarrow> nat \<Rightarrow> int list \<Rightarrow> int list option" where
  "fill_lookup code_size k rev_code pLookUp =
     (if rev_code < TINFL_FAST_LOOKUP_SIZE
      then do {
        pLookUp \<leftarrow> upd_o pLookUp rev_code k;
        fill_lookup code_size k (rev_code + 2 ^ code_size) pLookUp
      }
      else Some pLookUp)"
  by pat_completeness auto
termination
  by (relation "measure (\<lambda>(n, k, rev_code, t). 1024 - rev_code)") (auto intro!: diff_less_mono2)

declare fill_lookup.simps [simp del]

text \<open>
  The insertion of a code longer than ten bits: the node pair reached from the table, then one
  tree level per further bit, \<open>left\<close> levels to go.
\<close>

fun tree_descend :: "nat \<Rightarrow> nat \<Rightarrow> int \<Rightarrow> int \<Rightarrow> int list \<Rightarrow> (nat \<times> int \<times> int \<times> int list) option" where
  "tree_descend 0 rev_code tree_cur tree_next pTree = Some (rev_code, tree_cur, tree_next, pTree)"
| "tree_descend (Suc left) rev_code tree_cur tree_next pTree =
     (let rev_code = drop_bit 1 rev_code;
          tree_cur = tree_cur - int (rev_code AND 1)
      in do {
        v \<leftarrow> nth_o pTree (nat (- tree_cur - 1));
        (if v = 0
         then do {
           pTree \<leftarrow> upd_o pTree (nat (- tree_cur - 1)) tree_next;
           tree_descend left rev_code tree_next (tree_next - 2) pTree
         }
         else tree_descend left rev_code v tree_next pTree)
      })"

definition insert_long ::
    "nat \<Rightarrow> nat \<Rightarrow> nat \<Rightarrow> int \<Rightarrow> int list \<Rightarrow> int list \<Rightarrow> (int \<times> int list \<times> int list) option" where
  "insert_long code_size sym_index rev_code tree_next pLookUp pTree = do {
     v \<leftarrow> nth_o pLookUp (rev_code AND (TINFL_FAST_LOOKUP_SIZE - 1));
     (pLookUp, tree_cur, tree_next) \<leftarrow>
       (if v = 0
        then do {
          t \<leftarrow> upd_o pLookUp (rev_code AND (TINFL_FAST_LOOKUP_SIZE - 1)) tree_next;
          Some (t, tree_next, tree_next - 2)
        }
        else Some (pLookUp, v, tree_next));
     (rev_code, tree_cur, tree_next, pTree) \<leftarrow>
       tree_descend (code_size - (TINFL_FAST_LOOKUP_BITS + 1))
         (drop_bit (TINFL_FAST_LOOKUP_BITS - 1) rev_code) tree_cur tree_next pTree;
     (let tree_cur = tree_cur - int (drop_bit 1 rev_code AND 1) in do {
        pTree \<leftarrow> upd_o pTree (nat (- tree_cur - 1)) (int sym_index);
        Some (tree_next, pLookUp, pTree)
      })
   }"

text \<open>The loop over \<^verbatim>\<open>sym_index\<close>.\<close>

fun insert_syms ::
    "nat list \<Rightarrow> nat \<Rightarrow> nat \<Rightarrow> nat list \<Rightarrow> int \<Rightarrow> int list \<Rightarrow> int list \<Rightarrow> (int list \<times> int list) option" where
  "insert_syms pCode_size sym_index 0 next_code tree_next pLookUp pTree = Some (pLookUp, pTree)"
| "insert_syms pCode_size sym_index (Suc left) next_code tree_next pLookUp pTree = do {
     code_size \<leftarrow> nth_o pCode_size sym_index;
     (if code_size = 0
      then insert_syms pCode_size (sym_index + 1) left next_code tree_next pLookUp pTree
      else do {
        cur_code \<leftarrow> nth_o next_code code_size;
        (let next_code = next_code[code_size := u32 (cur_code + 1)];
             rev_code = rev_bits code_size cur_code 0
         in if code_size \<le> TINFL_FAST_LOOKUP_BITS
            then do {
              pLookUp \<leftarrow> fill_lookup code_size (int (push_bit 9 code_size OR sym_index)) rev_code pLookUp;
              insert_syms pCode_size (sym_index + 1) left next_code tree_next pLookUp pTree
            }
            else do {
              (tree_next, pLookUp, pTree) \<leftarrow>
                insert_long code_size sym_index rev_code tree_next pLookUp pTree;
              insert_syms pCode_size (sym_index + 1) left next_code tree_next pLookUp pTree
            })
      })
   }"

text \<open>
  One turn of \<^verbatim>\<open>for (; (int)r->m_type >= 0; r->m_type--)\<close> up to the tables: nothing inside when the code
  lengths are not those of a complete code and more than one symbol is used.
\<close>

definition build_table :: "tinfl_decompressor \<Rightarrow> tinfl_decompressor option option" where
  "build_table r = do {
     let type = m_type r;
     pCode_size \<leftarrow> code_size_of r type;
     n \<leftarrow> nth_o (m_table_sizes r) type;
     look_up \<leftarrow> nth_o (m_look_up r) type;
     let r = tinfl_clear_tree (r\<lparr>m_look_up := (m_look_up r)[type := replicate (length look_up) 0]\<rparr>);
     total_syms \<leftarrow> count_syms pCode_size 0 n (replicate 16 0);
     (used_syms, kraft, next_code) \<leftarrow> code_starts total_syms 1 15 0 0 (replicate 17 0);
     (if kraft \<noteq> 65536 \<and> 1 < used_syms then Some None
      else do {
        pTree \<leftarrow> tree_of r type;
        pLookUp \<leftarrow> nth_o (m_look_up r) type;
        (pLookUp, pTree) \<leftarrow> insert_syms pCode_size 0 n next_code (- 1) pLookUp pTree;
        Some (Some (set_tree (r\<lparr>m_look_up := (m_look_up r)[type := pLookUp]\<rparr>) type pTree))
      })
   }"

section \<open>Decoding with a table\<close>

text \<open>
  The walk down the tree: \<^verbatim>\<open>do { temp = pTree[~temp + ((bit_buf >> code_len++) & 1)]; } while (temp < 0)\<close>. A
  shift by 64 or more is undefined.
\<close>

function tree_walk :: "int list \<Rightarrow> nat \<Rightarrow> int \<Rightarrow> nat \<Rightarrow> (int \<times> nat) option" where
  "tree_walk pTree bit_buf temp code_len =
     (if 64 \<le> code_len then None
      else do {
        temp \<leftarrow> nth_o pTree (nat (- temp - 1) + (drop_bit code_len bit_buf AND 1));
        (if temp < 0 then tree_walk pTree bit_buf temp (code_len + 1) else Some (temp, code_len + 1))
      })"
  by pat_completeness auto
termination by (relation "measure (\<lambda>(t, b, temp, n). 64 - n)") auto

declare tree_walk.simps [simp del]

text \<open>The entry found for the next bits, and the length of the code.\<close>

definition huff_lookup :: "int list \<Rightarrow> int list \<Rightarrow> nat \<Rightarrow> (int \<times> nat) option" where
  "huff_lookup pLookUp pTree bit_buf = do {
     temp \<leftarrow> nth_o pLookUp (bit_buf AND (TINFL_FAST_LOOKUP_SIZE - 1));
     (if 0 \<le> temp then Some (temp, nat temp div 2 ^ 9)
      else tree_walk pTree bit_buf temp TINFL_FAST_LOOKUP_BITS)
   }"

text \<open>
  The test of \<^verbatim>\<open>TINFL_HUFF_BITBUF_FILL\<close>: whether the bits at hand hold a whole code.
\<close>

function fill_walk :: "int list \<Rightarrow> nat \<Rightarrow> nat \<Rightarrow> int \<Rightarrow> nat \<Rightarrow> int option" where
  "fill_walk pTree bit_buf num_bits temp code_len =
     (if 64 \<le> code_len then None
      else do {
        temp \<leftarrow> nth_o pTree (nat (- temp - 1) + (drop_bit code_len bit_buf AND 1));
        (if temp < 0 \<and> code_len + 2 \<le> num_bits
         then fill_walk pTree bit_buf num_bits temp (code_len + 1) else Some temp)
      })"
  by pat_completeness auto
termination by (relation "measure (\<lambda>(t, b, k, temp, n). 64 - n)") auto

declare fill_walk.simps [simp del]

definition fill_test :: "int list \<Rightarrow> int list \<Rightarrow> nat \<Rightarrow> nat \<Rightarrow> bool option" where
  "fill_test pLookUp pTree bit_buf num_bits = do {
     temp \<leftarrow> nth_o pLookUp (bit_buf AND (TINFL_FAST_LOOKUP_SIZE - 1));
     (if 0 \<le> temp
      then (let code_len = nat temp div 2 ^ 9 in Some (code_len \<noteq> 0 \<and> code_len \<le> num_bits))
      else if TINFL_FAST_LOOKUP_BITS < num_bits
      then do { t \<leftarrow> fill_walk pTree bit_buf num_bits temp TINFL_FAST_LOOKUP_BITS; Some (0 \<le> t) }
      else Some False)
   }"

end
