(* ===== verification/Tinfl.thy ===== *)
theory Tinfl
  imports TinflTables Checksum
begin

unbundle bit_operations_syntax

text \<open>
  \<^verbatim>\<open>tinfl_decompress\<close>: the resumable decompressor. The C function is a coroutine: it saves an
  index in \<^verbatim>\<open>m_state\<close> where it runs out of input or output and resumes there. Here a control point
  (\<open>tinfl_pc\<close>) is either such an index (\<open>St k\<close>, the \<^verbatim>\<open>case\<close> labels) or a point between two of them;
  \<open>tinfl_step\<close> executes the code from one control point to the next, \<open>tinfl_run\<close> iterates it, and
  \<open>tinfl_decompress\<close> adds the entry and the exit code.

  Offsets stand for the pointers: into the input of the call, and into the output buffer from
  \<^verbatim>\<open>pOut_buf_start\<close> on. The bit buffer has 64 bits, unaligned loads are off, as in the build. The assertion
  after the last block is not modelled. At the labels of \<^verbatim>\<open>TINFL_GET_BITS\<close> the test whether bits are
  missing is repeated on resumption: it holds there, since the call left for want of them.
\<close>

section \<open>The machine\<close>

datatype tinfl_pc =
    St nat                    \<comment> \<open>a \<^verbatim>\<open>case\<close> label\<close>
  | Raw_header                \<comment> \<open>head of the loop over the four bytes of a stored header\<close>
  | Raw_bits                  \<comment> \<open>head of \<^verbatim>\<open>while ((counter) && (num_bits))\<close>\<close>
  | Raw_copy                  \<comment> \<open>head of \<^verbatim>\<open>while (counter)\<close>\<close>
  | Code_sizes                \<comment> \<open>head of the loop over the code length codes\<close>
  | Tables                    \<comment> \<open>head of the loop over \<^verbatim>\<open>m_type\<close>\<close>
  | Lens                      \<comment> \<open>head of the loop over the code lengths\<close>
  | Huff nat                  \<comment> \<open>\<^verbatim>\<open>TINFL_HUFF_DECODE\<close> with that index\<close>
  | Fill nat                  \<comment> \<open>the test in \<^verbatim>\<open>TINFL_HUFF_BITBUF_FILL\<close>\<close>
  | Decode nat                \<comment> \<open>the look-up of \<^verbatim>\<open>TINFL_HUFF_DECODE\<close>\<close>
  | Syms                      \<comment> \<open>head of the inner \<^verbatim>\<open>for (;;)\<close>\<close>
  | Match_len                 \<comment> \<open>after the inner loop\<close>
  | Match_dist                \<comment> \<open>after the distance symbol\<close>
  | Match_copy                \<comment> \<open>the distance is known\<close>
  | Slow_copy                 \<comment> \<open>head of \<^verbatim>\<open>while (counter--)\<close>\<close>
  | Block_end                 \<comment> \<open>\<^verbatim>\<open>while (!(r->m_final & 1))\<close>\<close>
  | Adler_bytes               \<comment> \<open>head of the loop over the four trailer bytes\<close>

text \<open>The parameters of a call, constant while it runs.\<close>

record tinfl_env =
  in_buf :: bytes
  out_next :: nat
  out_end :: nat
  out_mask :: nat
  decomp_flags :: nat

text \<open>The local variables, the structure, and the output buffer.\<close>

record tinfl_vars =
  pc :: tinfl_pc
  num_bits :: nat
  bit_buf :: nat
  dist :: nat
  counter :: nat
  num_extra :: nat
  dist_from_out_buf_start :: nat
  in_cur :: nat
  out_cur :: nat
  out_buf :: bytes
  dec :: tinfl_decompressor

datatype tinfl_next = Go tinfl_vars | Halt tinfl_status tinfl_vars

definition has_flag :: "tinfl_env \<Rightarrow> nat \<Rightarrow> bool" where
  "has_flag e flag \<longleftrightarrow> decomp_flags e AND flag \<noteq> 0"

text \<open>\<^verbatim>\<open>TINFL_CR_RETURN\<close>, and \<^verbatim>\<open>TINFL_CR_RETURN_FOREVER\<close>, which comes back to itself.\<close>

definition cr_return :: "nat \<Rightarrow> tinfl_status \<Rightarrow> tinfl_vars \<Rightarrow> tinfl_next option" where
  "cr_return state_index result v =
     Some (Halt result (v\<lparr>dec := (dec v)\<lparr>m_state := state_index\<rparr>\<rparr>))"

definition go :: "tinfl_pc \<Rightarrow> tinfl_vars \<Rightarrow> tinfl_next option" where
  "go l v = Some (Go (v\<lparr>pc := l\<rparr>))"

definition need_input :: "tinfl_env \<Rightarrow> tinfl_status" where
  "need_input e = (if has_flag e TINFL_FLAG_HAS_MORE_INPUT then TINFL_STATUS_NEEDS_MORE_INPUT
     else TINFL_STATUS_FAILED_CANNOT_MAKE_PROGRESS)"

text \<open>\<^verbatim>\<open>TINFL_GET_BYTE(state_index, c)\<close> followed by \<open>k c\<close>.\<close>

definition get_byte ::
    "tinfl_env \<Rightarrow> nat \<Rightarrow> tinfl_vars \<Rightarrow> (nat \<Rightarrow> tinfl_vars \<Rightarrow> tinfl_next option) \<Rightarrow> tinfl_next option" where
  "get_byte e state_index v k =
     (if length (in_buf e) \<le> in_cur v then cr_return state_index (need_input e) v
      else do { c \<leftarrow> rd8 (in_buf e) (in_cur v); k c (v\<lparr>in_cur := in_cur v + 1\<rparr>) })"

text \<open>\<^verbatim>\<open>bit_buf |= (((tinfl_bit_buf_t)c) << num_bits), num_bits += n\<close>.\<close>

definition shift_in :: "nat \<Rightarrow> nat \<Rightarrow> tinfl_vars \<Rightarrow> tinfl_vars option" where
  "shift_in c n v =
     (if 64 \<le> num_bits v then None
      else Some (v\<lparr>bit_buf := bit_buf v OR u64 (push_bit (num_bits v) c), num_bits := num_bits v + n\<rparr>))"

definition drop_bits :: "nat \<Rightarrow> tinfl_vars \<Rightarrow> tinfl_vars option" where
  "drop_bits n v =
     (if 64 \<le> n then None
      else Some (v\<lparr>bit_buf := drop_bit n (bit_buf v), num_bits := sub32 (num_bits v) n\<rparr>))"

text \<open>
  \<^verbatim>\<open>TINFL_GET_BITS(state_index, b, n)\<close> followed by \<open>k b\<close>: one byte per step as long as bits are
  missing.
\<close>

definition get_bits ::
    "tinfl_env \<Rightarrow> nat \<Rightarrow> nat \<Rightarrow> tinfl_vars \<Rightarrow> (nat \<Rightarrow> tinfl_vars \<Rightarrow> tinfl_next option) \<Rightarrow> tinfl_next option" where
  "get_bits e state_index n v k =
     (if num_bits v < n
      then get_byte e state_index v (\<lambda>c v. do { v \<leftarrow> shift_in c 8 v; go (St state_index) v })
      else do { w \<leftarrow> drop_bits n v; k (bit_buf v AND (2 ^ n - 1)) w })"

section \<open>The tables of the format\<close>

definition s_length_base :: "nat list" where
  "s_length_base = [3, 4, 5, 6, 7, 8, 9, 10, 11, 13, 15, 17, 19, 23, 27, 31, 35, 43, 51, 59, 67, 83,
     99, 115, 131, 163, 195, 227, 258, 0, 0]"

definition s_length_extra :: "nat list" where
  "s_length_extra = [0, 0, 0, 0, 0, 0, 0, 0, 1, 1, 1, 1, 2, 2, 2, 2, 3, 3, 3, 3, 4, 4, 4, 4, 5, 5, 5,
     5, 0, 0, 0]"

definition s_dist_base :: "nat list" where
  "s_dist_base = [1, 2, 3, 4, 5, 7, 9, 13, 17, 25, 33, 49, 65, 97, 129, 193, 257, 385, 513, 769, 1025,
     1537, 2049, 3073, 4097, 6145, 8193, 12289, 16385, 24577, 0, 0]"

definition s_dist_extra :: "nat list" where
  "s_dist_extra = [0, 0, 0, 0, 1, 1, 2, 2, 3, 3, 4, 4, 5, 5, 6, 6, 7, 7, 8, 8, 9, 9, 10, 10, 11, 11, 12,
     12, 13, 13, 0, 0]"

definition s_length_dezigzag :: "nat list" where
  "s_length_dezigzag = [16, 17, 18, 0, 8, 7, 9, 6, 10, 5, 11, 4, 12, 3, 13, 2, 14, 1, 15]"

definition s_min_table_sizes :: "nat list" where
  "s_min_table_sizes = [257, 1, 4]"

section \<open>The steps\<close>

text \<open>The start, the zlib header, and the block header (labels 0 to 3).\<close>

definition zlib_header_bad :: "tinfl_env \<Rightarrow> tinfl_decompressor \<Rightarrow> bool" where
  "zlib_header_bad e r \<longleftrightarrow>
     (m_zhdr0 r * 256 + m_zhdr1 r) mod 31 \<noteq> 0 \<or> m_zhdr1 r AND 32 \<noteq> 0 \<or> m_zhdr0 r AND 15 \<noteq> 8 \<or>
     \<not> has_flag e TINFL_FLAG_USING_NON_WRAPPING_OUTPUT_BUF \<and>
       (32768 < (2 :: nat) ^ (8 + drop_bit 4 (m_zhdr0 r)) \<or> u64 (out_mask e + 1) < 2 ^ (8 + drop_bit 4 (m_zhdr0 r)))"

definition step_start :: "tinfl_env \<Rightarrow> tinfl_vars \<Rightarrow> tinfl_next option" where
  "step_start e v =
     (let v = v\<lparr>bit_buf := 0, num_bits := 0, dist := 0, counter := 0, num_extra := 0,
            dec := (dec v)\<lparr>m_zhdr0 := 0, m_zhdr1 := 0, m_z_adler32 := 1, m_check_adler32 := 1\<rparr>\<rparr>
      in go (if has_flag e TINFL_FLAG_PARSE_ZLIB_HEADER then St 1 else St 3) v)"

definition step_zlib1 :: "tinfl_env \<Rightarrow> tinfl_vars \<Rightarrow> tinfl_next option" where
  "step_zlib1 e v = get_byte e 1 v (\<lambda>c v. go (St 2) (v\<lparr>dec := (dec v)\<lparr>m_zhdr0 := c\<rparr>\<rparr>))"

definition step_zlib2 :: "tinfl_env \<Rightarrow> tinfl_vars \<Rightarrow> tinfl_next option" where
  "step_zlib2 e v = get_byte e 2 v (\<lambda>c v.
     let r = (dec v)\<lparr>m_zhdr1 := c\<rparr>; bad = zlib_header_bad e r
     in go (if bad then St 36 else St 3) (v\<lparr>dec := r, counter := (if bad then 1 else 0)\<rparr>))"

text \<open>The code lengths of the fixed code.\<close>

definition fixed_code_sizes :: "nat list" where
  "fixed_code_sizes = replicate 144 8 @ replicate 112 9 @ replicate 24 7 @ replicate 8 8"

definition step_block :: "tinfl_env \<Rightarrow> tinfl_vars \<Rightarrow> tinfl_next option" where
  "step_block e v = get_bits e 3 3 v (\<lambda>b v.
     let type = drop_bit 1 b; r = (dec v)\<lparr>m_final := b, m_type := type\<rparr>
     in if type = 0 then go (St 5) (v\<lparr>dec := r\<rparr>)
        else if type = 3 then go (St 10) (v\<lparr>dec := r\<rparr>)
        else if type = 1 then do {
          sizes \<leftarrow> upd_o (m_table_sizes r) 0 288;
          sizes \<leftarrow> upd_o sizes 1 32;
          go Tables (v\<lparr>dec := r\<lparr>m_table_sizes := sizes,
            m_code_size_1 := replicate 32 5 @ drop 32 (m_code_size_1 r),
            m_code_size_0 := fixed_code_sizes @ drop 288 (m_code_size_0 r)\<rparr>\<rparr>)
        }
        else go (St 11) (v\<lparr>dec := r, counter := 0\<rparr>))"

text \<open>Stored blocks (labels 5, 6, 7, 51, 52, 9, 38).\<close>

definition step_skip5 :: "tinfl_env \<Rightarrow> tinfl_vars \<Rightarrow> tinfl_next option" where
  "step_skip5 e v = get_bits e 5 (num_bits v AND 7) v (\<lambda>_ v. go Raw_header (v\<lparr>counter := 0\<rparr>))"

definition step_raw_header :: "tinfl_env \<Rightarrow> tinfl_vars \<Rightarrow> tinfl_next option" where
  "step_raw_header e v =
     (if counter v < 4 then go (if num_bits v \<noteq> 0 then St 6 else St 7) v
      else do {
        a \<leftarrow> nth_o (m_raw_header (dec v)) 0;
        b \<leftarrow> nth_o (m_raw_header (dec v)) 1;
        c \<leftarrow> nth_o (m_raw_header (dec v)) 2;
        d \<leftarrow> nth_o (m_raw_header (dec v)) 3;
        (let n = a OR push_bit 8 b; v = v\<lparr>counter := n\<rparr>
         in go (if n \<noteq> 0xFFFF XOR (c OR push_bit 8 d) then St 39 else Raw_bits) v)
      })"

definition store_raw :: "nat \<Rightarrow> tinfl_vars \<Rightarrow> tinfl_next option" where
  "store_raw b v = do {
     h \<leftarrow> upd_o (m_raw_header (dec v)) (counter v) b;
     go Raw_header (v\<lparr>dec := (dec v)\<lparr>m_raw_header := h\<rparr>, counter := counter v + 1\<rparr>)
   }"

text \<open>\<^verbatim>\<open>while (pOut_buf_cur >= pOut_buf_end) TINFL_CR_RETURN\<close>, then \<^verbatim>\<open>*pOut_buf_cur++ = b\<close>.\<close>

definition put_byte ::
    "tinfl_env \<Rightarrow> nat \<Rightarrow> nat \<Rightarrow> tinfl_vars \<Rightarrow> (tinfl_vars \<Rightarrow> tinfl_next option) \<Rightarrow> tinfl_next option" where
  "put_byte e state_index b v k =
     (if out_end e \<le> out_cur v then cr_return state_index TINFL_STATUS_HAS_MORE_OUTPUT v
      else do {
        o' \<leftarrow> upd_o (out_buf v) (out_cur v) (word_of_nat b);
        k (v\<lparr>out_buf := o', out_cur := out_cur v + 1\<rparr>)
      })"

definition step_raw_bits :: "tinfl_env \<Rightarrow> tinfl_vars \<Rightarrow> tinfl_next option" where
  "step_raw_bits e v = go (if counter v \<noteq> 0 \<and> num_bits v \<noteq> 0 then St 51 else Raw_copy) v"

definition step_raw_copy :: "tinfl_env \<Rightarrow> tinfl_vars \<Rightarrow> tinfl_next option" where
  "step_raw_copy e v = go (if counter v \<noteq> 0 then St 9 else Block_end) v"

definition step_out9 :: "tinfl_env \<Rightarrow> tinfl_vars \<Rightarrow> tinfl_next option" where
  "step_out9 e v =
     (if out_end e \<le> out_cur v then cr_return 9 TINFL_STATUS_HAS_MORE_OUTPUT v else go (St 38) v)"

text \<open>\<^verbatim>\<open>memcpy(pOut_buf_cur, src, n)\<close>.\<close>

definition write_o :: "bytes \<Rightarrow> nat \<Rightarrow> bytes \<Rightarrow> bytes option" where
  "write_o buf i bs =
     (if i + length bs \<le> length buf then Some (take i buf @ bs @ drop (i + length bs) buf) else None)"

definition step_in38 :: "tinfl_env \<Rightarrow> tinfl_vars \<Rightarrow> tinfl_next option" where
  "step_in38 e v =
     (if length (in_buf e) \<le> in_cur v then cr_return 38 (need_input e) v
      else let n = min (min (out_end e - out_cur v) (length (in_buf e) - in_cur v)) (counter v) in do {
        bs \<leftarrow> rdn (in_buf e) (in_cur v) n;
        o' \<leftarrow> write_o (out_buf v) (out_cur v) bs;
        go Raw_copy (v\<lparr>out_buf := o', in_cur := in_cur v + n, out_cur := out_cur v + n,
          counter := counter v - n\<rparr>)
      })"

text \<open>The header of a dynamic block (labels 11 and 14).\<close>

definition step_sizes :: "tinfl_env \<Rightarrow> tinfl_vars \<Rightarrow> tinfl_next option" where
  "step_sizes e v = do {
     n \<leftarrow> nth_o [5, 5, 4, 0] (counter v);
     get_bits e 11 n v (\<lambda>b v. do {
       base \<leftarrow> nth_o s_min_table_sizes (counter v);
       sizes \<leftarrow> upd_o (m_table_sizes (dec v)) (counter v) (b + base);
       (let r = (dec v)\<lparr>m_table_sizes := sizes\<rparr>
        in if counter v + 1 < 3 then go (St 11) (v\<lparr>dec := r, counter := counter v + 1\<rparr>)
           else go Code_sizes (v\<lparr>counter := 0,
             dec := r\<lparr>m_code_size_2 := replicate (length (m_code_size_2 r)) 0\<rparr>\<rparr>))
     })
   }"

definition step_code_sizes :: "tinfl_env \<Rightarrow> tinfl_vars \<Rightarrow> tinfl_next option" where
  "step_code_sizes e v = do {
     n \<leftarrow> nth_o (m_table_sizes (dec v)) 2;
     (if counter v < n then go (St 14) v
      else do {
        sizes \<leftarrow> upd_o (m_table_sizes (dec v)) 2 19;
        go Tables (v\<lparr>dec := (dec v)\<lparr>m_table_sizes := sizes\<rparr>\<rparr>)
      })
   }"

definition step_clen14 :: "tinfl_env \<Rightarrow> tinfl_vars \<Rightarrow> tinfl_next option" where
  "step_clen14 e v = get_bits e 14 3 v (\<lambda>s v. do {
     i \<leftarrow> nth_o s_length_dezigzag (counter v);
     sizes \<leftarrow> upd_o (m_code_size_2 (dec v)) i s;
     go Code_sizes (v\<lparr>dec := (dec v)\<lparr>m_code_size_2 := sizes\<rparr>, counter := counter v + 1\<rparr>)
   })"

text \<open>The loop over \<^verbatim>\<open>m_type\<close>: \<^verbatim>\<open>(int)r->m_type >= 0\<close>, build the table, \<^verbatim>\<open>r->m_type--\<close>.\<close>

definition next_type :: "tinfl_decompressor \<Rightarrow> tinfl_decompressor" where
  "next_type r = r\<lparr>m_type := sub32 (m_type r) 1\<rparr>"

definition step_tables :: "tinfl_env \<Rightarrow> tinfl_vars \<Rightarrow> tinfl_next option" where
  "step_tables e v =
     (if 2 ^ 31 \<le> m_type (dec v) then go Syms v
      else do {
        built \<leftarrow> build_table (dec v);
        (case built of
           None \<Rightarrow> go (St 35) v
         | Some r \<Rightarrow>
             if m_type r = 2 then go Lens (v\<lparr>dec := r, counter := 0\<rparr>)
             else go Tables (v\<lparr>dec := next_type r\<rparr>))
      })"

text \<open>The code lengths of a dynamic block (labels 16, 17, 18, 21).\<close>

definition step_lens :: "tinfl_env \<Rightarrow> tinfl_vars \<Rightarrow> tinfl_next option" where
  "step_lens e v = do {
     a \<leftarrow> nth_o (m_table_sizes (dec v)) 0;
     b \<leftarrow> nth_o (m_table_sizes (dec v)) 1;
     (if counter v < a + b then go (Huff 16) v
      else if a + b \<noteq> counter v then go (St 21) v
      else if a \<le> length (m_code_size_0 (dec v)) \<and> b \<le> length (m_code_size_1 (dec v)) \<and>
              a + b \<le> length (m_len_codes (dec v))
      then go Tables (v\<lparr>dec := next_type ((dec v)\<lparr>
          m_code_size_0 := take a (m_len_codes (dec v)) @ drop a (m_code_size_0 (dec v)),
          m_code_size_1 := take b (drop a (m_len_codes (dec v))) @ drop b (m_code_size_1 (dec v))\<rparr>)\<rparr>)
      else None)
   }"

definition step_len_sym :: "tinfl_env \<Rightarrow> tinfl_vars \<Rightarrow> tinfl_next option" where
  "step_len_sym e v =
     (if dist v < 16
      then do {
        lens \<leftarrow> upd_o (m_len_codes (dec v)) (counter v) (dist v);
        go Lens (v\<lparr>dec := (dec v)\<lparr>m_len_codes := lens\<rparr>, counter := counter v + 1\<rparr>)
      }
      else if dist v = 16 \<and> counter v = 0 then go (St 17) v
      else do {
        n \<leftarrow> nth_o [2, 3, 7, 0] (dist v - 16);
        go (St 18) (v\<lparr>num_extra := n\<rparr>)
      })"

definition step_repeat18 :: "tinfl_env \<Rightarrow> tinfl_vars \<Rightarrow> tinfl_next option" where
  "step_repeat18 e v = get_bits e 18 (num_extra v) v (\<lambda>s v. do {
     base \<leftarrow> nth_o [3, 3, 11, 0] (dist v - 16);
     x \<leftarrow> (if dist v = 16 then nth_o (m_len_codes (dec v)) (counter v - 1) else Some 0);
     (let n = s + base; lens = m_len_codes (dec v)
      in if counter v + n \<le> length lens
         then go Lens (v\<lparr>dec := (dec v)\<lparr>m_len_codes :=
                take (counter v) lens @ replicate n x @ drop (counter v + n) lens\<rparr>,
              counter := counter v + n\<rparr>)
         else None)
   })"

text \<open>
  \<^verbatim>\<open>TINFL_HUFF_DECODE\<close> at its three uses: label 16 reads a code length symbol with table 2, label 23 a
  literal or length with table 0, label 26 a distance with table 1.
\<close>

definition huff_table :: "nat \<Rightarrow> nat" where
  "huff_table k = (if k = 16 then 2 else if k = 23 then 0 else 1)"

definition step_huff :: "tinfl_env \<Rightarrow> nat \<Rightarrow> tinfl_vars \<Rightarrow> tinfl_next option" where
  "step_huff e k v =
     (if num_bits v < 15
      then if length (in_buf e) < in_cur v + 2 then go (Fill k) v
      else do {
        a \<leftarrow> rd8 (in_buf e) (in_cur v);
        b \<leftarrow> rd8 (in_buf e) (in_cur v + 1);
        v \<leftarrow> shift_in a 8 v;
        v \<leftarrow> shift_in b 8 v;
        go (Decode k) (v\<lparr>in_cur := in_cur v + 2\<rparr>)
      }
      else go (Decode k) v)"

definition step_fill :: "tinfl_env \<Rightarrow> nat \<Rightarrow> tinfl_vars \<Rightarrow> tinfl_next option" where
  "step_fill e k v = do {
     look_up \<leftarrow> nth_o (m_look_up (dec v)) (huff_table k);
     tree \<leftarrow> tree_of (dec v) (huff_table k);
     found \<leftarrow> fill_test look_up tree (bit_buf v) (num_bits v);
     go (if found then Decode k else St k) v
   }"

definition step_fill_byte :: "tinfl_env \<Rightarrow> nat \<Rightarrow> tinfl_vars \<Rightarrow> tinfl_next option" where
  "step_fill_byte e k v = get_byte e k v (\<lambda>c v. do {
     v \<leftarrow> shift_in c 8 v;
     go (if num_bits v < 15 then Fill k else Decode k) v
   })"

definition step_decode :: "tinfl_env \<Rightarrow> nat \<Rightarrow> tinfl_vars \<Rightarrow> tinfl_next option" where
  "step_decode e k v = do {
     look_up \<leftarrow> nth_o (m_look_up (dec v)) (huff_table k);
     tree \<leftarrow> tree_of (dec v) (huff_table k);
     temp0 \<leftarrow> nth_o look_up (bit_buf v AND (TINFL_FAST_LOOKUP_SIZE - 1));
     (temp, code_len) \<leftarrow> huff_lookup look_up tree (bit_buf v);
     v \<leftarrow> drop_bits code_len v;
     (let sym = (if 0 \<le> temp0 then nat temp AND 511 else nat temp)
      in if k = 16 then step_len_sym e (v\<lparr>dist := sym\<rparr>)
         else if k = 23 then go (if 256 \<le> sym then Match_len else St 24) (v\<lparr>counter := sym\<rparr>)
         else go Match_dist (v\<lparr>dist := sym\<rparr>))
   }"

text \<open>
  The fast path of the inner loop, with at least four bytes of input and two of output left: at most
  two symbols are decoded.
\<close>

definition fast_refill :: "tinfl_env \<Rightarrow> tinfl_vars \<Rightarrow> tinfl_vars option" where
  "fast_refill e v =
     (if num_bits v < 30
      then do {
        w \<leftarrow> rd32 (in_buf e) (in_cur v);
        v \<leftarrow> shift_in w 32 v;
        Some (v\<lparr>in_cur := in_cur v + 4\<rparr>)
      }
      else Some v)"

definition step_fast :: "tinfl_env \<Rightarrow> tinfl_vars \<Rightarrow> tinfl_next option" where
  "step_fast e v = do {
     v \<leftarrow> fast_refill e v;
     look_up \<leftarrow> nth_o (m_look_up (dec v)) 0;
     (sym, code_len) \<leftarrow> huff_lookup look_up (m_tree_0 (dec v)) (bit_buf v);
     v \<leftarrow> drop_bits code_len (v\<lparr>counter := nat sym\<rparr>);
     (if code_len = 0 then go (St 40) v
      else if counter v AND 256 \<noteq> 0 then go Match_len v
      else do {
        (sym2, code_len) \<leftarrow> huff_lookup look_up (m_tree_0 (dec v)) (bit_buf v);
        v \<leftarrow> drop_bits code_len v;
        (if code_len = 0 then go (St 54) v
         else do {
           o1 \<leftarrow> upd_o (out_buf v) (out_cur v) (word_of_nat (counter v));
           (if nat sym2 AND 256 \<noteq> 0
            then go Match_len (v\<lparr>out_buf := o1, out_cur := out_cur v + 1, counter := nat sym2\<rparr>)
            else do {
              o2 \<leftarrow> upd_o o1 (out_cur v + 1) (word_of_nat (nat sym2));
              go Syms (v\<lparr>out_buf := o2, out_cur := out_cur v + 2\<rparr>)
            })
         })
      })
   }"

definition step_syms :: "tinfl_env \<Rightarrow> tinfl_vars \<Rightarrow> tinfl_next option" where
  "step_syms e v =
     (if length (in_buf e) < in_cur v + 4 \<or> out_end e < out_cur v + 2 then go (Huff 23) v
      else step_fast e v)"

text \<open>The match: length, distance, copy (labels 25, 27, 37, 53).\<close>

definition step_match_len :: "tinfl_env \<Rightarrow> tinfl_vars \<Rightarrow> tinfl_next option" where
  "step_match_len e v =
     (let c = counter v AND 511
      in if c = 256 then go Block_end (v\<lparr>counter := c\<rparr>)
         else if c < 256 then None
         else do {
           extra \<leftarrow> nth_o s_length_extra (c - 257);
           base \<leftarrow> nth_o s_length_base (c - 257);
           go (if extra \<noteq> 0 then St 25 else Huff 26) (v\<lparr>num_extra := extra, counter := base\<rparr>)
         })"

definition step_len25 :: "tinfl_env \<Rightarrow> tinfl_vars \<Rightarrow> tinfl_next option" where
  "step_len25 e v = get_bits e 25 (num_extra v) v (\<lambda>b v. go (Huff 26) (v\<lparr>counter := counter v + b\<rparr>))"

definition step_match_dist :: "tinfl_env \<Rightarrow> tinfl_vars \<Rightarrow> tinfl_next option" where
  "step_match_dist e v = do {
     extra \<leftarrow> nth_o s_dist_extra (dist v);
     base \<leftarrow> nth_o s_dist_base (dist v);
     go (if extra \<noteq> 0 then St 27 else Match_copy) (v\<lparr>num_extra := extra, dist := base\<rparr>)
   }"

definition step_dist27 :: "tinfl_env \<Rightarrow> tinfl_vars \<Rightarrow> tinfl_next option" where
  "step_dist27 e v = get_bits e 27 (num_extra v) v (\<lambda>b v. go Match_copy (v\<lparr>dist := dist v + b\<rparr>))"

text \<open>The copy of \<open>n\<close> bytes, three per turn, then the one or two left.\<close>

fun copy_match :: "bytes \<Rightarrow> nat \<Rightarrow> nat \<Rightarrow> nat \<Rightarrow> bytes option" where
  "copy_match buf dst src (Suc (Suc (Suc n))) = do {
     a \<leftarrow> nth_o buf src; buf \<leftarrow> upd_o buf dst a;
     b \<leftarrow> nth_o buf (src + 1); buf \<leftarrow> upd_o buf (dst + 1) b;
     c \<leftarrow> nth_o buf (src + 2); buf \<leftarrow> upd_o buf (dst + 2) c;
     copy_match buf (dst + 3) (src + 3) n
   }"
| "copy_match buf dst src (Suc (Suc 0)) = do {
     a \<leftarrow> nth_o buf src; buf \<leftarrow> upd_o buf dst a;
     b \<leftarrow> nth_o buf (src + 1); upd_o buf (dst + 1) b
   }"
| "copy_match buf dst src (Suc 0) = do { a \<leftarrow> nth_o buf src; upd_o buf dst a }"
| "copy_match buf dst src 0 = Some buf"

definition step_match_copy :: "tinfl_env \<Rightarrow> tinfl_vars \<Rightarrow> tinfl_next option" where
  "step_match_copy e v =
     (let d = out_cur v; v = v\<lparr>dist_from_out_buf_start := d\<rparr>
      in if (dist v = 0 \<or> d < dist v \<or> d = 0) \<and> has_flag e TINFL_FLAG_USING_NON_WRAPPING_OUTPUT_BUF
         then go (St 37) v
         else let src = sub64 d (dist v) AND out_mask e
         in if out_end e < max (out_cur v) src + counter v then go Slow_copy v
            else do {
              o' \<leftarrow> copy_match (out_buf v) (out_cur v) src (counter v);
              go Syms (v\<lparr>out_buf := o', out_cur := out_cur v + counter v, counter := counter v mod 3\<rparr>)
            })"

definition step_slow_copy :: "tinfl_env \<Rightarrow> tinfl_vars \<Rightarrow> tinfl_next option" where
  "step_slow_copy e v =
     go (if counter v = 0 then Syms else St 53) (v\<lparr>counter := sub32 (counter v) 1\<rparr>)"

definition step_slow53 :: "tinfl_env \<Rightarrow> tinfl_vars \<Rightarrow> tinfl_next option" where
  "step_slow53 e v =
     (if out_end e \<le> out_cur v then cr_return 53 TINFL_STATUS_HAS_MORE_OUTPUT v
      else do {
        b \<leftarrow> nth_o (out_buf v) (sub64 (dist_from_out_buf_start v) (dist v) AND out_mask e);
        o' \<leftarrow> upd_o (out_buf v) (out_cur v) b;
        go Slow_copy (v\<lparr>out_buf := o', out_cur := out_cur v + 1,
          dist_from_out_buf_start := u64 (dist_from_out_buf_start v + 1)\<rparr>)
      })"

text \<open>The end of a block and of the stream (labels 32, 41, 42, 34).\<close>

definition step_block_end :: "tinfl_env \<Rightarrow> tinfl_vars \<Rightarrow> tinfl_next option" where
  "step_block_end e v = go (if m_final (dec v) AND 1 = 0 then St 3 else St 32) v"

text \<open>\<^verbatim>\<open>while ((pIn_buf_cur > pIn_buf_next) && (num_bits >= 8))\<close>: whole bytes go back to the input.\<close>

definition put_back :: "tinfl_vars \<Rightarrow> tinfl_vars" where
  "put_back v = (let k = min (in_cur v) (num_bits v div 8)
     in v\<lparr>in_cur := in_cur v - k, num_bits := num_bits v - 8 * k\<rparr>)"

definition step_tail :: "tinfl_env \<Rightarrow> tinfl_vars \<Rightarrow> tinfl_next option" where
  "step_tail e v = get_bits e 32 (num_bits v AND 7) v (\<lambda>_ v.
     let v = put_back v
     in if 64 \<le> num_bits v then None
        else let v = v\<lparr>bit_buf := bit_buf v AND (2 ^ num_bits v - 1)\<rparr>
        in if has_flag e TINFL_FLAG_PARSE_ZLIB_HEADER then go Adler_bytes (v\<lparr>counter := 0\<rparr>)
           else go (St 34) v)"

definition step_adler_bytes :: "tinfl_env \<Rightarrow> tinfl_vars \<Rightarrow> tinfl_next option" where
  "step_adler_bytes e v =
     go (if counter v < 4 then if num_bits v \<noteq> 0 then St 41 else St 42 else St 34) v"

definition store_adler :: "nat \<Rightarrow> tinfl_vars \<Rightarrow> tinfl_next option" where
  "store_adler s v = go Adler_bytes (v\<lparr>counter := counter v + 1,
     dec := (dec v)\<lparr>m_z_adler32 := u32 (push_bit 8 (m_z_adler32 (dec v))) OR s\<rparr>\<rparr>)"

text \<open>The labels. An index that is none of them leaves the \<^verbatim>\<open>switch\<close>.\<close>

definition step_label :: "tinfl_env \<Rightarrow> nat \<Rightarrow> tinfl_vars \<Rightarrow> tinfl_next option" where
  "step_label e k v =
     (if k = 0 then step_start e v
      else if k = 1 then step_zlib1 e v
      else if k = 2 then step_zlib2 e v
      else if k = 3 then step_block e v
      else if k = 5 then step_skip5 e v
      else if k = 6 then get_bits e 6 8 v store_raw
      else if k = 7 then get_byte e 7 v store_raw
      else if k = 9 then step_out9 e v
      else if k = 11 then step_sizes e v
      else if k = 14 then step_clen14 e v
      else if k = 16 \<or> k = 23 \<or> k = 26 then step_fill_byte e k v
      else if k = 18 then step_repeat18 e v
      else if k = 24 then put_byte e 24 (counter v) v (go Syms)
      else if k = 25 then step_len25 e v
      else if k = 27 then step_dist27 e v
      else if k = 32 then step_tail e v
      else if k = 34 then cr_return 34 TINFL_STATUS_DONE v
      else if k = 38 then step_in38 e v
      else if k = 41 then get_bits e 41 8 v store_adler
      else if k = 42 then get_byte e 42 v store_adler
      else if k = 51 then get_bits e 51 8 v (\<lambda>b v. go (St 52) (v\<lparr>dist := b\<rparr>))
      else if k = 52 then put_byte e 52 (dist v) v (\<lambda>v. go Raw_bits (v\<lparr>counter := sub32 (counter v) 1\<rparr>))
      else if k = 53 then step_slow53 e v
      else if k \<in> {10, 17, 21, 35, 36, 37, 39, 40, 54} then cr_return k TINFL_STATUS_FAILED v
      else Some (Halt TINFL_STATUS_FAILED v))"

definition tinfl_step :: "tinfl_env \<Rightarrow> tinfl_vars \<Rightarrow> tinfl_next option" where
  "tinfl_step e v = (case pc v of
      St k \<Rightarrow> step_label e k v
    | Raw_header \<Rightarrow> step_raw_header e v
    | Raw_bits \<Rightarrow> step_raw_bits e v
    | Raw_copy \<Rightarrow> step_raw_copy e v
    | Code_sizes \<Rightarrow> step_code_sizes e v
    | Tables \<Rightarrow> step_tables e v
    | Lens \<Rightarrow> step_lens e v
    | Huff k \<Rightarrow> step_huff e k v
    | Fill k \<Rightarrow> step_fill e k v
    | Decode k \<Rightarrow> step_decode e k v
    | Syms \<Rightarrow> step_syms e v
    | Match_len \<Rightarrow> step_match_len e v
    | Match_dist \<Rightarrow> step_match_dist e v
    | Match_copy \<Rightarrow> step_match_copy e v
    | Slow_copy \<Rightarrow> step_slow_copy e v
    | Block_end \<Rightarrow> step_block_end e v
    | Adler_bytes \<Rightarrow> step_adler_bytes e v)"

text \<open>
  The run to the next return. \<^term>\<open>None\<close> is undefined behaviour or a run that does not end.
\<close>

partial_function (option) tinfl_run :: "tinfl_env \<Rightarrow> tinfl_vars \<Rightarrow> (tinfl_status \<times> tinfl_vars) option" where
  "tinfl_run e v = (case tinfl_step e v of
      None \<Rightarrow> None
    | Some (Halt s w) \<Rightarrow> Some (s, w)
    | Some (Go w) \<Rightarrow> tinfl_run e w)"

declare tinfl_run.simps [code]

section \<open>The call\<close>

text \<open>\<^verbatim>\<open>common_exit\<close>, up to the checksum.\<close>

definition common_exit :: "tinfl_env \<Rightarrow> tinfl_status \<Rightarrow> tinfl_vars \<Rightarrow> tinfl_vars option" where
  "common_exit e status v =
     (let v = (if status \<noteq> TINFL_STATUS_NEEDS_MORE_INPUT \<and> status \<noteq> TINFL_STATUS_FAILED_CANNOT_MAKE_PROGRESS
        then put_back v else v)
      in if 64 \<le> num_bits v then None
         else Some (v\<lparr>dec := (dec v)\<lparr>m_num_bits := num_bits v,
           m_bit_buf := bit_buf v AND (2 ^ num_bits v - 1), m_dist := dist v, m_counter := counter v,
           m_num_extra := num_extra v, m_dist_from_out_buf_start := dist_from_out_buf_start v\<rparr>\<rparr>))"

text \<open>The checksum of what the call has written.\<close>

definition exit_adler :: "tinfl_env \<Rightarrow> tinfl_status \<Rightarrow> tinfl_vars \<Rightarrow> tinfl_status \<times> tinfl_decompressor" where
  "exit_adler e status v =
     (if has_flag e (TINFL_FLAG_PARSE_ZLIB_HEADER OR TINFL_FLAG_COMPUTE_ADLER32) \<and> 0 \<le> status_code status
      then let
        written = take (out_cur v - out_next e) (drop (out_next e) (out_buf v));
        check = unat (mz_adler32 (word_of_nat (m_check_adler32 (dec v))) (Some written));
        r = (dec v)\<lparr>m_check_adler32 := check\<rparr>
      in (if status = TINFL_STATUS_DONE \<and> has_flag e TINFL_FLAG_PARSE_ZLIB_HEADER \<and> check \<noteq> m_z_adler32 r
          then TINFL_STATUS_ADLER32_MISMATCH else status, r)
      else (status, dec v))"

text \<open>The answer: status, structure, input bytes consumed, output bytes written, output buffer.\<close>

record tinfl_result =
  res_status :: tinfl_status
  res_dec :: tinfl_decompressor
  res_in :: nat
  res_out :: nat
  res_buf :: bytes

definition out_buf_size_mask :: "nat \<Rightarrow> nat \<Rightarrow> nat \<Rightarrow> nat" where
  "out_buf_size_mask flags next out_size =
     (if flags AND TINFL_FLAG_USING_NON_WRAPPING_OUTPUT_BUF \<noteq> 0 then 2 ^ 64 - 1
      else sub64 (next + out_size) 1)"

text \<open>
  \<open>buf\<close> is the memory from \<^verbatim>\<open>pOut_buf_start\<close> on, \<open>next\<close> the offset of \<^verbatim>\<open>pOut_buf_next\<close> in it, and
  \<open>input\<close> the \<^verbatim>\<open>*pIn_buf_size\<close> bytes at \<^verbatim>\<open>pIn_buf_next\<close>.
\<close>

definition tinfl_decompress ::
    "tinfl_decompressor \<Rightarrow> bytes \<Rightarrow> bytes \<Rightarrow> nat \<Rightarrow> nat \<Rightarrow> nat \<Rightarrow> tinfl_result option" where
  "tinfl_decompress r input buf next out_size flags =
     (let mask = out_buf_size_mask flags next out_size
      in if u64 (mask + 1) AND mask \<noteq> 0
         then Some \<lparr>res_status = TINFL_STATUS_BAD_PARAM, res_dec = r, res_in = 0, res_out = 0, res_buf = buf\<rparr>
         else let
           e = \<lparr>in_buf = input, out_next = next, out_end = next + out_size, out_mask = mask,
             decomp_flags = flags\<rparr>;
           v = \<lparr>pc = St (m_state r), num_bits = m_num_bits r, bit_buf = m_bit_buf r, dist = m_dist r,
             counter = m_counter r, num_extra = m_num_extra r,
             dist_from_out_buf_start = m_dist_from_out_buf_start r, in_cur = 0, out_cur = next,
             out_buf = buf, dec = r\<rparr>
         in do {
           (status, v) \<leftarrow> tinfl_run e v;
           v \<leftarrow> common_exit e status v;
           (let (status, r) = exit_adler e status v
            in Some \<lparr>res_status = status, res_dec = r, res_in = in_cur v, res_out = out_cur v - next,
                 res_buf = out_buf v\<rparr>)
         })"

section \<open>The helpers\<close>

text \<open>\<^verbatim>\<open>flags & ~bits\<close>.\<close>

definition flags_without :: "nat \<Rightarrow> nat \<Rightarrow> nat" where
  "flags_without flags bits = flags - (flags AND bits)"

text \<open>\<^verbatim>\<open>tinfl_decompress_mem_to_mem\<close>: nothing inside stands for \<^verbatim>\<open>TINFL_DECOMPRESS_MEM_TO_MEM_FAILED\<close>.\<close>

definition tinfl_decompress_mem_to_mem ::
    "tinfl_decompressor \<Rightarrow> bytes \<Rightarrow> bytes \<Rightarrow> nat \<Rightarrow> (bytes \<times> nat option) option" where
  "tinfl_decompress_mem_to_mem decomp buf src flags = do {
     res \<leftarrow> tinfl_decompress (tinfl_init decomp) src buf 0 (length buf)
       (flags_without flags TINFL_FLAG_HAS_MORE_INPUT OR TINFL_FLAG_USING_NON_WRAPPING_OUTPUT_BUF);
     Some (res_buf res, if res_status res \<noteq> TINFL_STATUS_DONE then None else Some (res_out res))
   }"

text \<open>
  \<^verbatim>\<open>tinfl_decompress_mem_to_heap\<close>. \<open>realloc buf n\<close> is the allocator's answer: \<open>n\<close> bytes that begin with those
  of \<open>buf\<close>, or no memory. The length in the answer is \<^verbatim>\<open>*pOut_len\<close>.
\<close>

partial_function (option) mem_to_heap_loop ::
    "(bytes \<Rightarrow> nat \<Rightarrow> bytes option) \<Rightarrow> bytes \<Rightarrow> nat \<Rightarrow> tinfl_decompressor \<Rightarrow> nat \<Rightarrow> bytes \<Rightarrow> nat \<Rightarrow>
     (bytes \<times> nat) option option" where
  "mem_to_heap_loop realloc src flags decomp src_ofs buf out_len =
     Option.bind (tinfl_decompress decomp (drop src_ofs src) buf out_len (length buf - out_len)
         (flags_without flags TINFL_FLAG_HAS_MORE_INPUT OR TINFL_FLAG_USING_NON_WRAPPING_OUTPUT_BUF))
       (\<lambda>res. if status_code (res_status res) < 0 \<or> res_status res = TINFL_STATUS_NEEDS_MORE_INPUT then Some None
         else if res_status res = TINFL_STATUS_DONE then Some (Some (res_buf res, out_len + res_out res))
         else case realloc (res_buf res) (max 128 (u64 (2 * length buf))) of
             None \<Rightarrow> Some None
           | Some buf' \<Rightarrow>
               mem_to_heap_loop realloc src flags (res_dec res) (src_ofs + res_in res) buf' (out_len + res_out res))"

declare mem_to_heap_loop.simps [code]

definition tinfl_decompress_mem_to_heap ::
    "(bytes \<Rightarrow> nat \<Rightarrow> bytes option) \<Rightarrow> tinfl_decompressor \<Rightarrow> bytes \<Rightarrow> nat \<Rightarrow> (bytes \<times> nat) option option" where
  "tinfl_decompress_mem_to_heap realloc decomp src flags =
     mem_to_heap_loop realloc src flags (tinfl_init decomp) 0 [] 0"

text \<open>
  \<^verbatim>\<open>tinfl_decompress_mem_to_callback\<close>: the pieces go through a dictionary of 32768 bytes to the callback
  \<open>put\<close>, which threads its own state and may stop the run. The answer: the callback's state,
  \<^verbatim>\<open>*pIn_buf_size\<close>, the result.
\<close>

abbreviation (input) TINFL_LZ_DICT_SIZE :: nat where "TINFL_LZ_DICT_SIZE \<equiv> 32768"

partial_function (option) mem_to_callback_loop ::
    "(bytes \<Rightarrow> 's \<Rightarrow> 's \<times> bool) \<Rightarrow> bytes \<Rightarrow> nat \<Rightarrow> tinfl_decompressor \<Rightarrow> nat \<Rightarrow> bytes \<Rightarrow> nat \<Rightarrow> 's \<Rightarrow>
     ('s \<times> nat \<times> int) option" where
  "mem_to_callback_loop put src flags decomp in_ofs dict dict_ofs s =
     Option.bind (tinfl_decompress decomp (drop in_ofs src) dict dict_ofs (TINFL_LZ_DICT_SIZE - dict_ofs)
         (flags_without flags (TINFL_FLAG_HAS_MORE_INPUT OR TINFL_FLAG_USING_NON_WRAPPING_OUTPUT_BUF)))
       (\<lambda>res. let
            in_ofs = in_ofs + res_in res;
            (s, ok) = (if res_out res = 0 then (s, True)
              else put (take (res_out res) (drop dict_ofs (res_buf res))) s)
          in if \<not> ok then Some (s, in_ofs, 0)
             else if res_status res \<noteq> TINFL_STATUS_HAS_MORE_OUTPUT
             then Some (s, in_ofs, if res_status res = TINFL_STATUS_DONE then 1 else 0)
             else mem_to_callback_loop put src flags (res_dec res) in_ofs (res_buf res)
               ((dict_ofs + res_out res) AND (TINFL_LZ_DICT_SIZE - 1)) s)"

declare mem_to_callback_loop.simps [code]

definition tinfl_decompress_mem_to_callback ::
    "bool \<Rightarrow> (bytes \<Rightarrow> 's \<Rightarrow> 's \<times> bool) \<Rightarrow> tinfl_decompressor \<Rightarrow> bytes \<Rightarrow> nat \<Rightarrow> 's \<Rightarrow> ('s \<times> nat \<times> int) option" where
  "tinfl_decompress_mem_to_callback malloc_ok put decomp src flags s =
     (if \<not> malloc_ok then Some (s, length src, status_code TINFL_STATUS_FAILED)
      else mem_to_callback_loop put src flags (tinfl_init decomp) 0 (replicate TINFL_LZ_DICT_SIZE 0) 0 s)"

end
