(* ===== verification/HuffTable.thy ===== *)
theory HuffTable
  imports TinflTables
begin

unbundle bit_operations_syntax

text \<open>
  The decoding tables are sound: from the code lengths of a complete code (or with at most one symbol
  used) \<^verbatim>\<open>tinfl_decompress\<close> builds, without leaving an array, a look-up table and a tree in which every bit
  sequence leads to a symbol of the alphabet within fifteen bits.

  A code is read from its first bit on, so the prefix of length \<open>d\<close> of the bits \<open>q\<close> (first bit lowest) has the
  value \<open>rv d q\<close>. The codes of length \<open>d\<close> are the values from \<open>first_code ts d\<close> up to \<open>code_lim ts d\<close>; the values
  above are those of the proper prefixes of longer codes.
\<close>

section \<open>Bits read first to last\<close>

fun rv :: "nat \<Rightarrow> nat \<Rightarrow> nat" where
  "rv 0 q = 0"
| "rv (Suc d) q = 2 * rv d q + of_bool (bit q d)"

lemma rv_less: "rv d q < 2 ^ d"
  by (induction d) simp_all

lemma rv_cong: "take_bit d p = take_bit d q \<Longrightarrow> rv d p = rv d q"
proof (induction d)
  case (Suc d)
  have "take_bit d p = take_bit d q"
    using arg_cong [OF Suc.prems, of "take_bit d"] by (simp add: take_bit_take_bit)
  moreover have "bit p d = bit q d"
    using arg_cong [OF Suc.prems, of "\<lambda>x. bit x d"] by (simp add: bit_take_bit_iff)
  ultimately show ?case using Suc.IH by simp
qed simp

lemma rv_take_bit [simp]: "d \<le> n \<Longrightarrow> rv d (take_bit n q) = rv d q"
  by (rule rv_cong) (simp add: take_bit_take_bit)

lemma rv_inj: "rv d p = rv d q \<Longrightarrow> take_bit d p = take_bit d q"
proof (induction d)
  case (Suc d)
  then have "rv d p = rv d q \<and> bit p d = bit q d" by (auto simp: of_bool_def split: if_splits) presburger+
  then show ?case using Suc.IH by (simp add: take_bit_Suc_from_most)
qed simp

lemma rv_div: "rv (d + e) q div 2 ^ e = rv d q"
proof (induction e)
  case (Suc e)
  have "rv (d + Suc e) q div 2 ^ Suc e = (2 * rv (d + e) q + of_bool (bit q (d + e))) div 2 div 2 ^ e"
    by (simp add: div_mult2_eq)
  also have "\<dots> = rv (d + e) q div 2 ^ e" by simp
  finally show ?case using Suc.IH by simp
qed simp

lemma rev_bits_rv:
  assumes "r < 2 ^ k" "l + k \<le> 32"
  shows "rv l (rev_bits l c r) = take_bit l c \<and> drop_bit l (rev_bits l c r) = r"
  using assms
proof (induction l arbitrary: c r k)
  case (Suc l)
  define r' where "r' = 2 * r + c mod 2"
  have "push_bit 1 r OR (c AND 1) = r'"
  proof -
    have "push_bit 1 r OR (c AND 1) = c AND 1 OR push_bit 1 r" by (rule or.commute)
    also have "\<dots> = (c AND 1) + r * 2 ^ 1" by (rule or_disjoint_add) (simp add: and_one_eq)
    finally show ?thesis by (simp add: r'_def and_one_eq)
  qed
  moreover have r': "r' < 2 ^ (k + 1)" using Suc.prems(1) by (simp add: r'_def)
  moreover have "r' < 2 ^ 32"
    using r' Suc.prems(2) power_increasing [of "k + 1" 32 "2 :: nat"] by linarith
  ultimately have step: "rev_bits (Suc l) c r = rev_bits l (drop_bit 1 c) r'" by (simp add: u32_def)
  define q where "q = rev_bits l (drop_bit 1 c) r'"
  have q: "rv l q = take_bit l (drop_bit 1 c)" "drop_bit l q = r'"
    using Suc.IH [OF r', of "drop_bit 1 c"] Suc.prems(2) by (simp_all add: q_def)
  have "bit q l = bit (drop_bit l q) 0" by (simp add: bit_drop_bit_eq)
  also have "\<dots> = odd r'" using q(2) by (simp add: bit_0)
  also have "\<dots> = odd c" by (simp add: r'_def)
  finally have b: "bit q l = odd c" .
  have "rv (Suc l) q = 2 * take_bit l (c div 2) + of_bool (odd c)"
    using q(1) b by (simp add: drop_bit_Suc)
  also have "\<dots> = take_bit (Suc l) c" by (simp add: take_bit_Suc mod_2_eq_odd)
  finally have "rv (Suc l) q = take_bit (Suc l) c" .
  moreover have "drop_bit (Suc l) q = r"
  proof -
    have "drop_bit (Suc l) q = drop_bit 1 (drop_bit l q)" by (simp add: drop_bit_drop_bit)
    also have "\<dots> = r" using q(2) by (simp add: r'_def drop_bit_Suc)
    finally show ?thesis .
  qed
  ultimately show ?case unfolding step q_def by blast
qed simp

lemma rev_bits_code:
  assumes "c < 2 ^ l" "l \<le> 32"
  shows "rv l (rev_bits l c 0) = c" "rev_bits l c 0 < 2 ^ l"
proof -
  have "rv l (rev_bits l c 0) = take_bit l c \<and> drop_bit l (rev_bits l c 0) = 0"
    by (rule rev_bits_rv [of _ 0]) (use assms in simp_all)
  then show "rv l (rev_bits l c 0) = c" "rev_bits l c 0 < 2 ^ l"
    using assms by (simp_all add: take_bit_nat_eq_self drop_bit_eq_div div_eq_0_iff)
qed

section \<open>Counting the lengths\<close>

definition cnt :: "nat \<Rightarrow> nat list \<Rightarrow> nat" where
  "cnt k xs = length (filter (\<lambda>x. x = k) xs)"

lemma cnt_simps [simp]:
  "cnt k [] = 0" "cnt k (x # xs) = (if x = k then 1 else 0) + cnt k xs"
  "cnt k (xs @ ys) = cnt k xs + cnt k ys"
  by (simp_all add: cnt_def)

lemma take_drop_Cons: "i < length xs \<Longrightarrow> take (Suc n) (drop i xs) = xs ! i # take n (drop (i + 1) xs)"
  by (simp add: Cons_nth_drop_Suc [symmetric])

lemma count_syms_eq:
  assumes "i + left \<le> length ps" "\<forall>x \<in> set (take left (drop i ps)). x < 16" "length ts = 16"
  shows "\<exists>ts'. count_syms ps i left ts = Some ts' \<and> length ts' = 16 \<and>
    (\<forall>k < 16. ts' ! k = ts ! k + cnt k (take left (drop i ps)))"
  using assms
proof (induction left arbitrary: i ts)
  case (Suc left)
  define s where "s = ps ! i"
  have i: "i < length ps" using Suc.prems by simp
  have td: "take (Suc left) (drop i ps) = s # take left (drop (i + 1) ps)"
    using take_drop_Cons [OF i] by (simp add: s_def)
  have s: "s < 16" using Suc.prems(2) td by simp
  obtain ts' where ts': "count_syms ps (i + 1) left (ts[s := ts ! s + 1]) = Some ts'" "length ts' = 16"
    "\<forall>k < 16. ts' ! k = ts[s := ts ! s + 1] ! k + cnt k (take left (drop (i + 1) ps))"
    using Suc.IH [of "i + 1" "ts[s := ts ! s + 1]"] Suc.prems td by auto
  show ?case
    by (rule exI [of _ ts']) (use ts' i s Suc.prems(3) in \<open>auto simp: nth_o_def s_def [symmetric] td nth_list_update\<close>)
qed simp

text \<open>The first code of each length, as the canonical numbering assigns them, and the one after the last.\<close>

fun first_code :: "nat list \<Rightarrow> nat \<Rightarrow> nat" where
  "first_code ts 0 = 0"
| "first_code ts (Suc i) = 2 * (first_code ts i + (if i = 0 then 0 else ts ! i))"

definition code_lim :: "nat list \<Rightarrow> nat \<Rightarrow> nat" where
  "code_lim ts i = first_code ts i + ts ! i"

definition used_upto :: "nat list \<Rightarrow> nat \<Rightarrow> nat" where
  "used_upto ts i = (\<Sum>j = 1..<i. ts ! j)"

lemma first_code_Suc: "0 < i \<Longrightarrow> first_code ts (Suc i) = 2 * code_lim ts i"
  by (simp add: code_lim_def)

lemma first_code_bound: "first_code ts i \<le> 2 ^ i * used_upto ts i"
proof (induction i)
  case (Suc i)
  show ?case
  proof (cases "i = 0")
    case False
    have u: "used_upto ts (Suc i) = used_upto ts i + ts ! i" using False by (simp add: used_upto_def)
    have "first_code ts i + ts ! i \<le> 2 ^ i * used_upto ts i + 2 ^ i * ts ! i"
      by (rule add_mono [OF Suc.IH]) simp
    then have "2 * (first_code ts i + ts ! i) \<le> 2 * (2 ^ i * used_upto ts i + 2 ^ i * ts ! i)"
      by (rule mult_le_mono2)
    then show ?thesis using False u by (simp add: algebra_simps)
  qed (simp add: used_upto_def)
qed (simp add: used_upto_def)

lemma used_upto_mono: "i \<le> j \<Longrightarrow> used_upto ts i \<le> used_upto ts j"
  unfolding used_upto_def by (rule sum_mono2) auto

lemma code_starts_eq:
  assumes "i + left = 16" "0 < i" "length ts = 16" "length nc = 17" "used_upto ts 16 \<le> 288"
    and "used = used_upto ts i" "kraft = first_code ts i"
  shows "\<exists>nc'. code_starts ts i left used kraft nc = Some (used_upto ts 16, first_code ts 16, nc') \<and>
    length nc' = 17 \<and> (\<forall>j. i < j \<and> j \<le> 16 \<longrightarrow> nc' ! j = first_code ts j) \<and> (\<forall>j \<le> i. nc' ! j = nc ! j)"
  using assms
proof (induction left arbitrary: i used kraft nc)
  case (Suc left)
  have i: "i < 16" using Suc.prems by simp
  have le: "used_upto ts j \<le> 288" if "j \<le> 16" for j
    using used_upto_mono [OF that, of ts] Suc.prems(5) by simp
  have "first_code ts (Suc i) \<le> 2 ^ Suc i * used_upto ts (Suc i)" by (rule first_code_bound)
  also have "\<dots> \<le> 2 ^ 16 * 288" by (rule mult_le_mono) (use i le [of "Suc i"] power_increasing [of "Suc i" 16 "2 :: nat"] in auto)
  finally have small: "first_code ts (Suc i) < 2 ^ 32" by simp
  then have k: "u32 ((kraft + ts ! i) * 2) = first_code ts (Suc i)"
    using Suc.prems(2,7) by (simp add: algebra_simps)
  have u: "used_upto ts (Suc i) = used + ts ! i" using Suc.prems(2,6) by (simp add: used_upto_def)
  then have us: "u32 (used + ts ! i) = used_upto ts (Suc i)" using le [of "Suc i"] i by simp
  obtain nc' where nc': "code_starts ts (i + 1) left (used_upto ts (Suc i)) (first_code ts (Suc i))
      (nc[i + 1 := first_code ts (Suc i)]) = Some (used_upto ts 16, first_code ts 16, nc')" "length nc' = 17"
    "\<forall>j. i + 1 < j \<and> j \<le> 16 \<longrightarrow> nc' ! j = first_code ts j"
    "\<forall>j \<le> i + 1. nc' ! j = nc[i + 1 := first_code ts (Suc i)] ! j"
    using Suc.IH [of "i + 1" "nc[i + 1 := first_code ts (Suc i)]" "used_upto ts (Suc i)" "first_code ts (Suc i)"] Suc.prems
    by auto
  have "code_starts ts i (Suc left) used kraft nc = Some (used_upto ts 16, first_code ts 16, nc')"
    using nc'(1) i Suc.prems(3,4) k us by (simp add: nth_o_def upd_o_def Let_def)
  moreover have "nc' ! j = first_code ts j" if "i < j" "j \<le> 16" for j
  proof (cases "j = i + 1")
    case True
    then show ?thesis using nc'(4) i Suc.prems(4) by simp
  next
    case False
    then show ?thesis using nc'(3) that by simp
  qed
  moreover have "\<forall>j \<le> i. nc' ! j = nc ! j" using nc'(4) by auto
  ultimately show ?case using nc'(2) by blast
qed auto

section \<open>The proper prefixes\<close>

text \<open>The code lengths \<^verbatim>\<open>tinfl_decompress\<close> accepts: complete, or at most one symbol.\<close>

definition code_ok :: "nat list \<Rightarrow> bool" where
  "code_ok ts \<longleftrightarrow> length ts = 16 \<and> (first_code ts 16 = 65536 \<or> used_upto ts 16 \<le> 1)"

lemma code_lim_mono: "0 < i \<Longrightarrow> 2 ^ e * code_lim ts i \<le> code_lim ts (i + e)"
proof (induction e)
  case (Suc e)
  have "2 ^ Suc e * code_lim ts i \<le> 2 * code_lim ts (i + e)" using Suc by simp
  also have "\<dots> \<le> code_lim ts (i + Suc e)"
    using Suc.prems first_code_Suc [of "i + e" ts] by (simp add: code_lim_def)
  finally show ?case .
qed simp

lemma code_lim_used: "0 < i \<Longrightarrow> code_lim ts i \<le> 2 ^ i * used_upto ts (Suc i)"
proof -
  assume "0 < i"
  then have "used_upto ts (Suc i) = used_upto ts i + ts ! i" by (simp add: used_upto_def)
  then have u: "2 ^ i * used_upto ts (Suc i) = 2 ^ i * used_upto ts i + 2 ^ i * (ts ! i)"
    by (simp add: distrib_left)
  have "first_code ts i + ts ! i \<le> 2 ^ i * used_upto ts i + 2 ^ i * (ts ! i)"
    by (rule add_mono [OF first_code_bound]) simp
  then show ?thesis by (simp only: u code_lim_def)
qed

lemma first_code_16: "first_code ts 16 = 2 * code_lim ts 15"
proof -
  have "first_code ts (Suc 15) = 2 * code_lim ts 15" by (rule first_code_Suc) simp
  then show ?thesis by simp
qed

lemma code_lim_le:
  assumes "code_ok ts" "0 < i" "i \<le> 15"
  shows "code_lim ts i \<le> 2 ^ i"
proof (cases "first_code ts 16 = 65536")
  case True
  have "code_lim ts 15 = 2 ^ 15" using True first_code_16 [of ts] by simp
  then have "2 ^ (15 - i) * code_lim ts i \<le> 2 ^ (15 - i) * 2 ^ i"
    using code_lim_mono [of i "15 - i" ts] assms by (simp flip: power_add)
  then show ?thesis by simp
next
  case False
  then have "used_upto ts 16 \<le> 1" using assms(1) by (simp add: code_ok_def)
  then have "used_upto ts (Suc i) \<le> 1" using used_upto_mono [of "Suc i" 16 ts] assms(3) by simp
  then have "2 ^ i * used_upto ts (Suc i) \<le> 2 ^ i * 1" by (rule mult_le_mono2)
  then show ?thesis using code_lim_used [OF assms(2), of ts] by linarith
qed

definition inner :: "nat list \<Rightarrow> nat \<Rightarrow> nat \<Rightarrow> bool" where
  "inner ts d q \<longleftrightarrow> code_lim ts d \<le> rv d q \<and> (first_code ts 16 = 65536 \<or> rv d q = 0)"

definition inner_set :: "nat list \<Rightarrow> (nat \<times> nat) set" where
  "inner_set ts = {(d, q). d \<in> {10, 11, 12, 13, 14} \<and> q < 2 ^ d \<and> inner ts d q}"

lemma finite_inner_set: "finite (inner_set ts)"
proof (rule finite_subset)
  show "inner_set ts \<subseteq> (SIGMA d : {10, 11, 12, 13, 14}. {..<2 ^ d})"
    unfolding inner_set_def lessThan_def by fast
qed (intro finite_SigmaI finite_lessThan, simp)

lemma inner_set_inj: "inj_on (\<lambda>(d, q). (d, rv d q)) (inner_set ts)"
proof (rule inj_onI)
  fix x y
  assume a: "x \<in> inner_set ts" "y \<in> inner_set ts" "(case x of (d, q) \<Rightarrow> (d, rv d q)) = (case y of (d, q) \<Rightarrow> (d, rv d q))"
  obtain d q d' q' where x: "x = (d, q)" and y: "y = (d', q')" by (cases x; cases y)
  have d: "d' = d" and "rv d q = rv d q'" using a(3) by (auto simp: x y)
  from this(2) have "take_bit d q = take_bit d q'" by (rule rv_inj)
  moreover have "q < 2 ^ d" "q' < 2 ^ d" using a(1,2) by (simp_all add: inner_set_def x y d)
  ultimately show "x = y" by (simp add: x y d take_bit_nat_eq_self)
qed

lemma card_inner_set_complete:
  assumes ok: "code_ok ts" and c: "first_code ts 16 = 65536"
  shows "card (inner_set ts) \<le> used_upto ts 16"
proof -
  define D where "D = ({10, 11, 12, 13, 14} :: nat set)"
  have "card (inner_set ts) = card ((\<lambda>(d, q). (d, rv d q)) ` inner_set ts)"
    by (simp add: card_image inner_set_inj)
  also have "\<dots> \<le> card (SIGMA d : D. {code_lim ts d..<2 ^ d})"
  proof (rule card_mono)
    show "finite (SIGMA d : D. {code_lim ts d..<2 ^ d})" by (intro finite_SigmaI) (simp_all add: D_def)
    show "(\<lambda>(d, q). (d, rv d q)) ` inner_set ts \<subseteq> (SIGMA d : D. {code_lim ts d..<2 ^ d})"
    proof clarify
      fix d q
      assume "(d, q) \<in> inner_set ts"
      then show "d \<in> D \<and> rv d q \<in> {code_lim ts d..<2 ^ d}"
        using rv_less [of d q] by (simp add: inner_set_def inner_def D_def)
    qed
  qed
  also have "\<dots> = (\<Sum>d \<in> D. 2 ^ d - code_lim ts d)"
    by (subst card_SigmaI) (auto simp: D_def)
  also have "\<dots> = (2 ^ 10 - code_lim ts 10) + (2 ^ 11 - code_lim ts 11) + (2 ^ 12 - code_lim ts 12) +
      (2 ^ 13 - code_lim ts 13) + (2 ^ 14 - code_lim ts 14)"
    by (simp add: D_def)
  also have "\<dots> \<le> ts ! 11 + ts ! 12 + ts ! 13 + ts ! 14 + ts ! 15"
  proof -
    have l: "code_lim ts (Suc d) = 2 * code_lim ts d + ts ! Suc d" if "0 < d" for d
      using that first_code_Suc [of d ts] by (simp add: code_lim_def)
    have "code_lim ts 11 = 2 * code_lim ts 10 + ts ! 11" "code_lim ts 12 = 2 * code_lim ts 11 + ts ! 12"
      "code_lim ts 13 = 2 * code_lim ts 12 + ts ! 13" "code_lim ts 14 = 2 * code_lim ts 13 + ts ! 14"
      "code_lim ts 15 = 2 * code_lim ts 14 + ts ! 15"
      using l [of 10] l [of 11] l [of 12] l [of 13] l [of 14] by simp_all
    moreover have "first_code ts 16 = 2 * code_lim ts 15" by (rule first_code_16)
    moreover have "code_lim ts 10 \<le> 1024" "code_lim ts 11 \<le> 2048" "code_lim ts 12 \<le> 4096"
      "code_lim ts 13 \<le> 8192" "code_lim ts 14 \<le> 16384"
      using code_lim_le [OF ok, of 10] code_lim_le [OF ok, of 11] code_lim_le [OF ok, of 12]
        code_lim_le [OF ok, of 13] code_lim_le [OF ok, of 14] by simp_all
    ultimately show ?thesis using c by simp
  qed
  also have "\<dots> = (\<Sum>j \<in> {11, 12, 13, 14, 15}. ts ! j)" by simp
  also have "\<dots> \<le> used_upto ts 16" unfolding used_upto_def by (rule sum_mono2) auto
  finally show ?thesis .
qed

lemma card_inner_set_single:
  assumes "first_code ts 16 \<noteq> 65536"
  shows "card (inner_set ts) \<le> 5"
proof -
  have "card (inner_set ts) = card ((\<lambda>(d, q). (d, rv d q)) ` inner_set ts)"
    by (simp add: card_image inner_set_inj)
  also have "\<dots> \<le> card (({10, 11, 12, 13, 14} :: nat set) \<times> {0 :: nat})"
    by (rule card_mono) (use assms in \<open>auto simp: inner_set_def inner_def\<close>)
  also have "\<dots> = 5" by simp
  finally show ?thesis .
qed

text \<open>A code of length \<open>l\<close>: its value lies in the range of its length, and its proper prefixes are inner.\<close>

definition is_code :: "nat list \<Rightarrow> nat \<Rightarrow> nat \<Rightarrow> bool" where
  "is_code ts l q \<longleftrightarrow> 0 < l \<and> l \<le> 15 \<and> q < 2 ^ l \<and> first_code ts l \<le> rv l q \<and> rv l q < code_lim ts l"

lemma code_prefix_inner:
  assumes ok: "code_ok ts" and c: "is_code ts l q" and d: "0 < d" "d < l"
  shows "inner ts d q"
proof -
  obtain e where e: "l = Suc (d + e)" using d by (metis less_imp_Suc_add)
  have "2 ^ e * code_lim ts d \<le> code_lim ts (d + e)" by (rule code_lim_mono [OF d(1)])
  then have "2 ^ Suc e * code_lim ts d \<le> first_code ts l" using d e first_code_Suc [of "d + e" ts] by simp
  also have "\<dots> \<le> rv l q" using c by (simp add: is_code_def)
  finally have "code_lim ts d \<le> rv l q div 2 ^ Suc e" by (simp add: less_eq_div_iff_mult_less_eq mult.commute)
  also have "\<dots> = rv d q" using rv_div [of d "Suc e" q] e by simp
  finally have lim: "code_lim ts d \<le> rv d q" .
  moreover have "rv d q = 0" if "first_code ts 16 \<noteq> 65536"
  proof -
    have one: "used_upto ts 16 \<le> 1" using ok that by (simp add: code_ok_def)
    have tl: "1 \<le> ts ! l" using c by (simp add: is_code_def code_lim_def)
    have "used_upto ts l + ts ! l = used_upto ts (Suc l)" using c by (simp add: used_upto_def is_code_def)
    also have "\<dots> \<le> 1" using used_upto_mono [of "Suc l" 16 ts] one c by (simp add: is_code_def)
    finally have "used_upto ts l = 0 \<and> ts ! l = 1" using tl by linarith
    then have "code_lim ts l = 1" using first_code_bound [of ts l] by (simp add: code_lim_def)
    then have "rv l q = 0" using c by (simp add: is_code_def)
    then show ?thesis using rv_div [of d "Suc e" q] e by simp
  qed
  ultimately show ?thesis unfolding inner_def by (cases "first_code ts 16 = 65536") simp_all
qed

text \<open>A code is no prefix of a longer one.\<close>

lemma codes_apart:
  assumes ok: "code_ok ts" and c: "is_code ts l q" "is_code ts l' q'" "l < l'"
  shows "take_bit l q \<noteq> take_bit l q'"
proof
  assume "take_bit l q = take_bit l q'"
  then have "rv l q = rv l q'" by (rule rv_cong)
  moreover have "code_lim ts l \<le> rv l q'"
    using code_prefix_inner [OF ok c(2) _ c(3)] c(1) by (simp add: inner_def is_code_def)
  ultimately show False using c(1) by (simp add: is_code_def)
qed

end
