(* ===== verification/HuffBuild.thy ===== *)
theory HuffBuild
  imports HuffTable
begin

unbundle bit_operations_syntax

text \<open>
  The table construction keeps its invariant. A place of the tables, an entry of the look-up table or one
  of the two entries of a node, stands for the bits read on the way to it, its path: a pair of their number
  and the bits, the first one lowest. The list \<open>ns\<close> holds the paths of the nodes in the order of their
  allocation; it is a ghost of the proof, which the code does not have.
\<close>

section \<open>The invariant\<close>

definition child :: "nat \<times> nat \<Rightarrow> nat \<Rightarrow> nat \<times> nat" where
  "child p b = (fst p + 1, snd p + b * 2 ^ fst p)"

text \<open>A place that holds no node: empty, or a symbol of the \<open>n\<close> with the length of its code.\<close>

definition leaf_ok :: "nat list \<Rightarrow> nat \<Rightarrow> nat \<times> nat \<Rightarrow> int \<Rightarrow> bool" where
  "leaf_ok ts n p x \<longleftrightarrow>
     (if fst p = 10 then x = 0 \<or> nat x mod 512 < n \<and> 1 \<le> nat x div 512 \<and> nat x div 512 \<le> 10 else nat x < n) \<and>
     (0 < x \<longrightarrow> rv (fst p) (snd p) < code_lim ts (fst p))"

definition slot_ok :: "nat list \<Rightarrow> nat \<Rightarrow> (nat \<times> nat) list \<Rightarrow> nat \<times> nat \<Rightarrow> int \<Rightarrow> bool" where
  "slot_ok ts n ns p x \<longleftrightarrow>
     (if x < 0 then \<exists>k < length ns. ns ! k = p \<and> x = - 1 - 2 * int k else p \<notin> set ns \<and> leaf_ok ts n p x)"

definition tab_inv :: "nat list \<Rightarrow> nat \<Rightarrow> int list \<Rightarrow> int list \<Rightarrow> (nat \<times> nat) list \<Rightarrow> bool" where
  "tab_inv ts n lu tr ns \<longleftrightarrow> 0 < n \<and> n \<le> 512 \<and> length lu = 1024 \<and> 2 * card (inner_set ts) \<le> length tr \<and>
     distinct ns \<and> set ns \<subseteq> inner_set ts \<and>
     (\<forall>d p. (Suc d, p) \<in> set ns \<longrightarrow> 10 \<le> d \<longrightarrow> (d, take_bit d p) \<in> set ns) \<and>
     (\<forall>i < 1024. slot_ok ts n ns (10, i) (lu ! i)) \<and>
     (\<forall>k < length ns. \<forall>b < 2. slot_ok ts n ns (child (ns ! k) b) (tr ! (2 * k + b))) \<and>
     (\<forall>j. 2 * length ns \<le> j \<longrightarrow> j < length tr \<longrightarrow> tr ! j = 0)"

lemma tab_invD:
  assumes "tab_inv ts n lu tr ns"
  shows "0 < n" "n \<le> 512" "length lu = 1024" "2 * card (inner_set ts) \<le> length tr" "distinct ns" "set ns \<subseteq> inner_set ts"
    "\<And>d p. (Suc d, p) \<in> set ns \<Longrightarrow> 10 \<le> d \<Longrightarrow> (d, take_bit d p) \<in> set ns"
    "\<And>i. i < 1024 \<Longrightarrow> slot_ok ts n ns (10, i) (lu ! i)"
    "\<And>k b. k < length ns \<Longrightarrow> b < 2 \<Longrightarrow> slot_ok ts n ns (child (ns ! k) b) (tr ! (2 * k + b))"
    "\<And>j. 2 * length ns \<le> j \<Longrightarrow> j < length tr \<Longrightarrow> tr ! j = 0"
  using assms by (simp_all add: tab_inv_def)

lemma inner_setD:
  assumes "x \<in> inner_set ts"
  shows "10 \<le> fst x" "fst x \<le> 14" "snd x < 2 ^ fst x" "inner ts (fst x) (snd x)"
  using assms by (auto simp: inner_set_def)

lemma inner_setI: "10 \<le> d \<Longrightarrow> d \<le> 14 \<Longrightarrow> q < 2 ^ d \<Longrightarrow> inner ts d q \<Longrightarrow> (d, q) \<in> inner_set ts"
proof -
  assume "10 \<le> d" "d \<le> 14"
  then have "d = 10 \<or> d = 11 \<or> d = 12 \<or> d = 13 \<or> d = 14" by linarith
  then show "q < 2 ^ d \<Longrightarrow> inner ts d q \<Longrightarrow> (d, q) \<in> inner_set ts" by (auto simp: inner_set_def)
qed

lemma nodes_fit:
  assumes "tab_inv ts n lu tr ns"
  shows "2 * length ns \<le> length tr"
proof -
  have "length ns = card (set ns)" using tab_invD(5) [OF assms] by (simp add: distinct_card)
  also have "\<dots> \<le> card (inner_set ts)" by (rule card_mono [OF finite_inner_set tab_invD(6) [OF assms]])
  finally show ?thesis using tab_invD(4) [OF assms] by simp
qed

lemma more_nodes_fit:
  assumes "tab_inv ts n lu tr ns" "p \<in> inner_set ts" "p \<notin> set ns"
  shows "2 * length ns + 2 \<le> length tr"
proof -
  have "Suc (length ns) = card (insert p (set ns))" using tab_invD(5) [OF assms(1)] assms(3) by (simp add: distinct_card)
  also have "\<dots> \<le> card (inner_set ts)"
    by (rule card_mono [OF finite_inner_set]) (use tab_invD(6) [OF assms(1)] assms(2) in blast)
  finally show ?thesis using tab_invD(4) [OF assms(1)] by simp
qed

lemma tab_inv_start:
  "0 < n \<Longrightarrow> n \<le> 512 \<Longrightarrow> 2 * card (inner_set ts) \<le> m \<Longrightarrow> tab_inv ts n (replicate 1024 0) (replicate m 0) []"
  by (simp add: tab_inv_def slot_ok_def leaf_ok_def)

lemma node_path:
  assumes "tab_inv ts n lu tr ns" "k < length ns"
  shows "ns ! k \<in> inner_set ts"
  using tab_invD(6) [OF assms(1)] assms(2) by auto

lemma take_bit_child: "snd p < 2 ^ fst p \<Longrightarrow> take_bit (fst p) (snd (child p b)) = snd p"
  by (simp add: child_def take_bit_eq_mod)

lemma child_inj:
  assumes "child p b = child p' b'" "snd p < 2 ^ fst p" "snd p' < 2 ^ fst p'" "b < 2" "b' < 2"
  shows "p = p' \<and> b = b'"
proof -
  have f: "fst p = fst p'" using assms(1) by (simp add: child_def)
  have s: "snd p = snd p'"
    using take_bit_child [OF assms(2), of b] take_bit_child [OF assms(3), of b'] assms(1) f by simp
  then have "b * 2 ^ fst p = b' * 2 ^ fst p" using assms(1) f by (simp add: child_def)
  then show ?thesis using f s by (simp add: prod_eq_iff)
qed

lemma child_take_bit: "child (d, take_bit d q) (drop_bit d q AND 1) = (Suc d, take_bit (Suc d) q)"
proof -
  have "drop_bit d q AND 1 = of_bool (bit q d)" by (simp add: and_one_eq bit_iff_odd_drop_bit mod_2_eq_odd)
  then show ?thesis by (simp add: child_def take_bit_Suc_from_most)
qed

text \<open>No child of a place that is no node is a node.\<close>

lemma child_no_node:
  assumes "tab_inv ts n lu tr ns" "p \<in> inner_set ts" "p \<notin> set ns"
  shows "child p b \<notin> set ns"
proof
  assume "child p b \<in> set ns"
  then have "(fst p, take_bit (fst p) (snd (child p b))) \<in> set ns"
    using tab_invD(7) [OF assms(1), of "fst p" "snd (child p b)"] inner_setD(1) [OF assms(2)] by (simp add: child_def)
  then show False using take_bit_child [OF inner_setD(3) [OF assms(2)], of b] assms(3) by simp
qed

lemma slot_ok_extend: "slot_ok ts n ns p x \<Longrightarrow> p \<noteq> p' \<Longrightarrow> slot_ok ts n (ns @ [p']) p x"
  unfolding slot_ok_def by (auto simp: nth_append split: if_splits)

section \<open>What an insertion touches\<close>

text \<open>
  The insertion of a code touches only places on the way to it, and it may add nodes. A code is placed when
  every index of the look-up table that begins with it, or the place at its end in the tree, has its symbol.
\<close>

definition touches ::
    "nat \<Rightarrow> nat \<Rightarrow> int list \<Rightarrow> int list \<Rightarrow> (nat \<times> nat) list \<Rightarrow> int list \<Rightarrow> int list \<Rightarrow> (nat \<times> nat) list \<Rightarrow> bool" where
  "touches l q lu tr ns lu' tr' ns' \<longleftrightarrow> (\<exists>zs. ns' = ns @ zs) \<and>
     (\<forall>i < 1024. lu' ! i \<noteq> lu ! i \<longrightarrow> take_bit (min l 10) i = take_bit (min l 10) q) \<and>
     (\<forall>k < length ns. \<forall>b < 2. tr' ! (2 * k + b) \<noteq> tr ! (2 * k + b) \<longrightarrow> (\<exists>d \<le> l. child (ns ! k) b = (d, take_bit d q)))"

definition placed :: "int list \<Rightarrow> int list \<Rightarrow> (nat \<times> nat) list \<Rightarrow> nat \<Rightarrow> nat \<Rightarrow> nat \<Rightarrow> bool" where
  "placed lu tr ns l q sy \<longleftrightarrow>
     (if l \<le> 10 then \<forall>i < 1024. take_bit l i = q \<longrightarrow> lu ! i = int (512 * l + sy)
      else \<exists>k < length ns. \<exists>b < 2. child (ns ! k) b = (l, q) \<and> tr ! (2 * k + b) = int sy)"

lemma touches_refl: "touches l q lu tr ns lu tr ns"
  by (simp add: touches_def)

lemma touches_trans:
  assumes "touches l q lu tr ns lu1 tr1 ns1" "touches l q lu1 tr1 ns1 lu2 tr2 ns2"
  shows "touches l q lu tr ns lu2 tr2 ns2"
proof -
  obtain zs where zs: "ns1 = ns @ zs" using assms(1) by (auto simp: touches_def)
  have "\<exists>d \<le> l. child (ns ! k) b = (d, take_bit d q)"
    if k: "k < length ns" "b < 2" and ne: "tr2 ! (2 * k + b) \<noteq> tr ! (2 * k + b)" for k b
  proof (cases "tr1 ! (2 * k + b) = tr ! (2 * k + b)")
    case True
    have "k < length ns1" "ns1 ! k = ns ! k" using k(1) by (simp_all add: zs nth_append)
    then show ?thesis using True ne k(2) assms(2) unfolding touches_def by metis
  next
    case False
    then show ?thesis using k assms(1) unfolding touches_def by metis
  qed
  moreover have "take_bit (min l 10) i = take_bit (min l 10) q" if "i < 1024" "lu2 ! i \<noteq> lu ! i" for i
    using that assms unfolding touches_def by metis
  moreover have "\<exists>zs. ns2 = ns @ zs" using assms(2) by (auto simp: touches_def zs)
  ultimately show ?thesis unfolding touches_def by blast
qed

text \<open>A code placed before stays placed when neither code is a prefix of the other.\<close>

lemma placed_kept:
  assumes "placed lu tr ns l q sy" "touches l' q' lu tr ns lu' tr' ns'" "q < 2 ^ l"
    and apart: "take_bit (min l l') q \<noteq> take_bit (min l l') q'"
  shows "placed lu' tr' ns' l q sy"
proof (cases "l \<le> 10")
  case True
  have "lu' ! i = lu ! i" if i: "i < 1024" "take_bit l i = q" for i
  proof (rule ccontr)
    assume "lu' ! i \<noteq> lu ! i"
    then have "take_bit (min l' 10) i = take_bit (min l' 10) q'" using assms(2) i(1) by (simp add: touches_def)
    from arg_cong [OF this, of "take_bit (min l l')"] have "take_bit (min l l') i = take_bit (min l l') q'"
      using True by (simp add: take_bit_take_bit min.absorb1 min.absorb2 min.left_commute min.commute)
    moreover have "take_bit (min l l') q = take_bit (min l l') i" using i(2) by (auto simp: take_bit_take_bit min.commute)
    ultimately show False using apart by simp
  qed
  then show ?thesis using assms(1) True by (simp add: placed_def)
next
  case False
  then obtain k b where k: "k < length ns" "b < 2" "child (ns ! k) b = (l, q)" "tr ! (2 * k + b) = int sy"
    using assms(1) by (auto simp: placed_def)
  have "tr' ! (2 * k + b) = tr ! (2 * k + b)"
  proof (rule ccontr)
    assume "tr' ! (2 * k + b) \<noteq> tr ! (2 * k + b)"
    then have "l \<le> l'" "q = take_bit l q'" using assms(2) k unfolding touches_def by (metis prod.inject)+
    then show False using apart by (simp add: min.absorb1 take_bit_take_bit)
  qed
  moreover obtain zs where "ns' = ns @ zs" using assms(2) by (auto simp: touches_def)
  ultimately have "k < length ns' \<and> child (ns' ! k) b = (l, q) \<and> tr' ! (2 * k + b) = int sy"
    using k by (simp add: nth_append)
  then show ?thesis unfolding placed_def using False k(2) by auto
qed

section \<open>The changes\<close>

lemma set_lookup_leaf:
  assumes inv: "tab_inv ts n lu tr ns" and "i < 1024" "0 \<le> x" "(10, i) \<notin> set ns" "leaf_ok ts n (10, i) x"
  shows "tab_inv ts n (lu[i := x]) tr ns"
  using assms unfolding tab_inv_def by (auto simp: nth_list_update slot_ok_def)

lemma set_tree_leaf:
  assumes inv: "tab_inv ts n lu tr ns" and k: "k < length ns" "b < 2" and x: "0 \<le> x" "child (ns ! k) b \<notin> set ns"
    "leaf_ok ts n (child (ns ! k) b) x"
  shows "tab_inv ts n lu (tr[2 * k + b := x]) ns"
proof -
  have "slot_ok ts n ns (child (ns ! k') b') (tr[2 * k + b := x] ! (2 * k' + b'))" if "k' < length ns" "b' < 2" for k' b'
  proof (cases "2 * k + b = 2 * k' + b'")
    case True
    then have "k' = k \<and> b' = b" using k that by presburger
    then show ?thesis using nodes_fit [OF inv] k x by (simp add: slot_ok_def)
  next
    case False
    then show ?thesis using tab_invD(9) [OF inv that] by simp
  qed
  moreover have "2 * k + b < 2 * length ns" using k by linarith
  ultimately show ?thesis using inv unfolding tab_inv_def by (auto simp: nth_list_update)
qed

text \<open>A new node, referred to by the place \<open>p\<close> that was empty.\<close>

lemma new_node:
  assumes inv: "tab_inv ts n lu tr ns" and p: "p \<in> inner_set ts" "p \<notin> set ns"
    and closed: "10 < fst p \<Longrightarrow> (fst p - 1, take_bit (fst p - 1) (snd p)) \<in> set ns"
    and lu': "length lu' = 1024" "\<And>i. i < 1024 \<Longrightarrow> lu' ! i = (if p = (10, i) then - 1 - 2 * int (length ns) else lu ! i)"
    and tr': "length tr' = length tr" "\<And>j. 2 * length ns \<le> j \<Longrightarrow> tr' ! j = tr ! j"
      "\<And>k b. k < length ns \<Longrightarrow> b < 2 \<Longrightarrow>
         tr' ! (2 * k + b) = (if p = child (ns ! k) b then - 1 - 2 * int (length ns) else tr ! (2 * k + b))"
  shows "tab_inv ts n lu' tr' (ns @ [p])"
proof -
  have new: "slot_ok ts n (ns @ [p]) p (- 1 - 2 * int (length ns))" by (simp add: slot_ok_def nth_append)
  have "slot_ok ts n (ns @ [p]) (10, i) (lu' ! i)" if "i < 1024" for i
    using new lu'(2) [OF that] slot_ok_extend [OF tab_invD(8) [OF inv that], of p] by (cases "p = (10, i)") auto
  moreover have "slot_ok ts n (ns @ [p]) (child ((ns @ [p]) ! k) b) (tr' ! (2 * k + b))"
    if k: "k < Suc (length ns)" and b: "b < 2" for k b
  proof (cases "k < length ns")
    case True
    then show ?thesis
      using new tr'(3) [OF True b] slot_ok_extend [OF tab_invD(9) [OF inv True b], of p]
      by (cases "p = child (ns ! k) b") (auto simp: nth_append)
  next
    case False
    then have k: "k = length ns" using k by simp
    have "tr' ! (2 * k + b) = tr ! (2 * k + b)" by (rule tr'(2)) (simp add: k)
    also have "\<dots> = 0"
      by (rule tab_invD(10) [OF inv]) (use more_nodes_fit [OF inv p] b k in linarith)+
    finally have "tr' ! (2 * k + b) = 0" .
    moreover have "child p b \<noteq> p" by (simp add: child_def prod_eq_iff)
    moreover have "fst (child p b) \<noteq> 10" using inner_setD(1) [OF p(1)] by (simp add: child_def)
    ultimately show ?thesis
      using child_no_node [OF inv p, of b] tab_invD(1) [OF inv] by (simp add: k nth_append slot_ok_def leaf_ok_def)
  qed
  moreover have "(d, take_bit d q) \<in> set (ns @ [p])" if "(Suc d, q) \<in> set (ns @ [p])" "10 \<le> d" for d q
    using tab_invD(7) [OF inv, of d q] closed that by auto
  moreover have "tr' ! j = 0" if "2 * length (ns @ [p]) \<le> j" "j < length tr'" for j
    using tr'(2) [of j] tab_invD(10) [OF inv, of j] tr'(1) that by simp
  moreover have "distinct (ns @ [p])" "set (ns @ [p]) \<subseteq> inner_set ts" using tab_invD(5,6) [OF inv] p by auto
  ultimately show ?thesis
    unfolding tab_inv_def using tab_invD(1,2,4) [OF inv] lu'(1) tr'(1) by simp
qed

lemma new_lookup_node:
  assumes inv: "tab_inv ts n lu tr ns" and i: "(10, i) \<in> inner_set ts" and v: "lu ! i = 0"
  shows "tab_inv ts n (lu[i := - 1 - 2 * int (length ns)]) tr (ns @ [(10, i)])"
proof (rule new_node [OF inv i])
  have i1024: "i < 1024" using inner_setD(3) [OF i] by simp
  show "(10, i) \<notin> set ns" using tab_invD(8) [OF inv i1024] v by (simp add: slot_ok_def)
  show "\<And>j. j < 1024 \<Longrightarrow> lu[i := - 1 - 2 * int (length ns)] ! j = (if (10, i) = (10, j) then - 1 - 2 * int (length ns) else lu ! j)"
    using tab_invD(3) [OF inv] by simp
  show "\<And>k b. k < length ns \<Longrightarrow> b < 2 \<Longrightarrow> tr ! (2 * k + b) = (if (10, i) = child (ns ! k) b then - 1 - 2 * int (length ns) else tr ! (2 * k + b))"
  proof -
    fix k b
    assume "k < length ns"
    from inner_setD(1) [OF node_path [OF inv this]] have "fst (child (ns ! k) b) \<noteq> 10" by (simp add: child_def)
    then show "tr ! (2 * k + b) = (if (10, i) = child (ns ! k) b then - 1 - 2 * int (length ns) else tr ! (2 * k + b))"
      by (auto dest: arg_cong [of _ _ fst])
  qed
qed (use tab_invD(3) [OF inv] in auto)

lemma new_tree_node:
  assumes inv: "tab_inv ts n lu tr ns" and k: "k < length ns" "b < 2" and c: "child (ns ! k) b \<in> inner_set ts"
    and v: "tr ! (2 * k + b) = 0"
  shows "tab_inv ts n lu (tr[2 * k + b := - 1 - 2 * int (length ns)]) (ns @ [child (ns ! k) b])"
proof (rule new_node [OF inv c])
  define p where "p = ns ! k"
  have p: "p \<in> inner_set ts" using node_path [OF inv k(1)] by (simp add: p_def)
  show "child (ns ! k) b \<notin> set ns" using tab_invD(9) [OF inv k] v by (simp add: slot_ok_def)
  have "fst (child p b) - 1 = fst p" by (simp add: child_def)
  then show "(fst (child (ns ! k) b) - 1, take_bit (fst (child (ns ! k) b) - 1) (snd (child (ns ! k) b))) \<in> set ns"
    using take_bit_child [OF inner_setD(3) [OF p], of b] k(1) by (simp add: p_def [symmetric]) (simp add: p_def)
  have kb: "2 * k + b < 2 * length ns" using k by linarith
  show "\<And>j. 2 * length ns \<le> j \<Longrightarrow> tr[2 * k + b := - 1 - 2 * int (length ns)] ! j = tr ! j"
    using kb by (simp add: nth_list_update)
  show "\<And>i. i < 1024 \<Longrightarrow> lu ! i = (if child (ns ! k) b = (10, i) then - 1 - 2 * int (length ns) else lu ! i)"
  proof -
    fix i :: nat
    have "fst (child p b) \<noteq> 10" using inner_setD(1) [OF p] by (simp add: child_def)
    then show "lu ! i = (if child (ns ! k) b = (10, i) then - 1 - 2 * int (length ns) else lu ! i)"
      by (auto simp: p_def dest: arg_cong [of _ _ fst])
  qed
  show "\<And>k' b'. k' < length ns \<Longrightarrow> b' < 2 \<Longrightarrow> tr[2 * k + b := - 1 - 2 * int (length ns)] ! (2 * k' + b') =
      (if child (ns ! k) b = child (ns ! k') b' then - 1 - 2 * int (length ns) else tr ! (2 * k' + b'))"
  proof -
    fix k' b' :: nat
    assume k': "k' < length ns" "b' < 2"
    have "child (ns ! k) b = child (ns ! k') b' \<longleftrightarrow> k = k' \<and> b = b'"
      using child_inj [of "ns ! k" b "ns ! k'" b'] inner_setD(3) [OF node_path [OF inv]] k k'
        nth_eq_iff_index_eq [OF tab_invD(5) [OF inv]] by auto
    moreover have "2 * k + b = 2 * k' + b' \<longleftrightarrow> k = k' \<and> b = b'" using k k' by presburger
    ultimately show "tr[2 * k + b := - 1 - 2 * int (length ns)] ! (2 * k' + b') =
      (if child (ns ! k) b = child (ns ! k') b' then - 1 - 2 * int (length ns) else tr ! (2 * k' + b'))"
      using nodes_fit [OF inv] kb by (simp add: nth_list_update)
  qed
qed (use tab_invD(3) [OF inv] in auto)

section \<open>The operations\<close>

lemma inner_slot:
  assumes "slot_ok ts n ns p x" "p \<in> inner_set ts"
  shows "(\<exists>k < length ns. ns ! k = p \<and> x = - 1 - 2 * int k) \<or> x = 0"
  using assms inner_setD(4) [OF assms(2)]
  by (auto simp: slot_ok_def leaf_ok_def inner_def split: if_splits)

lemma mod_gap: "r mod m = i mod m \<Longrightarrow> r < i \<Longrightarrow> r + m \<le> (i :: nat)"
  using dvd_imp_le [of m "i - r"] mod_eq_dvd_iff_nat [of r i m] by (simp add: eq_commute)

lemma fill_lookup_inv:
  assumes "tab_inv ts n lu tr ns" and c: "is_code ts l q" "l \<le> 10" and sy: "sy < n" and "r mod 2 ^ l = q"
  shows "\<exists>lu'. fill_lookup l (int (512 * l + sy)) r lu = Some lu' \<and> tab_inv ts n lu' tr ns \<and>
    (\<forall>i < 1024. lu' ! i = (if r \<le> i \<and> i mod 2 ^ l = q then int (512 * l + sy) else lu ! i))"
  using assms(1,5)
proof (induction "1024 - r" arbitrary: r lu rule: less_induct)
  case less
  show ?case
  proof (cases "r < 1024")
    case False
    then show ?thesis using less.prems by (subst fill_lookup.simps) simp
  next
    case True
    have l: "0 < l" using c by (simp add: is_code_def)
    have sy512: "sy < 512" using sy tab_invD(2) [OF less.prems(1)] by simp
    have "take_bit l r = q" using less.prems(2) by (simp add: take_bit_eq_mod)
    then have "rv l r = rv l q" by auto
    then have "rv 10 r div 2 ^ (10 - l) < code_lim ts l"
      using rv_div [of l "10 - l" r] c by (simp add: is_code_def)
    then have "rv 10 r < code_lim ts l * 2 ^ (10 - l)" by (simp add: div_less_iff_less_mult)
    also have "\<dots> \<le> code_lim ts 10" using code_lim_mono [OF l, of "10 - l" ts] c(2) by (simp add: mult.commute)
    finally have lim: "rv 10 r < code_lim ts 10" .
    have "(10, r) \<notin> inner_set ts" using lim by (auto simp: inner_set_def inner_def)
    then have no: "(10, r) \<notin> set ns" using tab_invD(6) [OF less.prems(1)] by blast
    define lu' where "lu' = lu[r := int (512 * l + sy)]"
    have leaf: "leaf_ok ts n (10, r) (int (512 * l + sy))"
    proof -
      have "(512 * l + sy) mod 512 = sy" "(512 * l + sy) div 512 = l" using sy512 by simp_all
      then show ?thesis using l c(2) sy lim by (simp only: leaf_ok_def nat_int) simp
    qed
    have inv': "tab_inv ts n lu' tr ns"
      unfolding lu'_def by (rule set_lookup_leaf [OF less.prems(1) True _ no leaf]) simp
    have "\<exists>lu''. fill_lookup l (int (512 * l + sy)) (r + 2 ^ l) lu' = Some lu'' \<and> tab_inv ts n lu'' tr ns \<and>
        (\<forall>i < 1024. lu'' ! i = (if r + 2 ^ l \<le> i \<and> i mod 2 ^ l = q then int (512 * l + sy) else lu' ! i))"
    proof (rule less.hyps [OF _ inv'])
      show "1024 - (r + 2 ^ l) < 1024 - r" using True by (simp add: diff_less_mono2)
      show "(r + 2 ^ l) mod 2 ^ l = q" using less.prems(2) by simp
    qed
    then obtain lu'' where lu'': "fill_lookup l (int (512 * l + sy)) (r + 2 ^ l) lu' = Some lu''" "tab_inv ts n lu'' tr ns"
        "\<forall>i < 1024. lu'' ! i = (if r + 2 ^ l \<le> i \<and> i mod 2 ^ l = q then int (512 * l + sy) else lu' ! i)" by blast
    have "lu'' ! i = (if r \<le> i \<and> i mod 2 ^ l = q then int (512 * l + sy) else lu ! i)" if "i < 1024" for i
    proof (cases "i = r")
      case True
      then show ?thesis using lu''(3) that less.prems(2) tab_invD(3) [OF less.prems(1)] by (simp add: lu'_def)
    next
      case False
      then have "r \<le> i \<and> i mod 2 ^ l = q \<longleftrightarrow> r + 2 ^ l \<le> i \<and> i mod 2 ^ l = q"
        using mod_gap [of r "2 ^ l" i] less.prems(2) by auto
      then show ?thesis using lu''(3) that False by (simp add: lu'_def)
    qed
    moreover have "fill_lookup l (int (512 * l + sy)) r lu = Some lu''"
      using True tab_invD(3) [OF less.prems(1)] lu''(1) by (subst fill_lookup.simps) (simp add: upd_o_def lu'_def)
    ultimately show ?thesis using lu''(2) by blast
  qed
qed

lemma fill_lookup_touches:
  assumes "\<forall>i < 1024. lu' ! i = (if q \<le> i \<and> i mod 2 ^ l = q then int (512 * l + sy) else lu ! i)" "l \<le> 10" "q < 2 ^ l"
  shows "touches l q lu tr ns lu' tr ns" "placed lu' tr ns l q sy"
proof -
  have i: "i mod 2 ^ l = q \<longleftrightarrow> take_bit l i = q" "i mod 2 ^ l = q \<Longrightarrow> q \<le> i" for i
    by (auto simp: take_bit_eq_mod)
  show "placed lu' tr ns l q sy" using assms(1,2) i by (simp add: placed_def)
  have "take_bit l q = q" using assms(3) by (simp add: take_bit_nat_eq_self)
  then show "touches l q lu tr ns lu' tr ns" using assms(1,2) i by (simp add: touches_def min.absorb1)
qed

lemma code_prefix_node:
  assumes "code_ok ts" "is_code ts l q" "10 \<le> d" "d < l"
  shows "(d, take_bit d q) \<in> inner_set ts"
proof (rule inner_setI)
  show "d \<le> 14" using assms by (simp add: is_code_def)
  have "inner ts d q" by (rule code_prefix_inner) (use assms in simp_all)
  then show "inner ts d (take_bit d q)" by (simp add: inner_def)
qed (use assms in simp_all)

lemma tree_descend_step:
  assumes "drop_bit 1 rc = rc'" "rc' AND 1 = b" "2 * k + b < length tr"
  shows "tree_descend (Suc left) rc (- 1 - 2 * int k) tn tr =
    (if tr ! (2 * k + b) = 0 then tree_descend left rc' tn (tn - 2) (tr[2 * k + b := tn])
     else tree_descend left rc' (tr ! (2 * k + b)) tn tr)"
proof -
  have idx: "nat (- (- 1 - 2 * int k - int b) - 1) = 2 * k + b" by simp
  have rd: "nth_o tr (2 * k + b) = Some (tr ! (2 * k + b))" using assms(3) by (simp add: nth_o_def)
  have wr: "upd_o tr (2 * k + b) tn = Some (tr[2 * k + b := tn])" using assms(3) by (simp add: upd_o_def)
  show ?thesis by (simp only: tree_descend.simps Let_def assms(1,2) idx rd wr Option.bind.bind_lunit)
qed

lemma node_touched:
  assumes "tab_inv ts n lu tr ns" "k < length ns" "b < 2" "k' < length ns" "b' < 2"
    "tr[2 * k + b := x] ! (2 * k' + b') \<noteq> tr ! (2 * k' + b')"
  shows "k' = k \<and> b' = b"
proof -
  have "2 * k' + b' = 2 * k + b" using assms(6) nth_list_update_neq [of "2 * k + b" "2 * k' + b'"] by metis
  then show ?thesis using assms(3,5) by presburger
qed

lemma tree_descend_inv:
  assumes ok: "code_ok ts" and c: "is_code ts l q"
  shows "tab_inv ts n lu tr ns \<Longrightarrow> k < length ns \<Longrightarrow> ns ! k = (d, take_bit d q) \<Longrightarrow> 10 \<le> d \<Longrightarrow> d + left + 1 = l \<Longrightarrow>
    \<exists>tr' ns' k'. tree_descend left (drop_bit (d - 1) q) (- 1 - 2 * int k) (- 1 - 2 * int (length ns)) tr =
        Some (drop_bit (l - 2) q, - 1 - 2 * int k', - 1 - 2 * int (length ns'), tr') \<and>
      tab_inv ts n lu tr' ns' \<and> k' < length ns' \<and> ns' ! k' = (l - 1, take_bit (l - 1) q) \<and> length tr' = length tr \<and>
      touches l q lu tr ns lu tr' ns'"
proof (induction left arbitrary: d k tr ns)
  case 0
  then have "l - 1 = d" "l - 2 = d - 1" by auto
  then show ?case using 0 touches_refl by auto
next
  case (Suc left)
  define b where "b = drop_bit d q AND 1"
  have b: "b < 2" by (simp add: b_def and_one_eq)
  have rev: "drop_bit 1 (drop_bit (d - 1) q) = drop_bit d q" using Suc.prems(4) by (simp add: drop_bit_drop_bit)
  have ch: "child (ns ! k) b = (Suc d, take_bit (Suc d) q)" using child_take_bit Suc.prems(3) by (simp add: b_def)
  have node: "child (ns ! k) b \<in> inner_set ts"
    unfolding ch by (rule code_prefix_node [OF ok c]) (use Suc.prems in simp_all)
  have fits: "2 * k + b < length tr" using nodes_fit [OF Suc.prems(1)] Suc.prems(2) b by linarith
  have slot: "(\<exists>j < length ns. ns ! j = child (ns ! k) b \<and> tr ! (2 * k + b) = - 1 - 2 * int j) \<or> tr ! (2 * k + b) = 0"
    by (rule inner_slot [OF tab_invD(9) [OF Suc.prems(1,2) b] node])
  then show ?case
  proof
    assume "\<exists>j < length ns. ns ! j = child (ns ! k) b \<and> tr ! (2 * k + b) = - 1 - 2 * int j"
    then obtain j where j: "j < length ns" "ns ! j = (Suc d, take_bit (Suc d) q)" "tr ! (2 * k + b) = - 1 - 2 * int j"
      using ch by auto
    have "tree_descend (Suc left) (drop_bit (d - 1) q) (- 1 - 2 * int k) (- 1 - 2 * int (length ns)) tr =
        tree_descend left (drop_bit (Suc d - 1) q) (- 1 - 2 * int j) (- 1 - 2 * int (length ns)) tr"
      using tree_descend_step [OF rev b_def [symmetric] fits] j(3) by simp
    then show ?thesis using Suc.IH [OF Suc.prems(1) j(1,2)] Suc.prems(4,5) by simp
  next
    assume z: "tr ! (2 * k + b) = 0"
    define tr1 where "tr1 = tr[2 * k + b := - 1 - 2 * int (length ns)]"
    define ns1 where "ns1 = ns @ [child (ns ! k) b]"
    have inv1: "tab_inv ts n lu tr1 ns1"
      unfolding tr1_def ns1_def by (rule new_tree_node [OF Suc.prems(1,2) b node z])
    have k1: "length ns < length ns1" "ns1 ! length ns = (Suc d, take_bit (Suc d) q)" by (simp_all add: ns1_def ch)
    have tn: "- 1 - 2 * int (length ns) - 2 = - 1 - 2 * int (length ns1)" by (simp add: ns1_def)
    have run: "tree_descend (Suc left) (drop_bit (d - 1) q) (- 1 - 2 * int k) (- 1 - 2 * int (length ns)) tr =
        tree_descend left (drop_bit (Suc d - 1) q) (- 1 - 2 * int (length ns)) (- 1 - 2 * int (length ns1)) tr1"
      using tree_descend_step [OF rev b_def [symmetric] fits] z unfolding tn [symmetric] by (simp add: tr1_def)
    have len: "length tr1 = length tr" by (simp add: tr1_def)
    have t1: "touches l q lu tr ns lu tr1 ns1"
    proof -
      have "\<exists>e \<le> l. child (ns ! k') b' = (e, take_bit e q)"
        if "k' < length ns" "b' < 2" "tr1 ! (2 * k' + b') \<noteq> tr ! (2 * k' + b')" for k' b'
      proof -
        have "k' = k \<and> b' = b"
          by (rule node_touched [OF Suc.prems(1,2) b that(1,2)]) (use that(3) in \<open>simp add: tr1_def\<close>)
        then show ?thesis using ch Suc.prems(5) by (intro exI [of _ "Suc d"]) simp
      qed
      then show ?thesis unfolding touches_def ns1_def by blast
    qed
    have "10 \<le> Suc d" "Suc d + left + 1 = l" using Suc.prems(4,5) by simp_all
    from Suc.IH [OF inv1 k1 this] obtain tr' ns' k' where r: "tree_descend left (drop_bit (Suc d - 1) q) (- 1 - 2 * int (length ns)) (- 1 - 2 * int (length ns1)) tr1 =
        Some (drop_bit (l - 2) q, - 1 - 2 * int k', - 1 - 2 * int (length ns'), tr')"
      "tab_inv ts n lu tr' ns'" "k' < length ns'" "ns' ! k' = (l - 1, take_bit (l - 1) q)" "length tr' = length tr1"
      "touches l q lu tr1 ns1 lu tr' ns'" by blast
    have t2: "touches l q lu tr ns lu tr' ns'" by (rule touches_trans [OF t1 r(6)])
    show ?thesis
      unfolding run r(1) by (intro exI conjI, rule refl) (use r t2 len in simp_all)
  qed
qed

lemma insert_long_inv:
  assumes ok: "code_ok ts" and c: "is_code ts l q" and l: "10 < l" and inv: "tab_inv ts n lu tr ns" and sy: "sy < n"
  shows "\<exists>lu' tr' ns'. insert_long l sy q (- 1 - 2 * int (length ns)) lu tr =
      Some (- 1 - 2 * int (length ns'), lu', tr') \<and> tab_inv ts n lu' tr' ns' \<and> length tr' = length tr \<and>
      touches l q lu tr ns lu' tr' ns' \<and> placed lu' tr' ns' l q sy"
proof -
  define i where "i = take_bit 10 q"
  have i: "q AND 1023 = i" by (simp add: i_def take_bit_eq_mask mask_eq_exp_minus_1)
  have i1024: "i < 1024" using take_bit_nat_less_exp [of 10 q] by (simp add: i_def)
  have node: "(10, i) \<in> inner_set ts" unfolding i_def by (rule code_prefix_node [OF ok c]) (use l in simp_all)
  have "\<exists>lu1 ns1 k. (if lu ! i = 0 then do { t \<leftarrow> upd_o lu i (- 1 - 2 * int (length ns)); Some (t, - 1 - 2 * int (length ns), - 1 - 2 * int (length ns) - 2) }
        else Some (lu, lu ! i, - 1 - 2 * int (length ns))) = Some (lu1, - 1 - 2 * int k, - 1 - 2 * int (length ns1)) \<and>
      tab_inv ts n lu1 tr ns1 \<and> k < length ns1 \<and> ns1 ! k = (10, i) \<and> touches l q lu tr ns lu1 tr ns1"
  proof (cases "lu ! i = 0")
    case True
    show ?thesis
      by (rule exI [of _ "lu[i := - 1 - 2 * int (length ns)]"], rule exI [of _ "ns @ [(10, i)]"], rule exI [of _ "length ns"])
        (use True new_lookup_node [OF inv node True] i1024 tab_invD(3) [OF inv] l in
          \<open>auto simp: upd_o_def touches_def nth_list_update i_def\<close>)
  next
    case False
    then obtain k where "k < length ns" "ns ! k = (10, i)" "lu ! i = - 1 - 2 * int k"
      using inner_slot [OF tab_invD(8) [OF inv i1024] node] by blast
    then show ?thesis
      using False inv touches_refl by (intro exI [of _ lu] exI [of _ ns] exI [of _ k]) simp
  qed
  then obtain lu1 ns1 k where first: "(if lu ! i = 0 then do { t \<leftarrow> upd_o lu i (- 1 - 2 * int (length ns)); Some (t, - 1 - 2 * int (length ns), - 1 - 2 * int (length ns) - 2) }
        else Some (lu, lu ! i, - 1 - 2 * int (length ns))) = Some (lu1, - 1 - 2 * int k, - 1 - 2 * int (length ns1))"
    and inv1: "tab_inv ts n lu1 tr ns1" and k: "k < length ns1" "ns1 ! k = (10, take_bit 10 q)"
    and t1: "touches l q lu tr ns lu1 tr ns1" unfolding i_def by blast
  obtain tr2 ns2 k2 where desc: "tree_descend (l - 11) (drop_bit 9 q) (- 1 - 2 * int k) (- 1 - 2 * int (length ns1)) tr =
        Some (drop_bit (l - 2) q, - 1 - 2 * int k2, - 1 - 2 * int (length ns2), tr2)"
    and inv2: "tab_inv ts n lu1 tr2 ns2" and k2: "k2 < length ns2" "ns2 ! k2 = (l - 1, take_bit (l - 1) q)" and len2: "length tr2 = length tr"
    and t2: "touches l q lu1 tr ns1 lu1 tr2 ns2"
    using tree_descend_inv [OF ok c inv1 k, of "l - 11"] l by auto
  define b where "b = drop_bit (l - 1) q AND 1"
  have b: "b < 2" by (simp add: b_def and_one_eq)
  have rev: "drop_bit 1 (drop_bit (l - 2) q) = drop_bit (l - 1) q"
  proof -
    have "1 + (l - 2) = l - 1" using l by simp
    then show ?thesis by (simp only: drop_bit_drop_bit)
  qed
  have q: "take_bit l q = q" using c by (simp add: is_code_def take_bit_nat_eq_self)
  have ch: "child (ns2 ! k2) b = (l, q)" using child_take_bit [of "l - 1" q] k2(2) l q by (simp add: b_def)
  have idx: "nat (- (- 1 - 2 * int k2 - int b) - 1) = 2 * k2 + b" by simp
  have fits: "2 * k2 + b < length tr2" using nodes_fit [OF inv2] k2(1) b by linarith
  have lim: "rv l q < code_lim ts l" using c by (simp add: is_code_def)
  then have "(l, q) \<notin> inner_set ts" by (auto simp: inner_set_def inner_def)
  then have no: "child (ns2 ! k2) b \<notin> set ns2" using tab_invD(6) [OF inv2] ch by auto
  have inv3: "tab_inv ts n lu1 (tr2[2 * k2 + b := int sy]) ns2"
    by (rule set_tree_leaf [OF inv2 k2(1) b _ no]) (use l sy lim in \<open>simp_all add: ch leaf_ok_def\<close>)
  have rd: "nth_o lu i = Some (lu ! i)" using i1024 tab_invD(3) [OF inv] by (simp add: nth_o_def)
  have wr: "upd_o tr2 (2 * k2 + b) (int sy) = Some (tr2[2 * k2 + b := int sy])" using fits by (simp add: upd_o_def)
  have fast: "1024 - 1 = (1023 :: nat)" "10 + 1 = (11 :: nat)" "10 - 1 = (9 :: nat)" by simp_all
  have "insert_long l sy q (- 1 - 2 * int (length ns)) lu tr =
      Some (- 1 - 2 * int (length ns2), lu1, tr2[2 * k2 + b := int sy])"
    by (simp only: insert_long_def i rd Option.bind.bind_lunit first desc rev b_def [symmetric] Let_def idx wr
      prod.case fast)
  moreover have "touches l q lu1 tr2 ns2 lu1 (tr2[2 * k2 + b := int sy]) ns2"
  proof -
    have "\<exists>d \<le> l. child (ns2 ! k') b' = (d, take_bit d q)"
      if "k' < length ns2" "b' < 2" "tr2[2 * k2 + b := int sy] ! (2 * k' + b') \<noteq> tr2 ! (2 * k' + b')" for k' b'
      using node_touched [OF inv2 k2(1) b that] ch q by auto
    then show ?thesis by (simp add: touches_def)
  qed
  from touches_trans [OF touches_trans [OF t1 t2] this]
  have "touches l q lu tr ns lu1 (tr2[2 * k2 + b := int sy]) ns2" .
  moreover have "placed lu1 (tr2[2 * k2 + b := int sy]) ns2 l q sy" using l k2(1) b ch fits unfolding placed_def
    by (simp add: not_le) (metis nth_list_update_eq)
  ultimately show ?thesis using inv3 len2 by auto
qed

lemma take_Suc_cnt: "i < length ps \<Longrightarrow> cnt k (take (i + 1) ps) = cnt k (take i ps) + (if ps ! i = k then 1 else 0)"
  by (simp add: take_Suc_conv_app_nth)

lemma cnt_take_less:
  assumes "i < n" "n \<le> length ps" "ps ! i = k"
  shows "cnt k (take i ps) < cnt k (take n ps)"
proof -
  have "take n ps = take i ps @ ps ! i # take (n - Suc i) (drop (Suc i) ps)"
    using assms by (metis append_take_drop_id less_imp_le_nat min.absorb4 Cons_nth_drop_Suc take_Suc_Cons Suc_diff_Suc
      le_add_diff_inverse less_le_trans take_add)
  then show ?thesis using assms(3) by simp
qed

text \<open>
  The canonical code of a symbol: the first code of its length plus the number of symbols of that length
  before it (RFC 1951, 3.2.2), and the same with its bits in the order they are read.
\<close>

definition code_value :: "nat list \<Rightarrow> nat list \<Rightarrow> nat \<Rightarrow> nat" where
  "code_value ts ps j = first_code ts (ps ! j) + cnt (ps ! j) (take j ps)"

definition code_word :: "nat list \<Rightarrow> nat list \<Rightarrow> nat \<Rightarrow> nat" where
  "code_word ts ps j = rev_bits (ps ! j) (code_value ts ps j) 0"

text \<open>\<open>ts\<close> counts the lengths of the first \<open>n\<close> symbols, which are those of a code.\<close>

definition lengths_ok :: "nat list \<Rightarrow> nat \<Rightarrow> nat list \<Rightarrow> bool" where
  "lengths_ok ts n ps \<longleftrightarrow> code_ok ts \<and> n \<le> length ps \<and> (\<forall>x \<in> set (take n ps). x < 16) \<and>
     (\<forall>k. 0 < k \<and> k < 16 \<longrightarrow> ts ! k = cnt k (take n ps))"

lemma lengths_ok_less: "lengths_ok ts n ps \<Longrightarrow> j < n \<Longrightarrow> ps ! j < 16"
  unfolding lengths_ok_def by (metis length_take min.absorb2 nth_mem nth_take)

lemma code_word_ok:
  assumes ok: "lengths_ok ts n ps" and j: "j < n" "0 < ps ! j"
  shows "is_code ts (ps ! j) (code_word ts ps j)" "rv (ps ! j) (code_word ts ps j) = code_value ts ps j"
    "code_word ts ps j < 2 ^ (ps ! j)" "code_value ts ps j < 2 ^ (ps ! j)"
proof -
  let ?l = "ps ! j"
  have l: "?l < 16" by (rule lengths_ok_less [OF ok j(1)])
  have "code_value ts ps j < code_lim ts ?l"
    using cnt_take_less [OF j(1) _ refl, of ps] ok l j(2) by (simp add: code_value_def code_lim_def lengths_ok_def)
  moreover have "code_lim ts ?l \<le> 2 ^ ?l" by (rule code_lim_le) (use ok l j in \<open>simp_all add: lengths_ok_def\<close>)
  ultimately have c: "code_value ts ps j < 2 ^ ?l" "code_value ts ps j < code_lim ts ?l" by simp_all
  have q: "rv ?l (code_word ts ps j) = code_value ts ps j" "code_word ts ps j < 2 ^ ?l"
    using rev_bits_code [OF c(1)] l by (simp_all add: code_word_def)
  then show "is_code ts ?l (code_word ts ps j)" "rv ?l (code_word ts ps j) = code_value ts ps j"
      "code_word ts ps j < 2 ^ ?l" "code_value ts ps j < 2 ^ ?l"
    using c l j(2) by (simp_all add: is_code_def code_value_def)
qed

text \<open>The codes of two symbols: neither is a prefix of the other.\<close>

lemma code_words_apart:
  assumes ok: "lengths_ok ts n ps" and ij: "i < n" "0 < ps ! i" "j < n" "0 < ps ! j" "j < i"
  shows "take_bit (min (ps ! j) (ps ! i)) (code_word ts ps j) \<noteq> take_bit (min (ps ! j) (ps ! i)) (code_word ts ps i)"
proof -
  have k: "code_ok ts" using ok by (simp add: lengths_ok_def)
  note ci = code_word_ok [OF ok ij(1,2)] and cj = code_word_ok [OF ok ij(3,4)]
  consider "ps ! j < ps ! i" | "ps ! i < ps ! j" | "ps ! i = ps ! j" by linarith
  then show ?thesis
  proof cases
    case 1
    then show ?thesis using codes_apart [OF k cj(1) ci(1)] by (simp add: min_def)
  next
    case 2
    then show ?thesis using codes_apart [OF k ci(1) cj(1)] by (auto simp: min_def)
  next
    case 3
    have "cnt (ps ! j) (take j ps) < cnt (ps ! j) (take i ps)"
      by (rule cnt_take_less [OF ij(5)]) (use ij ok in \<open>simp_all add: lengths_ok_def\<close>)
    then have "code_value ts ps j < code_value ts ps i" using 3 by (simp add: code_value_def)
    then have "rv (ps ! i) (code_word ts ps j) \<noteq> rv (ps ! i) (code_word ts ps i)" using ci(2) cj(2) 3 by simp
    then show ?thesis using rv_cong 3 by (metis min.idem)
  qed
qed

definition all_placed :: "nat list \<Rightarrow> nat list \<Rightarrow> nat \<Rightarrow> int list \<Rightarrow> int list \<Rightarrow> (nat \<times> nat) list \<Rightarrow> bool" where
  "all_placed ts ps n lu tr ns \<longleftrightarrow> (\<forall>j < n. 0 < ps ! j \<longrightarrow> placed lu tr ns (ps ! j) (code_word ts ps j) j)"

lemma all_placed_step:
  assumes ok: "lengths_ok ts n ps" and i: "i < n" "0 < ps ! i" and pl: "all_placed ts ps i lu tr ns"
    and t: "touches (ps ! i) (code_word ts ps i) lu tr ns lu' tr' ns'" and new: "placed lu' tr' ns' (ps ! i) (code_word ts ps i) i"
  shows "all_placed ts ps (i + 1) lu' tr' ns'"
  unfolding all_placed_def
proof (intro allI impI)
  fix j
  assume j: "j < i + 1" "0 < ps ! j"
  show "placed lu' tr' ns' (ps ! j) (code_word ts ps j) j"
  proof (cases "j = i")
    case True
    then show ?thesis using new by simp
  next
    case False
    then have ji: "j < i" "j < n" using j(1) i(1) by simp_all
    show ?thesis
      by (rule placed_kept [OF _ t code_word_ok(3) [OF ok ji(2) j(2)] code_words_apart [OF ok i ji(2) j(2) ji(1)]])
        (use pl ji j in \<open>simp add: all_placed_def\<close>)
  qed
qed

lemma insert_syms_inv:
  assumes ok: "lengths_ok ts n ps"
  shows "i + left = n \<Longrightarrow> tab_inv ts n lu tr ns \<Longrightarrow> length nc = 17 \<Longrightarrow>
    \<forall>k. 0 < k \<and> k < 16 \<longrightarrow> nc ! k = first_code ts k + cnt k (take i ps) \<Longrightarrow> all_placed ts ps i lu tr ns \<Longrightarrow>
    \<exists>lu' tr' ns'. insert_syms ps i left nc (- 1 - 2 * int (length ns)) lu tr = Some (lu', tr') \<and>
      tab_inv ts n lu' tr' ns' \<and> length tr' = length tr \<and> all_placed ts ps n lu' tr' ns'"
proof (induction left arbitrary: i nc lu tr ns)
  case 0
  then show ?case by auto
next
  case (Suc left)
  define s where "s = ps ! i"
  have i: "i < n" "i < length ps" using Suc.prems(1) ok by (simp_all add: lengths_ok_def)
  have s: "s < 16" unfolding s_def by (rule lengths_ok_less [OF ok i(1)])
  have rd: "nth_o ps i = Some s" using i by (simp add: nth_o_def s_def)
  show ?case
  proof (cases "s = 0")
    case True
    have "\<forall>k. 0 < k \<and> k < 16 \<longrightarrow> nc ! k = first_code ts k + cnt k (take (i + 1) ps)"
      using Suc.prems(4) take_Suc_cnt [OF i(2)] True by (simp add: s_def)
    moreover have "all_placed ts ps (i + 1) lu tr ns"
      using Suc.prems(5) True by (auto simp: all_placed_def s_def less_Suc_eq)
    ultimately show ?thesis using Suc.IH [of "i + 1" lu tr ns nc] Suc.prems True by (simp add: rd)
  next
    case False
    define c where "c = nc ! s"
    define q where "q = rev_bits s c 0"
    define nc' where "nc' = nc[s := c + 1]"
    have pos: "0 < ps ! i" using False by (simp add: s_def)
    have c: "c = code_value ts ps i" using Suc.prems(4) False s by (simp add: c_def code_value_def s_def)
    have qw: "q = code_word ts ps i" by (simp add: q_def c s_def code_word_def)
    note cw = code_word_ok [OF ok i(1) pos, folded s_def qw]
    have code: "is_code ts s q" "q < 2 ^ s" "c < 2 ^ s" using cw(1,3,4) by (simp_all add: c)
    have "(2 :: nat) ^ s \<le> 2 ^ 15" by (rule power_increasing) (use s in simp_all)
    then have u: "u32 (c + 1) = c + 1" using code(3) by (simp add: u32_def)
    have inv: "\<forall>k. 0 < k \<and> k < 16 \<longrightarrow> nc' ! k = first_code ts k + cnt k (take (i + 1) ps)"
      using Suc.prems(3,4) take_Suc_cnt [OF i(2)] c s by (simp add: s_def [symmetric] nc'_def nth_list_update code_value_def)
    have len: "length nc' = 17" using Suc.prems(3) by (simp add: nc'_def)
    have rdc: "nth_o nc s = Some c" using s Suc.prems(3) by (simp add: nth_o_def c_def)
    note next_placed = all_placed_step [OF ok i(1) pos Suc.prems(5), folded s_def qw]
    show ?thesis
    proof (cases "s \<le> 10")
      case True
      have "push_bit 9 s OR i = i OR push_bit 9 s" by (rule or.commute)
      also have "\<dots> = i + s * 2 ^ 9"
        by (rule or_disjoint_add) (use i(1) tab_invD(2) [OF Suc.prems(2)] in simp)
      finally have k: "int (push_bit 9 s OR i) = int (512 * s + i)" by simp
      have "q mod 2 ^ s = q" using code(2) by simp
      from fill_lookup_inv [OF Suc.prems(2) code(1) True i(1) this]
      obtain lu' where lu': "fill_lookup s (int (512 * s + i)) q lu = Some lu'" "tab_inv ts n lu' tr ns"
        "\<forall>j < 1024. lu' ! j = (if q \<le> j \<and> j mod 2 ^ s = q then int (512 * s + i) else lu ! j)" by blast
      note pl = next_placed [OF fill_lookup_touches [OF lu'(3) True code(2)]]
      have "insert_syms ps i (Suc left) nc (- 1 - 2 * int (length ns)) lu tr =
          insert_syms ps (i + 1) left nc' (- 1 - 2 * int (length ns)) lu' tr"
        by (simp only: insert_syms.simps rd Option.bind.bind_lunit False if_False rdc Let_def u nc'_def [symmetric]
          q_def [symmetric] True if_True k lu'(1))
      then show ?thesis using Suc.IH [OF _ lu'(2) len inv pl] Suc.prems(1) by simp
    next
      case long: False
      obtain lu' tr' ns' where ins: "insert_long s i q (- 1 - 2 * int (length ns)) lu tr = Some (- 1 - 2 * int (length ns'), lu', tr')"
        and inv': "tab_inv ts n lu' tr' ns'" and len': "length tr' = length tr"
        and t: "touches s q lu tr ns lu' tr' ns'" "placed lu' tr' ns' s q i"
        using insert_long_inv [OF _ code(1) _ Suc.prems(2) i(1)] ok long by (auto simp: lengths_ok_def)
      have "insert_syms ps i (Suc left) nc (- 1 - 2 * int (length ns)) lu tr =
          insert_syms ps (i + 1) left nc' (- 1 - 2 * int (length ns')) lu' tr'"
        by (simp only: insert_syms.simps rd Option.bind.bind_lunit False if_False rdc Let_def u nc'_def [symmetric]
          q_def [symmetric] long ins prod.case)
      then show ?thesis using Suc.IH [OF _ inv' len inv next_placed [OF t]] Suc.prems(1) len' by simp
    qed
  qed
qed

end
