(* ===== verification/HuffDecode.thy ===== *)
theory HuffDecode
  imports HuffBuild
begin

unbundle bit_operations_syntax

text \<open>
  Decoding with the tables: every bit sequence leads to a symbol, and one that begins with the canonical code
  of a symbol leads to that symbol. The code lengths that are accepted are those with Kraft sum one, and those
  of at most one symbol.
\<close>

section \<open>Decoding\<close>

lemma slot_leaf: "slot_ok ts n ns p x \<Longrightarrow> 0 \<le> x \<Longrightarrow> leaf_ok ts n p x"
  by (simp add: slot_ok_def)

lemma walk_total:
  assumes inv: "tab_inv ts n lu tr ns"
  shows "k < length ns \<Longrightarrow> fst (ns ! k) = d \<Longrightarrow>
    \<exists>t len. tree_walk tr bits (- 1 - 2 * int k) d = Some (t, len) \<and> 0 \<le> t \<and> nat t < n \<and> 0 < len \<and> len \<le> 15 \<and>
      (\<forall>m. d < m \<longrightarrow> (\<exists>t'. fill_walk tr bits m (- 1 - 2 * int k) d = Some t' \<and> (0 \<le> t' \<longrightarrow> len \<le> m)))"
proof (induction "14 - d" arbitrary: d k rule: less_induct)
  case less
  define b where "b = drop_bit d bits AND 1"
  define x where "x = tr ! (2 * k + b)"
  have b: "b < 2" by (simp add: b_def and_one_eq)
  have node: "ns ! k \<in> inner_set ts" by (rule node_path [OF inv less.prems(1)])
  have d: "10 \<le> d" "d \<le> 14" using inner_setD(1,2) [OF node] less.prems(2) by simp_all
  have idx: "nat (- (- 1 - 2 * int k) - 1) + b = 2 * k + b" by simp
  have rd: "nth_o tr (2 * k + b) = Some x"
    using nodes_fit [OF inv] less.prems(1) b by (simp add: nth_o_def x_def)
  have slot: "slot_ok ts n ns (child (ns ! k) b) x" unfolding x_def by (rule tab_invD(9) [OF inv less.prems(1) b])
  have f: "fst (child (ns ! k) b) = Suc d" using less.prems(2) by (simp add: child_def)
  have d64: "\<not> 64 \<le> d" using d by simp
  have walk: "tree_walk tr bits (- 1 - 2 * int k) d = (if x < 0 then tree_walk tr bits x (d + 1) else Some (x, d + 1))"
    by (subst tree_walk.simps) (simp only: b_def [symmetric] idx rd Option.bind.bind_lunit d64 if_False Let_def)
  have fill: "fill_walk tr bits m (- 1 - 2 * int k) d =
      (if x < 0 \<and> d + 2 \<le> m then fill_walk tr bits m x (d + 1) else Some x)" for m
    by (subst fill_walk.simps) (simp only: b_def [symmetric] idx rd Option.bind.bind_lunit d64 if_False Let_def)
  show ?case
  proof (cases "x < 0")
    case True
    then obtain j where j: "j < length ns" "ns ! j = child (ns ! k) b" "x = - 1 - 2 * int j"
      using slot by (auto simp: slot_ok_def)
    have "Suc d \<le> 14" using inner_setD(2) [OF node_path [OF inv j(1)]] j(2) f by simp
    then have "14 - Suc d < 14 - d" by simp
    from less.hyps [OF this j(1)] j(2) f obtain t len where t: "tree_walk tr bits x (d + 1) = Some (t, len)" "0 \<le> t" "nat t < n"
        "0 < len" "len \<le> 15"
      and m: "\<forall>m. Suc d < m \<longrightarrow> (\<exists>t'. fill_walk tr bits m x (d + 1) = Some t' \<and> (0 \<le> t' \<longrightarrow> len \<le> m))"
      by (auto simp: j(3))
    have "\<exists>t'. fill_walk tr bits m (- 1 - 2 * int k) d = Some t' \<and> (0 \<le> t' \<longrightarrow> len \<le> m)" for m
      using m True by (cases "d + 2 \<le> m") (simp_all add: fill)
    then show ?thesis using t True by (simp add: walk)
  next
    case False
    then have "nat x < n" using slot_leaf [OF slot] f d by (simp add: leaf_ok_def)
    then show ?thesis using False d by (simp add: walk fill)
  qed
qed

text \<open>What decoding relies on: every bit sequence leads to a symbol, within fifteen bits.\<close>

definition table_ok :: "int list \<Rightarrow> int list \<Rightarrow> nat \<Rightarrow> bool" where
  "table_ok lu tr n \<longleftrightarrow> length lu = 1024 \<and>
     (\<forall>bits. \<exists>t len. huff_lookup lu tr bits = Some (t, len) \<and> 0 \<le> t \<and> len \<le> 15 \<and>
        (if lu ! (bits AND 1023) < 0 then nat t < n \<and> 0 < len else nat t mod 512 < n \<and> (len = 0 \<longrightarrow> t = 0)) \<and>
        (\<forall>m. \<exists>f. fill_test lu tr bits m = Some f \<and> (f \<longrightarrow> len \<le> m)))"

lemma tab_inv_table_ok:
  assumes inv: "tab_inv ts n lu tr ns"
  shows "table_ok lu tr n"
proof -
  have "\<exists>t len. huff_lookup lu tr bits = Some (t, len) \<and> 0 \<le> t \<and> len \<le> 15 \<and>
        (if lu ! (bits AND 1023) < 0 then nat t < n \<and> 0 < len else nat t mod 512 < n \<and> (len = 0 \<longrightarrow> t = 0)) \<and>
        (\<forall>m. \<exists>f. fill_test lu tr bits m = Some f \<and> (f \<longrightarrow> len \<le> m))" for bits
  proof -
    define i where "i = bits AND 1023"
    have i: "bits AND (1024 - 1) = i" by (simp add: i_def)
    have "i = take_bit 10 bits" by (simp add: i_def take_bit_eq_mask mask_eq_exp_minus_1)
    then have i1024: "i < 1024" using take_bit_nat_less_exp [of 10 bits] by simp
    define x where "x = lu ! i"
    have rd: "nth_o lu i = Some x" using i1024 tab_invD(3) [OF inv] by (simp add: nth_o_def x_def)
    have slot: "slot_ok ts n ns (10, i) x" unfolding x_def by (rule tab_invD(8) [OF inv i1024])
    show ?thesis
    proof (cases "x < 0")
      case True
      then obtain k where k: "k < length ns" "ns ! k = (10, i)" "x = - 1 - 2 * int k" using slot by (auto simp: slot_ok_def)
      from walk_total [OF inv k(1), of 10 bits] k(2) obtain t len where t: "tree_walk tr bits x 10 = Some (t, len)"
          "0 \<le> t" "nat t < n" "0 < len" "len \<le> 15"
        and m: "\<forall>m. 10 < m \<longrightarrow> (\<exists>t'. fill_walk tr bits m x 10 = Some t' \<and> (0 \<le> t' \<longrightarrow> len \<le> m))"
        by (auto simp: k(3))
      have "huff_lookup lu tr bits = Some (t, len)"
        using True t(1) by (simp only: huff_lookup_def i rd Option.bind.bind_lunit) simp
      moreover have "\<exists>f. fill_test lu tr bits m = Some f \<and> (f \<longrightarrow> len \<le> m)" for m
      proof (cases "10 < m")
        case True
        then obtain t' where "fill_walk tr bits m x 10 = Some t' \<and> (0 \<le> t' \<longrightarrow> len \<le> m)" using m by blast
        then show ?thesis using True \<open>x < 0\<close> by (simp only: fill_test_def i rd Option.bind.bind_lunit) simp
      next
        case False
        then show ?thesis using \<open>x < 0\<close> by (simp only: fill_test_def i rd Option.bind.bind_lunit) auto
      qed
      ultimately show ?thesis using t True by (simp add: i_def [symmetric] x_def [symmetric])
    next
      case False
      then have leaf: "x = 0 \<or> nat x mod 512 < n \<and> 1 \<le> nat x div 512 \<and> nat x div 512 \<le> 10"
        using slot_leaf [OF slot] by (simp add: leaf_ok_def)
      have "huff_lookup lu tr bits = Some (x, nat x div 512)"
        using False by (simp only: huff_lookup_def i rd Option.bind.bind_lunit) simp
      moreover have "\<exists>f. fill_test lu tr bits m = Some f \<and> (f \<longrightarrow> nat x div 512 \<le> m)" for m
        using False by (simp only: fill_test_def i rd Option.bind.bind_lunit) (simp add: Let_def)
      moreover have "nat x div 512 \<le> 15 \<and> nat x mod 512 < n \<and> (nat x div 512 = 0 \<longrightarrow> x = 0)"
        using leaf
      proof
        assume "x = 0"
        then show ?thesis using tab_invD(1) [OF inv] by simp
      next
        assume "nat x mod 512 < n \<and> 1 \<le> nat x div 512 \<and> nat x div 512 \<le> 10"
        moreover from this have "nat x div 512 \<noteq> 0" by linarith
        ultimately show ?thesis by linarith
      qed
      moreover have neg: "\<not> lu ! (bits AND 1023) < 0" using False by (simp only: i_def [symmetric] x_def [symmetric] not_False_eq_True)
      moreover have "0 \<le> x" using False by simp
      ultimately show ?thesis unfolding if_not_P [OF neg] by (intro exI conjI) blast+
    qed
  qed
  then show ?thesis using tab_invD(3) [OF inv] unfolding table_ok_def by blast
qed

section \<open>The right symbol\<close>

text \<open>Along the bits of a node's path the walk reaches the node.\<close>

lemma path_prefix:
  assumes inv: "tab_inv ts n lu tr ns"
  shows "(d + e, take_bit (d + e) bits) \<in> set ns \<Longrightarrow> 10 \<le> d \<Longrightarrow> (d, take_bit d bits) \<in> set ns"
proof (induction e)
  case (Suc e)
  have "(d + e, take_bit (d + e) (take_bit (Suc (d + e)) bits)) \<in> set ns"
    by (rule tab_invD(7) [OF inv]) (use Suc.prems in simp_all)
  then show ?case using Suc.IH Suc.prems(2) by (simp add: take_bit_take_bit)
qed simp

lemma walk_to_node:
  assumes inv: "tab_inv ts n lu tr ns" and k: "k < length ns" "ns ! k = (D, take_bit D bits)"
  shows "k' < length ns \<Longrightarrow> ns ! k' = (d, take_bit d bits) \<Longrightarrow> d \<le> D \<Longrightarrow>
    tree_walk tr bits (- 1 - 2 * int k') d = tree_walk tr bits (- 1 - 2 * int k) D \<and>
    (D < m \<longrightarrow> fill_walk tr bits m (- 1 - 2 * int k') d = fill_walk tr bits m (- 1 - 2 * int k) D)"
proof (induction "D - d" arbitrary: d k' rule: less_induct)
  case less
  show ?case
  proof (cases "d = D")
    case True
    then have "k' = k" using less.prems(1,2) k nth_eq_iff_index_eq [OF tab_invD(5) [OF inv]] by metis
    then show ?thesis using True by simp
  next
    case False
    define b where "b = drop_bit d bits AND 1"
    define x where "x = tr ! (2 * k' + b)"
    have b: "b < 2" by (simp add: b_def and_one_eq)
    have d: "10 \<le> d" "d \<le> 14" using inner_setD(1,2) [OF node_path [OF inv less.prems(1)]] less.prems(2) by simp_all
    have ch: "child (ns ! k') b = (Suc d, take_bit (Suc d) bits)" using child_take_bit less.prems(2) by (simp add: b_def)
    have "(Suc d, take_bit (Suc d) bits) \<in> set ns"
      by (rule path_prefix [OF inv, of _ "D - Suc d"]) (use False less.prems(3) d k nth_mem [OF k(1)] in simp_all)
    moreover have "slot_ok ts n ns (child (ns ! k') b) x" unfolding x_def by (rule tab_invD(9) [OF inv less.prems(1) b])
    ultimately obtain j where j: "j < length ns" "ns ! j = (Suc d, take_bit (Suc d) bits)" "x = - 1 - 2 * int j"
      unfolding ch by (auto simp: slot_ok_def split: if_splits)
    have idx: "nat (- (- 1 - 2 * int k') - 1) + b = 2 * k' + b" by simp
    have rd: "nth_o tr (2 * k' + b) = Some x"
      using nodes_fit [OF inv] less.prems(1) b by (simp add: nth_o_def x_def)
    have d64: "\<not> 64 \<le> d" using d by simp
    then have "tree_walk tr bits (- 1 - 2 * int k') d = tree_walk tr bits x (Suc d)"
      using j(3) by (subst tree_walk.simps) (simp only: b_def [symmetric] idx rd Option.bind.bind_lunit if_False Let_def, simp)
    moreover have "fill_walk tr bits m (- 1 - 2 * int k') d = fill_walk tr bits m x (Suc d)" if "D < m"
    proof -
      have "x < 0 \<and> d + 2 \<le> m" using j(3) that False less.prems(3) by simp
      then show ?thesis
        using d64 by (subst fill_walk.simps) (simp only: b_def [symmetric] idx rd Option.bind.bind_lunit if_False Let_def, simp)
    qed
    moreover have "tree_walk tr bits x (Suc d) = tree_walk tr bits (- 1 - 2 * int k) D \<and>
        (D < m \<longrightarrow> fill_walk tr bits m x (Suc d) = fill_walk tr bits m (- 1 - 2 * int k) D)"
      unfolding j(3) by (rule less.hyps [OF _ j(1,2)]) (use False less.prems(3) in simp_all)
    ultimately show ?thesis by simp
  qed
qed

text \<open>The entry of a symbol: with its length in the look-up table, alone in the tree.\<close>

definition entry :: "nat \<Rightarrow> nat \<Rightarrow> int" where
  "entry l sy = (if l \<le> 10 then int (512 * l + sy) else int sy)"

lemma placed_lookup:
  assumes inv: "tab_inv ts n lu tr ns" and p: "placed lu tr ns l q sy" and sy: "sy < n" and q: "take_bit l bits = q"
  shows "huff_lookup lu tr bits = Some (entry l sy, l) \<and> (0 < l \<longrightarrow> l \<le> m \<longrightarrow> fill_test lu tr bits m = Some True)"
proof -
  define i where "i = take_bit 10 bits"
  have idx: "bits AND (1024 - 1) = i" by (simp add: i_def take_bit_eq_mask mask_eq_exp_minus_1)
  have i: "i < 1024" using take_bit_nat_less_exp [of 10 bits] by (simp add: i_def)
  have rd: "nth_o lu i = Some (lu ! i)" using i tab_invD(3) [OF inv] by (simp add: nth_o_def)
  note look = huff_lookup_def fill_test_def idx rd Option.bind.bind_lunit
  show ?thesis
  proof (cases "l \<le> 10")
    case True
    have "take_bit l i = q" using q True by (simp add: i_def take_bit_take_bit min.absorb1)
    then have v: "lu ! i = int (512 * l + sy)" using p True i by (simp add: placed_def)
    have "sy < 512" using sy tab_invD(2) [OF inv] by simp
    then have "nat (int (512 * l + sy)) div 2 ^ 9 = l" unfolding nat_int by simp
    then show ?thesis using True unfolding look v by (simp add: entry_def Let_def)
  next
    case False
    obtain k b where k: "k < length ns" "b < 2" "child (ns ! k) b = (l, q)" "tr ! (2 * k + b) = int sy"
      using p False by (auto simp: placed_def)
    have node: "ns ! k \<in> inner_set ts" by (rule node_path [OF inv k(1)])
    have fl: "fst (ns ! k) = l - 1" using k(3) False by (auto simp: child_def)
    have l: "10 \<le> l - 1" "l - 1 \<le> 14" "Suc (l - 1) = l" using inner_setD(1,2) [OF node] fl False by simp_all
    have "child (l - 1, take_bit (l - 1) bits) (drop_bit (l - 1) bits AND 1) = child (ns ! k) b"
      using child_take_bit [of "l - 1" bits] k(3) q l(3) by simp
    then have kb: "ns ! k = (l - 1, take_bit (l - 1) bits) \<and> b = drop_bit (l - 1) bits AND 1"
      using child_inj [of "(l - 1, take_bit (l - 1) bits)" "drop_bit (l - 1) bits AND 1" "ns ! k" b] inner_setD(3) [OF node] k(2) fl
      by (simp add: and_one_eq)
    have "(10, i) \<in> set ns"
      unfolding i_def by (rule path_prefix [OF inv, of _ "l - 1 - 10"]) (use kb nth_mem [OF k(1)] l in simp_all)
    then obtain j where j: "j < length ns" "ns ! j = (10, take_bit 10 bits)" "lu ! i = - 1 - 2 * int j"
      using tab_invD(8) [OF inv i] by (auto simp: slot_ok_def i_def split: if_splits)
    have idx': "nat (- (- 1 - 2 * int k) - 1) + b = 2 * k + b" by simp
    have rd': "nth_o tr (2 * k + b) = Some (int sy)"
      using nodes_fit [OF inv] k by (simp add: nth_o_def)
    have walk: "tree_walk tr bits (- 1 - 2 * int j) 10 = tree_walk tr bits (- 1 - 2 * int k) (l - 1) \<and>
        (l - 1 < m \<longrightarrow> fill_walk tr bits m (- 1 - 2 * int j) 10 = fill_walk tr bits m (- 1 - 2 * int k) (l - 1))"
      by (rule walk_to_node [OF inv k(1) _ j(1,2) l(1)]) (use kb in simp)
    have l64: "\<not> 64 \<le> l - 1" using l by simp
    have "tree_walk tr bits (- 1 - 2 * int k) (l - 1) = Some (int sy, l)"
      using l(3) l64 kb by (subst tree_walk.simps) (simp only: conjunct2 [OF kb, symmetric] idx' rd' Option.bind.bind_lunit if_False Let_def, simp)
    moreover have "fill_walk tr bits m (- 1 - 2 * int k) (l - 1) = Some (int sy)"
      using l64 kb by (subst fill_walk.simps) (simp only: conjunct2 [OF kb, symmetric] idx' rd' Option.bind.bind_lunit if_False Let_def, simp)
    ultimately show ?thesis using walk False unfolding look j(3) by (simp add: entry_def)
  qed
qed

section \<open>The code lengths\<close>

definition counts :: "nat \<Rightarrow> nat list \<Rightarrow> nat list" where
  "counts n cs = map (\<lambda>k. cnt k (take n cs)) [0..<16]"

definition kraft_sum :: "nat \<Rightarrow> nat list \<Rightarrow> nat" where
  "kraft_sum n cs = (\<Sum>x \<leftarrow> take n cs. if x = 0 then 0 else 2 ^ (16 - x))"

definition used_syms :: "nat \<Rightarrow> nat list \<Rightarrow> nat" where
  "used_syms n cs = length (filter (\<lambda>x. x \<noteq> 0) (take n cs))"

lemma sum_cnt: "\<forall>x \<in> set xs. x < m \<Longrightarrow> (\<Sum>k = 1..<m. cnt k xs * f k) = (\<Sum>x \<leftarrow> xs. if x = 0 then 0 else f x)" for f :: "nat \<Rightarrow> nat"
proof (induction xs)
  case (Cons x xs)
  have "(\<Sum>k = 1..<m. cnt k (x # xs) * f k) = (\<Sum>k = 1..<m. if x = k then f k else 0) + (\<Sum>k = 1..<m. cnt k xs * f k)"
    unfolding sum.distrib [symmetric] by (rule sum.cong) auto
  also have "(\<Sum>k = 1..<m. if x = k then f k else 0) = (if x = 0 then 0 else f x)"
    using Cons.prems by (simp add: sum.delta)
  finally show ?case using Cons by simp
qed simp

lemma length_filter_sum: "length (filter (\<lambda>x. x \<noteq> 0) xs) = (\<Sum>x \<leftarrow> xs. if x = 0 then 0 else (1 :: nat))" for xs :: "nat list"
  by (induction xs) auto

lemma first_code_sum: "first_code ts (Suc i) = (\<Sum>k = 1..<Suc i. ts ! k * 2 ^ (Suc i - k))"
proof (induction i)
  case (Suc i)
  have "first_code ts (Suc (Suc i)) = 2 * (first_code ts (Suc i) + ts ! Suc i)"
    using first_code_Suc [of "Suc i" ts] by (simp add: code_lim_def)
  also have "\<dots> = (\<Sum>k = 1..<Suc i. ts ! k * (2 * 2 ^ (Suc i - k))) + 2 * ts ! Suc i"
    unfolding Suc.IH by (simp add: sum_distrib_left ac_simps)
  also have "(\<Sum>k = 1..<Suc i. ts ! k * (2 * 2 ^ (Suc i - k))) = (\<Sum>k = 1..<Suc i. ts ! k * 2 ^ (Suc (Suc i) - k))"
    by (rule sum.cong) (auto simp: Suc_diff_le)
  finally show ?case by simp
qed simp

lemma counts_sums:
  assumes "\<forall>x \<in> set (take n cs). x < 16"
  shows "first_code (counts n cs) 16 = kraft_sum n cs" "used_upto (counts n cs) 16 = used_syms n cs"
proof -
  have c: "counts n cs ! k = cnt k (take n cs)" if "k < 16" for k using that by (simp add: counts_def)
  have "first_code (counts n cs) 16 = (\<Sum>k = 1..<16. counts n cs ! k * 2 ^ (16 - k))"
    using first_code_sum [of "counts n cs" 15] by simp
  also have "\<dots> = (\<Sum>k = 1..<16. cnt k (take n cs) * 2 ^ (16 - k))" by (rule sum.cong) (use c in auto)
  also have "\<dots> = kraft_sum n cs" using sum_cnt [OF assms] by (simp add: kraft_sum_def)
  finally show "first_code (counts n cs) 16 = kraft_sum n cs" .
  have "used_upto (counts n cs) 16 = (\<Sum>k = 1..<16. cnt k (take n cs) * 1)"
    unfolding used_upto_def by (rule sum.cong) (use c in auto)
  also have "\<dots> = (\<Sum>x \<leftarrow> take n cs. if x = 0 then 0 else 1)" by (rule sum_cnt [OF assms])
  also have "\<dots> = used_syms n cs" unfolding used_syms_def by (rule length_filter_sum [symmetric])
  finally show "used_upto (counts n cs) 16 = used_syms n cs" .
qed

text \<open>The code lengths of a complete code: every bit sequence begins with the code of some symbol.\<close>

lemma nth_with_count: "m < cnt k xs \<Longrightarrow> \<exists>j < length xs. xs ! j = k \<and> cnt k (take j xs) = m"
proof (induction xs arbitrary: m)
  case (Cons x xs)
  show ?case
  proof (cases "x = k \<and> m = 0")
    case True
    then show ?thesis by (intro exI [of _ 0]) simp
  next
    case False
    then have "m - (if x = k then 1 else 0) < cnt k xs" using Cons.prems by (auto split: if_splits)
    then obtain j where "j < length xs" "xs ! j = k" "cnt k (take j xs) = m - (if x = k then 1 else 0)" using Cons.IH by blast
    then show ?thesis using False by (intro exI [of _ "Suc j"]) auto
  qed
qed simp

lemma complete_code:
  assumes cs: "\<forall>x \<in> set (take n cs). x < 16" "n \<le> length cs" and full: "kraft_sum n cs = 2 ^ 16"
  shows "\<exists>j < n. 0 < cs ! j \<and> rv (cs ! j) bits = code_value (counts n cs) cs j"
proof -
  define ts where "ts = counts n cs"
  define P where "P l \<longleftrightarrow> 0 < l \<and> rv l bits < code_lim ts l" for l
  have "code_lim ts 15 = 2 ^ 15" using first_code_16 [of ts] counts_sums(1) [OF cs(1)] full by (simp add: ts_def)
  then have P15: "P 15" using rv_less [of 15 bits] by (simp add: P_def)
  define l where "l = (LEAST l. P l)"
  have l: "P l" "l \<le> 15" unfolding l_def by (rule LeastI [of P, OF P15], rule Least_le [of P, OF P15])
  have "first_code ts l \<le> rv l bits"
  proof (cases "l = 1")
    case False
    then obtain m where m: "l = Suc m" "0 < m" using l(1) by (cases l) (auto simp: P_def)
    have "\<not> P m" using not_less_Least [of m P] m(1) by (simp add: l_def)
    then have "2 * code_lim ts m \<le> 2 * rv m bits" using m(2) by (simp add: P_def)
    then show ?thesis using first_code_Suc [OF m(2), of ts] by (simp add: m(1))
  qed simp
  moreover have "rv l bits < first_code ts l + ts ! l" using l(1) by (simp add: P_def code_lim_def)
  moreover have "ts ! l = cnt l (take n cs)" using l(2) by (simp add: ts_def counts_def)
  ultimately have "rv l bits - first_code ts l < cnt l (take n cs)" by linarith
  then obtain j where j: "j < length (take n cs)" "take n cs ! j = l" "cnt l (take j (take n cs)) = rv l bits - first_code ts l"
    using nth_with_count by blast
  then have "cs ! j = l" "cnt l (take j cs) = rv l bits - first_code ts l" "j < n" by (simp_all add: min.absorb1)
  then show ?thesis
    using \<open>first_code ts l \<le> rv l bits\<close> l(1) by (auto simp: code_value_def ts_def [symmetric] P_def)
qed

section \<open>One turn of the table loop\<close>

lemma sum_cnt_le: "finite S \<Longrightarrow> (\<Sum>j \<in> S. cnt j xs) \<le> length xs"
proof (induction xs)
  case (Cons x xs)
  have "(\<Sum>j \<in> S. cnt j (x # xs)) = (\<Sum>j \<in> S. if x = j then 1 else 0) + (\<Sum>j \<in> S. cnt j xs)"
    by (simp add: sum.distrib)
  also have "(\<Sum>j \<in> S. if x = j then 1 else 0) \<le> (1 :: nat)" using Cons.prems by (simp add: sum.delta)
  finally show ?case using Cons by simp
qed simp

text \<open>The lengths of the arrays by type.\<close>

definition syms_max :: "nat \<Rightarrow> nat" where
  "syms_max type = (if type = 0 then 288 else if type = 1 then 32 else 19)"

lemma shape_arrays:
  assumes "decomp_shape r" "type < 3"
  shows "\<exists>cs. code_size_of r type = Some cs \<and> length cs = syms_max type"
    "\<exists>tr. tree_of r type = Some tr \<and> length tr = 2 * syms_max type"
proof -
  have "type = 0 \<or> type = 1 \<or> type = 2" using assms(2) by linarith
  then show "\<exists>cs. code_size_of r type = Some cs \<and> length cs = syms_max type"
    "\<exists>tr. tree_of r type = Some tr \<and> length tr = 2 * syms_max type"
    using assms(1) by (auto simp: decomp_shape_def code_size_of_def tree_of_def syms_max_def)
qed

lemma cleared_tree:
  assumes "tree_of r (m_type r) = Some tr" "m_type r < 3"
  shows "tree_of (tinfl_clear_tree (r\<lparr>m_look_up := l\<rparr>)) (m_type r) = Some (replicate (length tr) 0)"
    "m_look_up (tinfl_clear_tree (r\<lparr>m_look_up := l\<rparr>)) = l"
    "set_tree ((tinfl_clear_tree (r\<lparr>m_look_up := l\<rparr>))\<lparr>m_look_up := l'\<rparr>) (m_type r) tr' =
      set_tree (r\<lparr>m_look_up := l'\<rparr>) (m_type r) tr'"
proof -
  have "m_type r = 0 \<or> m_type r = 1 \<or> m_type r = 2" using assms(2) by linarith
  then show "tree_of (tinfl_clear_tree (r\<lparr>m_look_up := l\<rparr>)) (m_type r) = Some (replicate (length tr) 0)"
    "m_look_up (tinfl_clear_tree (r\<lparr>m_look_up := l\<rparr>)) = l"
    "set_tree ((tinfl_clear_tree (r\<lparr>m_look_up := l\<rparr>))\<lparr>m_look_up := l'\<rparr>) (m_type r) tr' =
      set_tree (r\<lparr>m_look_up := l'\<rparr>) (m_type r) tr'"
    using assms(1) by (auto simp: tree_of_def tinfl_clear_tree_def set_tree_def)
qed

text \<open>
  What the tables decode: the bits that begin with the code of a symbol, to its entry and the code's length. The
  test for missing bits accepts as soon as the code is there.
\<close>

definition table_decodes :: "int list \<Rightarrow> int list \<Rightarrow> nat \<Rightarrow> nat list \<Rightarrow> bool" where
  "table_decodes lu tr n cs \<longleftrightarrow> (\<forall>j < n. \<forall>bits. 0 < cs ! j \<longrightarrow> rv (cs ! j) bits = code_value (counts n cs) cs j \<longrightarrow>
     huff_lookup lu tr bits = Some (entry (cs ! j) j, cs ! j) \<and> (\<forall>m \<ge> cs ! j. fill_test lu tr bits m = Some True))"

lemma all_placed_decodes:
  assumes ok: "lengths_ok (counts n cs) n cs" and inv: "tab_inv (counts n cs) n lu tr ns" and pl: "all_placed (counts n cs) cs n lu tr ns"
  shows "table_decodes lu tr n cs"
  unfolding table_decodes_def
proof (intro allI impI conjI)
  fix j bits
  assume j: "j < n" "0 < cs ! j" "rv (cs ! j) bits = code_value (counts n cs) cs j"
  note cw = code_word_ok [OF ok j(1,2)]
  have "take_bit (cs ! j) bits = take_bit (cs ! j) (code_word (counts n cs) cs j)" by (rule rv_inj) (simp add: cw(2) j(3))
  also have "\<dots> = code_word (counts n cs) cs j" using cw(3) by (simp add: take_bit_nat_eq_self)
  finally have q: "take_bit (cs ! j) bits = code_word (counts n cs) cs j" .
  have "placed lu tr ns (cs ! j) (code_word (counts n cs) cs j) j" using pl j by (simp add: all_placed_def)
  from placed_lookup [OF inv this j(1) q] j(2)
  show "huff_lookup lu tr bits = Some (entry (cs ! j) j, cs ! j)" "\<And>m. cs ! j \<le> m \<Longrightarrow> fill_test lu tr bits m = Some True"
    by simp_all
qed

text \<open>The lengths that are refused: more than one symbol, and not a complete code.\<close>

definition bad_lengths :: "nat \<Rightarrow> nat list \<Rightarrow> bool" where
  "bad_lengths n cs \<longleftrightarrow> kraft_sum n cs \<noteq> 2 ^ 16 \<and> 1 < used_syms n cs"

lemma build_table_correct:
  assumes shape: "decomp_shape r" and type: "m_type r < 3" and n: "m_table_sizes r ! m_type r = n" "0 < n" "n \<le> syms_max (m_type r)"
    and cs: "code_size_of r (m_type r) = Some cs" "\<forall>x \<in> set (take n cs). x < 16"
  shows "if bad_lengths n cs then build_table r = Some None
    else \<exists>lu tr. build_table r = Some (Some (set_tree (r\<lparr>m_look_up := (m_look_up r)[m_type r := lu]\<rparr>) (m_type r) tr)) \<and>
      table_ok lu tr n \<and> table_decodes lu tr n cs \<and> length tr = 2 * syms_max (m_type r)"
proof -
  define type where "type = m_type r"
  obtain tr0 where tr0: "tree_of r type = Some tr0" "length tr0 = 2 * syms_max type"
    using shape_arrays(2) [OF shape type] by (auto simp: type_def)
  have lcs: "length cs = syms_max type" using shape_arrays(1) [OF shape type] cs(1) by (simp add: type_def)
  have t3: "type < 3" using type by (simp add: type_def)
  have n288: "n \<le> 288" using n(3) by (simp add: syms_max_def split: if_splits)
  obtain ts where ts: "count_syms cs 0 n (replicate 16 0) = Some ts" "length ts = 16"
      "\<forall>k < 16. ts ! k = cnt k (take n cs)"
    using count_syms_eq [of 0 n cs "replicate 16 0"] cs(2) n(3) lcs by (auto simp: type_def)
  have tsc: "ts = counts n cs" using ts(2,3) by (simp add: counts_def list_eq_iff_nth_eq)
  have bad: "bad_lengths n cs \<longleftrightarrow> first_code ts 16 \<noteq> 65536 \<and> 1 < used_upto ts 16"
    using counts_sums [OF cs(2)] by (simp add: bad_lengths_def tsc)
  have used: "used_upto ts 16 \<le> n"
  proof -
    have "used_upto ts 16 = (\<Sum>j = 1..<16. cnt j (take n cs))"
      unfolding used_upto_def by (rule sum.cong) (use ts(3) in auto)
    also have "\<dots> \<le> length (take n cs)" by (rule sum_cnt_le) simp
    finally show ?thesis by simp
  qed
  have "\<exists>nc. code_starts ts 1 15 0 0 (replicate 17 0) = Some (used_upto ts 16, first_code ts 16, nc) \<and>
      length nc = 17 \<and> (\<forall>j. 1 < j \<and> j \<le> 16 \<longrightarrow> nc ! j = first_code ts j) \<and> (\<forall>j \<le> 1. nc ! j = replicate 17 0 ! j)"
    by (rule code_starts_eq) (use ts(2) used n288 in \<open>simp_all add: used_upto_def\<close>)
  then obtain nc where nc: "code_starts ts 1 15 0 0 (replicate 17 0) = Some (used_upto ts 16, first_code ts 16, nc)"
      "length nc = 17" "\<forall>j. 1 < j \<and> j \<le> 16 \<longrightarrow> nc ! j = first_code ts j" "nc ! 1 = 0" by auto
  have look: "length (m_look_up r) = 3" "length (m_look_up r ! type) = 1024"
    using shape t3 by (auto simp: decomp_shape_def)
  define zero where "zero = (m_look_up r)[type := replicate 1024 (0 :: int)]"
  have zero: "nth_o zero type = Some (replicate 1024 0)" using look t3 by (simp add: zero_def nth_o_def)
  have rds: "nth_o (m_table_sizes r) type = Some n" "nth_o (m_look_up r) type = Some (m_look_up r ! type)"
    using shape t3 n(1) look by (simp_all add: decomp_shape_def nth_o_def type_def)
  note clr = cleared_tree [OF tr0(1) [unfolded type_def] type, folded type_def, where l = zero]
  have build: "build_table r = (if first_code ts 16 \<noteq> 65536 \<and> 1 < used_upto ts 16 then Some None
      else do {
        (pLookUp, pTree) \<leftarrow> insert_syms cs 0 n nc (- 1) (replicate 1024 0) (replicate (length tr0) 0);
        Some (Some (set_tree (r\<lparr>m_look_up := zero[type := pLookUp]\<rparr>) type pTree))
      })"
    by (simp only: build_table_def Let_def type_def [symmetric] cs(1) [folded type_def] rds Option.bind.bind_lunit ts(1) nc(1)
      prod.case look(2) zero_def [symmetric] clr zero)
  show ?thesis
  proof (cases "first_code ts 16 \<noteq> 65536 \<and> 1 < used_upto ts 16")
    case True
    then show ?thesis by (simp add: build bad)
  next
    case False
    then have ok: "code_ok ts" using ts(2) by (auto simp: code_ok_def)
    have card: "card (inner_set ts) \<le> syms_max type"
    proof (cases "first_code ts 16 = 65536")
      case True
      show ?thesis using card_inner_set_complete [OF ok True] used n(3) by (simp add: type_def)
    next
      case single: False
      have "5 \<le> syms_max type" by (simp add: syms_max_def)
      then show ?thesis using card_inner_set_single [OF single] by simp
    qed
    have start: "tab_inv ts n (replicate 1024 0) (replicate (length tr0) 0) []"
      by (rule tab_inv_start) (use n(2) n288 card tr0(2) in simp_all)
    have nc1: "\<forall>k. 0 < k \<and> k < 16 \<longrightarrow> nc ! k = first_code ts k + cnt k (take 0 cs)"
    proof (intro allI impI)
      fix k :: nat
      assume k: "0 < k \<and> k < 16"
      show "nc ! k = first_code ts k + cnt k (take 0 cs)"
        using nc(3,4) k by (cases "k = 1") simp_all
    qed
    have lens: "lengths_ok ts n cs" using ok n(3) lcs ts(3) cs(2) by (simp add: lengths_ok_def type_def)
    have "\<exists>lu tr ns. insert_syms cs 0 n nc (- 1 - 2 * int (length ([] :: (nat \<times> nat) list))) (replicate 1024 0) (replicate (length tr0) 0) =
        Some (lu, tr) \<and> tab_inv ts n lu tr ns \<and> length tr = length (replicate (length tr0) (0 :: int)) \<and> all_placed ts cs n lu tr ns"
      by (rule insert_syms_inv [OF lens _ start nc(2) nc1]) (simp_all add: all_placed_def)
    then obtain lu tr ns where ins: "insert_syms cs 0 n nc (- 1) (replicate 1024 0) (replicate (length tr0) 0) = Some (lu, tr)"
      and inv: "tab_inv ts n lu tr ns" and len: "length tr = length tr0" and pl: "all_placed ts cs n lu tr ns" by auto
    have "build_table r = Some (Some (set_tree (r\<lparr>m_look_up := zero[type := lu]\<rparr>) type tr))"
      using False by (simp add: build ins)
    moreover have "zero[type := lu] = (m_look_up r)[type := lu]" by (simp add: zero_def)
    moreover have "table_decodes lu tr n cs" using all_placed_decodes lens inv pl unfolding tsc by blast
    ultimately show ?thesis using False tab_inv_table_ok [OF inv] len tr0(2) by (auto simp: type_def bad)
  qed
qed

lemma build_table_total:
  assumes shape: "decomp_shape r" and type: "m_type r < 3" and n: "m_table_sizes r ! m_type r = n" "0 < n" "n \<le> syms_max (m_type r)"
    and cs: "code_size_of r (m_type r) = Some cs" "\<forall>x \<in> set (take n cs). x < 16"
  shows "build_table r = Some None \<or>
    (\<exists>lu tr. build_table r = Some (Some (set_tree (r\<lparr>m_look_up := (m_look_up r)[m_type r := lu]\<rparr>) (m_type r) tr)) \<and>
      table_ok lu tr n \<and> length tr = 2 * syms_max (m_type r))"
  using build_table_correct [OF assms] by (auto split: if_splits)

section \<open>Property\<close>

text \<open>A structure with arrays of the sizes the code declares, for the witnesses.\<close>

definition fresh_inflator :: tinfl_decompressor where
  "fresh_inflator = \<lparr>m_state = 0, m_num_bits = 0, m_zhdr0 = 0, m_zhdr1 = 0, m_z_adler32 = 0, m_final = 0, m_type = 0,
     m_check_adler32 = 0, m_dist = 0, m_counter = 0, m_num_extra = 0, m_table_sizes = [0, 0, 0], m_bit_buf = 0,
     m_dist_from_out_buf_start = 0, m_look_up = replicate 3 (replicate 1024 0), m_tree_0 = replicate 576 0,
     m_tree_1 = replicate 64 0, m_tree_2 = replicate 38 0, m_code_size_0 = replicate 288 0,
     m_code_size_1 = replicate 32 0, m_code_size_2 = replicate 19 0, m_raw_header = replicate 4 0,
     m_len_codes = replicate 457 0\<rparr>"

lemma fresh_inflator_shape: "decomp_shape fresh_inflator"
  by (simp add: decomp_shape_def fresh_inflator_def)

text \<open>C12. The Huffman tables decode the canonical code of RFC 1951 (3.2.2). For a type's code lengths, \<^verbatim>\<open>n\<close> of
  them and each at most 15, the table loop gives up exactly when more than one symbol is used and the lengths
  are not those of a complete code. Otherwise it builds tables with which the bits that begin with the code of
  a symbol, however long and whatever follows, are looked up as that symbol and that length, in the ten-bit
  table or through the tree; if the code is complete, all bits begin with the code of a symbol.\<close>

theorem tables_canonical:
  assumes "decomp_shape r" "m_type r < 3" "m_table_sizes r ! m_type r = n" "0 < n" "n \<le> syms_max (m_type r)"
    "code_size_of r (m_type r) = Some cs" "\<forall>x \<in> set (take n cs). x < 16"
  shows "(build_table r = Some None \<longleftrightarrow> kraft_sum n cs \<noteq> 2 ^ 16 \<and> 1 < used_syms n cs) \<and>
    (kraft_sum n cs = 2 ^ 16 \<or> used_syms n cs \<le> 1 \<longrightarrow>
      (\<exists>r' tr. build_table r = Some (Some r') \<and> tree_of r' (m_type r) = Some tr \<and>
        (\<forall>j < n. \<forall>bits. 0 < cs ! j \<longrightarrow> rv (cs ! j) bits = code_value (counts n cs) cs j \<longrightarrow>
          huff_lookup (m_look_up r' ! m_type r) tr bits = Some (entry (cs ! j) j, cs ! j)))) \<and>
    (kraft_sum n cs = 2 ^ 16 \<longrightarrow>
      (\<forall>bits. \<exists>j < n. 0 < cs ! j \<and> rv (cs ! j) bits = code_value (counts n cs) cs j))"
proof (intro conjI impI allI)
  note ok = build_table_correct [OF assms]
  show "build_table r = Some None \<longleftrightarrow> kraft_sum n cs \<noteq> 2 ^ 16 \<and> 1 < used_syms n cs"
    using ok by (auto simp: bad_lengths_def split: if_splits)
  have "n \<le> length cs" using shape_arrays(1) [OF assms(1,2)] assms(5,6) by simp
  then show "\<exists>j < n. 0 < cs ! j \<and> rv (cs ! j) bits = code_value (counts n cs) cs j"
    if "kraft_sum n cs = 2 ^ 16" for bits using complete_code [OF assms(7) _ that] by blast
  assume "kraft_sum n cs = 2 ^ 16 \<or> used_syms n cs \<le> 1"
  then have "\<not> bad_lengths n cs" by (auto simp: bad_lengths_def)
  then obtain lu tr where b: "build_table r = Some (Some (set_tree (r\<lparr>m_look_up := (m_look_up r)[m_type r := lu]\<rparr>) (m_type r) tr))"
      "table_decodes lu tr n cs" using ok by auto
  have t: "m_type r = 0 \<or> m_type r = 1 \<or> m_type r = 2" using assms(2) by linarith
  have "length (m_look_up r) = 3" using assms(1) by (simp add: decomp_shape_def)
  then show "\<exists>r' tr. build_table r = Some (Some r') \<and> tree_of r' (m_type r) = Some tr \<and>
      (\<forall>j < n. \<forall>bits. 0 < cs ! j \<longrightarrow> rv (cs ! j) bits = code_value (counts n cs) cs j \<longrightarrow>
        huff_lookup (m_look_up r' ! m_type r) tr bits = Some (entry (cs ! j) j, cs ! j))"
    using b t by (auto simp: table_decodes_def set_tree_def tree_of_def)
qed

text \<open>The code of RFC 1951's example, lengths 3, 3, 3, 3, 3, 2, 4, 4.\<close>

definition demo_lengths :: tinfl_decompressor where
  "demo_lengths = fresh_inflator\<lparr>m_type := 1, m_table_sizes := [0, 8, 0],
     m_code_size_1 := [3, 3, 3, 3, 3, 2, 4, 4] @ replicate 24 0\<rparr>"

lemma tables_canonical_witness:
  "\<exists>r' tr. build_table demo_lengths = Some (Some r') \<and> tree_of r' 1 = Some tr \<and>
     (\<forall>bits. rv 2 bits = 0 \<longrightarrow> huff_lookup (m_look_up r' ! 1) tr bits = Some (entry 2 5, 2)) \<and>
     (\<forall>bits. rv 4 bits = 15 \<longrightarrow> huff_lookup (m_look_up r' ! 1) tr bits = Some (entry 4 7, 4))"
proof -
  let ?cs = "[3, 3, 3, 3, 3, 2, 4, 4] @ replicate 24 (0 :: nat)"
  have shape: "decomp_shape demo_lengths" by (simp add: decomp_shape_def demo_lengths_def fresh_inflator_def)
  have k: "kraft_sum 8 ?cs = 2 ^ 16" by (simp add: kraft_sum_def)
  have v: "code_value (counts 8 ?cs) ?cs 5 = 0" "code_value (counts 8 ?cs) ?cs 7 = 15"
    by code_simp+
  obtain r' tr where r: "build_table demo_lengths = Some (Some r')" "tree_of r' 1 = Some tr"
      "\<forall>j < 8. \<forall>bits. 0 < ?cs ! j \<longrightarrow> rv (?cs ! j) bits = code_value (counts 8 ?cs) ?cs j \<longrightarrow>
          huff_lookup (m_look_up r' ! 1) tr bits = Some (entry (?cs ! j) j, ?cs ! j)"
    using tables_canonical [OF shape, of 8 ?cs] k
    by (auto simp: demo_lengths_def fresh_inflator_def code_size_of_def syms_max_def)
  from r(3) [rule_format, of 5] r(3) [rule_format, of 7] v
  have "rv 2 bits = 0 \<Longrightarrow> huff_lookup (m_look_up r' ! 1) tr bits = Some (entry 2 5, 2)"
    "rv 4 bits = 15 \<Longrightarrow> huff_lookup (m_look_up r' ! 1) tr bits = Some (entry 4 7, 4)" for bits by simp_all
  then show ?thesis using r(1,2) by blast
qed

end
