(* ===== verification/TinflInv.thy ===== *)
theory TinflInv
  imports Tinfl HuffDecode
begin

unbundle bit_operations_syntax

text \<open>
  The invariant of \<^verbatim>\<open>tinfl_decompress\<close> at each control point of its coroutine, and the measure every step
  decreases: the bits not yet read, then the room left in the output, then the place in the code. At the \<^verbatim>\<open>case\<close>
  labels the invariant is what a saved structure must satisfy to be resumed. The rules at the end reduce a step
  to the invariant at its target and its progress.
\<close>

section \<open>The invariant\<close>

text \<open>The table of a type decodes, and the first entries of the code lengths are lengths.\<close>

definition tab_ok :: "tinfl_decompressor \<Rightarrow> nat \<Rightarrow> bool" where
  "tab_ok r type \<longleftrightarrow> (\<exists>tr. tree_of r type = Some tr \<and> table_ok (m_look_up r ! type) tr (syms_max type))"

definition lens_below :: "nat \<Rightarrow> nat list \<Rightarrow> bool" where
  "lens_below n xs \<longleftrightarrow> (\<forall>x \<in> set (take n xs). x < 16)"

definition size_ok :: "tinfl_decompressor \<Rightarrow> nat \<Rightarrow> bool" where
  "size_ok r type \<longleftrightarrow> 0 < m_table_sizes r ! type \<and> m_table_sizes r ! type \<le> syms_max type"

definition code_ready :: "tinfl_decompressor \<Rightarrow> nat \<Rightarrow> bool" where
  "code_ready r type \<longleftrightarrow> size_ok r type \<and>
     (\<exists>cs. code_size_of r type = Some cs \<and> lens_below (m_table_sizes r ! type) cs)"

definition both_tabs :: "tinfl_decompressor \<Rightarrow> bool" where
  "both_tabs r \<longleftrightarrow> tab_ok r 0 \<and> tab_ok r 1"

text \<open>At the head of the loop over the types: what is left to build and what is built.\<close>

definition tables_inv :: "tinfl_decompressor \<Rightarrow> bool" where
  "tables_inv r \<longleftrightarrow>
     (if m_type r = 2 then size_ok r 0 \<and> size_ok r 1 \<and> code_ready r 2
      else if m_type r = 1 then code_ready r 0 \<and> code_ready r 1
      else if m_type r = 0 then code_ready r 0 \<and> tab_ok r 1
      else 2 ^ 31 \<le> m_type r \<and> both_tabs r)"

text \<open>While the code lengths are read.\<close>

definition lens_inv :: "tinfl_decompressor \<Rightarrow> nat \<Rightarrow> bool" where
  "lens_inv r n \<longleftrightarrow> m_type r = 2 \<and> size_ok r 0 \<and> size_ok r 1 \<and> tab_ok r 2 \<and> n \<le> 457 \<and> lens_below n (m_len_codes r)"

definition in_lens :: "tinfl_vars \<Rightarrow> bool" where
  "in_lens v \<longleftrightarrow> lens_inv (dec v) (counter v) \<and> counter v < m_table_sizes (dec v) ! 0 + m_table_sizes (dec v) ! 1"

definition sizes_inv :: "tinfl_decompressor \<Rightarrow> bool" where
  "sizes_inv r \<longleftrightarrow> m_type r = 2 \<and> size_ok r 0 \<and> size_ok r 1 \<and> size_ok r 2 \<and> lens_below 19 (m_code_size_2 r)"

text \<open>In the byte-wise copy, without wrapping: the source lies behind the destination.\<close>

definition slow_ok :: "tinfl_env \<Rightarrow> tinfl_vars \<Rightarrow> bool" where
  "slow_ok e v \<longleftrightarrow> (has_flag e TINFL_FLAG_USING_NON_WRAPPING_OUTPUT_BUF \<longrightarrow>
     0 < dist v \<and> dist v \<le> out_cur v \<and> dist_from_out_buf_start v = out_cur v)"

text \<open>The bits at hand hold a whole code.\<close>

definition bits_found :: "nat \<Rightarrow> tinfl_vars \<Rightarrow> bool" where
  "bits_found k v \<longleftrightarrow> 15 \<le> num_bits v \<or>
     (\<forall>tr. tree_of (dec v) (huff_table k) = Some tr \<longrightarrow>
       fill_test (m_look_up (dec v) ! huff_table k) tr (bit_buf v) (num_bits v) = Some True)"

definition huff_inv :: "nat \<Rightarrow> tinfl_vars \<Rightarrow> bool" where
  "huff_inv k v \<longleftrightarrow> (if k = 16 then in_lens v else (k = 23 \<or> k = 26) \<and> both_tabs (dec v))"

text \<open>The labels of the \<^verbatim>\<open>switch\<close>.\<close>

definition labels :: "nat list" where
  "labels = [0, 1, 2, 3, 5, 6, 7, 9, 11, 14, 16, 23, 26, 18, 24, 25, 27, 32, 34, 38, 41, 42, 51, 52, 53,
     10, 17, 21, 35, 36, 37, 39, 40, 54]"

definition label_at :: "tinfl_env \<Rightarrow> nat \<Rightarrow> tinfl_vars \<Rightarrow> bool" where
  "label_at e k v \<longleftrightarrow>
     (if k = 6 \<or> k = 7 then counter v < 4
      else if k = 9 \<or> k = 38 then 0 < counter v
      else if k = 11 then m_type (dec v) = 2 \<and> counter v < 3 \<and> (\<forall>i < counter v. size_ok (dec v) i)
      else if k = 14 then sizes_inv (dec v) \<and> counter v < m_table_sizes (dec v) ! 2
      else if k = 16 \<or> k = 23 \<or> k = 26 then huff_inv k v
      else if k = 18 then in_lens v \<and> num_extra v \<in> {2, 3, 7} \<and> 16 \<le> dist v \<and> dist v \<le> 18 \<and>
        (dist v = 16 \<longrightarrow> 0 < counter v)
      else if k = 24 then both_tabs (dec v)
      else if k = 25 \<or> k = 27 then both_tabs (dec v) \<and> num_extra v \<le> 13
      else if k = 53 then both_tabs (dec v) \<and> slow_ok e v
      else True)"

definition label_inv :: "tinfl_env \<Rightarrow> nat \<Rightarrow> tinfl_vars \<Rightarrow> bool" where
  "label_inv e k v \<longleftrightarrow> label_at e k v \<and> (k \<in> set labels \<or> m_state (dec v) = k) \<and>
     (k \<in> {16, 23, 26} \<longrightarrow> num_bits v < 15)"

definition pc_inv :: "tinfl_env \<Rightarrow> tinfl_vars \<Rightarrow> bool" where
  "pc_inv e v = (case pc v of
      St k \<Rightarrow> label_inv e k v
    | Raw_header \<Rightarrow> True
    | Raw_bits \<Rightarrow> True
    | Raw_copy \<Rightarrow> True
    | Code_sizes \<Rightarrow> sizes_inv (dec v)
    | Tables \<Rightarrow> tables_inv (dec v)
    | Lens \<Rightarrow> lens_inv (dec v) (counter v)
    | Huff k \<Rightarrow> huff_inv k v
    | Fill k \<Rightarrow> huff_inv k v \<and> num_bits v < 15
    | Decode k \<Rightarrow> huff_inv k v \<and> bits_found k v
    | Syms \<Rightarrow> both_tabs (dec v)
    | Match_len \<Rightarrow> both_tabs (dec v) \<and> 256 \<le> counter v AND 511 \<and> counter v AND 511 < 288
    | Match_dist \<Rightarrow> both_tabs (dec v) \<and> dist v < 32
    | Match_copy \<Rightarrow> both_tabs (dec v)
    | Slow_copy \<Rightarrow> both_tabs (dec v) \<and> slow_ok e v
    | Block_end \<Rightarrow> True
    | Adler_bytes \<Rightarrow> True)"

definition base_inv :: "tinfl_env \<Rightarrow> tinfl_vars \<Rightarrow> bool" where
  "base_inv e v \<longleftrightarrow> decomp_shape (dec v) \<and> num_bits v < 64 \<and> in_cur v \<le> length (in_buf e) \<and>
     out_next e \<le> out_cur v \<and> out_cur v \<le> out_end e \<and> out_end e \<le> length (out_buf v)"

text \<open>What the entry code makes of the size of the output buffer.\<close>

definition env_ok :: "tinfl_env \<Rightarrow> bool" where
  "env_ok e \<longleftrightarrow> out_end e < 2 ^ 64 \<and>
     (if has_flag e TINFL_FLAG_USING_NON_WRAPPING_OUTPUT_BUF then out_mask e = 2 ^ 64 - 1
      else out_end e = 0 \<or> out_mask e < out_end e)"

section \<open>The measure\<close>

definition lens_rank :: "tinfl_vars \<Rightarrow> nat" where
  "lens_rank v = 20 + 8 * (457 - counter v)"

definition huff_rank :: "nat \<Rightarrow> tinfl_vars \<Rightarrow> nat" where
  "huff_rank k v = (if k = 16 then lens_rank v - 3 else if k = 23 then 4 else 12)"

definition rank :: "tinfl_env \<Rightarrow> tinfl_vars \<Rightarrow> nat" where
  "rank e v = (case pc v of
      St k \<Rightarrow> (if k = 0 then 3 else if k = 3 \<or> k = 32 then 2 else if k = 5 then 9 else if k = 9 then 5
        else if k = 38 then if out_end e \<le> out_cur v then 7 else 4
        else if k = 16 \<or> k = 23 \<or> k = 26 then huff_rank k v + 1
        else if k = 25 then 15 else if k = 27 then 10 else 0)
    | Raw_header \<Rightarrow> 8
    | Raw_bits \<Rightarrow> 7
    | Raw_copy \<Rightarrow> 6
    | Code_sizes \<Rightarrow> 4001
    | Tables \<Rightarrow> (if m_type (dec v) = 2 then 4000 else if m_type (dec v) = 1 then 11
        else if m_type (dec v) = 0 then 10 else 9)
    | Lens \<Rightarrow> lens_rank v
    | Huff k \<Rightarrow> huff_rank k v + 2
    | Fill k \<Rightarrow> huff_rank k v + 1
    | Decode k \<Rightarrow> huff_rank k v
    | Syms \<Rightarrow> 7
    | Match_len \<Rightarrow> 16
    | Match_dist \<Rightarrow> 11
    | Match_copy \<Rightarrow> 9
    | Slow_copy \<Rightarrow> 8
    | Block_end \<Rightarrow> 3
    | Adler_bytes \<Rightarrow> 1)"

text \<open>The bits not yet read, the room left in the output, the place in the code, the bits missing.\<close>

definition bits_left :: "tinfl_env \<Rightarrow> tinfl_vars \<Rightarrow> nat" where
  "bits_left e v = 8 * (length (in_buf e) - in_cur v) + num_bits v"

definition missing :: "tinfl_vars \<Rightarrow> nat" where
  "missing v = 2 * (64 - num_bits v) + (case pc v of Fill k \<Rightarrow> 1 | _ \<Rightarrow> 0)"

definition progress :: "tinfl_env \<Rightarrow> (tinfl_vars \<times> tinfl_vars) set" where
  "progress e = measures [bits_left e, \<lambda>v. out_end e - out_cur v, rank e, missing]"

lemma wf_progress: "wf (progress e)"
  by (simp add: progress_def)

lemma progressI:
  "bits_left e w < bits_left e v \<Longrightarrow> (w, v) \<in> progress e"
  "bits_left e w = bits_left e v \<Longrightarrow> out_end e - out_cur w < out_end e - out_cur v \<Longrightarrow> (w, v) \<in> progress e"
  "bits_left e w \<le> bits_left e v \<Longrightarrow> out_cur w = out_cur v \<Longrightarrow> rank e w < rank e v \<Longrightarrow> (w, v) \<in> progress e"
  "bits_left e w = bits_left e v \<Longrightarrow> out_cur w = out_cur v \<Longrightarrow> rank e w = rank e v \<Longrightarrow> missing w < missing v \<Longrightarrow>
     (w, v) \<in> progress e"
  by (auto simp: progress_def)

section \<open>What a step does\<close>

text \<open>The output buffer keeps its length, and only the bytes the step passes over change.\<close>

definition frame :: "tinfl_vars \<Rightarrow> tinfl_vars \<Rightarrow> bool" where
  "frame v w \<longleftrightarrow> length (out_buf w) = length (out_buf v) \<and> out_cur v \<le> out_cur w \<and>
     (\<forall>j. j < out_cur v \<or> out_cur w \<le> j \<longrightarrow> out_buf w ! j = out_buf v ! j)"

lemma frame_refl [simp]: "out_buf w = out_buf v \<Longrightarrow> out_cur w = out_cur v \<Longrightarrow> frame v w"
  by (simp add: frame_def)

lemma frame_trans: "frame u v \<Longrightarrow> frame v w \<Longrightarrow> frame u w"
  by (simp add: frame_def)

definition inv :: "tinfl_env \<Rightarrow> tinfl_vars \<Rightarrow> bool" where
  "inv e v \<longleftrightarrow> base_inv e v \<and> pc_inv e v"

text \<open>More input is asked for only when there is some and all of this is read, more room only when there is none.\<close>

definition reason :: "tinfl_env \<Rightarrow> tinfl_status \<Rightarrow> tinfl_vars \<Rightarrow> bool" where
  "reason e s w \<longleftrightarrow>
     (s = TINFL_STATUS_NEEDS_MORE_INPUT \<longrightarrow> in_cur w = length (in_buf e) \<and> has_flag e TINFL_FLAG_HAS_MORE_INPUT) \<and>
     (s = TINFL_STATUS_HAS_MORE_OUTPUT \<longrightarrow> out_cur w = out_end e)"

definition next_ok :: "tinfl_env \<Rightarrow> tinfl_vars \<Rightarrow> tinfl_next \<Rightarrow> bool" where
  "next_ok e v n = (case n of
      Go w \<Rightarrow> inv e w \<and> frame v w \<and> (w, v) \<in> progress e
    | Halt s w \<Rightarrow> inv e (w\<lparr>pc := St (m_state (dec w))\<rparr>) \<and> frame v w \<and> reason e s w)"

definition step_ok :: "tinfl_env \<Rightarrow> tinfl_vars \<Rightarrow> tinfl_next option \<Rightarrow> bool" where
  "step_ok e v x = (case x of None \<Rightarrow> False | Some n \<Rightarrow> next_ok e v n)"

lemma go_ok:
  assumes "base_inv e w" "pc_inv e (w\<lparr>pc := l\<rparr>)" "frame v w" "(w\<lparr>pc := l\<rparr>, v) \<in> progress e"
  shows "step_ok e v (go l w)"
  using assms by (simp add: step_ok_def next_ok_def go_def inv_def base_inv_def frame_def)

text \<open>A return keeps the place, and the invariant there does not depend on the saved index of a label.\<close>

lemma tree_of_state [simp]: "tree_of (r\<lparr>m_state := k\<rparr>) t = tree_of r t"
  "code_size_of (r\<lparr>m_state := k\<rparr>) t = code_size_of r t"
  by (simp_all add: tree_of_def code_size_of_def)

lemma dec_state [simp]:
  "decomp_shape (r\<lparr>m_state := k\<rparr>) = decomp_shape r" "tab_ok (r\<lparr>m_state := k\<rparr>) t = tab_ok r t"
  "size_ok (r\<lparr>m_state := k\<rparr>) t = size_ok r t" "code_ready (r\<lparr>m_state := k\<rparr>) t = code_ready r t"
  "both_tabs (r\<lparr>m_state := k\<rparr>) = both_tabs r" "lens_inv (r\<lparr>m_state := k\<rparr>) n = lens_inv r n"
  "sizes_inv (r\<lparr>m_state := k\<rparr>) = sizes_inv r"
  by (simp_all add: decomp_shape_def tab_ok_def size_ok_def code_ready_def both_tabs_def lens_inv_def sizes_inv_def)

lemma label_at_frame [simp]:
  "label_at e k (v\<lparr>dec := (dec v)\<lparr>m_state := j\<rparr>\<rparr>) = label_at e k v" "label_at e k (v\<lparr>pc := l\<rparr>) = label_at e k v"
  "label_at e k (v\<lparr>num_bits := n\<rparr>) = label_at e k v" "label_at e k (v\<lparr>bit_buf := b\<rparr>) = label_at e k v"
  "label_at e k (v\<lparr>in_cur := i\<rparr>) = label_at e k v"
  by (simp_all add: label_at_def huff_inv_def in_lens_def slow_ok_def)

lemma base_inv_frame [simp]:
  "base_inv e (v\<lparr>pc := l\<rparr>) = base_inv e v" "base_inv e (v\<lparr>bit_buf := b\<rparr>) = base_inv e v"
  "base_inv e (v\<lparr>dec := (dec v)\<lparr>m_state := j\<rparr>\<rparr>) = base_inv e v"
  by (simp_all add: base_inv_def)

lemma return_ok:
  assumes "inv e v" "pc v = St k" "reason e s v"
  shows "step_ok e v (cr_return k s v)"
proof -
  have "label_at e k v" "base_inv e v" and nb: "k \<in> {16, 23, 26} \<longrightarrow> num_bits v < 15"
    using assms by (simp_all add: inv_def pc_inv_def label_inv_def)
  moreover define w where "w = v\<lparr>dec := (dec v)\<lparr>m_state := k\<rparr>\<rparr>"
  ultimately have "label_at e k w" "base_inv e w" "m_state (dec w) = k" "k \<in> {16, 23, 26} \<longrightarrow> num_bits w < 15" by simp_all
  moreover have "frame v w" "reason e s w" using assms(3) by (simp_all add: w_def reason_def)
  ultimately show ?thesis
    by (simp add: cr_return_def step_ok_def next_ok_def inv_def pc_inv_def label_inv_def w_def [symmetric])
qed

lemma no_room: "inv e v \<Longrightarrow> out_end e \<le> out_cur v \<Longrightarrow> reason e TINFL_STATUS_HAS_MORE_OUTPUT v"
  by (simp add: reason_def inv_def base_inv_def)

lemma get_byte_ok:
  assumes "inv e v" "pc v = St k"
    and "\<And>c. c < 256 \<Longrightarrow> in_cur v < length (in_buf e) \<Longrightarrow> step_ok e v (K c (v\<lparr>in_cur := in_cur v + 1\<rparr>))"
  shows "step_ok e v (get_byte e k v K)"
proof (cases "length (in_buf e) \<le> in_cur v")
  case True
  then have "reason e (need_input e) v"
    using assms(1) by (auto simp: reason_def need_input_def inv_def base_inv_def)
  then show ?thesis using True return_ok [OF assms(1,2)] by (simp add: get_byte_def)
next
  case False
  then show ?thesis using assms(3) by (simp add: get_byte_def rd8_def)
qed

lemma bits_left_frame [simp]:
  "bits_left e (v\<lparr>pc := l\<rparr>) = bits_left e v" "bits_left e (v\<lparr>bit_buf := b\<rparr>) = bits_left e v"
  "bits_left e (v\<lparr>counter := c\<rparr>) = bits_left e v" "bits_left e (v\<lparr>dist := d\<rparr>) = bits_left e v"
  "bits_left e (v\<lparr>dec := r\<rparr>) = bits_left e v" "bits_left e (v\<lparr>num_extra := x\<rparr>) = bits_left e v"
  "bits_left e (v\<lparr>out_buf := ob\<rparr>) = bits_left e v" "bits_left e (v\<lparr>out_cur := oc\<rparr>) = bits_left e v"
  "bits_left e (v\<lparr>dist_from_out_buf_start := df\<rparr>) = bits_left e v"
  by (simp_all add: bits_left_def)

lemma and_mask_less: "x AND (2 ^ n - 1) < (2 ^ n :: nat)"
  using take_bit_nat_less_exp [of n x] by (simp add: take_bit_eq_mask mask_eq_exp_minus_1)

lemma get_bits_ok:
  assumes inv: "inv e v" and pc: "pc v = St k" and n: "n \<le> 40" and k: "k \<notin> {16, 23, 26}"
    and cont: "\<And>b w. b < 2 ^ n \<Longrightarrow> n \<le> num_bits v \<Longrightarrow>
      w = v\<lparr>bit_buf := drop_bit n (bit_buf v), num_bits := num_bits v - n\<rparr> \<Longrightarrow> step_ok e v (K b w)"
  shows "step_ok e v (get_bits e k n v K)"
proof (cases "num_bits v < n")
  case True
  have "step_ok e v (get_byte e k v (\<lambda>c v. do { v \<leftarrow> shift_in c 8 v; go (St k) v }))"
  proof (rule get_byte_ok [OF inv pc])
    fix c :: nat
    assume room: "in_cur v < length (in_buf e)"
    define w where "w = v\<lparr>in_cur := in_cur v + 1, bit_buf := bit_buf v OR u64 (push_bit (num_bits v) c), num_bits := num_bits v + 8\<rparr>"
    have "label_inv e k w" "base_inv e w"
      using inv pc True n room k by (simp_all add: w_def inv_def pc_inv_def label_inv_def base_inv_def)
    moreover have "(w\<lparr>pc := St k\<rparr>, v) \<in> progress e"
    proof (rule progressI(4))
      show "bits_left e (w\<lparr>pc := St k\<rparr>) = bits_left e v" using room by (simp add: w_def bits_left_def)
      show "rank e (w\<lparr>pc := St k\<rparr>) = rank e v" using pc by (simp add: w_def rank_def huff_rank_def lens_rank_def)
      show "missing (w\<lparr>pc := St k\<rparr>) < missing v" using True n pc by (simp add: w_def missing_def)
    qed (simp add: w_def)
    ultimately have "step_ok e v (go (St k) w)"
      by (intro go_ok) (simp_all add: pc_inv_def label_inv_def, simp_all add: w_def)
    then show "step_ok e v (do { v \<leftarrow> shift_in c 8 (v\<lparr>in_cur := in_cur v + 1\<rparr>); go (St k) v })"
      using True n by (simp add: shift_in_def w_def)
  qed
  then show ?thesis using True by (simp add: get_bits_def)
next
  case False
  have "step_ok e v (K (bit_buf v AND (2 ^ n - 1)) (v\<lparr>bit_buf := drop_bit n (bit_buf v), num_bits := num_bits v - n\<rparr>))"
    by (rule cont [OF and_mask_less]) (use False in simp_all)
  moreover have "sub32 (num_bits v) n = num_bits v - n"
    by (rule sub32_le) (use False inv in \<open>simp_all add: inv_def base_inv_def\<close>)
  ultimately show ?thesis using False n by (simp add: get_bits_def drop_bits_def)
qed

section \<open>The steps\<close>

text \<open>The four ways a step makes progress.\<close>

lemma go_bits:
  assumes "base_inv e w" "pc_inv e (w\<lparr>pc := l\<rparr>)" "frame v w" "bits_left e w < bits_left e v"
  shows "step_ok e v (go l w)"
  by (rule go_ok [OF assms(1-3)], rule progressI(1)) (use assms(4) in simp)

lemma go_out:
  assumes "base_inv e w" "pc_inv e (w\<lparr>pc := l\<rparr>)" "frame v w" "bits_left e w = bits_left e v" "out_cur v < out_cur w"
  shows "step_ok e v (go l w)"
  by (rule go_ok [OF assms(1-3)], rule progressI(2)) (use assms(1,4,5) in \<open>simp_all add: base_inv_def diff_less_mono2\<close>)

lemma go_rank:
  assumes "base_inv e w" "pc_inv e (w\<lparr>pc := l\<rparr>)" "frame v w" "bits_left e w \<le> bits_left e v" "out_cur w = out_cur v"
    "rank e (w\<lparr>pc := l\<rparr>) < rank e v"
  shows "step_ok e v (go l w)"
  by (rule go_ok [OF assms(1-3)], rule progressI(3)) (use assms(4-6) in simp_all)

lemmas place_defs = pc_inv_def label_inv_def label_at_def labels_def

lemma invD:
  assumes "inv e v"
  shows "base_inv e v" "decomp_shape (dec v)" "num_bits v < 64" "in_cur v \<le> length (in_buf e)" "out_next e \<le> out_cur v"
    "out_cur v \<le> out_end e" "out_end e \<le> length (out_buf v)"
  using assms by (simp_all add: inv_def base_inv_def)

end
