(* ===== verification/TinflSteps.thy ===== *)
theory TinflSteps
  imports TinflInv
begin

unbundle bit_operations_syntax

text \<open>
  The steps of \<^verbatim>\<open>tinfl_decompress\<close> up to the code lengths keep the invariant and make progress: the headers, the
  stored blocks, the loop that builds the tables, the code lengths of a dynamic block.
\<close>

section \<open>The headers\<close>

lemma step_start_ok:
  assumes inv: "inv e v" and pc: "pc v = St 0"
  shows "step_ok e v (step_start e v)"
  unfolding step_start_def Let_def
  by (rule go_rank) (use invD [OF inv] pc in \<open>simp_all add: base_inv_def decomp_shape_def place_defs rank_def bits_left_def\<close>)

lemma bits_left_byte: "in_cur v < length (in_buf e) \<Longrightarrow> bits_left e (v\<lparr>in_cur := in_cur v + 1\<rparr>) < bits_left e v"
  by (simp add: bits_left_def)

lemma step_zlib1_ok:
  assumes inv: "inv e v" and pc: "pc v = St 1"
  shows "step_ok e v (step_zlib1 e v)"
  unfolding step_zlib1_def
proof (rule get_byte_ok [OF inv pc])
  fix c
  assume "in_cur v < length (in_buf e)"
  then show "step_ok e v (go (St 2) (v\<lparr>in_cur := in_cur v + 1, dec := (dec (v\<lparr>in_cur := in_cur v + 1\<rparr>))\<lparr>m_zhdr0 := c\<rparr>\<rparr>))"
    by (intro go_bits) (use invD [OF inv] in \<open>simp_all add: base_inv_def decomp_shape_def place_defs bits_left_def\<close>)
qed

lemma step_zlib2_ok:
  assumes inv: "inv e v" and pc: "pc v = St 2"
  shows "step_ok e v (step_zlib2 e v)"
  unfolding step_zlib2_def Let_def
  by (rule get_byte_ok [OF inv pc], rule go_bits)
    (use invD [OF inv] in \<open>simp_all add: base_inv_def decomp_shape_def place_defs bits_left_def\<close>)

lemma fixed_code_sizes_facts: "length fixed_code_sizes = 288" "x \<in> set fixed_code_sizes \<Longrightarrow> x < 16"
  by (auto simp: fixed_code_sizes_def)

lemma fixed_ready:
  assumes "decomp_shape r" "m_type r = 1"
  shows "tables_inv (r\<lparr>m_table_sizes := (m_table_sizes r)[0 := 288, 1 := 32],
      m_code_size_1 := replicate 32 5 @ drop 32 (m_code_size_1 r),
      m_code_size_0 := fixed_code_sizes @ drop 288 (m_code_size_0 r)\<rparr>)"
  using assms fixed_code_sizes_facts
  by (simp add: tables_inv_def code_ready_def size_ok_def decomp_shape_def syms_max_def code_size_of_def lens_below_def)

lemma step_block_ok:
  assumes inv: "inv e v" and pc: "pc v = St 3"
  shows "step_ok e v (step_block e v)"
  unfolding step_block_def
proof (rule get_bits_ok [OF inv pc])
  fix b :: nat and w
  assume b: "b < 2 ^ 3" and n: "3 \<le> num_bits v" and w: "w = v\<lparr>bit_buf := drop_bit 3 (bit_buf v), num_bits := num_bits v - 3\<rparr>"
  define type where "type = drop_bit 1 b"
  define r where "r = (dec w)\<lparr>m_final := b, m_type := type\<rparr>"
  have "type < 4" using b by (simp add: type_def drop_bit_Suc)
  then have t: "type = 0 \<or> type = 3 \<or> type = 1 \<or> type = 2" by linarith
  have shape: "decomp_shape r" using invD(2) [OF inv] by (simp add: r_def w decomp_shape_def)
  have len: "length (m_table_sizes r) = 3" using shape by (simp add: decomp_shape_def)
  define fixed where "fixed = r\<lparr>m_table_sizes := (m_table_sizes r)[0 := 288, 1 := 32],
      m_code_size_1 := replicate 32 5 @ drop 32 (m_code_size_1 r),
      m_code_size_0 := fixed_code_sizes @ drop 288 (m_code_size_0 r)\<rparr>"
  have upd: "upd_o (m_table_sizes r) 0 288 = Some ((m_table_sizes r)[0 := 288])"
      "upd_o ((m_table_sizes r)[0 := 288]) 1 32 = Some ((m_table_sizes r)[0 := 288, 1 := 32])"
    using len by (simp_all add: upd_o_def)
  have fshape: "decomp_shape fixed"
    using shape fixed_code_sizes_facts(1) by (simp add: fixed_def decomp_shape_def)
  have base: "base_inv e (w\<lparr>dec := r'\<rparr>)" if "decomp_shape r'" for r'
    using invD [OF inv] that by (simp add: base_inv_def w)
  have left: "bits_left e w < bits_left e v" using n by (simp add: bits_left_def w)
  have fr: "frame v (w\<lparr>dec := r'\<rparr>)" for r' by (simp add: w)
  have "step_ok e v (go (St 5) (w\<lparr>dec := r\<rparr>))" "step_ok e v (go (St 10) (w\<lparr>dec := r\<rparr>))"
    by (rule go_bits [OF base [OF shape]], use left fr in \<open>simp_all add: place_defs\<close>)+
  moreover have "step_ok e v (go (St 11) (w\<lparr>dec := r, counter := 0\<rparr>))" if "type = 2"
    by (rule go_bits) (use that left fr [of r] base [OF shape] in \<open>simp_all add: place_defs r_def base_inv_def frame_def\<close>)
  moreover have "step_ok e v (go Tables (w\<lparr>dec := fixed\<rparr>))" if "type = 1"
  proof (rule go_bits [OF base [OF fshape] _ fr])
    have "m_type r = 1" using that by (simp add: r_def)
    then have "tables_inv fixed" using fixed_ready [OF shape] by (simp add: fixed_def)
    then show "pc_inv e (w\<lparr>dec := fixed, pc := Tables\<rparr>)" by (simp add: pc_inv_def)
  qed (use left in simp)
  ultimately show "step_ok e v (let type = drop_bit 1 b; r = (dec w)\<lparr>m_final := b, m_type := type\<rparr>
     in if type = 0 then go (St 5) (w\<lparr>dec := r\<rparr>)
        else if type = 3 then go (St 10) (w\<lparr>dec := r\<rparr>)
        else if type = 1 then do {
          sizes \<leftarrow> upd_o (m_table_sizes r) 0 288;
          sizes \<leftarrow> upd_o sizes 1 32;
          go Tables (w\<lparr>dec := r\<lparr>m_table_sizes := sizes,
            m_code_size_1 := replicate 32 5 @ drop 32 (m_code_size_1 r),
            m_code_size_0 := fixed_code_sizes @ drop 288 (m_code_size_0 r)\<rparr>\<rparr>)
        }
        else go (St 11) (w\<lparr>dec := r, counter := 0\<rparr>))"
    unfolding Let_def type_def [symmetric] r_def [symmetric] upd Option.bind.bind_lunit fixed_def [symmetric]
    using t by (elim disjE) simp_all
qed simp_all

text \<open>Stored blocks.\<close>

lemma step_skip5_ok:
  assumes inv: "inv e v" and pc: "pc v = St 5"
  shows "step_ok e v (step_skip5 e v)"
  unfolding step_skip5_def
proof (rule get_bits_ok [OF inv pc])
  show "num_bits v AND 7 \<le> 40" using and_mask_less [of "num_bits v" 3] by simp
  fix b w
  assume "w = v\<lparr>bit_buf := drop_bit (num_bits v AND 7) (bit_buf v), num_bits := num_bits v - (num_bits v AND 7)\<rparr>"
  then show "step_ok e v (go Raw_header (w\<lparr>counter := 0\<rparr>))"
    by (intro go_rank) (use invD [OF inv] pc in \<open>simp_all add: base_inv_def place_defs rank_def bits_left_def\<close>)
qed simp

lemma step_raw_header_ok:
  assumes inv: "inv e v" and pc: "pc v = Raw_header"
  shows "step_ok e v (step_raw_header e v)"
proof -
  have rd: "nth_o (m_raw_header (dec v)) i = Some (m_raw_header (dec v) ! i)" if "i < 4" for i
    using invD(2) [OF inv] that by (simp add: decomp_shape_def nth_o_def)
  have go: "step_ok e v (go l (v\<lparr>counter := n\<rparr>))"
    if "l \<in> {Raw_bits, St 39} \<or> n < 4 \<and> l \<in> {St 6, St 7}" for l n
    by (rule go_rank) (use that invD [OF inv] pc in \<open>auto simp: base_inv_def place_defs rank_def\<close>)
  show ?thesis
    using go [of "St 6" "counter v"] go [of "St 7" "counter v"] go [of Raw_bits] go [of "St 39"]
    by (simp add: step_raw_header_def rd Let_def)
qed

lemma store_raw_ok:
  assumes inv: "inv e v" and pc: "pc v = St 6 \<or> pc v = St 7" and w: "base_inv e w" "frame v w" "bits_left e w < bits_left e v"
    "counter w = counter v" "dec w = dec v"
  shows "step_ok e v (store_raw b w)"
proof -
  have c: "counter v < 4" using inv pc by (auto simp: inv_def place_defs)
  have l: "length (m_raw_header (dec w)) = 4" using w(1) by (simp add: base_inv_def decomp_shape_def)
  show ?thesis
    using c l w by (simp add: store_raw_def upd_o_def) (rule go_bits, simp_all add: base_inv_def decomp_shape_def place_defs frame_def)
qed

lemma step_raw6_ok:
  assumes inv: "inv e v" and pc: "pc v = St 6"
  shows "step_ok e v (get_bits e 6 8 v store_raw)"
proof (rule get_bits_ok [OF inv pc])
  fix b w
  assume "8 \<le> num_bits v" "w = v\<lparr>bit_buf := drop_bit 8 (bit_buf v), num_bits := num_bits v - 8\<rparr>"
  then show "step_ok e v (store_raw b w)"
    by (intro store_raw_ok [OF inv]) (use pc invD [OF inv] in \<open>simp_all add: base_inv_def bits_left_def\<close>)
qed simp_all

lemma step_raw7_ok:
  assumes inv: "inv e v" and pc: "pc v = St 7"
  shows "step_ok e v (get_byte e 7 v store_raw)"
  by (rule get_byte_ok [OF inv pc], rule store_raw_ok [OF inv])
    (use pc invD [OF inv] in \<open>simp_all add: base_inv_def bits_left_def\<close>)

lemma step_raw_bits_ok:
  assumes inv: "inv e v" and pc: "pc v = Raw_bits"
  shows "step_ok e v (step_raw_bits e v)"
  unfolding step_raw_bits_def
  by (rule go_rank) (use invD [OF inv] pc in \<open>simp_all add: place_defs rank_def\<close>)

lemma step_raw_copy_ok:
  assumes inv: "inv e v" and pc: "pc v = Raw_copy"
  shows "step_ok e v (step_raw_copy e v)"
  unfolding step_raw_copy_def
  by (rule go_rank) (use invD [OF inv] pc in \<open>simp_all add: place_defs rank_def\<close>)

lemma step_out9_ok:
  assumes inv: "inv e v" and pc: "pc v = St 9"
  shows "step_ok e v (step_out9 e v)"
proof (cases "out_end e \<le> out_cur v")
  case True
  then show ?thesis using return_ok [OF inv pc no_room [OF inv]] by (simp add: step_out9_def)
next
  case False
  have "0 < counter v" using inv pc by (simp add: inv_def place_defs)
  then have "step_ok e v (go (St 38) v)"
    by (intro go_rank) (use False invD [OF inv] pc in \<open>simp_all add: place_defs rank_def\<close>)
  then show ?thesis using False by (simp add: step_out9_def)
qed

lemma write_frame:
  assumes "i + length bs \<le> length buf"
  shows "\<exists>b. write_o buf i bs = Some b \<and> length b = length buf \<and>
    (\<forall>j. j < i \<or> i + length bs \<le> j \<longrightarrow> b ! j = buf ! j)"
  using assms by (auto simp: write_o_def nth_append not_less)

lemma step_in38_ok:
  assumes inv: "inv e v" and pc: "pc v = St 38"
  shows "step_ok e v (step_in38 e v)"
proof (cases "length (in_buf e) \<le> in_cur v")
  case True
  then have "reason e (need_input e) v" using invD [OF inv] by (auto simp: reason_def need_input_def)
  then show ?thesis using True return_ok [OF inv pc] by (simp add: step_in38_def)
next
  case False
  define n where "n = min (min (out_end e - out_cur v) (length (in_buf e) - in_cur v)) (counter v)"
  define bs where "bs = take n (drop (in_cur v) (in_buf e))"
  have n: "out_cur v + n \<le> out_end e" "in_cur v + n \<le> length (in_buf e)"
    using invD [OF inv] by (simp_all add: n_def)
  have len: "length bs = n" using n(2) by (simp add: bs_def)
  have "out_cur v + length bs \<le> length (out_buf v)" using n(1) invD(7) [OF inv] len by simp
  from write_frame [OF this] obtain b where b: "write_o (out_buf v) (out_cur v) bs = Some b" "length b = length (out_buf v)"
    "\<forall>j. j < out_cur v \<or> out_cur v + n \<le> j \<longrightarrow> b ! j = out_buf v ! j" using len by auto
  define w where "w = v\<lparr>out_buf := b, in_cur := in_cur v + n, out_cur := out_cur v + n, counter := counter v - n\<rparr>"
  have base: "base_inv e w" using invD [OF inv] n b(2) by (simp add: w_def base_inv_def)
  have fr: "frame v w" using b(2,3) by (simp add: w_def frame_def)
  have pl: "pc_inv e (w\<lparr>pc := Raw_copy\<rparr>)" by (simp add: place_defs)
  have "step_ok e v (go Raw_copy w)"
  proof (cases "n = 0")
    case True
    have "0 < counter v" using inv pc by (simp add: inv_def place_defs)
    then have "out_end e \<le> out_cur v" using True False by (simp add: n_def min_def split: if_splits)
    then show ?thesis
      by (intro go_rank [OF base pl fr]) (use True pc in \<open>simp_all add: w_def bits_left_def rank_def\<close>)
  next
    case more: False
    show ?thesis
      by (rule go_bits [OF base pl fr]) (use more n(2) in \<open>simp add: w_def bits_left_def\<close>)
  qed
  moreover have "rdn (in_buf e) (in_cur v) n = Some bs" using n(2) by (simp add: rdn_def bs_def)
  ultimately show ?thesis using False b(1) by (simp add: step_in38_def n_def [symmetric] w_def Let_def)
qed

text \<open>\<^verbatim>\<open>*pOut_buf_cur++ = b\<close>.\<close>

lemma put_byte_ok:
  assumes inv: "inv e v" and pc: "pc v = St k"
    and cont: "\<And>w ob. w = v\<lparr>out_buf := ob, out_cur := out_cur v + 1\<rparr> \<Longrightarrow> base_inv e w \<Longrightarrow> frame v w \<Longrightarrow> out_cur v < out_cur w \<Longrightarrow>
      step_ok e v (K w)"
  shows "step_ok e v (put_byte e k b v K)"
proof (cases "out_end e \<le> out_cur v")
  case True
  then show ?thesis using return_ok [OF inv pc no_room [OF inv]] by (simp add: put_byte_def)
next
  case False
  define ob where "ob = (out_buf v)[out_cur v := word_of_nat b]"
  define w where "w = v\<lparr>out_buf := ob, out_cur := out_cur v + 1\<rparr>"
  have "step_ok e v (K w)"
    by (rule cont [of _ ob]) (use False invD [OF inv] in \<open>auto simp: w_def ob_def base_inv_def frame_def\<close>)
  moreover have "upd_o (out_buf v) (out_cur v) (word_of_nat b) = Some ob"
    using False invD [OF inv] by (simp add: upd_o_def ob_def)
  ultimately show ?thesis using False by (simp add: put_byte_def w_def)
qed

lemma step_raw51_ok:
  assumes inv: "inv e v" and pc: "pc v = St 51"
  shows "step_ok e v (get_bits e 51 8 v (\<lambda>b v. go (St 52) (v\<lparr>dist := b\<rparr>)))"
proof (rule get_bits_ok [OF inv pc])
  fix b w
  assume "8 \<le> num_bits v" "w = v\<lparr>bit_buf := drop_bit 8 (bit_buf v), num_bits := num_bits v - 8\<rparr>"
  then show "step_ok e v (go (St 52) (w\<lparr>dist := b\<rparr>))"
    by (intro go_bits) (use invD [OF inv] in \<open>simp_all add: base_inv_def place_defs bits_left_def\<close>)
qed simp_all

lemma step_raw52_ok:
  assumes inv: "inv e v" and pc: "pc v = St 52"
  shows "step_ok e v (put_byte e 52 (dist v) v (\<lambda>v. go Raw_bits (v\<lparr>counter := sub32 (counter v) 1\<rparr>)))"
  by (rule put_byte_ok [OF inv pc], rule go_out) (simp_all add: place_defs frame_def base_inv_def)

text \<open>The header of a dynamic block.\<close>

lemma less3: "(n :: nat) < 3 \<longleftrightarrow> n = 0 \<or> n = 1 \<or> n = 2"
  by linarith

lemma size_read:
  assumes "c < 3" "b < 2 ^ ([5, 5, 4, 0] ! c)"
  shows "0 < b + s_min_table_sizes ! c" "b + s_min_table_sizes ! c \<le> syms_max c"
  using assms by (auto simp: less3 s_min_table_sizes_def syms_max_def)

lemma step_sizes_ok:
  assumes inv: "inv e v" and pc: "pc v = St 11"
  shows "step_ok e v (step_sizes e v)"
proof -
  define c where "c = counter v"
  define n where "n = [5, 5, 4, 0 :: nat] ! c"
  have c: "c < 3" "m_type (dec v) = 2" "\<forall>i < c. size_ok (dec v) i"
    using inv pc by (simp_all add: inv_def place_defs c_def)
  have n: "0 < n" "n \<le> 40" using c(1) by (auto simp: n_def less3)
  have sz: "length (m_table_sizes (dec v)) = 3" using invD(2) [OF inv] by (simp add: decomp_shape_def)
  have "step_ok e v (get_bits e 11 n v (\<lambda>b v. do {
       base \<leftarrow> nth_o s_min_table_sizes (counter v);
       sizes \<leftarrow> upd_o (m_table_sizes (dec v)) (counter v) (b + base);
       (let r = (dec v)\<lparr>m_table_sizes := sizes\<rparr>
        in if counter v + 1 < 3 then go (St 11) (v\<lparr>dec := r, counter := counter v + 1\<rparr>)
           else go Code_sizes (v\<lparr>counter := 0,
             dec := r\<lparr>m_code_size_2 := replicate (length (m_code_size_2 r)) 0\<rparr>\<rparr>))
     }))"
  proof (rule get_bits_ok [OF inv pc n(2)])
    fix b :: nat and w
    assume b: "b < 2 ^ n" and nb: "n \<le> num_bits v" and w: "w = v\<lparr>bit_buf := drop_bit n (bit_buf v), num_bits := num_bits v - n\<rparr>"
    define sizes where "sizes = (m_table_sizes (dec v))[c := b + s_min_table_sizes ! c]"
    define r where "r = (dec v)\<lparr>m_table_sizes := sizes\<rparr>"
    have left: "bits_left e w < bits_left e v" using nb n(1) by (simp add: w bits_left_def)
    have rd: "nth_o s_min_table_sizes c = Some (s_min_table_sizes ! c)" using c(1) by (auto simp: nth_o_def less3 s_min_table_sizes_def)
    have wr: "upd_o (m_table_sizes (dec v)) c (b + s_min_table_sizes ! c) = Some sizes" using c(1) sz by (simp add: upd_o_def sizes_def)
    have shape: "decomp_shape r" using invD(2) [OF inv] by (simp add: r_def sizes_def decomp_shape_def)
    have new: "\<forall>i < c + 1. size_ok r i"
      using c(3) size_read [OF c(1) b [unfolded n_def]] sz c(1) by (auto simp: size_ok_def r_def sizes_def nth_list_update less_Suc_eq)
    have base: "base_inv e (w\<lparr>dec := r'\<rparr>)" if "decomp_shape r'" for r'
      using invD [OF inv] that by (simp add: base_inv_def w)
    have "step_ok e v (go (St 11) (w\<lparr>dec := r, counter := c + 1\<rparr>))" if "c + 1 < 3"
      by (rule go_bits) (use that left new base [OF shape] c(2) in \<open>simp_all add: place_defs base_inv_def, simp_all add: w r_def frame_def\<close>)
    moreover have "step_ok e v (go Code_sizes (w\<lparr>counter := 0, dec := r\<lparr>m_code_size_2 := replicate (length (m_code_size_2 r)) 0\<rparr>\<rparr>))"
      if "\<not> c + 1 < 3"
    proof -
      define r' where "r' = r\<lparr>m_code_size_2 := replicate (length (m_code_size_2 r)) 0\<rparr>"
      have c2: "c = 2" using that c(1) by simp
      have shape': "decomp_shape r'" using shape by (simp add: r'_def decomp_shape_def)
      have "sizes_inv r'" using new c2 c(2) by (simp add: sizes_inv_def r'_def size_ok_def lens_below_def) (simp add: r_def)
      then have "step_ok e v (go Code_sizes (w\<lparr>counter := 0, dec := r'\<rparr>))"
        by (intro go_bits) (use left base [OF shape'] in \<open>simp_all add: pc_inv_def base_inv_def, simp_all add: w frame_def\<close>)
      then show ?thesis by (simp add: r'_def)
    qed
    moreover have cw: "counter w = c" "dec w = dec v" by (simp_all add: w c_def)
    ultimately show "step_ok e v (do {
       base \<leftarrow> nth_o s_min_table_sizes (counter w);
       sizes \<leftarrow> upd_o (m_table_sizes (dec w)) (counter w) (b + base);
       (let r = (dec w)\<lparr>m_table_sizes := sizes\<rparr>
        in if counter w + 1 < 3 then go (St 11) (w\<lparr>dec := r, counter := counter w + 1\<rparr>)
           else go Code_sizes (w\<lparr>counter := 0,
             dec := r\<lparr>m_code_size_2 := replicate (length (m_code_size_2 r)) 0\<rparr>\<rparr>))
     })"
      by (simp only: cw rd wr Option.bind.bind_lunit Let_def r_def [symmetric]) (simp split: if_split)
  qed simp
  moreover have "nth_o [5, 5, 4, 0] (counter v) = Some n" using c(1) by (simp add: nth_o_def n_def c_def)
  ultimately show ?thesis by (simp add: step_sizes_def)
qed

lemma step_code_sizes_ok:
  assumes inv: "inv e v" and pc: "pc v = Code_sizes"
  shows "step_ok e v (step_code_sizes e v)"
proof -
  have s: "sizes_inv (dec v)" using inv pc by (simp add: inv_def pc_inv_def)
  have sz: "length (m_table_sizes (dec v)) = 3" using invD(2) [OF inv] by (simp add: decomp_shape_def)
  define r where "r = (dec v)\<lparr>m_table_sizes := (m_table_sizes (dec v))[2 := 19]\<rparr>"
  have "step_ok e v (go (St 14) v)" if "counter v < m_table_sizes (dec v) ! 2"
    by (rule go_rank) (use s that invD [OF inv] pc in \<open>simp_all add: place_defs rank_def\<close>)
  moreover have "step_ok e v (go Tables (v\<lparr>dec := r\<rparr>))"
  proof (rule go_rank)
    have "tables_inv r"
      using s sz by (simp add: tables_inv_def sizes_inv_def r_def size_ok_def code_ready_def syms_max_def code_size_of_def)
    then show "pc_inv e (v\<lparr>dec := r, pc := Tables\<rparr>)" by (simp add: pc_inv_def)
  qed (use invD [OF inv] pc in \<open>simp_all add: r_def base_inv_def decomp_shape_def rank_def\<close>)
  ultimately show ?thesis using sz by (simp add: step_code_sizes_def nth_o_def upd_o_def r_def)
qed

lemma dezigzag_facts: "length s_length_dezigzag = 19" "i < 19 \<Longrightarrow> s_length_dezigzag ! i < 19"
proof -
  show l: "length s_length_dezigzag = 19" by (simp add: s_length_dezigzag_def)
  have "\<forall>x \<in> set s_length_dezigzag. x < 19" by (simp add: s_length_dezigzag_def)
  then show "i < 19 \<Longrightarrow> s_length_dezigzag ! i < 19" using l nth_mem by metis
qed

lemma step_clen14_ok:
  assumes inv: "inv e v" and pc: "pc v = St 14"
  shows "step_ok e v (step_clen14 e v)"
  unfolding step_clen14_def
proof (rule get_bits_ok [OF inv pc])
  fix b :: nat and w
  assume b: "b < 2 ^ 3" and n: "3 \<le> num_bits v" and w: "w = v\<lparr>bit_buf := drop_bit 3 (bit_buf v), num_bits := num_bits v - 3\<rparr>"
  have s: "sizes_inv (dec v)" "counter v < m_table_sizes (dec v) ! 2" using inv pc by (simp_all add: inv_def place_defs)
  then have c: "counter v < 19" by (simp add: sizes_inv_def size_ok_def syms_max_def)
  define i where "i = s_length_dezigzag ! counter v"
  define cs where "cs = (m_code_size_2 (dec v))[i := b]"
  have i: "i < 19" "nth_o s_length_dezigzag (counter w) = Some i"
    using c dezigzag_facts by (simp_all add: i_def nth_o_def w)
  have l: "length (m_code_size_2 (dec v)) = 19" using invD(2) [OF inv] by (simp add: decomp_shape_def)
  have wr: "upd_o (m_code_size_2 (dec w)) i b = Some cs" using i l by (simp add: upd_o_def cs_def w)
  have "set cs \<subseteq> insert b (set (m_code_size_2 (dec v)))" unfolding cs_def by (rule set_update_subset_insert)
  then have "lens_below 19 cs" using s(1) b l by (auto simp: sizes_inv_def lens_below_def cs_def)
  then have "sizes_inv ((dec w)\<lparr>m_code_size_2 := cs\<rparr>)" using s(1) by (simp add: sizes_inv_def size_ok_def w)
  then have "step_ok e v (go Code_sizes (w\<lparr>dec := (dec w)\<lparr>m_code_size_2 := cs\<rparr>, counter := counter w + 1\<rparr>))"
    by (intro go_bits) (use n invD [OF inv] in \<open>simp_all add: pc_inv_def, simp_all add: w base_inv_def decomp_shape_def bits_left_def cs_def\<close>)
  then show "step_ok e v (do {
     i \<leftarrow> nth_o s_length_dezigzag (counter w);
     sizes \<leftarrow> upd_o (m_code_size_2 (dec w)) i b;
     go Code_sizes (w\<lparr>dec := (dec w)\<lparr>m_code_size_2 := sizes\<rparr>, counter := counter w + 1\<rparr>)
   })" by (simp add: i(2) wr)
qed simp_all

text \<open>The loop over the types.\<close>

lemma table_ok_mono:
  assumes "table_ok lu tr n" "n \<le> m"
  shows "table_ok lu tr m"
  unfolding table_ok_def
proof (intro conjI allI)
  show "length lu = 1024" using assms(1) by (simp add: table_ok_def)
  fix bits
  from assms(1) obtain t len where "huff_lookup lu tr bits = Some (t, len) \<and> 0 \<le> t \<and> len \<le> 15 \<and>
        (if lu ! (bits AND 1023) < 0 then nat t < n \<and> 0 < len else nat t mod 512 < n \<and> (len = 0 \<longrightarrow> t = 0)) \<and>
        (\<forall>m. \<exists>f. fill_test lu tr bits m = Some f \<and> (f \<longrightarrow> len \<le> m))" unfolding table_ok_def by blast
  then show "\<exists>t len. huff_lookup lu tr bits = Some (t, len) \<and> 0 \<le> t \<and> len \<le> 15 \<and>
        (if lu ! (bits AND 1023) < 0 then nat t < m \<and> 0 < len else nat t mod 512 < m \<and> (len = 0 \<longrightarrow> t = 0)) \<and>
        (\<forall>m. \<exists>f. fill_test lu tr bits m = Some f \<and> (f \<longrightarrow> len \<le> m))"
    using assms(2) by (intro exI [of _ t] exI [of _ len]) (auto split: if_splits)
qed

definition built :: "tinfl_decompressor \<Rightarrow> int list \<Rightarrow> int list \<Rightarrow> tinfl_decompressor" where
  "built r lu tr = set_tree (r\<lparr>m_look_up := (m_look_up r)[m_type r := lu]\<rparr>) (m_type r) tr"

lemma built_facts:
  assumes "decomp_shape r" "m_type r < 3" "length lu = 1024" "length tr = 2 * syms_max (m_type r)"
  shows "decomp_shape (built r lu tr)" "m_type (built r lu tr) = m_type r"
    "size_ok (built r lu tr) t = size_ok r t" "code_ready (built r lu tr) t = code_ready r t"
    "m_len_codes (built r lu tr) = m_len_codes r"
    "t < 3 \<Longrightarrow> tab_ok (built r lu tr) t = (if t = m_type r then table_ok lu tr (syms_max t) else tab_ok r t)"
proof -
  have m: "m_type r = 0 \<or> m_type r = 1 \<or> m_type r = 2" using assms(2) by linarith
  have s: "\<forall>x \<in> set ((m_look_up r)[m_type r := lu]). length x = 1024"
    using assms(1,3) set_update_subset_insert [of "m_look_up r" "m_type r" lu] by (auto simp: decomp_shape_def)
  show "decomp_shape (built r lu tr)" using m assms(1,4) s by (auto simp: built_def set_tree_def decomp_shape_def syms_max_def)
  show "m_type (built r lu tr) = m_type r" "size_ok (built r lu tr) t = size_ok r t" "m_len_codes (built r lu tr) = m_len_codes r"
    "code_ready (built r lu tr) t = code_ready r t"
    using m by (auto simp: built_def set_tree_def size_ok_def code_ready_def code_size_of_def)
  show "t < 3 \<Longrightarrow> tab_ok (built r lu tr) t = (if t = m_type r then table_ok lu tr (syms_max t) else tab_ok r t)"
    using m assms(1) unfolding less3 by (elim disjE) (simp_all add: built_def set_tree_def tab_ok_def tree_of_def decomp_shape_def)
qed

lemma build_ready:
  assumes "decomp_shape r" "m_type r < 3" "code_ready r (m_type r)"
  shows "build_table r = Some None \<or>
    (\<exists>lu tr. build_table r = Some (Some (built r lu tr)) \<and> table_ok lu tr (syms_max (m_type r)) \<and>
      length lu = 1024 \<and> length tr = 2 * syms_max (m_type r))"
proof -
  define n where "n = m_table_sizes r ! m_type r"
  have n: "0 < n" "n \<le> syms_max (m_type r)" using assms(3) by (simp_all add: code_ready_def size_ok_def n_def)
  obtain cs where cs: "code_size_of r (m_type r) = Some cs" "\<forall>x \<in> set (take n cs). x < 16"
    using assms(3) by (auto simp: code_ready_def lens_below_def n_def)
  from build_table_total [OF assms(1,2) n_def [symmetric] n cs] show ?thesis
  proof
    assume "\<exists>lu tr. build_table r = Some (Some (set_tree (r\<lparr>m_look_up := (m_look_up r)[m_type r := lu]\<rparr>) (m_type r) tr)) \<and>
      table_ok lu tr n \<and> length tr = 2 * syms_max (m_type r)"
    then obtain lu tr where b: "build_table r = Some (Some (built r lu tr))" "table_ok lu tr n" "length tr = 2 * syms_max (m_type r)"
      unfolding built_def by blast
    moreover have "length lu = 1024" using b(2) by (simp add: table_ok_def)
    ultimately show ?thesis using table_ok_mono [OF b(2) n(2)] by blast
  qed simp
qed

lemma tables_inv_type:
  assumes "tables_inv r" "\<not> 2 ^ 31 \<le> m_type r"
  shows "m_type r < 3" "code_ready r (m_type r)"
  using assms by (auto simp: tables_inv_def split: if_splits)

lemma next_type_frame [simp]:
  "size_ok (next_type r) t = size_ok r t" "code_ready (next_type r) t = code_ready r t" "tab_ok (next_type r) t = tab_ok r t"
  "decomp_shape (next_type r) = decomp_shape r" "both_tabs (next_type r) = both_tabs r"
  by (simp_all add: next_type_def size_ok_def code_ready_def tab_ok_def both_tabs_def decomp_shape_def tree_of_def code_size_of_def)

lemma next_type_type: "m_type r = 2 \<Longrightarrow> m_type (next_type r) = 1" "m_type r = 1 \<Longrightarrow> m_type (next_type r) = 0"
  "m_type r = 0 \<Longrightarrow> m_type (next_type r) = 4294967295"
  by (simp_all add: next_type_def sub32_def)

lemma step_tables_ok:
  assumes inv: "inv e v" and pc: "pc v = Tables"
  shows "step_ok e v (step_tables e v)"
proof (cases "2 ^ 31 \<le> m_type (dec v)")
  case True
  have "tables_inv (dec v)" using inv pc by (simp add: inv_def pc_inv_def)
  then have "both_tabs (dec v)" using True by (auto simp: tables_inv_def split: if_splits)
  then have "step_ok e v (go Syms v)"
    by (intro go_rank) (use invD [OF inv] pc in \<open>simp_all add: place_defs rank_def\<close>)
  then show ?thesis using True by (simp add: step_tables_def)
next
  case False
  define r where "r = dec v"
  have t: "tables_inv r" using inv pc by (simp add: inv_def pc_inv_def r_def)
  have shape: "decomp_shape r" using invD(2) [OF inv] by (simp add: r_def)
  have type: "m_type r < 3" "code_ready r (m_type r)" using tables_inv_type [OF t] False by (simp_all add: r_def)
  have base: "base_inv e (v\<lparr>dec := r'\<rparr>)" if "decomp_shape r'" for r'
    using invD [OF inv] that by (simp add: base_inv_def)
  from build_ready [OF shape type] show ?thesis
  proof
    assume "build_table r = Some None"
    moreover have "step_ok e v (go (St 35) v)"
      by (rule go_rank) (use invD [OF inv] pc in \<open>simp_all add: place_defs rank_def\<close>)
    ultimately show ?thesis using False by (simp add: step_tables_def r_def)
  next
    assume "\<exists>lu tr. build_table r = Some (Some (built r lu tr)) \<and> table_ok lu tr (syms_max (m_type r)) \<and>
      length lu = 1024 \<and> length tr = 2 * syms_max (m_type r)"
    then obtain lu tr where b: "build_table r = Some (Some (built r lu tr))" "table_ok lu tr (syms_max (m_type r))"
      "length lu = 1024" "length tr = 2 * syms_max (m_type r)" by blast
    define r' where "r' = built r lu tr"
    note bf = built_facts [OF shape type(1) b(3,4), folded r'_def]
    have step: "step_tables e v = (if m_type r = 2 then go Lens (v\<lparr>dec := r', counter := 0\<rparr>)
        else go Tables (v\<lparr>dec := next_type r'\<rparr>))"
      using False b(1) bf(2) by (simp add: step_tables_def r_def [symmetric] r'_def [symmetric])
    show ?thesis
    proof (cases "m_type r = 2")
      case True
      have "lens_inv r' 0" using t True bf b(2) by (simp add: lens_inv_def tables_inv_def lens_below_def)
      then have "step_ok e v (go Lens (v\<lparr>dec := r', counter := 0\<rparr>))"
        by (intro go_rank) (use base [OF bf(1)] pc True in \<open>simp_all add: pc_inv_def base_inv_def rank_def lens_rank_def r_def\<close>)
      then show ?thesis by (simp add: step True)
    next
      case False
      then have m: "m_type r = 1 \<or> m_type r = 0" using type(1) by linarith
      then have "tables_inv (next_type r')"
      proof
        assume m: "m_type r = 1"
        then show ?thesis using t b(2) bf next_type_type(2) [of r'] by (simp add: tables_inv_def)
      next
        assume m: "m_type r = 0"
        then show ?thesis using t b(2) bf next_type_type(3) [of r'] by (simp add: tables_inv_def both_tabs_def)
      qed
      moreover have "rank e (v\<lparr>dec := next_type r', pc := Tables\<rparr>) < rank e v"
        using m next_type_type(2,3) [of r'] bf(2) pc by (auto simp: rank_def r_def)
      ultimately have "step_ok e v (go Tables (v\<lparr>dec := next_type r'\<rparr>))"
        by (intro go_rank) (use base [of "next_type r'"] bf(1) in \<open>simp_all add: pc_inv_def\<close>)
      then show ?thesis by (simp add: step False)
    qed
  qed
qed

text \<open>The code lengths.\<close>

lemma lens_inv_stepped: "lens_inv r n \<Longrightarrow> tab_ok r 2 \<and> size_ok r 0 \<and> size_ok r 1 \<and> m_type r = 2"
  by (simp add: lens_inv_def)

lemma sizes_sum: "lens_inv r n \<Longrightarrow> m_table_sizes r ! 0 + m_table_sizes r ! 1 \<le> 320"
  by (simp add: lens_inv_def size_ok_def syms_max_def)

text \<open>New code lengths leave the rest.\<close>

lemma lens_inv_new:
  assumes "lens_inv r n" "m \<le> 457" "lens_below m ls"
  shows "lens_inv (r\<lparr>m_len_codes := ls\<rparr>) m"
  using assms by (simp add: lens_inv_def size_ok_def tab_ok_def tree_of_def)

definition lens_split :: "nat \<Rightarrow> nat \<Rightarrow> tinfl_decompressor \<Rightarrow> tinfl_decompressor" where
  "lens_split a b r = r\<lparr>
      m_code_size_0 := take a (m_len_codes r) @ drop a (m_code_size_0 r),
      m_code_size_1 := take b (drop a (m_len_codes r)) @ drop b (m_code_size_1 r)\<rparr>"

lemma lens_copied:
  assumes lens: "lens_inv r (a + b)" and shape: "decomp_shape r" and ab: "a = m_table_sizes r ! 0" "b = m_table_sizes r ! 1"
  shows "tables_inv (next_type (lens_split a b r))" "decomp_shape (lens_split a b r)"
proof -
  have s: "0 < a" "a \<le> 288" "0 < b" "b \<le> 32" using lens by (simp_all add: lens_inv_def size_ok_def syms_max_def ab)
  have l: "length (m_len_codes r) = 457" using shape by (simp add: decomp_shape_def)
  have below: "x < 16" if "x \<in> set (take (a + b) (m_len_codes r))" for x
    using lens that by (simp add: lens_inv_def lens_below_def)
  have 0: "code_ready (lens_split a b r) 0"
    using s l below by (auto simp: lens_split_def code_ready_def size_ok_def syms_max_def code_size_of_def lens_below_def ab [symmetric] take_add simp del: One_nat_def)
  have 1: "code_ready (lens_split a b r) 1"
    using s l below by (auto simp: lens_split_def code_ready_def size_ok_def syms_max_def code_size_of_def lens_below_def ab [symmetric] take_add simp del: One_nat_def)
  have "m_type (lens_split a b r) = 2" using lens by (simp add: lens_split_def lens_inv_def)
  from next_type_type(1) [OF this] show "tables_inv (next_type (lens_split a b r))" using 0 1 by (simp add: tables_inv_def)
  show "decomp_shape (lens_split a b r)" using shape s by (simp add: lens_split_def decomp_shape_def)
qed

lemma step_lens_ok:
  assumes inv: "inv e v" and pc: "pc v = Lens"
  shows "step_ok e v (step_lens e v)"
proof -
  define a b where "a = m_table_sizes (dec v) ! 0" and "b = m_table_sizes (dec v) ! 1"
  have lens: "lens_inv (dec v) (counter v)" using inv pc by (simp add: inv_def pc_inv_def)
  have sz: "nth_o (m_table_sizes (dec v)) 0 = Some a" "nth_o (m_table_sizes (dec v)) 1 = Some b"
    using invD(2) [OF inv] by (simp_all add: decomp_shape_def nth_o_def a_def b_def)
  have ab: "a \<le> 288" "b \<le> 32" using lens by (simp_all add: lens_inv_def size_ok_def syms_max_def a_def b_def)
  have l: "length (m_code_size_0 (dec v)) = 288" "length (m_code_size_1 (dec v)) = 32" "length (m_len_codes (dec v)) = 457"
    using invD(2) [OF inv] by (simp_all add: decomp_shape_def)
  show ?thesis
  proof (cases "counter v < a + b")
    case True
    then have "step_ok e v (go (Huff 16) v)"
      by (intro go_rank) (use lens invD [OF inv] pc in
        \<open>simp_all add: pc_inv_def huff_inv_def in_lens_def rank_def huff_rank_def lens_rank_def a_def b_def\<close>)
    then show ?thesis using True by (simp add: step_lens_def sz del: One_nat_def)
  next
    case more: False
    show ?thesis
    proof (cases "a + b = counter v")
      case False
      have "step_ok e v (go (St 21) v)"
        by (rule go_rank) (use invD [OF inv] pc in \<open>simp_all add: place_defs rank_def lens_rank_def\<close>)
      then show ?thesis using False more by (simp add: step_lens_def sz del: One_nat_def)
    next
      case True
      define r where "r = lens_split a b (dec v)"
      have r: "tables_inv (next_type r)" "decomp_shape r"
        using lens_copied [of "dec v" a b] lens True invD(2) [OF inv] by (simp_all add: r_def a_def b_def)
      have "m_type r = 2" using lens by (simp add: r_def lens_split_def lens_inv_def)
      then have "m_type (next_type r) = 1" by (rule next_type_type(1))
      then have "step_ok e v (go Tables (v\<lparr>dec := next_type r\<rparr>))"
        by (intro go_rank) (use r invD [OF inv] pc in \<open>simp_all add: pc_inv_def base_inv_def rank_def lens_rank_def\<close>)
      moreover have "step_lens e v = go Tables (v\<lparr>dec := next_type r\<rparr>)"
        using True ab l by (simp add: step_lens_def sz r_def lens_split_def del: One_nat_def)
      ultimately show ?thesis by simp
    qed
  qed
qed

lemma step_repeat18_ok:
  assumes inv: "inv e v" and pc: "pc v = St 18"
  shows "step_ok e v (step_repeat18 e v)"
  unfolding step_repeat18_def
proof (rule get_bits_ok [OF inv pc])
  have at: "in_lens v" "num_extra v \<in> {2, 3, 7}" "16 \<le> dist v" "dist v \<le> 18" "dist v = 16 \<Longrightarrow> 0 < counter v"
    using inv pc by (simp_all add: inv_def place_defs)
  show "num_extra v \<le> 40" using at(2) by auto
  fix s :: nat and w
  assume s: "s < 2 ^ num_extra v" and nb: "num_extra v \<le> num_bits v"
    and w: "w = v\<lparr>bit_buf := drop_bit (num_extra v) (bit_buf v), num_bits := num_bits v - num_extra v\<rparr>"
  have "(2 :: nat) ^ num_extra v \<le> 2 ^ 7" by (rule power_increasing) (use at(2) in auto)
  then have s128: "s < 128" using s by simp
  define base where "base = [3, 3, 11, 0 :: nat] ! (dist v - 16)"
  have d: "dist v - 16 < 3" using at(3,4) by linarith
  have base: "nth_o [3, 3, 11, 0] (dist v - 16) = Some base" "base \<le> 11"
    using d by (auto simp: base_def nth_o_def less3)
  have lens: "lens_inv (dec v) (counter v)" and c: "counter v < 320"
    using at(1) sizes_sum [of "dec v" "counter v"] by (simp_all add: in_lens_def)
  define ls where "ls = m_len_codes (dec v)"
  have l: "length ls = 457" using invD(2) [OF inv] by (simp add: decomp_shape_def ls_def)
  have below: "y < 16" if "y \<in> set (take (counter v) ls)" for y
    using lens that by (simp add: lens_inv_def lens_below_def ls_def)
  define x where "x = (if dist v = 16 then ls ! (counter v - 1) else 0)"
  have x: "(if dist v = 16 then nth_o (m_len_codes (dec v)) (counter v - 1) else Some 0) = Some x"
  proof -
    have "counter v - 1 < 457" using c by linarith
    then show ?thesis using l by (simp add: x_def nth_o_def ls_def [symmetric])
  qed
  have x16: "x < 16"
  proof (cases "dist v = 16")
    case True
    then have "counter v - 1 < counter v" using at(5) by simp
    then have "ls ! (counter v - 1) \<in> set (take (counter v) ls)" using c l by (auto simp: in_set_conv_nth)
    then show ?thesis using below True by (simp add: x_def)
  qed (simp add: x_def)
  define n where "n = s + base"
  have n: "counter v + n \<le> 457" using c s128 base(2) by (simp add: n_def)
  define ls' where "ls' = take (counter v) ls @ replicate n x @ drop (counter v + n) ls"
  have "lens_below (counter v + n) ls'" using below x16 n l c by (auto simp: lens_below_def ls'_def)
  from lens_inv_new [OF lens n this] have new: "lens_inv ((dec v)\<lparr>m_len_codes := ls'\<rparr>) (counter v + n)" .
  have len': "length ls' = 457" using n l c by (simp add: ls'_def)
  have "step_ok e v (go Lens (w\<lparr>dec := (dec v)\<lparr>m_len_codes := ls'\<rparr>, counter := counter v + n\<rparr>))"
  proof (rule go_bits)
    show "bits_left e (w\<lparr>dec := (dec v)\<lparr>m_len_codes := ls'\<rparr>, counter := counter v + n\<rparr>) < bits_left e v"
      using at(2) nb by (auto simp: w bits_left_def)
  qed (use new invD [OF inv] len' in \<open>simp_all add: pc_inv_def, simp_all add: w base_inv_def decomp_shape_def\<close>)
  moreover have cw: "dist w = dist v" "dec w = dec v" "counter w = counter v" by (simp_all add: w)
  ultimately show "step_ok e v (do {
     base \<leftarrow> nth_o [3, 3, 11, 0] (dist w - 16);
     x \<leftarrow> (if dist w = 16 then nth_o (m_len_codes (dec w)) (counter w - 1) else Some 0);
     (let n = s + base; lens = m_len_codes (dec w)
      in if counter w + n \<le> length lens
         then go Lens (w\<lparr>dec := (dec w)\<lparr>m_len_codes :=
                take (counter w) lens @ replicate n x @ drop (counter w + n) lens\<rparr>,
              counter := counter w + n\<rparr>)
         else None)
   })"
    unfolding cw base(1) x Option.bind.bind_lunit
    unfolding Let_def n_def [symmetric] ls_def [symmetric]
    using n l by (simp add: ls'_def)
qed simp

end
