(* ===== verification/TinflSafe.thy ===== *)
theory TinflSafe
  imports TinflSteps
begin

unbundle bit_operations_syntax

text \<open>
  A call of \<^verbatim>\<open>tinfl_decompress\<close> always returns and stays inside its buffers, whatever the input: the remaining
  steps (symbols, matches, the end of the stream), the run, the call.
\<close>

section \<open>Decoding\<close>

lemma huff_place:
  assumes "huff_inv k v"
  shows "k = 16 \<or> k = 23 \<or> k = 26" "tab_ok (dec v) (huff_table k)"
  using assms by (auto simp: huff_inv_def huff_table_def in_lens_def lens_inv_def both_tabs_def split: if_splits)

lemma huff_inv_frame [simp]:
  "huff_inv k (v\<lparr>pc := l\<rparr>) = huff_inv k v" "huff_inv k (v\<lparr>num_bits := n\<rparr>) = huff_inv k v"
  "huff_inv k (v\<lparr>bit_buf := b\<rparr>) = huff_inv k v" "huff_inv k (v\<lparr>in_cur := i\<rparr>) = huff_inv k v"
  by (simp_all add: huff_inv_def in_lens_def)

lemma huff_rank_frame [simp]:
  "huff_rank k (v\<lparr>pc := l\<rparr>) = huff_rank k v" "huff_rank k (v\<lparr>num_bits := n\<rparr>) = huff_rank k v"
  "huff_rank k (v\<lparr>bit_buf := b\<rparr>) = huff_rank k v" "huff_rank k (v\<lparr>in_cur := i\<rparr>) = huff_rank k v"
  by (simp_all add: huff_rank_def lens_rank_def)

lemma step_huff_ok:
  assumes inv: "inv e v" and pc: "pc v = Huff k"
  shows "step_ok e v (step_huff e k v)"
proof -
  have h: "huff_inv k v" using inv pc by (simp add: inv_def pc_inv_def)
  show ?thesis
  proof (cases "15 \<le> num_bits v")
    case True
    then have "step_ok e v (go (Decode k) v)"
      by (intro go_rank) (use h invD [OF inv] pc in \<open>simp_all add: pc_inv_def bits_found_def rank_def\<close>)
    then show ?thesis using True by (simp add: step_huff_def)
  next
    case few: False
    show ?thesis
    proof (cases "length (in_buf e) < in_cur v + 2")
      case True
      then have "step_ok e v (go (Fill k) v)"
        by (intro go_rank) (use h few invD [OF inv] pc in \<open>simp_all add: pc_inv_def rank_def\<close>)
      then show ?thesis using True few by (simp add: step_huff_def)
    next
      case False
      then have rd: "rd8 (in_buf e) (in_cur v) = Some (unat (in_buf e ! in_cur v))"
          "rd8 (in_buf e) (in_cur v + 1) = Some (unat (in_buf e ! (in_cur v + 1)))" by (simp_all add: rd8_def)
      define b where "b = (bit_buf v OR u64 (push_bit (num_bits v) (unat (in_buf e ! in_cur v)))) OR
          u64 (push_bit (num_bits v + 8) (unat (in_buf e ! (in_cur v + 1))))"
      have b: "shift_in (unat (in_buf e ! in_cur v)) 8 v \<bind> shift_in (unat (in_buf e ! (in_cur v + 1))) 8 =
          Some (v\<lparr>bit_buf := b, num_bits := num_bits v + 16\<rparr>)"
        using few by (simp add: shift_in_def b_def)
      define w where "w = v\<lparr>bit_buf := b, num_bits := num_bits v + 16, in_cur := in_cur v + 2\<rparr>"
      have "step_ok e v (go (Decode k) w)"
        by (rule go_rank)
          (use h few False invD [OF inv] pc in \<open>simp_all add: w_def pc_inv_def bits_found_def rank_def base_inv_def bits_left_def\<close>)
      moreover have "step_huff e k v = do {
          v \<leftarrow> shift_in (unat (in_buf e ! in_cur v)) 8 v \<bind> shift_in (unat (in_buf e ! (in_cur v + 1))) 8;
          go (Decode k) (v\<lparr>in_cur := in_cur v + 2\<rparr>) }"
        using few False rd by (simp add: step_huff_def)
      ultimately show ?thesis by (simp only: b w_def Option.bind.bind_lunit) simp
    qed
  qed
qed

text \<open>The table of a type is read without leaving it.\<close>

lemma table_read:
  assumes "tab_ok r t" "decomp_shape r" "t < 3"
  shows "\<exists>tr temp0 temp len. nth_o (m_look_up r) t = Some (m_look_up r ! t) \<and> tree_of r t = Some tr \<and>
    nth_o (m_look_up r ! t) (bits AND (1024 - 1)) = Some temp0 \<and> huff_lookup (m_look_up r ! t) tr bits = Some (temp, len) \<and>
    0 \<le> temp \<and> len \<le> 15 \<and>
    (if temp0 < 0 then nat temp < syms_max t \<and> 0 < len else nat temp mod 512 < syms_max t \<and> (len = 0 \<longrightarrow> temp = 0)) \<and>
    (\<forall>m. \<exists>f. fill_test (m_look_up r ! t) tr bits m = Some f \<and> (f \<longrightarrow> len \<le> m))"
proof -
  obtain tr where tr: "tree_of r t = Some tr" "table_ok (m_look_up r ! t) tr (syms_max t)" using assms(1) by (auto simp: tab_ok_def)
  from tr(2) obtain temp len where l: "huff_lookup (m_look_up r ! t) tr bits = Some (temp, len)" "0 \<le> temp" "len \<le> 15"
      "if m_look_up r ! t ! (bits AND 1023) < 0 then nat temp < syms_max t \<and> 0 < len
       else nat temp mod 512 < syms_max t \<and> (len = 0 \<longrightarrow> temp = 0)"
      "\<forall>m. \<exists>f. fill_test (m_look_up r ! t) tr bits m = Some f \<and> (f \<longrightarrow> len \<le> m)" unfolding table_ok_def by blast
  have "nth_o (m_look_up r) t = Some (m_look_up r ! t)" using assms(2,3) by (simp add: decomp_shape_def nth_o_def)
  moreover have "nth_o (m_look_up r ! t) (bits AND (1024 - 1)) = Some (m_look_up r ! t ! (bits AND 1023))"
  proof -
    have "bits AND 1023 < 1024" using and_mask_less [of bits 10] by simp
    then show ?thesis using tr(2) by (simp add: table_ok_def nth_o_def)
  qed
  ultimately show ?thesis using tr(1) l by blast
qed

lemma huff_table_less [simp]: "huff_table k < 3"
  by (simp add: huff_table_def)

lemma step_fill_ok:
  assumes inv: "inv e v" and pc: "pc v = Fill k"
  shows "step_ok e v (step_fill e k v)"
proof -
  have h: "huff_inv k v" "num_bits v < 15" using inv pc by (simp_all add: inv_def pc_inv_def)
  obtain tr f where r: "nth_o (m_look_up (dec v)) (huff_table k) = Some (m_look_up (dec v) ! huff_table k)"
      "tree_of (dec v) (huff_table k) = Some tr"
      "fill_test (m_look_up (dec v) ! huff_table k) tr (bit_buf v) (num_bits v) = Some f"
    using table_read [OF huff_place(2) [OF h(1)] invD(2) [OF inv] huff_table_less, of "bit_buf v"] by blast
  have step: "step_fill e k v = go (if f then Decode k else St k) v" by (simp add: step_fill_def r)
  show ?thesis
  proof (cases f)
    case True
    then have "bits_found k (v\<lparr>pc := Decode k\<rparr>)" using r by (simp add: bits_found_def)
    then have "step_ok e v (go (Decode k) v)"
      by (intro go_rank) (use h invD [OF inv] pc in \<open>simp_all add: pc_inv_def rank_def\<close>)
    then show ?thesis using True by (simp add: step)
  next
    case False
    have "step_ok e v (go (St k) v)"
    proof (rule go_ok)
      show "pc_inv e (v\<lparr>pc := St k\<rparr>)" using h huff_place(1) [OF h(1)] by (auto simp: place_defs)
      show "(v\<lparr>pc := St k\<rparr>, v) \<in> progress e"
        by (rule progressI(4)) (use pc huff_place(1) [OF h(1)] in \<open>auto simp: rank_def missing_def\<close>)
    qed (use invD [OF inv] in simp_all)
    then show ?thesis using False by (simp add: step)
  qed
qed

lemma step_fill_byte_ok:
  assumes inv: "inv e v" and pc: "pc v = St k" and k: "k = 16 \<or> k = 23 \<or> k = 26"
  shows "step_ok e v (step_fill_byte e k v)"
  unfolding step_fill_byte_def
proof (rule get_byte_ok [OF inv pc])
  fix c :: nat
  assume room: "in_cur v < length (in_buf e)"
  have h: "huff_inv k v" "num_bits v < 15" using inv pc k by (auto simp: inv_def place_defs)
  define w where "w = v\<lparr>in_cur := in_cur v + 1, bit_buf := bit_buf v OR u64 (push_bit (num_bits v) c), num_bits := num_bits v + 8\<rparr>"
  have base: "base_inv e w" using invD [OF inv] room h(2) by (simp add: base_inv_def w_def)
  have hw: "huff_inv k w" using h(1) by (simp add: w_def)
  have left: "bits_left e w = bits_left e v" using room by (simp add: w_def bits_left_def)
  have "step_ok e v (go (if num_bits w < 15 then Fill k else Decode k) w)"
  proof (cases "num_bits w < 15")
    case True
    have "step_ok e v (go (Fill k) w)"
    proof (rule go_ok [OF base])
      show "pc_inv e (w\<lparr>pc := Fill k\<rparr>)" using hw True by (simp add: pc_inv_def)
      show "(w\<lparr>pc := Fill k\<rparr>, v) \<in> progress e"
        by (rule progressI(4)) (use left pc k True in \<open>auto simp: rank_def missing_def w_def\<close>)
    qed (simp add: w_def)
    then show ?thesis using True by simp
  next
    case False
    have "step_ok e v (go (Decode k) w)"
      by (rule go_rank [OF base]) (use hw False left pc k in \<open>auto simp: pc_inv_def bits_found_def rank_def w_def\<close>)
    then show ?thesis using False by simp
  qed
  then show "step_ok e v (do {
     v \<leftarrow> shift_in c 8 (v\<lparr>in_cur := in_cur v + 1\<rparr>);
     go (if num_bits v < 15 then Fill k else Decode k) v
   })" using h(2) by (simp add: shift_in_def w_def)
qed

lemma drop_bits_ok:
  assumes "n \<le> num_bits v" "num_bits v < 64"
  shows "drop_bits n v = Some (v\<lparr>bit_buf := drop_bit n (bit_buf v), num_bits := num_bits v - n\<rparr>)"
proof -
  have "sub32 (num_bits v) n = num_bits v - n" by (rule sub32_le) (use assms in simp_all)
  then show ?thesis using assms by (simp add: drop_bits_def)
qed

lemma in_lens_less: "in_lens v \<Longrightarrow> counter v < 320"
  using sizes_sum [of "dec v" "counter v"] by (simp add: in_lens_def)

lemma step_len_sym_ok:
  assumes inv: "inv e v" and pc: "pc v = Decode 16" and w: "w = v\<lparr>bit_buf := b, num_bits := n, dist := sy\<rparr>" and n: "n \<le> num_bits v"
    and sy: "sy < 19"
  shows "step_ok e v (step_len_sym e w)"
proof -
  have at: "in_lens v" using inv pc by (simp add: inv_def pc_inv_def huff_inv_def)
  then have lens: "lens_inv (dec v) (counter v)" by (simp add: in_lens_def)
  have c: "counter v < 320" by (rule in_lens_less [OF at])
  have l: "length (m_len_codes (dec v)) = 457" using invD(2) [OF inv] by (simp add: decomp_shape_def)
  have base: "base_inv e w" using invD [OF inv] n by (simp add: base_inv_def w)
  have left: "bits_left e w \<le> bits_left e v" using n by (simp add: bits_left_def w)
  have rk: "rank e v = 17 + 8 * (457 - counter v)" using pc by (simp add: rank_def huff_rank_def lens_rank_def)
  show ?thesis
  proof (cases "sy < 16")
    case True
    define ls where "ls = (m_len_codes (dec v))[counter v := sy]"
    have "take (counter v + 1) ls = take (counter v) (m_len_codes (dec v)) @ [sy]"
      using c l by (simp add: ls_def take_Suc_conv_app_nth)
    then have "lens_below (counter v + 1) ls" using lens True by (auto simp: lens_inv_def lens_below_def)
    from lens_inv_new [OF lens _ this] have new: "lens_inv ((dec v)\<lparr>m_len_codes := ls\<rparr>) (counter v + 1)" using c by simp
    have "step_ok e v (go Lens (w\<lparr>dec := (dec w)\<lparr>m_len_codes := ls\<rparr>, counter := counter w + 1\<rparr>))"
      by (rule go_rank) (use new base left rk c in
        \<open>simp_all add: pc_inv_def base_inv_def decomp_shape_def ls_def rank_def lens_rank_def, simp_all add: w\<close>)
    then show ?thesis using True c l by (simp add: step_len_sym_def w upd_o_def ls_def)
  next
    case False
    have stop: "step_ok e v (go (St 17) w)"
      by (rule go_rank) (use base left rk in \<open>simp_all add: place_defs rank_def, simp_all add: w\<close>)
    define x where "x = [2, 3, 7, 0 :: nat] ! (sy - 16)"
    have d: "sy - 16 < 3" using sy by linarith
    have x: "nth_o [2, 3, 7, 0] (sy - 16) = Some x" "x \<in> {2, 3, 7}" using d by (auto simp: x_def nth_o_def less3)
    have "step_ok e v (go (St 18) (w\<lparr>num_extra := x\<rparr>))" if "\<not> (sy = 16 \<and> counter v = 0)"
      by (rule go_rank) (use that at x(2) sy False base left rk in
        \<open>auto simp: place_defs rank_def base_inv_def in_lens_def w\<close>)
    then show ?thesis using False stop x(1) by (auto simp: step_len_sym_def w)
  qed
qed

lemma sub_mod_512: "x AND 511 = x mod (512 :: nat)"
  using take_bit_eq_mask [of 9 x] by (simp add: mask_eq_exp_minus_1 take_bit_eq_mod)

lemma bit_256: "x AND 256 \<noteq> 0 \<longleftrightarrow> 256 \<le> x mod (512 :: nat)"
proof -
  have "x AND 2 ^ 8 = 0 \<longleftrightarrow> \<not> bit x 8" by (rule and_exp_eq_0_iff_not_bit)
  moreover have "bit x 8 \<longleftrightarrow> odd (x div 256)" by (simp add: bit_iff_odd)
  moreover have "odd (x div 256) \<longleftrightarrow> 256 \<le> x mod 512"
  proof -
    define m r where "m = x div 256 mod 2" and "r = x mod 256"
    have "x mod (256 * 2) = 256 * m + r" unfolding m_def r_def by (rule mod_mult2_eq)
    moreover have "r < 256" "m < 2" by (simp_all add: r_def m_def)
    moreover have "odd (x div 256) \<longleftrightarrow> m = 1" by (simp add: m_def odd_iff_mod_2_eq_one)
    ultimately show ?thesis by auto
  qed
  ultimately show ?thesis by simp
qed

lemma step_decode_ok:
  assumes inv: "inv e v" and pc: "pc v = Decode k"
  shows "step_ok e v (step_decode e k v)"
proof -
  have h: "huff_inv k v" "bits_found k v" using inv pc by (simp_all add: inv_def pc_inv_def)
  obtain tr temp0 temp len where r: "nth_o (m_look_up (dec v)) (huff_table k) = Some (m_look_up (dec v) ! huff_table k)"
      "tree_of (dec v) (huff_table k) = Some tr"
      "nth_o (m_look_up (dec v) ! huff_table k) (bit_buf v AND (1024 - 1)) = Some temp0"
      "huff_lookup (m_look_up (dec v) ! huff_table k) tr (bit_buf v) = Some (temp, len)" "0 \<le> temp" "len \<le> 15"
      "if temp0 < 0 then nat temp < syms_max (huff_table k) \<and> 0 < len
       else nat temp mod 512 < syms_max (huff_table k) \<and> (len = 0 \<longrightarrow> temp = 0)"
      "\<forall>m. \<exists>f. fill_test (m_look_up (dec v) ! huff_table k) tr (bit_buf v) m = Some f \<and> (f \<longrightarrow> len \<le> m)"
    using table_read [OF huff_place(2) [OF h(1)] invD(2) [OF inv] huff_table_less, of "bit_buf v"] by blast
  have len: "len \<le> num_bits v"
  proof (cases "15 \<le> num_bits v")
    case False
    then have "fill_test (m_look_up (dec v) ! huff_table k) tr (bit_buf v) (num_bits v) = Some True"
      using h(2) r(2) by (simp add: bits_found_def)
    moreover obtain f where "fill_test (m_look_up (dec v) ! huff_table k) tr (bit_buf v) (num_bits v) = Some f"
      "f \<longrightarrow> len \<le> num_bits v" using r(8) by blast
    ultimately show ?thesis by simp
  qed (use r(6) in simp)
  define sy where "sy = (if 0 \<le> temp0 then nat temp AND 511 else nat temp)"
  have sy: "sy < syms_max (huff_table k)" "len = 0 \<Longrightarrow> sy = 0"
    using r(5,7) by (auto simp: sy_def sub_mod_512 split: if_splits)
  define w where "w = v\<lparr>bit_buf := drop_bit len (bit_buf v), num_bits := num_bits v - len\<rparr>"
  have drop: "drop_bits len v = Some w" using drop_bits_ok [OF len invD(3) [OF inv]] by (simp add: w_def)
  have step: "step_decode e k v = (if k = 16 then step_len_sym e (w\<lparr>dist := sy\<rparr>)
         else if k = 23 then go (if 256 \<le> sy then Match_len else St 24) (w\<lparr>counter := sy\<rparr>)
         else go Match_dist (w\<lparr>dist := sy\<rparr>))"
    by (simp only: step_decode_def r(1-4) Option.bind.bind_lunit prod.case drop sy_def [symmetric] Let_def)
  have left: "bits_left e w \<le> bits_left e v" "0 < len \<Longrightarrow> bits_left e w < bits_left e v" using len by (simp_all add: bits_left_def w_def)
  have base: "base_inv e w" using invD [OF inv] by (simp add: base_inv_def w_def)
  from huff_place(1) [OF h(1)] show ?thesis
  proof (elim disjE)
    assume k: "k = 16"
    have "w\<lparr>dist := sy\<rparr> = v\<lparr>bit_buf := drop_bit len (bit_buf v), num_bits := num_bits v - len, dist := sy\<rparr>" by (simp add: w_def)
    from step_len_sym_ok [OF inv _ this] show ?thesis using pc sy(1) by (simp add: step [unfolded k] k huff_table_def syms_max_def)
  next
    assume k: "k = 23"
    have tabs: "both_tabs (dec w)" using h(1) by (simp add: huff_inv_def k w_def)
    have sy2: "sy < 288" using sy(1) by (simp add: k huff_table_def syms_max_def)
    have "step_ok e v (go Match_len (w\<lparr>counter := sy\<rparr>))" if "256 \<le> sy"
    proof (rule go_bits)
      have "0 < len" using sy(2) that by (cases len) simp_all
      then show "bits_left e (w\<lparr>counter := sy\<rparr>) < bits_left e v" using left(2) by simp
    qed (use that sy2 tabs base in \<open>simp_all add: pc_inv_def base_inv_def sub_mod_512, simp_all add: w_def\<close>)
    moreover have "step_ok e v (go (St 24) (w\<lparr>counter := sy\<rparr>))"
      by (rule go_rank) (use tabs base left(1) pc k in \<open>simp_all add: place_defs base_inv_def rank_def huff_rank_def, simp_all add: w_def\<close>)
    ultimately show ?thesis by (simp add: step [unfolded k] k)
  next
    assume k: "k = 26"
    have tabs: "both_tabs (dec w)" using h(1) by (simp add: huff_inv_def k w_def)
    have "sy < 32" using sy(1) by (simp add: k huff_table_def syms_max_def)
    then have "step_ok e v (go Match_dist (w\<lparr>dist := sy\<rparr>))"
      by (intro go_rank) (use tabs base left(1) pc k in \<open>simp_all add: pc_inv_def base_inv_def rank_def huff_rank_def, simp_all add: w_def\<close>)
    then show ?thesis by (simp add: step [unfolded k] k)
  qed
qed

section \<open>Literals and matches\<close>

lemma step_lit24_ok:
  assumes inv: "inv e v" and pc: "pc v = St 24"
  shows "step_ok e v (put_byte e 24 (counter v) v (go Syms))"
proof (rule put_byte_ok [OF inv pc])
  fix w ob
  assume w: "w = v\<lparr>out_buf := ob, out_cur := out_cur v + 1\<rparr>" "base_inv e w" "frame v w" "out_cur v < out_cur w"
  have "both_tabs (dec v)" using inv pc by (simp add: inv_def place_defs)
  then show "step_ok e v (go Syms w)"
    by (intro go_out [OF w(2) _ w(3)]) (use w(1) in \<open>simp_all add: pc_inv_def\<close>)
qed

text \<open>A literal or length symbol of the fast path.\<close>

lemma fast_symbol:
  assumes tabs: "both_tabs (dec v)" and shape: "decomp_shape (dec v)"
  shows "\<exists>temp len. nth_o (m_look_up (dec v)) 0 = Some (m_look_up (dec v) ! 0) \<and>
    huff_lookup (m_look_up (dec v) ! 0) (m_tree_0 (dec v)) bits = Some (temp, len) \<and> len \<le> 15 \<and> nat temp mod 512 < 288"
proof -
  have "tab_ok (dec v) 0" using tabs by (simp add: both_tabs_def)
  from table_read [OF this shape zero_less_numeral, of bits] obtain tr temp0 temp len where
      r: "nth_o (m_look_up (dec v)) 0 = Some (m_look_up (dec v) ! 0)" "tree_of (dec v) 0 = Some tr"
      "huff_lookup (m_look_up (dec v) ! 0) tr bits = Some (temp, len)" "len \<le> 15"
      "if temp0 < (0 :: int) then nat temp < syms_max 0 \<and> 0 < len else nat temp mod 512 < syms_max 0 \<and> (len = 0 \<longrightarrow> temp = 0)"
    by blast
  have "nat temp mod 512 < 288"
    using r(5) mod_less_eq_dividend [of "nat temp" 512] by (simp add: syms_max_def split: if_splits)
  moreover have "tr = m_tree_0 (dec v)" using r(2) by (simp add: tree_of_def)
  ultimately show ?thesis using r(1,3,4) by blast
qed

lemma fast_refill_ok:
  assumes inv: "inv e v" and room: "in_cur v + 4 \<le> length (in_buf e)"
  shows "\<exists>b n i. fast_refill e v = Some (v\<lparr>bit_buf := b, num_bits := n, in_cur := i\<rparr>) \<and> 30 \<le> n \<and> n < 64 \<and>
    i \<le> length (in_buf e) \<and> bits_left e (v\<lparr>bit_buf := b, num_bits := n, in_cur := i\<rparr>) = bits_left e v"
proof (cases "num_bits v < 30")
  case True
  define b where "b = bit_buf v OR u64 (push_bit (num_bits v) (le32 (in_buf e) (in_cur v)))"
  have "fast_refill e v = Some (v\<lparr>bit_buf := b, num_bits := num_bits v + 32, in_cur := in_cur v + 4\<rparr>)"
    using True room by (simp add: fast_refill_def shift_in_def b_def rd32_eq)
  then show ?thesis using True room
    by (intro exI [of _ b] exI [of _ "num_bits v + 32"] exI [of _ "in_cur v + 4"]) (simp add: bits_left_def)
next
  case False
  have "v = v\<lparr>bit_buf := bit_buf v, num_bits := num_bits v, in_cur := in_cur v\<rparr>" by simp
  then have "fast_refill e v = Some (v\<lparr>bit_buf := bit_buf v, num_bits := num_bits v, in_cur := in_cur v\<rparr>)"
    using False by (simp add: fast_refill_def)
  then show ?thesis using False invD [OF inv]
    by (intro exI [of _ "bit_buf v"] exI [of _ "num_bits v"] exI [of _ "in_cur v"]) simp
qed

lemma step_fast_ok:
  assumes inv: "inv e v" and pc: "pc v = Syms" and room: "in_cur v + 4 \<le> length (in_buf e)" "out_cur v + 2 \<le> out_end e"
  shows "step_ok e v (step_fast e v)"
proof -
  have tabs: "both_tabs (dec v)" using inv pc by (simp add: inv_def pc_inv_def)
  note shape = invD(2) [OF inv]
  obtain b n i where fr: "fast_refill e v = Some (v\<lparr>bit_buf := b, num_bits := n, in_cur := i\<rparr>)" "30 \<le> n" "n < 64"
      "i \<le> length (in_buf e)" "bits_left e (v\<lparr>bit_buf := b, num_bits := n, in_cur := i\<rparr>) = bits_left e v"
    using fast_refill_ok [OF inv room(1)] by blast
  obtain t l where s1: "nth_o (m_look_up (dec v)) 0 = Some (m_look_up (dec v) ! 0)"
      "huff_lookup (m_look_up (dec v) ! 0) (m_tree_0 (dec v)) b = Some (t, l)" "l \<le> 15" "nat t mod 512 < 288"
    using fast_symbol [OF tabs shape, of b] by blast
  define b' where "b' = drop_bit l b"
  define v2 where "v2 = v\<lparr>bit_buf := b', num_bits := n - l, in_cur := i, counter := nat t\<rparr>"
  have d1: "drop_bits l (v\<lparr>bit_buf := b, num_bits := n, in_cur := i, counter := nat t\<rparr>) = Some v2"
    by (subst drop_bits_ok) (use s1(3) fr(2,3) in \<open>simp_all add: v2_def b'_def\<close>)
  obtain t2 l2 where s2: "huff_lookup (m_look_up (dec v) ! 0) (m_tree_0 (dec v)) b' = Some (t2, l2)" "l2 \<le> 15" "nat t2 mod 512 < 288"
    using fast_symbol [OF tabs shape, of b'] by blast
  define v3 where "v3 = v2\<lparr>bit_buf := drop_bit l2 b', num_bits := n - l - l2\<rparr>"
  have d2: "drop_bits l2 v2 = Some v3"
    by (subst drop_bits_ok) (use s1(3) s2(2) fr(2,3) in \<open>simp_all add: v2_def v3_def\<close>)
  have base: "base_inv e v2" "base_inv e v3" using invD [OF inv] fr(3,4) by (simp_all add: base_inv_def v2_def v3_def)
  have left: "bits_left e v2 = bits_left e v - l" "bits_left e v3 = bits_left e v - l - l2" "30 \<le> bits_left e v"
    using fr(2,5) s1(3) s2(2) by (simp_all add: bits_left_def v2_def v3_def)
  have tabs2: "both_tabs (dec v2)" "both_tabs (dec v3)" using tabs by (simp_all add: v2_def v3_def)
  define o1 where "o1 = (out_buf v)[out_cur v := word_of_nat (nat t)]"
  define o2 where "o2 = o1[out_cur v + 1 := word_of_nat (nat t2)]"
  have wr: "upd_o (out_buf v3) (out_cur v3) (word_of_nat (counter v3)) = Some o1"
      "upd_o o1 (out_cur v3 + 1) (word_of_nat (nat t2)) = Some o2"
    using room(2) invD [OF inv] by (simp_all add: upd_o_def o1_def o2_def v3_def v2_def)
  have stop40: "step_ok e v (go (St 40) v2)"
    by (rule go_rank [OF base(1)]) (use pc left in \<open>simp_all add: place_defs rank_def v2_def\<close>)
  have m1: "step_ok e v (go Match_len v2)" if "counter v2 AND 256 \<noteq> 0" "l \<noteq> 0"
    by (rule go_bits [OF base(1)])
      (use that s1(4) left tabs2 bit_256 [of "counter v2"] in \<open>simp_all add: pc_inv_def sub_mod_512, simp_all add: v2_def\<close>)
  have stop54: "step_ok e v (go (St 54) v3)" if "l \<noteq> 0"
    by (rule go_bits [OF base(2)]) (use that left in \<open>simp_all add: place_defs, simp_all add: v3_def v2_def\<close>)
  have m2: "step_ok e v (go Match_len (v3\<lparr>out_buf := o1, out_cur := out_cur v3 + 1, counter := nat t2\<rparr>))"
    if "nat t2 AND 256 \<noteq> 0" "l \<noteq> 0"
    by (rule go_bits) (use that s2(3) left tabs2 bit_256 [of "nat t2"] base(2) room(2) in
      \<open>simp_all add: pc_inv_def sub_mod_512 base_inv_def, simp_all add: v3_def v2_def o1_def frame_def\<close>)
  have lits: "step_ok e v (go Syms (v3\<lparr>out_buf := o2, out_cur := out_cur v3 + 2\<rparr>))" if "l \<noteq> 0"
    by (rule go_bits) (use that left tabs2 base(2) room(2) in
      \<open>simp_all add: pc_inv_def base_inv_def, simp_all add: v3_def v2_def o1_def o2_def frame_def\<close>)
  have v2: "dec v2 = dec v" "bit_buf v2 = b'" by (simp_all add: v2_def)
  have vi: "dec (v\<lparr>bit_buf := b, num_bits := n, in_cur := i\<rparr>) = dec v" "bit_buf (v\<lparr>bit_buf := b, num_bits := n, in_cur := i\<rparr>) = b"
    by simp_all
  have "step_fast e v =
     (if l = 0 then go (St 40) v2
      else if counter v2 AND 256 \<noteq> 0 then go Match_len v2
      else if l2 = 0 then go (St 54) v3
      else if nat t2 AND 256 \<noteq> 0
        then go Match_len (v3\<lparr>out_buf := o1, out_cur := out_cur v3 + 1, counter := nat t2\<rparr>)
      else go Syms (v3\<lparr>out_buf := o2, out_cur := out_cur v3 + 2\<rparr>))"
    by (simp only: step_fast_def fr(1) Option.bind.bind_lunit vi s1(1,2) prod.case d1 v2 s2(1) d2 wr)
  then show ?thesis using stop40 m1 stop54 m2 lits by simp
qed

lemma step_syms_ok:
  assumes inv: "inv e v" and pc: "pc v = Syms"
  shows "step_ok e v (step_syms e v)"
proof (cases "length (in_buf e) < in_cur v + 4 \<or> out_end e < out_cur v + 2")
  case True
  have "both_tabs (dec v)" using inv pc by (simp add: inv_def pc_inv_def)
  then have "step_ok e v (go (Huff 23) v)"
    by (intro go_rank) (use invD [OF inv] pc in \<open>simp_all add: pc_inv_def huff_inv_def rank_def huff_rank_def\<close>)
  then show ?thesis using True by (simp add: step_syms_def)
next
  case False
  then have "step_ok e v (step_fast e v)" by (intro step_fast_ok [OF inv pc]) linarith+
  then show ?thesis using False by (simp add: step_syms_def)
qed

lemma length_tables: "length s_length_extra = 31" "length s_length_base = 31" "length s_dist_extra = 32" "length s_dist_base = 32"
  "i < 31 \<Longrightarrow> s_length_extra ! i \<le> 13" "i < 32 \<Longrightarrow> s_dist_extra ! i \<le> 13"
proof -
  show l: "length s_length_extra = 31" "length s_length_base = 31" "length s_dist_extra = 32" "length s_dist_base = 32"
    by (simp_all add: s_length_extra_def s_length_base_def s_dist_extra_def s_dist_base_def)
  have "\<forall>x \<in> set s_length_extra. x \<le> 13" "\<forall>x \<in> set s_dist_extra. x \<le> 13"
    by (simp_all add: s_length_extra_def s_dist_extra_def)
  then show "i < 31 \<Longrightarrow> s_length_extra ! i \<le> 13" "i < 32 \<Longrightarrow> s_dist_extra ! i \<le> 13" using l nth_mem by metis+
qed

lemma step_match_len_ok:
  assumes inv: "inv e v" and pc: "pc v = Match_len"
  shows "step_ok e v (step_match_len e v)"
proof -
  define c where "c = counter v AND 511"
  have at: "both_tabs (dec v)" "256 \<le> c" "c < 288" using inv pc by (simp_all add: inv_def pc_inv_def c_def)
  show ?thesis
  proof (cases "c = 256")
    case True
    have "step_ok e v (go Block_end (v\<lparr>counter := c\<rparr>))"
      by (rule go_rank) (use invD [OF inv] pc in \<open>simp_all add: pc_inv_def base_inv_def rank_def\<close>)
    then show ?thesis using True by (simp add: step_match_len_def c_def)
  next
    case False
    then have i: "c - 257 < 31" "256 < c" using at(2,3) by linarith+
    define x where "x = s_length_extra ! (c - 257)"
    define y where "y = s_length_base ! (c - 257)"
    have x: "nth_o s_length_extra (c - 257) = Some x" "nth_o s_length_base (c - 257) = Some y" "x \<le> 13"
      using i length_tables by (simp_all add: nth_o_def x_def y_def)
    have "step_ok e v (go (if x \<noteq> 0 then St 25 else Huff 26) (v\<lparr>num_extra := x, counter := y\<rparr>))"
      by (rule go_rank) (use at(1) x(3) invD [OF inv] pc in
        \<open>simp_all add: place_defs huff_inv_def base_inv_def rank_def huff_rank_def\<close>)
    then show ?thesis using False i(2) x by (simp add: step_match_len_def c_def [symmetric] Let_def)
  qed
qed

lemma step_len25_ok:
  assumes inv: "inv e v" and pc: "pc v = St 25"
  shows "step_ok e v (step_len25 e v)"
  unfolding step_len25_def
proof (rule get_bits_ok [OF inv pc])
  have at: "both_tabs (dec v)" "num_extra v \<le> 13" using inv pc by (simp_all add: inv_def place_defs)
  then show "num_extra v \<le> 40" by simp
  fix b w
  assume "num_extra v \<le> num_bits v" "w = v\<lparr>bit_buf := drop_bit (num_extra v) (bit_buf v), num_bits := num_bits v - num_extra v\<rparr>"
  then show "step_ok e v (go (Huff 26) (w\<lparr>counter := counter w + b\<rparr>))"
    by (intro go_rank) (use at(1) invD [OF inv] pc in
      \<open>simp_all add: pc_inv_def huff_inv_def base_inv_def rank_def huff_rank_def bits_left_def\<close>)
qed simp

lemma step_match_dist_ok:
  assumes inv: "inv e v" and pc: "pc v = Match_dist"
  shows "step_ok e v (step_match_dist e v)"
proof -
  have at: "both_tabs (dec v)" "dist v < 32" using inv pc by (simp_all add: inv_def pc_inv_def)
  define x where "x = s_dist_extra ! dist v"
  define y where "y = s_dist_base ! dist v"
  have x: "nth_o s_dist_extra (dist v) = Some x" "nth_o s_dist_base (dist v) = Some y" "x \<le> 13"
    using at(2) length_tables by (simp_all add: nth_o_def x_def y_def)
  have "step_ok e v (go (if x \<noteq> 0 then St 27 else Match_copy) (v\<lparr>num_extra := x, dist := y\<rparr>))"
    by (rule go_rank) (use at(1) x(3) invD [OF inv] pc in \<open>simp_all add: place_defs base_inv_def rank_def\<close>)
  then show ?thesis by (simp add: step_match_dist_def x)
qed

lemma step_dist27_ok:
  assumes inv: "inv e v" and pc: "pc v = St 27"
  shows "step_ok e v (step_dist27 e v)"
  unfolding step_dist27_def
proof (rule get_bits_ok [OF inv pc])
  have at: "both_tabs (dec v)" "num_extra v \<le> 13" using inv pc by (simp_all add: inv_def place_defs)
  then show "num_extra v \<le> 40" by simp
  fix b w
  assume "num_extra v \<le> num_bits v" "w = v\<lparr>bit_buf := drop_bit (num_extra v) (bit_buf v), num_bits := num_bits v - num_extra v\<rparr>"
  then show "step_ok e v (go Match_copy (w\<lparr>dist := dist w + b\<rparr>))"
    by (intro go_rank) (use at(1) invD [OF inv] pc in \<open>simp_all add: pc_inv_def base_inv_def rank_def bits_left_def\<close>)
qed simp

section \<open>The copy and the end\<close>

lemma copy_match_frame:
  "src + n \<le> length buf \<Longrightarrow> dst + n \<le> length buf \<Longrightarrow>
    \<exists>b. copy_match buf dst src n = Some b \<and> length b = length buf \<and> (\<forall>j. j < dst \<or> dst + n \<le> j \<longrightarrow> b ! j = buf ! j)"
proof (induction buf dst src n rule: copy_match.induct)
  case (1 buf dst src n)
  define b1 where "b1 = buf[dst := buf ! src]"
  define b2 where "b2 = b1[dst + 1 := b1 ! (src + 1)]"
  define b3 where "b3 = b2[dst + 2 := b2 ! (src + 2)]"
  have l: "length b1 = length buf" "length b2 = length buf" "length b3 = length buf" by (simp_all add: b1_def b2_def b3_def)
  have s: "nth_o buf src = Some (buf ! src)" "upd_o buf dst (buf ! src) = Some b1"
    "nth_o b1 (src + 1) = Some (b1 ! (src + 1))" "upd_o b1 (dst + 1) (b1 ! (src + 1)) = Some b2"
    "nth_o b2 (src + 2) = Some (b2 ! (src + 2))" "upd_o b2 (dst + 2) (b2 ! (src + 2)) = Some b3"
    using "1.prems" l by (simp_all add: nth_o_def upd_o_def b1_def b2_def b3_def)
  from "1.IH" [OF s] obtain b where b: "copy_match b3 (dst + 3) (src + 3) n = Some b" "length b = length buf"
      "\<forall>j. j < dst + 3 \<or> dst + 3 + n \<le> j \<longrightarrow> b ! j = b3 ! j"
    using "1.prems" l by auto
  have "b3 ! j = buf ! j" if "j < dst \<or> dst + 3 \<le> j" for j
    using that by (auto simp: b1_def b2_def b3_def)
  then show ?case using b by (simp only: copy_match.simps s Option.bind.bind_lunit) auto
qed (auto simp: nth_o_def upd_o_def)

lemma and_le: "x AND m \<le> (m :: nat)"
proof -
  have "int x AND int m \<le> int m" by (rule AND_upper2) simp
  then have "int (x AND m) \<le> int m" by (simp only: of_nat_and_eq)
  then show ?thesis by simp
qed

lemma step_match_copy_ok:
  assumes inv: "inv e v" and pc: "pc v = Match_copy"
  shows "step_ok e v (step_match_copy e v)"
proof -
  have tabs: "both_tabs (dec v)" using inv pc by (simp add: inv_def pc_inv_def)
  define w where "w = v\<lparr>dist_from_out_buf_start := out_cur v\<rparr>"
  have base: "base_inv e w" using invD [OF inv] by (simp add: base_inv_def w_def)
  have w: "both_tabs (dec w)" "bits_left e w = bits_left e v" "frame v w" "out_cur w = out_cur v"
    "counter w = counter v" "dist w = dist v" "out_buf w = out_buf v"
    using tabs by (simp_all add: w_def)
  define bad where "bad \<longleftrightarrow> (dist v = 0 \<or> out_cur v < dist v \<or> out_cur v = 0) \<and> has_flag e TINFL_FLAG_USING_NON_WRAPPING_OUTPUT_BUF"
  define src where "src = sub64 (out_cur v) (dist v) AND out_mask e"
  define n where "n = counter v"
  have step: "step_match_copy e v = (if bad then go (St 37) w
      else if out_end e < max (out_cur v) src + n then go Slow_copy w
      else do {
        o' \<leftarrow> copy_match (out_buf v) (out_cur v) src n;
        go Syms (w\<lparr>out_buf := o', out_cur := out_cur v + n, counter := n mod 3\<rparr>)
      })"
    by (simp add: step_match_copy_def Let_def bad_def src_def n_def w_def)
  have fail: "step_ok e v (go (St 37) w)"
    by (rule go_rank [OF base]) (use w pc in \<open>simp_all add: place_defs rank_def\<close>)
  have slow: "step_ok e v (go Slow_copy w)" if "\<not> bad"
    by (rule go_rank [OF base]) (use w pc that in \<open>auto simp: pc_inv_def rank_def slow_ok_def bad_def w_def\<close>)
  have fast: "step_ok e v (do {
        o' \<leftarrow> copy_match (out_buf v) (out_cur v) src n;
        go Syms (w\<lparr>out_buf := o', out_cur := out_cur v + n, counter := n mod 3\<rparr>)
      })" if "\<not> out_end e < max (out_cur v) src + n"
  proof -
    have fits: "src + n \<le> length (out_buf v)" "out_cur v + n \<le> length (out_buf v)" "out_cur v + n \<le> out_end e"
      using that invD(7) [OF inv] by (simp_all add: max_def split: if_splits)
    obtain b where b: "copy_match (out_buf v) (out_cur v) src n = Some b" "length b = length (out_buf v)"
        "\<forall>j. j < out_cur v \<or> out_cur v + n \<le> j \<longrightarrow> b ! j = out_buf v ! j"
      using copy_match_frame [OF fits(1,2)] by blast
    define x where "x = w\<lparr>out_buf := b, out_cur := out_cur v + n, counter := n mod 3\<rparr>"
    have bx: "base_inv e x" using base fits(3) b(2) w(4,7) by (simp add: base_inv_def x_def)
    have fx: "frame v x" using b(2,3) by (simp add: frame_def x_def)
    have px: "pc_inv e (x\<lparr>pc := Syms\<rparr>)" using w(1) by (simp add: pc_inv_def x_def)
    have lx: "bits_left e x = bits_left e v" using w(2) by (simp add: x_def)
    have "step_ok e v (go Syms x)"
    proof (cases "n = 0")
      case True
      then show ?thesis by (intro go_rank [OF bx px fx]) (use lx pc in \<open>simp_all add: x_def rank_def\<close>)
    next
      case False
      then show ?thesis by (intro go_out [OF bx px fx lx]) (simp add: x_def)
    qed
    then show ?thesis by (simp add: b(1) x_def)
  qed
  show ?thesis using fail slow fast by (simp add: step)
qed

lemma step_slow_copy_ok:
  assumes inv: "inv e v" and pc: "pc v = Slow_copy"
  shows "step_ok e v (step_slow_copy e v)"
proof -
  have "both_tabs (dec v)" "slow_ok e v" using inv pc by (simp_all add: inv_def pc_inv_def)
  then show ?thesis
    unfolding step_slow_copy_def
    by (intro go_rank) (use invD [OF inv] pc in \<open>simp_all add: place_defs base_inv_def rank_def slow_ok_def\<close>)
qed

lemma slow_source:
  assumes env: "env_ok e" and inv: "inv e v" and slow: "slow_ok e v" and room: "out_cur v < out_end e"
  shows "sub64 (dist_from_out_buf_start v) (dist v) AND out_mask e < length (out_buf v)"
proof (cases "has_flag e TINFL_FLAG_USING_NON_WRAPPING_OUTPUT_BUF")
  case True
  then have d: "0 < dist v" "dist v \<le> out_cur v" "dist_from_out_buf_start v = out_cur v" using slow by (simp_all add: slow_ok_def)
  have "out_cur v < 2 ^ 64" using env room by (simp add: env_ok_def)
  then have s: "sub64 (dist_from_out_buf_start v) (dist v) = out_cur v - dist v" using d by (simp add: sub64_le)
  have m: "out_mask e = 2 ^ 64 - 1" using env True by (simp add: env_ok_def)
  have "(out_cur v - dist v) AND (2 ^ 64 - 1) = take_bit 64 (out_cur v - dist v)"
    by (simp only: take_bit_eq_mask mask_eq_exp_minus_1)
  also have "\<dots> \<le> out_cur v - dist v" by (rule take_bit_nat_less_eq_self)
  finally have "(out_cur v - dist v) AND (2 ^ 64 - 1) \<le> out_cur v - dist v" .
  then have "sub64 (dist_from_out_buf_start v) (dist v) AND out_mask e \<le> out_cur v - dist v" by (simp only: s m)
  then show ?thesis using room invD(7) [OF inv] by linarith
next
  case False
  then have "out_mask e < out_end e" using env room by (auto simp: env_ok_def)
  then show ?thesis
    using and_le [of "sub64 (dist_from_out_buf_start v) (dist v)" "out_mask e"] invD(7) [OF inv] by linarith
qed

lemma step_slow53_ok:
  assumes env: "env_ok e" and inv: "inv e v" and pc: "pc v = St 53"
  shows "step_ok e v (step_slow53 e v)"
proof (cases "out_end e \<le> out_cur v")
  case True
  then show ?thesis using return_ok [OF inv pc no_room [OF inv]] by (simp add: step_slow53_def)
next
  case False
  have at: "both_tabs (dec v)" "slow_ok e v" using inv pc by (simp_all add: inv_def place_defs)
  define i where "i = sub64 (dist_from_out_buf_start v) (dist v) AND out_mask e"
  have i: "i < length (out_buf v)" unfolding i_def by (rule slow_source [OF env inv at(2)]) (use False in simp)
  define ob where "ob = (out_buf v)[out_cur v := out_buf v ! i]"
  define w where "w = v\<lparr>out_buf := ob, out_cur := out_cur v + 1, dist_from_out_buf_start := u64 (dist_from_out_buf_start v + 1)\<rparr>"
  have "out_cur v + 1 < 2 ^ 64" using env False by (simp add: env_ok_def)
  then have "slow_ok e (w\<lparr>pc := Slow_copy\<rparr>)" using at(2) by (auto simp: slow_ok_def w_def)
  then have "step_ok e v (go Slow_copy w)"
    by (intro go_out) (use False at(1) invD [OF inv] in
      \<open>simp_all add: pc_inv_def, simp_all add: base_inv_def w_def ob_def frame_def\<close>)
  moreover have "upd_o (out_buf v) (out_cur v) (out_buf v ! i) = Some ob"
    using False invD(7) [OF inv] by (simp add: upd_o_def ob_def)
  ultimately show ?thesis using False i by (simp add: step_slow53_def i_def [symmetric] nth_o_def w_def)
qed

lemma step_block_end_ok:
  assumes inv: "inv e v" and pc: "pc v = Block_end"
  shows "step_ok e v (step_block_end e v)"
  unfolding step_block_end_def
  by (rule go_rank) (use invD [OF inv] pc in \<open>simp_all add: place_defs rank_def\<close>)

lemma put_back_facts:
  assumes "in_cur v \<le> length (in_buf e)"
  shows "bits_left e (put_back v) = bits_left e v" "num_bits (put_back v) \<le> num_bits v" "in_cur (put_back v) \<le> in_cur v"
    "put_back v = v\<lparr>in_cur := in_cur (put_back v), num_bits := num_bits (put_back v)\<rparr>"
proof -
  define k where "k = min (in_cur v) (num_bits v div 8)"
  have k: "k \<le> in_cur v" "8 * k \<le> num_bits v" by (auto simp: k_def)
  have p: "put_back v = v\<lparr>in_cur := in_cur v - k, num_bits := num_bits v - 8 * k\<rparr>"
    by (simp add: put_back_def k_def Let_def)
  show "bits_left e (put_back v) = bits_left e v" using k assms by (simp add: p bits_left_def)
  show "num_bits (put_back v) \<le> num_bits v" "in_cur (put_back v) \<le> in_cur v"
    "put_back v = v\<lparr>in_cur := in_cur (put_back v), num_bits := num_bits (put_back v)\<rparr>" by (simp_all add: p)
qed

lemma step_tail_ok:
  assumes inv: "inv e v" and pc: "pc v = St 32"
  shows "step_ok e v (step_tail e v)"
  unfolding step_tail_def
proof (rule get_bits_ok [OF inv pc])
  show "num_bits v AND 7 \<le> 40" using and_mask_less [of "num_bits v" 3] by simp
  fix b w
  assume w: "w = v\<lparr>bit_buf := drop_bit (num_bits v AND 7) (bit_buf v), num_bits := num_bits v - (num_bits v AND 7)\<rparr>"
  have wi: "in_cur w \<le> length (in_buf e)" "num_bits w < 64" "bits_left e w \<le> bits_left e v"
    using invD [OF inv] by (simp_all add: w bits_left_def)
  note pb = put_back_facts [OF wi(1)]
  define i n where "i = in_cur (put_back w)" and "n = num_bits (put_back w)"
  have p: "put_back w = w\<lparr>in_cur := i, num_bits := n\<rparr>" using pb(4) by (simp add: i_def n_def)
  have n: "n < 64" "i \<le> length (in_buf e)" using pb(2,3) wi by (simp_all add: n_def i_def)
  have f: "dec (put_back w) = dec v" "num_bits (put_back w) = n" "in_cur (put_back w) = i" "out_cur (put_back w) = out_cur v"
      "out_buf (put_back w) = out_buf v"
    unfolding p by (simp_all add: w)
  define x where "x = (put_back w)\<lparr>bit_buf := bit_buf (put_back w) AND (2 ^ n - 1)\<rparr>"
  have bx: "base_inv e (x\<lparr>counter := c\<rparr>)" "base_inv e x" for c
    using invD [OF inv] n by (simp_all add: x_def f base_inv_def)
  have lx: "bits_left e x \<le> bits_left e v" using pb(1) wi(3) by (simp add: x_def)
  have same: "out_buf x = out_buf v" "out_cur x = out_cur v" by (simp_all add: x_def f)
  have "step_ok e v (go Adler_bytes (x\<lparr>counter := 0\<rparr>))"
    by (rule go_rank [OF bx(1)]) (use lx same pc in \<open>simp_all add: place_defs rank_def\<close>)
  moreover have "step_ok e v (go (St 34) x)"
    by (rule go_rank [OF bx(2)]) (use lx same pc in \<open>simp_all add: place_defs rank_def\<close>)
  ultimately show "step_ok e v (let v = put_back w
     in if 64 \<le> num_bits v then None
        else let v = v\<lparr>bit_buf := bit_buf v AND (2 ^ num_bits v - 1)\<rparr>
        in if has_flag e TINFL_FLAG_PARSE_ZLIB_HEADER then go Adler_bytes (v\<lparr>counter := 0\<rparr>)
           else go (St 34) v)"
    using n(1) by (simp add: Let_def n_def [symmetric] x_def)
qed simp

lemma step_adler_bytes_ok:
  assumes inv: "inv e v" and pc: "pc v = Adler_bytes"
  shows "step_ok e v (step_adler_bytes e v)"
  unfolding step_adler_bytes_def
  by (rule go_rank) (use invD [OF inv] pc in \<open>simp_all add: place_defs rank_def\<close>)

lemma store_adler_ok:
  assumes "base_inv e w" "frame v w" "bits_left e w < bits_left e v"
  shows "step_ok e v (store_adler s w)"
  unfolding store_adler_def
  by (rule go_bits) (use assms in \<open>simp_all add: base_inv_def decomp_shape_def place_defs frame_def\<close>)

lemma step_adler41_ok:
  assumes inv: "inv e v" and pc: "pc v = St 41"
  shows "step_ok e v (get_bits e 41 8 v store_adler)"
proof (rule get_bits_ok [OF inv pc])
  fix b w
  assume "8 \<le> num_bits v" "w = v\<lparr>bit_buf := drop_bit 8 (bit_buf v), num_bits := num_bits v - 8\<rparr>"
  then show "step_ok e v (store_adler b w)"
    by (intro store_adler_ok) (use invD [OF inv] in \<open>simp_all add: base_inv_def bits_left_def\<close>)
qed simp_all

lemma step_adler42_ok:
  assumes inv: "inv e v" and pc: "pc v = St 42"
  shows "step_ok e v (get_byte e 42 v store_adler)"
  by (rule get_byte_ok [OF inv pc], rule store_adler_ok)
    (use invD [OF inv] in \<open>simp_all add: base_inv_def bits_left_def\<close>)

section \<open>Every step\<close>

lemma step_label_ok:
  assumes env: "env_ok e" and inv: "inv e v" and pc: "pc v = St k"
  shows "step_ok e v (step_label e k v)"
proof (cases "k \<in> set labels")
  case False
  then have "m_state (dec v) = k" using inv pc by (simp add: inv_def pc_inv_def label_inv_def)
  then have "v\<lparr>pc := St (m_state (dec v))\<rparr> = v" using pc by simp
  then have "step_ok e v (Some (Halt TINFL_STATUS_FAILED v))" using inv by (simp add: step_ok_def next_ok_def reason_def)
  moreover have "step_label e k v = Some (Halt TINFL_STATUS_FAILED v)"
    using False by (simp add: step_label_def labels_def)
  ultimately show ?thesis by simp
next
  case True
  note steps = step_start_ok step_zlib1_ok step_zlib2_ok step_block_ok step_skip5_ok step_raw6_ok step_raw7_ok step_out9_ok
    step_sizes_ok step_clen14_ok step_repeat18_ok step_lit24_ok step_len25_ok step_dist27_ok step_tail_ok
    step_in38_ok step_adler41_ok step_adler42_ok step_raw51_ok step_raw52_ok step_slow53_ok [OF env]
  have "step_ok e v (step_fill_byte e k v)" if "k = 16 \<or> k = 23 \<or> k = 26"
    by (rule step_fill_byte_ok [OF inv pc that])
  moreover have "step_ok e v (cr_return k TINFL_STATUS_FAILED v)" "step_ok e v (cr_return k TINFL_STATUS_DONE v)"
    by (rule return_ok [OF inv pc], simp add: reason_def)+
  moreover have "k \<in> {0, 1, 2, 3, 5, 6, 7, 9, 11, 14, 16, 23, 26, 18, 24, 25, 27, 32, 34, 38, 41, 42, 51, 52, 53} \<or>
      k \<in> {10, 17, 21, 35, 36, 37, 39, 40, 54}"
    using True by (simp add: labels_def)
  ultimately show ?thesis
    using steps [OF inv] pc unfolding insert_iff empty_iff
    by (elim disjE) (simp_all add: step_label_def)
qed

lemma tinfl_step_ok:
  assumes env: "env_ok e" and inv: "inv e v"
  shows "step_ok e v (tinfl_step e v)"
proof (cases "pc v")
  case (St k)
  then show ?thesis using step_label_ok [OF env inv] by (simp add: tinfl_step_def)
next
  case Raw_header
  then show ?thesis using step_raw_header_ok [OF inv] by (simp add: tinfl_step_def)
next
  case Raw_bits
  then show ?thesis using step_raw_bits_ok [OF inv] by (simp add: tinfl_step_def)
next
  case Raw_copy
  then show ?thesis using step_raw_copy_ok [OF inv] by (simp add: tinfl_step_def)
next
  case Code_sizes
  then show ?thesis using step_code_sizes_ok [OF inv] by (simp add: tinfl_step_def)
next
  case Tables
  then show ?thesis using step_tables_ok [OF inv] by (simp add: tinfl_step_def)
next
  case Lens
  then show ?thesis using step_lens_ok [OF inv] by (simp add: tinfl_step_def)
next
  case (Huff k)
  then show ?thesis using step_huff_ok [OF inv] by (simp add: tinfl_step_def)
next
  case (Fill k)
  then show ?thesis using step_fill_ok [OF inv] by (simp add: tinfl_step_def)
next
  case (Decode k)
  then show ?thesis using step_decode_ok [OF inv] by (simp add: tinfl_step_def)
next
  case Syms
  then show ?thesis using step_syms_ok [OF inv] by (simp add: tinfl_step_def)
next
  case Match_len
  then show ?thesis using step_match_len_ok [OF inv] by (simp add: tinfl_step_def)
next
  case Match_dist
  then show ?thesis using step_match_dist_ok [OF inv] by (simp add: tinfl_step_def)
next
  case Match_copy
  then show ?thesis using step_match_copy_ok [OF inv] by (simp add: tinfl_step_def)
next
  case Slow_copy
  then show ?thesis using step_slow_copy_ok [OF inv] by (simp add: tinfl_step_def)
next
  case Block_end
  then show ?thesis using step_block_end_ok [OF inv] by (simp add: tinfl_step_def)
next
  case Adler_bytes
  then show ?thesis using step_adler_bytes_ok [OF inv] by (simp add: tinfl_step_def)
qed

section \<open>The run and the call\<close>

lemma tinfl_run_ok:
  assumes env: "env_ok e"
  shows "inv e v \<Longrightarrow>
    \<exists>s w. tinfl_run e v = Some (s, w) \<and> inv e (w\<lparr>pc := St (m_state (dec w))\<rparr>) \<and> frame v w \<and> reason e s w"
proof (induction v rule: wf_induct_rule [OF wf_progress [of e]])
  case (1 v)
  have "step_ok e v (tinfl_step e v)" by (rule tinfl_step_ok [OF env "1.prems"])
  then obtain n where n: "tinfl_step e v = Some n" "next_ok e v n" by (auto simp: step_ok_def split: option.splits)
  show ?case
  proof (cases n)
    case (Halt s w)
    then show ?thesis using n by (subst tinfl_run.simps) (simp add: next_ok_def)
  next
    case (Go w)
    then have w: "inv e w" "frame v w" "(w, v) \<in> progress e" using n(2) by (simp_all add: next_ok_def)
    from "1.IH" [OF w(3,1)] obtain s x where "tinfl_run e w = Some (s, x)" "inv e (x\<lparr>pc := St (m_state (dec x))\<rparr>)" "frame w x" "reason e s x"
      by blast
    then show ?thesis using n(1) Go frame_trans [OF w(2)] by (subst tinfl_run.simps) simp
  qed
qed

text \<open>
  What a saved structure must satisfy to be resumed with \<open>flags\<close> at the offset \<open>next\<close> of the output buffer.
  A fresh one, of which only the array lengths are known, does after \<^verbatim>\<open>tinfl_init\<close>.
\<close>

definition saved_vars :: "tinfl_decompressor \<Rightarrow> nat \<Rightarrow> tinfl_vars" where
  "saved_vars r next = \<lparr>pc = St (m_state r), num_bits = m_num_bits r, bit_buf = m_bit_buf r, dist = m_dist r,
     counter = m_counter r, num_extra = m_num_extra r,
     dist_from_out_buf_start = m_dist_from_out_buf_start r, in_cur = 0, out_cur = next, out_buf = [], dec = r\<rparr>"

definition resumable :: "tinfl_decompressor \<Rightarrow> nat \<Rightarrow> nat \<Rightarrow> bool" where
  "resumable r next flags \<longleftrightarrow> decomp_shape r \<and> (m_state r \<noteq> 0 \<longrightarrow> m_num_bits r < 64) \<and>
     label_inv \<lparr>in_buf = [], out_next = 0, out_end = 0, out_mask = 0, decomp_flags = flags\<rparr> (m_state r) (saved_vars r next)"

lemma fresh_resumable: "decomp_shape r \<Longrightarrow> resumable (tinfl_init r) next flags"
  by (simp add: resumable_def tinfl_init_def decomp_shape_def saved_vars_def label_inv_def label_at_def labels_def)

lemma resumable_wrap:
  assumes "flags AND TINFL_FLAG_USING_NON_WRAPPING_OUTPUT_BUF = 0"
  shows "resumable r next flags = resumable r next' flags"
  using assms by (simp add: resumable_def saved_vars_def label_inv_def label_at_def huff_inv_def in_lens_def slow_ok_def has_flag_def)

text \<open>The structure \<^verbatim>\<open>common_exit\<close> saves: the invariant does not read the fields it sets.\<close>

definition saved_dec :: "nat \<Rightarrow> nat \<Rightarrow> nat \<Rightarrow> nat \<Rightarrow> nat \<Rightarrow> nat \<Rightarrow> tinfl_decompressor \<Rightarrow> tinfl_decompressor" where
  "saved_dec n b d c x f r = r\<lparr>m_num_bits := n, m_bit_buf := b, m_dist := d, m_counter := c, m_num_extra := x,
     m_dist_from_out_buf_start := f\<rparr>"

lemma saved_fields [simp]:
  "decomp_shape (saved_dec n b d c x f r) = decomp_shape r" "both_tabs (saved_dec n b d c x f r) = both_tabs r"
  "lens_inv (saved_dec n b d c x f r) m = lens_inv r m" "sizes_inv (saved_dec n b d c x f r) = sizes_inv r"
  "size_ok (saved_dec n b d c x f r) t = size_ok r t"
  by (simp_all add: saved_dec_def decomp_shape_def both_tabs_def tab_ok_def tree_of_def lens_inv_def sizes_inv_def size_ok_def)

lemma saved_values [simp]:
  "m_state (saved_dec n b d c x f r) = m_state r" "m_num_bits (saved_dec n b d c x f r) = n" "m_type (saved_dec n b d c x f r) = m_type r"
  "m_bit_buf (saved_dec n b d c x f r) = b" "m_dist (saved_dec n b d c x f r) = d" "m_counter (saved_dec n b d c x f r) = c"
  "m_num_extra (saved_dec n b d c x f r) = x" "m_dist_from_out_buf_start (saved_dec n b d c x f r) = f"
  "m_table_sizes (saved_dec n b d c x f r) = m_table_sizes r"
  by (simp_all add: saved_dec_def)

lemma checked_fields [simp]:
  "decomp_shape (r\<lparr>m_check_adler32 := a\<rparr>) = decomp_shape r" "both_tabs (r\<lparr>m_check_adler32 := a\<rparr>) = both_tabs r"
  "lens_inv (r\<lparr>m_check_adler32 := a\<rparr>) n = lens_inv r n" "sizes_inv (r\<lparr>m_check_adler32 := a\<rparr>) = sizes_inv r"
  "size_ok (r\<lparr>m_check_adler32 := a\<rparr>) t = size_ok r t"
  by (simp_all add: decomp_shape_def both_tabs_def tab_ok_def tree_of_def lens_inv_def sizes_inv_def size_ok_def)

lemma resumable_checked: "resumable (r\<lparr>m_check_adler32 := a\<rparr>) next flags = resumable r next flags"
  by (simp add: resumable_def saved_vars_def label_inv_def label_at_def huff_inv_def in_lens_def slow_ok_def)

lemma common_exit_ok:
  assumes "inv e (w\<lparr>pc := St (m_state (dec w))\<rparr>)"
  shows "\<exists>x. common_exit e s w = Some x \<and> (s = TINFL_STATUS_NEEDS_MORE_INPUT \<longrightarrow> in_cur x = in_cur w) \<and> in_cur x \<le> length (in_buf e) \<and> out_cur x = out_cur w \<and> out_buf x = out_buf w \<and>
    resumable (dec x) (out_cur w) (decomp_flags e)"
proof -
  define v where "v = (if s \<noteq> TINFL_STATUS_NEEDS_MORE_INPUT \<and> s \<noteq> TINFL_STATUS_FAILED_CANNOT_MAKE_PROGRESS then put_back w else w)"
  have base: "base_inv e w" and lab: "label_inv e (m_state (dec w)) w"
    using assms by (simp_all add: inv_def pc_inv_def label_inv_def)
  have wi: "in_cur w \<le> length (in_buf e)" "num_bits w < 64" "decomp_shape (dec w)" using base by (simp_all add: base_inv_def)
  note pb = put_back_facts [OF wi(1)]
  define i n where "i = in_cur v" and "n = num_bits v"
  have v: "v = w\<lparr>in_cur := i, num_bits := n\<rparr>" using pb(4) by (simp add: v_def i_def n_def)
  have n: "n \<le> num_bits w" "i \<le> in_cur w" using pb(2,3) by (simp_all add: v_def n_def i_def)
  define x where "x = v\<lparr>dec := saved_dec n (bit_buf v AND (2 ^ n - 1)) (dist v) (counter v) (num_extra v)
      (dist_from_out_buf_start v) (dec v)\<rparr>"
  have "common_exit e s w = Some x"
    using n(1) wi(2) by (simp add: common_exit_def v_def [symmetric] n_def [symmetric] x_def saved_dec_def Let_def)
  moreover have "s = TINFL_STATUS_NEEDS_MORE_INPUT \<longrightarrow> in_cur x = in_cur w" by (simp add: x_def v_def)
  moreover have "in_cur x \<le> length (in_buf e)" "out_cur x = out_cur w" "out_buf x = out_buf w"
    using n(2) wi(1) by (simp_all add: x_def v)
  moreover have "resumable (dec x) (out_cur w) (decomp_flags e)"
  proof -
    define y where "y = saved_vars (dec x) (out_cur w)"
    have y: "counter y = counter w" "dist y = dist w" "num_extra y = num_extra w" "num_bits y = n"
        "dist_from_out_buf_start y = dist_from_out_buf_start w" "out_cur y = out_cur w" "dec y = dec x"
      by (simp_all add: y_def saved_vars_def x_def v)
    have d: "m_state (dec x) = m_state (dec w)" "m_num_bits (dec x) = n" "decomp_shape (dec x) = decomp_shape (dec w)"
        "both_tabs (dec x) = both_tabs (dec w)" "lens_inv (dec x) c = lens_inv (dec w) c" "sizes_inv (dec x) = sizes_inv (dec w)"
        "size_ok (dec x) t = size_ok (dec w) t" "m_type (dec x) = m_type (dec w)" "m_table_sizes (dec x) = m_table_sizes (dec w)" for c t
      by (simp_all add: x_def v)
    have "label_at \<lparr>in_buf = [], out_next = 0, out_end = 0, out_mask = 0, decomp_flags = decomp_flags e\<rparr> k y = label_at e k w" for k
      by (simp only: label_at_def huff_inv_def in_lens_def slow_ok_def has_flag_def y d tinfl_env.select_convs)
    then have "label_inv \<lparr>in_buf = [], out_next = 0, out_end = 0, out_mask = 0, decomp_flags = decomp_flags e\<rparr> (m_state (dec w)) y"
      using lab n(1) unfolding label_inv_def y d by auto
    then show ?thesis using wi n(1) by (simp add: resumable_def y_def d)
  qed
  ultimately show ?thesis by blast
qed

lemma exit_adler_ok:
  "\<exists>s' r. exit_adler e s v = (s', r) \<and> (s' = s \<or> s' = TINFL_STATUS_ADLER32_MISMATCH) \<and> (r = dec v \<or> (\<exists>a. r = (dec v)\<lparr>m_check_adler32 := a\<rparr>))"
  by (auto simp: exit_adler_def Let_def)

text \<open>A fresh structure starts without bits, whatever it holds.\<close>

lemma run_fresh: "pc v = St 0 \<Longrightarrow> tinfl_run e v = tinfl_run e (v\<lparr>num_bits := 0\<rparr>)"
  by (subst (1 2) tinfl_run.simps) (simp add: tinfl_step_def step_label_def step_start_def)

lemma label_at_entry:
  "label_at e k v = label_at \<lparr>in_buf = [], out_next = 0, out_end = 0, out_mask = 0, decomp_flags = decomp_flags e\<rparr> k (v\<lparr>out_buf := ob\<rparr>)"
  by (simp add: label_at_def huff_inv_def in_lens_def slow_ok_def has_flag_def)

lemma label_at_0: "label_at e 0 v"
  by (simp add: label_at_def)

lemma tinfl_call_ok:
  assumes res: "resumable r next flags" and room: "next + out_size \<le> length buf" "length buf < 2 ^ 64"
  shows "\<exists>res. tinfl_decompress r input buf next out_size flags = Some res \<and> res_in res \<le> length input \<and>
    res_out res \<le> out_size \<and> length (res_buf res) = length buf \<and>
    (\<forall>j. j < next \<or> next + res_out res \<le> j \<longrightarrow> res_buf res ! j = buf ! j) \<and>
    (res_status res = TINFL_STATUS_NEEDS_MORE_INPUT \<longrightarrow>
      res_in res = length input \<and> flags AND TINFL_FLAG_HAS_MORE_INPUT \<noteq> 0) \<and>
    (res_status res = TINFL_STATUS_HAS_MORE_OUTPUT \<longrightarrow> res_out res = out_size) \<and>
    resumable (res_dec res) (next + res_out res) flags"
proof -
  define mask where "mask = out_buf_size_mask flags next out_size"
  show ?thesis
  proof (cases "u64 (mask + 1) AND mask \<noteq> 0")
    case True
    then show ?thesis using res by (simp add: tinfl_decompress_def Let_def mask_def)
  next
    case False
    define e where "e = \<lparr>in_buf = input, out_next = next, out_end = next + out_size, out_mask = mask, decomp_flags = flags\<rparr>"
    define v where "v = \<lparr>pc = St (m_state r), num_bits = m_num_bits r, bit_buf = m_bit_buf r, dist = m_dist r,
             counter = m_counter r, num_extra = m_num_extra r,
             dist_from_out_buf_start = m_dist_from_out_buf_start r, in_cur = 0, out_cur = next,
             out_buf = buf, dec = r\<rparr>"
    have ef: "in_buf e = input" "decomp_flags e = flags" by (simp_all add: e_def)
    have env: "env_ok e"
    proof -
      have "next + out_size = 0 \<or> sub64 (next + out_size) 1 < next + out_size"
      proof (cases "next + out_size = 0")
        case False
        then have "1 \<le> next + out_size" by linarith
        then have "sub64 (next + out_size) 1 = next + out_size - 1" by (rule sub64_le) (use room in simp)
        then show ?thesis using False by simp
      qed simp
      then show ?thesis using room by (auto simp: env_ok_def e_def mask_def out_buf_size_mask_def has_flag_def)
    qed
    define v' where "v' = (if m_state r = 0 then v\<lparr>num_bits := 0\<rparr> else v)"
    have "label_at e (m_state r) v"
      using res by (simp add: resumable_def label_inv_def saved_vars_def label_at_entry [of e _ v "[]"]) (simp add: e_def v_def)
    then have "inv e v'"
      using res room label_at_0 by (simp add: v'_def inv_def pc_inv_def label_inv_def base_inv_def v_def e_def resumable_def saved_vars_def labels_def)
    from tinfl_run_ok [OF env this] obtain s w where w: "tinfl_run e v' = Some (s, w)"
      "inv e (w\<lparr>pc := St (m_state (dec w))\<rparr>)" "frame v' w" "reason e s w" by blast
    have run: "tinfl_run e v = Some (s, w)" using w(1) run_fresh [of v e] by (simp add: v'_def v_def split: if_splits)
    have fr: "length (out_buf w) = length buf" "next \<le> out_cur w" "\<And>j. j < next \<or> out_cur w \<le> j \<Longrightarrow> out_buf w ! j = buf ! j"
      using w(3) by (auto simp: frame_def v'_def v_def split: if_splits)
    have oc: "out_cur w \<le> next + out_size" using w(2) by (simp add: inv_def base_inv_def e_def)
    obtain x where more: "s = TINFL_STATUS_NEEDS_MORE_INPUT \<longrightarrow> in_cur x = in_cur w"
      and x: "common_exit e s w = Some x" "in_cur x \<le> length input" "out_cur x = out_cur w" "out_buf x = out_buf w"
        "resumable (dec x) (out_cur w) flags"
      using common_exit_ok [OF w(2), of s] unfolding ef by blast
    obtain s' r' where st: "s' = s \<or> s' = TINFL_STATUS_ADLER32_MISMATCH" and a: "exit_adler e s x = (s', r')" "r' = dec x \<or> (\<exists>a. r' = (dec x)\<lparr>m_check_adler32 := a\<rparr>)"
      using exit_adler_ok [of e s x] by (elim exE conjE) (rule that; assumption)
    have r': "resumable r' (out_cur w) flags" using a(2) x(5) by (auto simp: resumable_checked)
    define res where "res = \<lparr>res_status = s', res_dec = r', res_in = in_cur x, res_out = out_cur w - next, res_buf = out_buf w\<rparr>"
    have "tinfl_decompress r input buf next out_size flags = Some res"
      unfolding tinfl_decompress_def Let_def mask_def [symmetric] e_def [symmetric] v_def [symmetric] run
        Option.bind.bind_lunit prod.case x(1) a(1)
      using False x(3,4) by (simp add: res_def)
    moreover have "res_status res = TINFL_STATUS_NEEDS_MORE_INPUT \<longrightarrow>
        res_in res = length input \<and> flags AND TINFL_FLAG_HAS_MORE_INPUT \<noteq> 0"
      using st more w(4) by (auto simp: reason_def e_def has_flag_def res_def)
    moreover have "res_status res = TINFL_STATUS_HAS_MORE_OUTPUT \<longrightarrow> res_out res = out_size"
      using st w(4) by (auto simp: reason_def e_def res_def)
    moreover have "res_in res \<le> length input" "res_out res \<le> out_size" "length (res_buf res) = length buf"
        "resumable (res_dec res) (next + res_out res) flags"
      using x(2) fr(1,2) oc r' by (simp_all add: res_def)
    moreover have "\<forall>j. j < next \<or> next + res_out res \<le> j \<longrightarrow> res_buf res ! j = buf ! j"
    proof (intro allI impI)
      fix j
      assume "j < next \<or> next + res_out res \<le> j"
      then have "j < next \<or> out_cur w \<le> j" using fr(2) by (auto simp: res_def)
      then show "res_buf res ! j = buf ! j" using fr(3) by (simp add: res_def)
    qed
    ultimately show ?thesis by blast
  qed
qed

section \<open>Properties\<close>

text \<open>C11. The decompressor cannot be driven out of bounds and never hangs: on a structure fresh from
  \<^verbatim>\<open>tinfl_init\<close> or left by earlier calls, whatever the input, \<^verbatim>\<open>tinfl_decompress\<close> returns, reads inside its
  tables and its input, changes nothing of the output buffer but the bytes it reports, asks for more input
  only when all of it is read and the flag promises more, reports a full buffer only when it is full, and
  leaves a structure from which the next call may go on.\<close>

theorem inflate_returns:
  assumes "resumable r next flags \<or> decomp_shape r0 \<and> r = tinfl_init r0"
    and "next + out_size \<le> length buf" "length buf < 2 ^ 64"
  shows "\<exists>res. tinfl_decompress r input buf next out_size flags = Some res \<and> res_in res \<le> length input \<and>
    res_out res \<le> out_size \<and> length (res_buf res) = length buf \<and>
    (\<forall>j. j < next \<or> next + res_out res \<le> j \<longrightarrow> res_buf res ! j = buf ! j) \<and>
    (res_status res = TINFL_STATUS_NEEDS_MORE_INPUT \<longrightarrow>
      res_in res = length input \<and> flags AND TINFL_FLAG_HAS_MORE_INPUT \<noteq> 0) \<and>
    (res_status res = TINFL_STATUS_HAS_MORE_OUTPUT \<longrightarrow> res_out res = out_size) \<and>
    resumable (res_dec res) (next + res_out res) flags"
  by (rule tinfl_call_ok) (use assms fresh_resumable in auto)

lemma inflate_returns_witness:
  "\<exists>res. tinfl_decompress (tinfl_init fresh_inflator) [120, 156, 99] (replicate 8 0) 2 4 3 = Some res \<and>
    res_in res \<le> length ([120, 156, 99] :: bytes) \<and> res_out res \<le> 4 \<and>
    length (res_buf res) = length (replicate 8 (0 :: 8 word)) \<and>
    (\<forall>j. j < 2 \<or> 2 + res_out res \<le> j \<longrightarrow> res_buf res ! j = replicate 8 0 ! j) \<and>
    (res_status res = TINFL_STATUS_NEEDS_MORE_INPUT \<longrightarrow>
      res_in res = length ([120, 156, 99] :: bytes) \<and> 3 AND TINFL_FLAG_HAS_MORE_INPUT \<noteq> 0) \<and>
    (res_status res = TINFL_STATUS_HAS_MORE_OUTPUT \<longrightarrow> res_out res = 4) \<and>
    resumable (res_dec res) (2 + res_out res) 3"
  by (rule inflate_returns [where ?r0.0 = fresh_inflator]) (use fresh_inflator_shape in simp_all)

text \<open>C13. Type soundness of the coroutine. The invariant \<open>inv\<close> says for each place of the code what its
  variables hold there: the arrays keep their sizes, every code length that may be read is below 16, every
  table that may be read leads each bit sequence to a symbol of its alphabet, the counters are inside their
  arrays and the cursors inside the buffers. From such a state every step is defined (no read out of bounds)
  and gives such a state again, at a place strictly nearer to a return.\<close>

theorem machine_typed:
  assumes "env_ok e" "inv e v"
  shows "\<exists>n. tinfl_step e v = Some n \<and> (case n of
      Go w \<Rightarrow> inv e w \<and> frame v w \<and> (w, v) \<in> progress e
    | Halt s w \<Rightarrow> inv e (w\<lparr>pc := St (m_state (dec w))\<rparr>) \<and> frame v w \<and> reason e s w) \<and> wf (progress e)"
  using tinfl_step_ok [OF assms] wf_progress by (auto simp: step_ok_def next_ok_def split: option.splits)

definition demo_call :: tinfl_env where
  "demo_call = \<lparr>in_buf = [75, 4, 0], out_next = 0, out_end = 16, out_mask = 15, decomp_flags = 0\<rparr>"

definition demo_vars :: tinfl_vars where
  "demo_vars = \<lparr>pc = St 0, num_bits = 0, bit_buf = 0, dist = 0, counter = 0, num_extra = 0, dist_from_out_buf_start = 0,
     in_cur = 0, out_cur = 0, out_buf = replicate 16 0, dec = fresh_inflator\<rparr>"

lemma machine_typed_witness:
  "\<exists>n. tinfl_step demo_call demo_vars = Some n \<and> (case n of
      Go w \<Rightarrow> inv demo_call w \<and> frame demo_vars w \<and> (w, demo_vars) \<in> progress demo_call
    | Halt s w \<Rightarrow> inv demo_call (w\<lparr>pc := St (m_state (dec w))\<rparr>) \<and> frame demo_vars w \<and> reason demo_call s w) \<and>
    wf (progress demo_call)"
proof (rule machine_typed)
  show "env_ok demo_call" by (simp add: env_ok_def demo_call_def has_flag_def)
  show "inv demo_call demo_vars"
    using fresh_inflator_shape
    by (simp add: inv_def base_inv_def pc_inv_def label_inv_def label_at_0 labels_def demo_call_def demo_vars_def)
qed

end
