(* ===== verification/Deflate.thy ===== *)
theory Deflate
  imports HuffDecode
begin

unbundle bit_operations_syntax

text \<open>
  The compressed format, after RFC 1951: what a decompressor has to compute. A stream is the number its bits
  form, the first one lowest, with the number of bits; \<^term>\<open>None\<close> is a stream that is not valid, or ends too early.
  A block is decoded behind the output so far, to which its matches may reach back.
\<close>

type_synonym stream = "nat \<times> nat"

section \<open>Reading\<close>

definition read_num :: "nat \<Rightarrow> stream \<Rightarrow> (nat \<times> stream) option" where
  "read_num n s = (case s of (b, m) \<Rightarrow> if n \<le> m then Some (take_bit n b, drop_bit n b, m - n) else None)"

text \<open>A symbol of the canonical code with the lengths \<open>cs\<close>, whose bits come highest first.\<close>

definition read_sym :: "nat list \<Rightarrow> stream \<Rightarrow> (nat \<times> stream) option" where
  "read_sym cs s = (case s of (b, m) \<Rightarrow>
     (case find (\<lambda>j. 0 < cs ! j \<and> cs ! j \<le> m \<and> rv (cs ! j) b = code_value (counts (length cs) cs) cs j) [0..<length cs] of
        None \<Rightarrow> None
      | Some j \<Rightarrow> Some (j, drop_bit (cs ! j) b, m - cs ! j)))"

text \<open>The lengths of a complete code, or of a single symbol or none.\<close>

definition good_lengths :: "nat list \<Rightarrow> bool" where
  "good_lengths cs \<longleftrightarrow> kraft_sum (length cs) cs = 2 ^ 16 \<or> used_syms (length cs) cs \<le> 1"

definition align :: "stream \<Rightarrow> stream" where
  "align s = (case s of (b, m) \<Rightarrow> (drop_bit (m mod 8) b, m - m mod 8))"

section \<open>Stored blocks\<close>

fun copy_stored :: "nat \<Rightarrow> stream \<Rightarrow> bytes \<Rightarrow> (stream \<times> bytes) option" where
  "copy_stored 0 s out = Some (s, out)"
| "copy_stored (Suc n) s out = do {
     (b, s) \<leftarrow> read_num 8 s;
     copy_stored n s (out @ [word_of_nat b])
   }"

definition stored_block :: "stream \<Rightarrow> bytes \<Rightarrow> (stream \<times> bytes) option" where
  "stored_block s out = do {
     (len, s) \<leftarrow> read_num 16 (align s);
     (nlen, s) \<leftarrow> read_num 16 s;
     (if len + nlen = 65535 then copy_stored len s out else None)
   }"

section \<open>Compressed blocks\<close>

text \<open>Lengths and distances: a base and so many further bits.\<close>

definition len_extra :: "nat \<Rightarrow> nat" where
  "len_extra sy = (if sy < 265 \<or> sy = 285 then 0 else (sy - 261) div 4)"

definition len_base :: "nat \<Rightarrow> nat" where
  "len_base sy = (if sy < 265 then sy - 254 else if sy = 285 then 258
     else (4 + (sy - 261) mod 4) * 2 ^ len_extra sy + 3)"

definition read_len :: "nat \<Rightarrow> stream \<Rightarrow> (nat \<times> stream) option" where
  "read_len sy s = (if 285 < sy then None
     else do { (x, s) \<leftarrow> read_num (len_extra sy) s; Some (len_base sy + x, s) })"

definition dist_extra :: "nat \<Rightarrow> nat" where
  "dist_extra sy = (if sy < 4 then 0 else sy div 2 - 1)"

definition dist_base :: "nat \<Rightarrow> nat" where
  "dist_base sy = (if sy < 4 then sy + 1 else (2 + sy mod 2) * 2 ^ dist_extra sy + 1)"

definition read_dist :: "nat \<Rightarrow> stream \<Rightarrow> (nat \<times> stream) option" where
  "read_dist sy s = (if 29 < sy then None
     else do { (x, s) \<leftarrow> read_num (dist_extra sy) s; Some (dist_base sy + x, s) })"

text \<open>A match may overlap what it produces.\<close>

fun copy_out :: "nat \<Rightarrow> nat \<Rightarrow> bytes \<Rightarrow> bytes" where
  "copy_out 0 dist out = out"
| "copy_out (Suc n) dist out = copy_out n dist (out @ [out ! (length out - dist)])"

partial_function (option) read_syms :: "nat list \<Rightarrow> nat list \<Rightarrow> stream \<Rightarrow> bytes \<Rightarrow> (stream \<times> bytes) option" where
  "read_syms ls ds s out =
     Option.bind (read_sym ls s) (\<lambda>(sy, s).
       if sy < 256 then read_syms ls ds s (out @ [word_of_nat sy])
       else if sy = 256 then Some (s, out)
       else Option.bind (read_len sy s) (\<lambda>(len, s).
         Option.bind (read_sym ds s) (\<lambda>(dsym, s).
           Option.bind (read_dist dsym s) (\<lambda>(dist, s).
             if dist \<le> length out then read_syms ls ds s (copy_out len dist out) else None))))"

declare read_syms.simps [code]

section \<open>The codes of a block\<close>

definition fixed_ls :: "nat list" where
  "fixed_ls = replicate 144 8 @ replicate 112 9 @ replicate 24 7 @ replicate 8 8"

definition fixed_ds :: "nat list" where
  "fixed_ds = replicate 32 5"

definition clen_order :: "nat list" where
  "clen_order = [16, 17, 18, 0, 8, 7, 9, 6, 10, 5, 11, 4, 12, 3, 13, 2, 14, 1, 15]"

fun read_clens :: "nat list \<Rightarrow> nat list \<Rightarrow> stream \<Rightarrow> (nat list \<times> stream) option" where
  "read_clens [] cl s = Some (cl, s)"
| "read_clens (i # is) cl s = do { (x, s) \<leftarrow> read_num 3 s; read_clens is (cl[i := x]) s }"

partial_function (option) read_lens :: "nat list \<Rightarrow> nat \<Rightarrow> nat list \<Rightarrow> stream \<Rightarrow> (nat list \<times> stream) option" where
  "read_lens cl tot lens s =
     (if length lens = tot then Some (lens, s)
      else if tot < length lens then None
      else Option.bind (read_sym cl s) (\<lambda>(sy, s).
        if sy < 16 then read_lens cl tot (lens @ [sy]) s
        else if sy = 16
        then (if lens = [] then None
          else Option.bind (read_num 2 s) (\<lambda>(x, s). read_lens cl tot (lens @ replicate (3 + x) (last lens)) s))
        else if sy = 17 then Option.bind (read_num 3 s) (\<lambda>(x, s). read_lens cl tot (lens @ replicate (3 + x) 0) s)
        else Option.bind (read_num 7 s) (\<lambda>(x, s). read_lens cl tot (lens @ replicate (11 + x) 0) s)))"

declare read_lens.simps [code]

definition coded_block :: "nat \<Rightarrow> nat list \<Rightarrow> stream \<Rightarrow> bytes \<Rightarrow> (stream \<times> bytes) option" where
  "coded_block n lens s out =
     (if good_lengths (take n lens) \<and> good_lengths (drop n lens)
      then read_syms (take n lens) (drop n lens) s out else None)"

definition dynamic_block :: "stream \<Rightarrow> bytes \<Rightarrow> (stream \<times> bytes) option" where
  "dynamic_block s out = do {
     (hlit, s) \<leftarrow> read_num 5 s;
     (hdist, s) \<leftarrow> read_num 5 s;
     (hclen, s) \<leftarrow> read_num 4 s;
     (cl, s) \<leftarrow> read_clens (take (hclen + 4) clen_order) (replicate 19 0) s;
     (if good_lengths cl
      then do {
        (lens, s) \<leftarrow> read_lens cl (hlit + 257 + (hdist + 1)) [] s;
        coded_block (hlit + 257) lens s out
      }
      else None)
   }"

section \<open>The blocks\<close>

definition read_block :: "nat \<Rightarrow> stream \<Rightarrow> bytes \<Rightarrow> (stream \<times> bytes) option" where
  "read_block type s out =
     (if type = 0 then stored_block s out
      else if type = 1 then read_syms fixed_ls fixed_ds s out
      else if type = 2 then dynamic_block s out
      else None)"

text \<open>Up to the final block; the rest of the stream begins with the next whole byte.\<close>

partial_function (option) inflate_blocks :: "stream \<Rightarrow> bytes \<Rightarrow> (stream \<times> bytes) option" where
  "inflate_blocks s out =
     Option.bind (read_num 1 s) (\<lambda>(final, s).
       Option.bind (read_num 2 s) (\<lambda>(type, s).
         Option.bind (read_block type s out) (\<lambda>(s, out).
           if final = 1 then Some (align s, out) else inflate_blocks s out)))"

declare inflate_blocks.simps [code]

fun le_number :: "bytes \<Rightarrow> nat" where
  "le_number [] = 0"
| "le_number (b # bs) = unat b + 256 * le_number bs"

definition stream_of :: "bytes \<Rightarrow> stream" where
  "stream_of bs = (le_number bs, 8 * length bs)"

text \<open>The decompressed bytes, and how many bytes of the input follow the compressed data.\<close>

definition inflate_spec :: "bytes \<Rightarrow> (bytes \<times> nat) option" where
  "inflate_spec input = map_option (\<lambda>(s, out). (out, snd s div 8)) (inflate_blocks (stream_of input) [])"

end
