(* ===== verification/InflateSim.thy ===== *)
theory InflateSim
  imports TinflSafe Deflate
begin

unbundle bit_operations_syntax

text \<open>
  What the decompressor still has to do at each place of its code, in terms of the format: \<open>meaning v s out\<close>
  is the rest of the decompression, from the variables at that place, on the bits \<open>s\<close> not used yet and
  behind the output \<open>out\<close>. The bits are those in the bit buffer, then the rest of the input, then the input \<open>F\<close>
  of later calls. A step keeps the meaning; so the end result is that of the format.
\<close>

section \<open>The bits not used yet\<close>

definition strm :: "bytes \<Rightarrow> tinfl_env \<Rightarrow> tinfl_vars \<Rightarrow> stream" where
  "strm F e v = (bit_buf v + 2 ^ num_bits v * le_number (drop (in_cur v) (in_buf e) @ F),
     num_bits v + 8 * (length (in_buf e) - in_cur v + length F))"

text \<open>Whole bytes at the upper end of the bit buffer are the last bytes of the input of this call.\<close>

definition back_ok :: "tinfl_env \<Rightarrow> tinfl_vars \<Rightarrow> bool" where
  "back_ok e v \<longleftrightarrow> (\<forall>k \<le> in_cur v. 8 * k \<le> num_bits v \<longrightarrow>
     drop_bit (num_bits v - 8 * k) (bit_buf v) = le_number (take k (drop (in_cur v - k) (in_buf e))))"

text \<open>The output so far, as far back as a match may reach, is in the buffer, which may wrap around.\<close>

definition ring :: "tinfl_env \<Rightarrow> nat" where
  "ring e = out_mask e + 1"

definition out_rel :: "tinfl_env \<Rightarrow> tinfl_vars \<Rightarrow> bytes \<Rightarrow> bool" where
  "out_rel e v out \<longleftrightarrow> (\<exists>w \<le> 64. ring e = 2 ^ w) \<and> 32768 \<le> ring e \<and> out_end e \<le> ring e \<and>
     out_cur v mod ring e = length out mod ring e \<and>
     (has_flag e TINFL_FLAG_USING_NON_WRAPPING_OUTPUT_BUF \<longrightarrow> out_cur v = length out) \<and>
     (\<forall>j < length out. length out \<le> j + ring e \<longrightarrow> out_buf v ! (j mod ring e) = out ! j)"

definition core :: "tinfl_env \<Rightarrow> tinfl_vars \<Rightarrow> bytes \<Rightarrow> bool" where
  "core e v out \<longleftrightarrow> bit_buf v < 2 ^ num_bits v \<and> back_ok e v \<and> out_rel e v out"

section \<open>The rest of the decompression\<close>

type_synonym outcome = "(stream \<times> bytes) option"

definition lits :: "tinfl_decompressor \<Rightarrow> nat list" where
  "lits r = take (m_table_sizes r ! 0) (m_code_size_0 r)"

definition dists :: "tinfl_decompressor \<Rightarrow> nat list" where
  "dists r = take (m_table_sizes r ! 1) (m_code_size_1 r)"

definition after_block :: "tinfl_decompressor \<Rightarrow> outcome \<Rightarrow> outcome" where
  "after_block r x = Option.bind x (\<lambda>(s, out).
     if m_final r AND 1 = 0 then inflate_blocks s out else Some (align s, out))"

definition syms_from :: "tinfl_decompressor \<Rightarrow> stream \<Rightarrow> bytes \<Rightarrow> outcome" where
  "syms_from r s out = after_block r (read_syms (lits r) (dists r) s out)"

definition copy_from :: "tinfl_decompressor \<Rightarrow> nat \<Rightarrow> nat \<Rightarrow> stream \<Rightarrow> bytes \<Rightarrow> outcome" where
  "copy_from r len d s out =
     (if len \<le> 258 \<and> 0 < d \<and> d \<le> 32768 \<and> d \<le> length out then syms_from r s (copy_out len d out) else None)"

definition dsym_from :: "tinfl_decompressor \<Rightarrow> nat \<Rightarrow> nat \<Rightarrow> stream \<Rightarrow> bytes \<Rightarrow> outcome" where
  "dsym_from r len sy s out = Option.bind (read_dist sy s) (\<lambda>(d, s). copy_from r len d s out)"

definition dist_from :: "tinfl_decompressor \<Rightarrow> nat \<Rightarrow> stream \<Rightarrow> bytes \<Rightarrow> outcome" where
  "dist_from r len s out = Option.bind (read_sym (dists r) s) (\<lambda>(sy, s). dsym_from r len sy s out)"

definition sym_from :: "tinfl_decompressor \<Rightarrow> nat \<Rightarrow> stream \<Rightarrow> bytes \<Rightarrow> outcome" where
  "sym_from r sy s out =
     (if sy < 256 then syms_from r s (out @ [word_of_nat sy])
      else if sy = 256 then after_block r (Some (s, out))
      else Option.bind (read_len sy s) (\<lambda>(len, s). dist_from r len s out))"

definition lens_from :: "tinfl_decompressor \<Rightarrow> nat list \<Rightarrow> stream \<Rightarrow> bytes \<Rightarrow> outcome" where
  "lens_from r lens s out =
     Option.bind (read_lens (m_code_size_2 r) (m_table_sizes r ! 0 + m_table_sizes r ! 1) lens s) (\<lambda>(lens, s).
       after_block r (coded_block (m_table_sizes r ! 0) lens s out))"

definition codes_from :: "tinfl_decompressor \<Rightarrow> stream \<Rightarrow> bytes \<Rightarrow> outcome" where
  "codes_from r s out = (if good_lengths (m_code_size_2 r) then lens_from r [] s out else None)"

definition clens_from :: "tinfl_decompressor \<Rightarrow> nat \<Rightarrow> stream \<Rightarrow> bytes \<Rightarrow> outcome" where
  "clens_from r i s out =
     Option.bind (read_clens (drop i (take (m_table_sizes r ! 2) clen_order)) (m_code_size_2 r) s) (\<lambda>(cl, s).
       codes_from (r\<lparr>m_code_size_2 := cl\<rparr>) s out)"

definition sizes_from :: "tinfl_decompressor \<Rightarrow> nat \<Rightarrow> stream \<Rightarrow> bytes \<Rightarrow> outcome" where
  "sizes_from r i s out =
     (let rest2 = (\<lambda>r s. Option.bind (read_num 4 s) (\<lambda>(x, s).
            clens_from (r\<lparr>m_table_sizes := (m_table_sizes r)[2 := x + 4], m_code_size_2 := replicate 19 0\<rparr>) 0 s out));
          rest1 = (\<lambda>r s. Option.bind (read_num 5 s) (\<lambda>(x, s).
            rest2 (r\<lparr>m_table_sizes := (m_table_sizes r)[1 := x + 1]\<rparr>) s))
      in if i = 0 then Option.bind (read_num 5 s) (\<lambda>(x, s).
             rest1 (r\<lparr>m_table_sizes := (m_table_sizes r)[0 := x + 257]\<rparr>) s)
         else if i = 1 then rest1 r s else rest2 r s)"

fun read_bytes :: "nat \<Rightarrow> stream \<Rightarrow> (nat list \<times> stream) option" where
  "read_bytes 0 s = Some ([], s)"
| "read_bytes (Suc n) s = Option.bind (read_num 8 s) (\<lambda>(b, s). Option.bind (read_bytes n s) (\<lambda>(bs, s). Some (b # bs, s)))"

definition stored_from :: "tinfl_decompressor \<Rightarrow> nat \<Rightarrow> stream \<Rightarrow> bytes \<Rightarrow> outcome" where
  "stored_from r n s out = (if n < 65536 then after_block r (copy_stored n s out) else None)"

definition raw_done :: "nat list \<Rightarrow> stream \<Rightarrow> bytes \<Rightarrow> outcome" where
  "raw_done h s out = (let n = h ! 0 + 256 * h ! 1
     in if n + (h ! 2 + 256 * h ! 3) = 65535 then copy_stored n s out else None)"

definition raw_from :: "tinfl_decompressor \<Rightarrow> nat \<Rightarrow> stream \<Rightarrow> bytes \<Rightarrow> outcome" where
  "raw_from r k s out = Option.bind (read_bytes (4 - k) s) (\<lambda>(bs, s).
     after_block r (raw_done (take k (m_raw_header r) @ bs) s out))"

definition huff_from :: "tinfl_decompressor \<Rightarrow> nat \<Rightarrow> nat \<Rightarrow> stream \<Rightarrow> bytes \<Rightarrow> outcome" where
  "huff_from r n k s out =
     (if k = 16 then lens_from r (take n (m_len_codes r)) s out
      else if k = 23 then syms_from r s out
      else dist_from r n s out)"

definition rep_from :: "tinfl_decompressor \<Rightarrow> nat \<Rightarrow> nat \<Rightarrow> nat \<Rightarrow> stream \<Rightarrow> bytes \<Rightarrow> outcome" where
  "rep_from r n d extra s out = Option.bind (read_num extra s) (\<lambda>(x, s).
     lens_from r (take n (m_len_codes r) @ (if d = 16 then replicate (3 + x) (last (take n (m_len_codes r)))
       else if d = 17 then replicate (3 + x) 0 else replicate (11 + x) 0)) s out)"

definition tables_from :: "tinfl_decompressor \<Rightarrow> stream \<Rightarrow> bytes \<Rightarrow> outcome" where
  "tables_from r s out =
     (if m_type r = 2 then codes_from r s out
      else if m_type r = 1 \<and> \<not> (good_lengths (lits r) \<and> good_lengths (dists r)) then None
      else if m_type r = 0 \<and> \<not> good_lengths (lits r) then None
      else syms_from r s out)"

definition meaning_at ::
    "tinfl_pc \<Rightarrow> tinfl_decompressor \<Rightarrow> nat \<Rightarrow> nat \<Rightarrow> nat \<Rightarrow> stream \<Rightarrow> bytes \<Rightarrow> outcome" where
  "meaning_at l r n d extra s out = (case l of
      St k \<Rightarrow>
        (if k = 3 then inflate_blocks s out
         else if k = 5 then after_block r (stored_block s out)
         else if k = 6 \<or> k = 7 then raw_from r n s out
         else if k = 9 \<or> k = 38 \<or> k = 51 then stored_from r n s out
         else if k = 52 then stored_from r (n - 1) s (out @ [word_of_nat d])
         else if k = 11 then sizes_from r n s out
         else if k = 14 then clens_from r n s out
         else if k = 16 \<or> k = 23 \<or> k = 26 then huff_from r n k s out
         else if k = 18 then rep_from r n d extra s out
         else if k = 24 then syms_from r s (out @ [word_of_nat n])
         else if k = 25 then Option.bind (read_num extra s) (\<lambda>(x, s). dist_from r (n + x) s out)
         else if k = 27 then Option.bind (read_num extra s) (\<lambda>(x, s). copy_from r n (d + x) s out)
         else if k = 53 then copy_from r (n + 1) d s out
         else if k = 32 then Some (align s, out)
         else if k = 34 then Some (s, out)
         else None)
    | Raw_header \<Rightarrow> raw_from r n s out
    | Raw_bits \<Rightarrow> stored_from r n s out
    | Raw_copy \<Rightarrow> stored_from r n s out
    | Code_sizes \<Rightarrow> clens_from r n s out
    | Tables \<Rightarrow> tables_from r s out
    | Lens \<Rightarrow> lens_from r (take n (m_len_codes r)) s out
    | Huff k \<Rightarrow> huff_from r n k s out
    | Fill k \<Rightarrow> huff_from r n k s out
    | Decode k \<Rightarrow> huff_from r n k s out
    | Syms \<Rightarrow> syms_from r s out
    | Match_len \<Rightarrow> sym_from r (n AND 511) s out
    | Match_dist \<Rightarrow> dsym_from r n d s out
    | Match_copy \<Rightarrow> copy_from r n d s out
    | Slow_copy \<Rightarrow> copy_from r n d s out
    | Block_end \<Rightarrow> after_block r (Some (s, out))
    | Adler_bytes \<Rightarrow> None)"

definition meaning :: "tinfl_vars \<Rightarrow> stream \<Rightarrow> bytes \<Rightarrow> outcome" where
  "meaning v = meaning_at (pc v) (dec v) (counter v) (dist v) (num_extra v)"

section \<open>What else holds at a place\<close>

text \<open>The tables of a type decode the code with the lengths \<open>cs\<close>.\<close>

definition has_table :: "tinfl_decompressor \<Rightarrow> nat \<Rightarrow> nat list \<Rightarrow> bool" where
  "has_table r t cs \<longleftrightarrow> good_lengths cs \<and> length cs \<le> 288 \<and> (\<forall>x \<in> set cs. x < 16) \<and>
     (\<exists>tr. tree_of r t = Some tr \<and> table_decodes (m_look_up r ! t) tr (length cs) cs \<and>
       table_ok (m_look_up r ! t) tr (length cs))"

definition has_tabs :: "tinfl_decompressor \<Rightarrow> bool" where
  "has_tabs r \<longleftrightarrow> has_table r 0 (lits r) \<and> has_table r 1 (dists r)"

definition huff_tabs :: "nat \<Rightarrow> tinfl_decompressor \<Rightarrow> bool" where
  "huff_tabs k r \<longleftrightarrow> (if k = 16 then has_table r 2 (m_code_size_2 r) else has_tabs r)"

definition not_found :: "nat \<Rightarrow> tinfl_vars \<Rightarrow> bool" where
  "not_found k v \<longleftrightarrow> (\<forall>tr. tree_of (dec v) (huff_table k) = Some tr \<longrightarrow>
     fill_test (m_look_up (dec v) ! huff_table k) tr (bit_buf v) (num_bits v) = Some False)"

definition header_ok :: "tinfl_vars \<Rightarrow> bool" where
  "header_ok v \<longleftrightarrow> (\<forall>b \<in> set (take (counter v) (m_raw_header (dec v))). b < 256)"

definition side :: "tinfl_env \<Rightarrow> tinfl_vars \<Rightarrow> bytes \<Rightarrow> bool" where
  "side e v out \<longleftrightarrow> (let r = dec v in case pc v of
      St k \<Rightarrow>
        (if k = 6 then header_ok v
         else if k = 7 then header_ok v \<and> num_bits v = 0
         else if k = 9 \<or> k = 38 then num_bits v = 0
         else if k = 16 \<or> k = 23 \<or> k = 26 then huff_tabs k r \<and> not_found k v
         else if k = 18 then has_table r 2 (m_code_size_2 r)
         else if k = 24 \<or> k = 25 \<or> k = 27 then has_tabs r
         else if k = 51 \<or> k = 52 then 0 < counter v
         else if k = 53 then has_tabs r \<and>
           dist_from_out_buf_start v mod ring e = length out mod ring e
         else True)
    | Raw_header \<Rightarrow> header_ok v
    | Raw_copy \<Rightarrow> counter v = 0 \<or> num_bits v = 0
    | Tables \<Rightarrow> (if m_type r = 2 then m_table_sizes r ! 2 = 19
        else if m_type r = 1 then True else if m_type r = 0 then has_table r 1 (dists r) else has_tabs r)
    | Lens \<Rightarrow> has_table r 2 (m_code_size_2 r)
    | Huff k \<Rightarrow> huff_tabs k r
    | Fill k \<Rightarrow> huff_tabs k r
    | Decode k \<Rightarrow> huff_tabs k r
    | Syms \<Rightarrow> has_tabs r
    | Match_len \<Rightarrow> has_tabs r
    | Match_dist \<Rightarrow> has_tabs r
    | Match_copy \<Rightarrow> has_tabs r
    | Slow_copy \<Rightarrow> has_tabs r \<and> dist_from_out_buf_start v mod ring e = length out mod ring e
    | _ \<Rightarrow> True)"

definition sim :: "bytes \<Rightarrow> tinfl_env \<Rightarrow> tinfl_vars \<Rightarrow> bytes \<Rightarrow> stream \<times> bytes \<Rightarrow> bool" where
  "sim F e v out x \<longleftrightarrow> core e v out \<and> side e v out \<and> meaning v (strm F e v) out = Some x"

text \<open>
  What a step may do: go on, with more output; ask for more input, when all of this call is used and later
  calls have some; report a full buffer; or be done, with the result in place.
\<close>

definition halted :: "bytes \<Rightarrow> tinfl_env \<Rightarrow> bytes \<Rightarrow> stream \<times> bytes \<Rightarrow> tinfl_status \<Rightarrow> tinfl_vars \<Rightarrow> bool" where
  "halted F e out x st w \<longleftrightarrow> sim F e (w\<lparr>pc := St (m_state (dec w))\<rparr>) out x \<and>
     (st = TINFL_STATUS_DONE \<and> m_state (dec w) = 34 \<or>
      st = need_input e \<and> F \<noteq> [] \<and> in_cur w = length (in_buf e) \<or>
      st = TINFL_STATUS_HAS_MORE_OUTPUT \<and> m_state (dec w) \<in> {9, 24, 52, 53} \<and> out_cur w = out_end e \<and>
        length out < length (snd x))"

definition step_sim :: "bytes \<Rightarrow> tinfl_env \<Rightarrow> tinfl_vars \<Rightarrow> bytes \<Rightarrow> stream \<times> bytes \<Rightarrow> tinfl_next option \<Rightarrow> bool" where
  "step_sim F e v out x m \<longleftrightarrow> (case m of None \<Rightarrow> False
     | Some (Go w) \<Rightarrow> (\<exists>new. sim F e w (out @ new) x \<and> out_cur w = out_cur v + length new)
     | Some (Halt st w) \<Rightarrow> halted F e out x st w \<and> out_cur w = out_cur v \<and> bits_left e w = bits_left e v)"

section \<open>Little-endian numbers\<close>

lemma le_number_append: "le_number (xs @ ys) = le_number xs + 256 ^ length xs * le_number ys"
  by (induction xs) (simp_all add: algebra_simps)

lemma le_number_less: "le_number xs < 256 ^ length xs"
proof (induction xs)
  case (Cons x xs)
  define P :: nat where "P = 256 ^ length xs"
  have "unat x < 256" by simp
  moreover have "le_number xs + 1 \<le> P" using Cons by (simp add: P_def)
  ultimately have "unat x + 256 * le_number xs < 256 * P" by linarith
  then show ?case by (simp add: P_def)
qed simp

lemma le_number_drop: "le_number xs div 256 ^ i = le_number (drop i xs)"
proof (induction i arbitrary: xs)
  case (Suc i)
  show ?case
  proof (cases xs)
    case (Cons x ys)
    have "unat x < 256" by simp
    then have "le_number xs div 256 = le_number ys" by (simp add: Cons)
    then show ?thesis using Suc [of ys] by (simp add: Cons div_mult2_eq)
  qed simp
qed simp

lemma pow_256: "(256 :: nat) ^ k = 2 ^ (8 * k)"
  by (simp add: power_mult)

section \<open>Using and refilling the bit buffer\<close>

lemma read_num_strm:
  assumes "n \<le> num_bits v"
  shows "read_num n (strm F e v) = Some (take_bit n (bit_buf v),
    strm F e (v\<lparr>bit_buf := drop_bit n (bit_buf v), num_bits := num_bits v - n\<rparr>))"
proof -
  define X where "X = le_number (drop (in_cur v) (in_buf e) @ F)"
  obtain d where d: "num_bits v = n + d" using assms le_Suc_ex by blast
  have "bit_buf v + 2 ^ num_bits v * X = bit_buf v + (2 ^ d * X) * 2 ^ n" by (simp add: d power_add algebra_simps)
  then have "take_bit n (bit_buf v + 2 ^ num_bits v * X) = take_bit n (bit_buf v)"
      "drop_bit n (bit_buf v + 2 ^ num_bits v * X) = drop_bit n (bit_buf v) + 2 ^ (num_bits v - n) * X"
    unfolding take_bit_eq_mod drop_bit_eq_div by (simp_all only: mod_mult_self1 d, simp_all)
  then show ?thesis using assms by (simp add: read_num_def strm_def X_def)
qed

lemma core_drop:
  assumes "core e v out" "n \<le> num_bits v"
  shows "core e (v\<lparr>bit_buf := drop_bit n (bit_buf v), num_bits := num_bits v - n\<rparr>) out"
proof -
  have B: "bit_buf v < 2 ^ num_bits v" and bk: "back_ok e v" and o: "out_rel e v out" using assms(1) by (simp_all add: core_def)
  have "2 ^ n * 2 ^ (num_bits v - n) = (2 :: nat) ^ num_bits v" using assms(2) by (simp flip: power_add)
  then have "drop_bit n (bit_buf v) < 2 ^ (num_bits v - n)"
    using B by (simp add: drop_bit_eq_div less_mult_imp_div_less mult.commute)
  moreover have "back_ok e (v\<lparr>bit_buf := drop_bit n (bit_buf v), num_bits := num_bits v - n\<rparr>)"
    unfolding back_ok_def
  proof (intro allI impI)
    fix k
    assume k: "k \<le> in_cur (v\<lparr>bit_buf := drop_bit n (bit_buf v), num_bits := num_bits v - n\<rparr>)"
      "8 * k \<le> num_bits (v\<lparr>bit_buf := drop_bit n (bit_buf v), num_bits := num_bits v - n\<rparr>)"
    then have "num_bits v - n - 8 * k + n = num_bits v - 8 * k" "8 * k \<le> num_bits v" using assms(2) by simp_all
    then show "drop_bit (num_bits (v\<lparr>bit_buf := drop_bit n (bit_buf v), num_bits := num_bits v - n\<rparr>) - 8 * k)
        (bit_buf (v\<lparr>bit_buf := drop_bit n (bit_buf v), num_bits := num_bits v - n\<rparr>)) =
      le_number (take k (drop (in_cur (v\<lparr>bit_buf := drop_bit n (bit_buf v), num_bits := num_bits v - n\<rparr>) - k) (in_buf e)))"
      using bk k(1) by (simp add: back_ok_def drop_bit_drop_bit)
  qed
  moreover have "out_rel e (v\<lparr>bit_buf := drop_bit n (bit_buf v), num_bits := num_bits v - n\<rparr>) out"
    using o by (simp add: out_rel_def)
  ultimately show ?thesis by (simp add: core_def)
qed

text \<open>The next \<open>m\<close> bytes go into the bit buffer.\<close>

definition refilled :: "tinfl_env \<Rightarrow> nat \<Rightarrow> tinfl_vars \<Rightarrow> tinfl_vars" where
  "refilled e m v = v\<lparr>bit_buf := bit_buf v + 2 ^ num_bits v * le_number (take m (drop (in_cur v) (in_buf e))),
     num_bits := num_bits v + 8 * m, in_cur := in_cur v + m\<rparr>"

lemma strm_refilled:
  assumes "in_cur v + m \<le> length (in_buf e)"
  shows "strm F e (refilled e m v) = strm F e v"
proof -
  define xs where "xs = take m (drop (in_cur v) (in_buf e))"
  have len: "length xs = m" using assms by (simp add: xs_def)
  have "drop (in_cur v) (in_buf e) = xs @ drop (in_cur v + m) (in_buf e)"
    by (simp add: xs_def flip: drop_drop) (metis append_take_drop_id drop_drop add.commute)
  then have "le_number (drop (in_cur v) (in_buf e) @ F) = le_number xs + 2 ^ (8 * m) * le_number (drop (in_cur v + m) (in_buf e) @ F)"
    using len by (simp add: le_number_append pow_256)
  then show ?thesis
    using assms by (simp add: strm_def refilled_def xs_def [symmetric] power_add algebra_simps)
qed

lemma core_refilled:
  assumes "core e v out" "in_cur v + m \<le> length (in_buf e)"
  shows "core e (refilled e m v) out"
proof -
  define xs where "xs = take m (drop (in_cur v) (in_buf e))"
  define N where "N = num_bits v"
  have len: "length xs = m" using assms(2) by (simp add: xs_def)
  have B: "bit_buf v < 2 ^ N" and bk: "back_ok e v" and o: "out_rel e v out" using assms(1) by (simp_all add: core_def N_def)
  define B' where "B' = bit_buf v + 2 ^ N * le_number xs"
  have w: "refilled e m v = v\<lparr>bit_buf := B', num_bits := N + 8 * m, in_cur := in_cur v + m\<rparr>"
    by (simp add: refilled_def B'_def N_def xs_def)
  have X: "le_number xs < 2 ^ (8 * m)" using le_number_less [of xs] len by (simp add: pow_256)
  have "B' < 2 ^ N * (le_number xs + 1)" using B by (simp add: B'_def)
  also have "\<dots> \<le> 2 ^ N * 2 ^ (8 * m)" by (rule mult_le_mono2) (use X in simp)
  finally have lt: "B' < 2 ^ (N + 8 * m)" by (simp add: power_add)
  have "drop_bit (N + 8 * m - 8 * k) B' = le_number (take k (drop (in_cur v + m - k) (in_buf e)))"
    if k: "k \<le> in_cur v + m" "8 * k \<le> N + 8 * m" for k
  proof (cases "k \<le> m")
    case True
    then have e1: "N + 8 * m - 8 * k = N + 8 * (m - k)" by simp
    have "drop_bit (N + 8 * (m - k)) B' = B' div 2 ^ N div 256 ^ (m - k)"
      by (simp add: drop_bit_eq_div power_add div_mult2_eq pow_256)
    also have "B' div 2 ^ N = le_number xs" using B by (simp add: B'_def)
    also have "le_number xs div 256 ^ (m - k) = le_number (drop (m - k) xs)" by (rule le_number_drop)
    also have "drop (m - k) xs = take k (drop (in_cur v + m - k) (in_buf e))"
      using True by (simp add: xs_def drop_take add.commute)
    finally show ?thesis by (simp only: e1)
  next
    case False
    then obtain j where j: "k = m + j" using le_Suc_ex nat_le_linear by blast
    have jk: "j \<le> in_cur v" "8 * j \<le> N" using k by (simp_all add: j)
    define ys where "ys = take j (drop (in_cur v - j) (in_buf e))"
    have ly: "length ys = j" using jk(1) assms(2) by (simp add: ys_def)
    have dj: "drop_bit (N - 8 * j) (bit_buf v) = le_number ys" using bk jk by (simp add: back_ok_def N_def ys_def)
    have pw: "(2 :: nat) ^ N = 2 ^ (8 * j) * 2 ^ (N - 8 * j)" using jk(2) by (simp flip: power_add)
    have e1: "N + 8 * m - 8 * k = N - 8 * j" by (simp add: j)
    have "drop_bit (N - 8 * j) B' = (bit_buf v + (2 ^ (8 * j) * le_number xs) * 2 ^ (N - 8 * j)) div 2 ^ (N - 8 * j)"
      by (simp add: drop_bit_eq_div B'_def pw algebra_simps)
    also have "\<dots> = le_number ys + 2 ^ (8 * j) * le_number xs" using dj by (simp add: drop_bit_eq_div)
    also have "\<dots> = le_number (ys @ xs)" by (simp add: le_number_append ly pow_256)
    also have "ys @ xs = take k (drop (in_cur v + m - k) (in_buf e))"
    proof -
      have "take (j + m) (drop (in_cur v - j) (in_buf e)) = ys @ take m (drop j (drop (in_cur v - j) (in_buf e)))"
        by (simp add: ys_def take_add)
      moreover have "drop j (drop (in_cur v - j) (in_buf e)) = drop (in_cur v) (in_buf e)" using jk(1) by simp
      ultimately show ?thesis by (simp add: j xs_def add.commute)
    qed
    finally show ?thesis by (simp only: e1)
  qed
  then have "back_ok e (refilled e m v)" by (simp add: back_ok_def w)
  moreover have "out_rel e (refilled e m v) out" using o by (simp add: out_rel_def w)
  ultimately show ?thesis using lt by (simp add: core_def w)
qed

text \<open>A shift into the buffer is such a refill.\<close>

lemma shift_in_refilled:
  assumes "bit_buf v < 2 ^ num_bits v" "num_bits v + 8 * m \<le> 64" "0 < m" "in_cur v + m \<le> length (in_buf e)"
    and "c = le_number (take m (drop (in_cur v) (in_buf e)))"
  shows "shift_in c (8 * m) v = Some ((refilled e m v)\<lparr>in_cur := in_cur v\<rparr>)"
proof -
  have "c < 2 ^ (8 * m)" using le_number_less [of "take m (drop (in_cur v) (in_buf e))"] assms(4,5) by (simp add: pow_256)
  then have "push_bit (num_bits v) c < 2 ^ (num_bits v + 8 * m)" by (simp add: push_bit_eq_mult power_add mult.commute)
  also have "\<dots> \<le> 2 ^ 64" by (rule power_increasing) (use assms(2) in simp_all)
  finally have "u64 (push_bit (num_bits v) c) = push_bit (num_bits v) c" by (simp add: u64_def)
  moreover have "bit_buf v OR push_bit (num_bits v) c = bit_buf v + c * 2 ^ num_bits v" by (rule or_disjoint_add [OF assms(1)])
  ultimately show ?thesis using assms(2,3,5) by (simp add: shift_in_def refilled_def mult.commute)
qed

lemma shift_in_in: "shift_in c n (v\<lparr>in_cur := i\<rparr>) = map_option (\<lambda>w. w\<lparr>in_cur := i\<rparr>) (shift_in c n v)"
  by (simp add: shift_in_def)

lemma refilled_in: "(refilled e m v)\<lparr>in_cur := in_cur v, in_cur := in_cur v + m\<rparr> = refilled e m v"
  by (simp add: refilled_def)

section \<open>What does not matter\<close>

lemma strm_frame [simp]:
  "strm F e (v\<lparr>pc := l\<rparr>) = strm F e v" "strm F e (v\<lparr>counter := n\<rparr>) = strm F e v" "strm F e (v\<lparr>dist := n\<rparr>) = strm F e v"
  "strm F e (v\<lparr>num_extra := n\<rparr>) = strm F e v" "strm F e (v\<lparr>dist_from_out_buf_start := n\<rparr>) = strm F e v"
  "strm F e (v\<lparr>dec := r\<rparr>) = strm F e v" "strm F e (v\<lparr>out_buf := ob\<rparr>) = strm F e v" "strm F e (v\<lparr>out_cur := n\<rparr>) = strm F e v"
  by (simp_all add: strm_def)

lemma core_frame [simp]:
  "core e (v\<lparr>pc := l\<rparr>) out = core e v out" "core e (v\<lparr>counter := n\<rparr>) out = core e v out" "core e (v\<lparr>dist := n\<rparr>) out = core e v out"
  "core e (v\<lparr>num_extra := n\<rparr>) out = core e v out" "core e (v\<lparr>dist_from_out_buf_start := n\<rparr>) out = core e v out"
  "core e (v\<lparr>dec := r\<rparr>) out = core e v out"
  by (simp_all add: core_def back_ok_def out_rel_def)

lemma from_frame:
  "lits (r\<lparr>m_state := k\<rparr>) = lits r" "dists (r\<lparr>m_state := k\<rparr>) = dists r"
  "after_block (r\<lparr>m_state := k\<rparr>) x = after_block r x"
  by (simp_all add: lits_def dists_def after_block_def)

lemma from_frame2:
  "syms_from (r\<lparr>m_state := k\<rparr>) s out = syms_from r s out" "lens_from (r\<lparr>m_state := k\<rparr>) lens s out = lens_from r lens s out"
  "lens_from (r\<lparr>m_state := k, m_code_size_2 := cl\<rparr>) lens s out = lens_from (r\<lparr>m_code_size_2 := cl\<rparr>) lens s out"
  "raw_from (r\<lparr>m_state := k\<rparr>) n s out = raw_from r n s out" "stored_from (r\<lparr>m_state := k\<rparr>) n s out = stored_from r n s out"
  by (simp_all add: syms_from_def lens_from_def raw_from_def stored_from_def from_frame after_block_def)

lemma from_frame3: "codes_from (r\<lparr>m_state := k\<rparr>) s out = codes_from r s out"
  "copy_from (r\<lparr>m_state := k\<rparr>) len d s out = copy_from r len d s out"
  "codes_from (r\<lparr>m_state := k, m_code_size_2 := cl\<rparr>) s out = codes_from (r\<lparr>m_code_size_2 := cl\<rparr>) s out"
  by (simp_all add: codes_from_def copy_from_def from_frame2)

lemma from_frame4: "clens_from (r\<lparr>m_state := k\<rparr>) n s out = clens_from r n s out"
  "dsym_from (r\<lparr>m_state := k\<rparr>) len sy s out = dsym_from r len sy s out"
  "tables_from (r\<lparr>m_state := k\<rparr>) s out = tables_from r s out"
  by (auto simp: clens_from_def dsym_from_def tables_from_def from_frame from_frame2 from_frame3 split_def)

lemma clens_frame:
  "clens_from (r\<lparr>m_state := k, m_table_sizes := t, m_code_size_2 := c\<rparr>) n s out = clens_from (r\<lparr>m_table_sizes := t, m_code_size_2 := c\<rparr>) n s out"
proof -
  have eq: "r\<lparr>m_state := k, m_table_sizes := t, m_code_size_2 := c\<rparr> = (r\<lparr>m_table_sizes := t, m_code_size_2 := c\<rparr>)\<lparr>m_state := k\<rparr>"
    by simp
  show ?thesis unfolding eq by (rule from_frame4)
qed

lemma from_frame5: "dist_from (r\<lparr>m_state := k\<rparr>) len s out = dist_from r len s out"
  "sizes_from (r\<lparr>m_state := k\<rparr>) n s out = sizes_from r n s out"
  by (simp_all add: dist_from_def sizes_from_def from_frame from_frame4 clens_frame split_def)

lemma from_frame6: "sym_from (r\<lparr>m_state := k\<rparr>) sy s out = sym_from r sy s out"
  "huff_from (r\<lparr>m_state := k\<rparr>) n j s out = huff_from r n j s out" "rep_from (r\<lparr>m_state := k\<rparr>) n d x s out = rep_from r n d x s out"
  by (simp_all add: sym_from_def huff_from_def rep_from_def from_frame from_frame2 from_frame5 split_def cong: if_cong)

lemma meaning_at_state [simp]: "meaning_at l (r\<lparr>m_state := k\<rparr>) n d x = meaning_at l r n d x"
  by (cases l) (simp_all add: meaning_at_def fun_eq_iff from_frame from_frame2 from_frame3 from_frame4 from_frame5 from_frame6
    cong: if_cong)

lemma has_frame [simp]:
  "has_table (r\<lparr>m_state := k\<rparr>) t cs = has_table r t cs" "has_tabs (r\<lparr>m_state := k\<rparr>) = has_tabs r"
  "huff_tabs j (r\<lparr>m_state := k\<rparr>) = huff_tabs j r"
  by (simp_all add: has_tabs_def huff_tabs_def has_table_def from_frame)

lemma meaning_frame [simp]:
  "meaning (v\<lparr>bit_buf := n\<rparr>) = meaning v" "meaning (v\<lparr>num_bits := n\<rparr>) = meaning v" "meaning (v\<lparr>in_cur := n\<rparr>) = meaning v"
  "meaning (v\<lparr>out_buf := ob\<rparr>) = meaning v" "meaning (v\<lparr>out_cur := n\<rparr>) = meaning v"
  "meaning (v\<lparr>dist_from_out_buf_start := n\<rparr>) = meaning v"
  by (simp_all add: meaning_def)

lemma pc_same: "pc v = l \<Longrightarrow> v\<lparr>pc := l\<rparr> = v"
  by auto

lemma meaning_state [simp]: "meaning (v\<lparr>dec := (dec v)\<lparr>m_state := k\<rparr>\<rparr>) = meaning v"
  by (simp add: meaning_def)

lemma side_state [simp]: "side e (v\<lparr>dec := (dec v)\<lparr>m_state := k\<rparr>\<rparr>) out = side e v out"
  by (simp add: side_def not_found_def header_ok_def Let_def from_frame split: tinfl_pc.split)

section \<open>The rules\<close>

lemma simD:
  assumes "sim F e v out x"
  shows "core e v out" "side e v out" "meaning v (strm F e v) out = Some x" "bit_buf v < 2 ^ num_bits v"
  using assms by (simp_all add: sim_def core_def)

lemma sim_go:
  assumes "core e w out" "side e (w\<lparr>pc := l\<rparr>) out" "meaning (w\<lparr>pc := l\<rparr>) (strm F e w) out = Some x" "out_cur w = out_cur v"
  shows "step_sim F e v out x (go l w)"
  unfolding step_sim_def go_def using assms by (auto simp: sim_def intro!: exI [of _ "[]"])

lemma sim_go_out:
  assumes "core e w (out @ new)" "side e (w\<lparr>pc := l\<rparr>) (out @ new)" "meaning (w\<lparr>pc := l\<rparr>) (strm F e w) (out @ new) = Some x"
    "out_cur w = out_cur v + length new"
  shows "step_sim F e v out x (go l w)"
  unfolding step_sim_def go_def using assms by (auto simp: sim_def)

lemma sim_return:
  assumes "sim F e v out x" "pc v = St k"
    and "st = TINFL_STATUS_DONE \<and> k = 34 \<or> st = need_input e \<and> F \<noteq> [] \<and> in_cur v = length (in_buf e) \<or>
      st = TINFL_STATUS_HAS_MORE_OUTPUT \<and> k \<in> {9, 24, 52, 53} \<and> out_cur v = out_end e \<and> length out < length (snd x)"
  shows "step_sim F e v out x (cr_return k st v)"
  unfolding step_sim_def cr_return_def using assms
  by (simp add: halted_def sim_def pc_same)

lemma sim_get_byte:
  assumes "sim F e v out x" "pc v = St k" "in_cur v \<le> length (in_buf e)"
    and "F = [] \<Longrightarrow> in_cur v < length (in_buf e)"
    and "\<And>c. in_cur v < length (in_buf e) \<Longrightarrow> c = unat (in_buf e ! in_cur v) \<Longrightarrow> step_sim F e v out x (K c (v\<lparr>in_cur := in_cur v + 1\<rparr>))"
  shows "step_sim F e v out x (get_byte e k v K)"
proof (cases "length (in_buf e) \<le> in_cur v")
  case True
  then have "F \<noteq> []" "in_cur v = length (in_buf e)" using assms(3,4) by auto
  then show ?thesis using True sim_return [OF assms(1,2)] by (simp add: get_byte_def)
next
  case False
  then show ?thesis using assms(5) by (simp add: get_byte_def rd8_def)
qed

lemma one_byte: "i < length xs \<Longrightarrow> le_number (take 1 (drop i xs)) = unat (xs ! i)"
  by (simp add: take_Suc_conv_app_nth hd_drop_conv_nth take_Suc)

lemma sim_get_bits:
  assumes sim: "sim F e v out x" and pc: "pc v = St k" "k \<notin> {7, 9, 16, 23, 26, 38}" and inv: "in_cur v \<le> length (in_buf e)"
    and m: "meaning v (strm F e v) out = Option.bind (read_num n (strm F e v)) (\<lambda>(b, s). M b s)" and n: "n \<le> 16"
    and cont: "\<And>b w. n \<le> num_bits v \<Longrightarrow> b < 2 ^ n \<Longrightarrow> core e w out \<Longrightarrow>
      w = v\<lparr>bit_buf := drop_bit n (bit_buf v), num_bits := num_bits v - n\<rparr> \<Longrightarrow> M b (strm F e w) = Some x \<Longrightarrow>
      step_sim F e v out x (K b w)"
    and small: "num_bits v < 64"
  shows "step_sim F e v out x (get_bits e k n v K)"
proof (cases "num_bits v < n")
  case True
  have "snd (strm F e v) \<ge> n"
    using simD(3) [OF sim] unfolding m by (cases "strm F e v") (auto simp: read_num_def split: if_splits)
  then have more: "in_cur v < length (in_buf e) \<or> F \<noteq> []" using True by (auto simp: strm_def)
  have "step_sim F e v out x (get_byte e k v (\<lambda>c v. do { v \<leftarrow> shift_in c 8 v; go (St k) v }))"
  proof (rule sim_get_byte [OF sim pc(1) inv])
    fix c
    assume room: "in_cur v < length (in_buf e)" and c: "c = unat (in_buf e ! in_cur v)"
    define w where "w = refilled e 1 v"
    have "shift_in c (8 * 1) v = Some ((refilled e 1 v)\<lparr>in_cur := in_cur v\<rparr>)"
      by (rule shift_in_refilled) (use simD(4) [OF sim] True n room c one_byte [of "in_cur v" "in_buf e"] in simp_all)
    then have sh: "shift_in c 8 (v\<lparr>in_cur := in_cur v + 1\<rparr>) = Some w"
      using refilled_in [where e = e and v = v and m = 1] unfolding shift_in_in w_def by simp
    have "side e (w\<lparr>pc := St k\<rparr>) out = side e (v\<lparr>pc := St k\<rparr>) out" using pc(2) by (simp add: side_def header_ok_def w_def refilled_def)
    then have "side e (w\<lparr>pc := St k\<rparr>) out" using simD(2) [OF sim] pc_same [OF pc(1)] by simp
    moreover have "meaning (w\<lparr>pc := St k\<rparr>) (strm F e w) out = Some x"
    proof -
      have "w\<lparr>pc := St k\<rparr> = v\<lparr>pc := St k, bit_buf := bit_buf w, num_bits := num_bits w, in_cur := in_cur w\<rparr>"
        by (simp add: w_def refilled_def)
      then have "meaning (w\<lparr>pc := St k\<rparr>) = meaning v" using pc_same [OF pc(1)] by simp
      moreover have "strm F e w = strm F e v" unfolding w_def by (rule strm_refilled) (use room in simp)
      ultimately show ?thesis using simD(3) [OF sim] by simp
    qed
    moreover have "core e w out" unfolding w_def by (rule core_refilled [OF simD(1) [OF sim]]) (use room in simp)
    ultimately have "step_sim F e v out x (go (St k) w)" by (intro sim_go) (simp_all add: w_def refilled_def)
    then show "step_sim F e v out x (do { v \<leftarrow> shift_in c 8 (v\<lparr>in_cur := in_cur v + 1\<rparr>); go (St k) v })"
      by (simp only: sh Option.bind.bind_lunit)
  qed (use more in auto)
  then show ?thesis using True by (simp add: get_bits_def)
next
  case False
  define w where "w = v\<lparr>bit_buf := drop_bit n (bit_buf v), num_bits := num_bits v - n\<rparr>"
  define b where "b = take_bit n (bit_buf v)"
  have rd: "read_num n (strm F e v) = Some (b, strm F e w)" unfolding b_def w_def by (rule read_num_strm) (use False in simp)
  have "M b (strm F e w) = Some x" using simD(3) [OF sim] unfolding m rd by simp
  moreover have "core e w out" unfolding w_def by (rule core_drop [OF simD(1) [OF sim]]) (use False in simp)
  moreover have "b < 2 ^ n" by (simp add: b_def)
  ultimately have "step_sim F e v out x (K b w)" using cont [of b w] False by (simp add: w_def)
  moreover have "sub32 (num_bits v) n = num_bits v - n" by (rule sub32_le) (use False small in simp_all)
  moreover have "bit_buf v AND (2 ^ n - 1) = b" by (simp add: b_def take_bit_eq_mask mask_eq_exp_minus_1)
  ultimately show ?thesis using False n by (simp add: get_bits_def drop_bits_def w_def)
qed

end
