(* ===== verification/InflateRaw.thy ===== *)
theory InflateRaw
  imports InflateSim
begin

unbundle bit_operations_syntax

text \<open>
  The decompressor follows the format: the block header, stored blocks, and the end of a block.
\<close>

section \<open>Numbers from the stream\<close>

lemma read_num_add:
  "read_num (a + b) s = Option.bind (read_num a s) (\<lambda>(x, s). Option.bind (read_num b s) (\<lambda>(y, s). Some (x + 2 ^ a * y, s)))"
proof (cases s)
  case (Pair B m)
  have "take_bit (a + b) B = take_bit a B + 2 ^ a * take_bit b (drop_bit a B)"
    by (simp add: take_bit_eq_mod drop_bit_eq_div power_add mod_mult2_eq)
  then show ?thesis by (auto simp: Pair read_num_def add.commute [of b a] diff_diff_eq)
qed

lemma read_num_0 [simp]: "read_num 0 s = Some (0, s)"
  by (cases s) (simp add: read_num_def)

lemma read_num_less: "read_num n s = Some (x, s') \<Longrightarrow> x < 2 ^ n"
  by (cases s) (auto simp: read_num_def split: if_splits)

lemma read_num_align: "align s = (case read_num (snd s mod 8) s of Some (_, s') \<Rightarrow> s' | None \<Rightarrow> s)"
  by (cases s) (simp add: align_def read_num_def)

lemma snd_strm_mod: "snd (strm F e v) mod 8 = num_bits v mod 8"
  unfolding strm_def snd_conv by (rule mod_mult_self2)

lemma read_align: "Option.bind (read_num (num_bits v mod 8) (strm F e v)) (\<lambda>(_, s). f s) = f (align (strm F e v))"
proof -
  have "num_bits v mod 8 \<le> num_bits v" by simp
  then show ?thesis using read_num_strm by (simp add: read_num_align snd_strm_mod)
qed

section \<open>The block header\<close>

lemma after_block_cong: "m_final r = m_final r' \<Longrightarrow> after_block r = after_block r'"
  by (simp add: after_block_def fun_eq_iff)

lemma syms_cong: "m_final r = m_final r' \<Longrightarrow> lits r = lits r' \<Longrightarrow> dists r = dists r' \<Longrightarrow> syms_from r = syms_from r'"
  using after_block_cong [of r r'] by (simp add: syms_from_def fun_eq_iff)

lemma blocks_unfold:
  "inflate_blocks s out = Option.bind (read_num 3 s) (\<lambda>(b, s). after_block (r\<lparr>m_final := b\<rparr>) (read_block (drop_bit 1 b) s out))"
proof -
  have "read_num 3 s = Option.bind (read_num 1 s) (\<lambda>(x, s). Option.bind (read_num 2 s) (\<lambda>(y, s). Some (x + 2 * y, s)))"
    using read_num_add [of 1 2 s] by (simp add: numeral_3_eq_3)
  moreover have "after_block (r\<lparr>m_final := x + 2 * y\<rparr>) (read_block (drop_bit 1 (x + 2 * y)) s' out) =
      Option.bind (read_block y s' out) (\<lambda>(s, out). if x = 1 then Some (align s, out) else inflate_blocks s out)"
    if "read_num 1 s = Some (x, s0)" for x y s' s0
  proof -
    have x: "x = 0 \<or> x = 1" using read_num_less [OF that] by auto
    then have "drop_bit 1 (x + 2 * y) = y" "(x + 2 * y) AND 1 = x" by (auto simp: drop_bit_Suc and_one_eq)
    then show ?thesis using x by (auto simp: after_block_def intro!: Option.bind_cong)
  qed
  ultimately show ?thesis
    by (subst inflate_blocks.simps) (auto split: Option.bind_split intro!: Option.bind_cong)
qed


lemma after_block_upd [simp]:
  "after_block (r\<lparr>m_table_sizes := t\<rparr>) = after_block r" "after_block (r\<lparr>m_code_size_0 := c\<rparr>) = after_block r"
  "after_block (r\<lparr>m_code_size_1 := c\<rparr>) = after_block r" "after_block (r\<lparr>m_code_size_2 := c\<rparr>) = after_block r"
  "after_block (r\<lparr>m_type := n\<rparr>) = after_block r" "after_block (r\<lparr>m_raw_header := h\<rparr>) = after_block r"
  "after_block (r\<lparr>m_len_codes := h\<rparr>) = after_block r"
  by (rule after_block_cong, simp)+

lemma after_block_bind:
  "after_block r None = None" "after_block r (Option.bind y f) = Option.bind y (\<lambda>y. after_block r (f y))"
  "after_block r (case q of (a, b) \<Rightarrow> g a b) = (case q of (a, b) \<Rightarrow> after_block r (g a b))"
  "after_block r (if c then u else w) = (if c then after_block r u else after_block r w)"
  by (simp_all add: after_block_def split_def)

text \<open>The header of a dynamic block, number by number.\<close>

lemma sizes_dynamic:
  assumes "length (m_table_sizes r) = 3"
  shows "sizes_from r 0 s out = after_block r (dynamic_block s out)"
proof -
  have upd: "after_block (r\<lparr>m_table_sizes := t, m_code_size_2 := c\<rparr>) = after_block r" for t c
    by (rule after_block_cong) simp
  show ?thesis
    using assms by (simp add: sizes_from_def dynamic_block_def clens_from_def codes_from_def lens_from_def Let_def upd
      after_block_bind split_def cong: if_cong)
qed

lemma fixed_codes: "fixed_code_sizes = fixed_ls" "length fixed_ls = 288" "good_lengths fixed_ls" "good_lengths fixed_ds"
  by (simp_all add: fixed_code_sizes_def fixed_ls_def fixed_ds_def good_lengths_def kraft_sum_def sum_list_replicate)

lemma meaning_go [simp]: "meaning (v\<lparr>pc := l\<rparr>) = meaning_at l (dec v) (counter v) (dist v) (num_extra v)"
  by (simp add: meaning_def)

lemma step_block_sim:
  assumes sim: "sim F e v out x" and inv: "inv e v" and pc: "pc v = St 3"
  shows "step_sim F e v out x (step_block e v)"
  unfolding step_block_def
proof (rule sim_get_bits [OF sim pc _ invD(4) [OF inv]])
  show "meaning v (strm F e v) out = Option.bind (read_num 3 (strm F e v))
      (\<lambda>(b, s). after_block ((dec v)\<lparr>m_final := b\<rparr>) (read_block (drop_bit 1 b) s out))"
    unfolding blocks_unfold [symmetric] by (simp add: meaning_def pc meaning_at_def)
next
  fix b :: nat and w
  assume b: "b < 2 ^ 3" and core: "core e w out" and w: "w = v\<lparr>bit_buf := drop_bit 3 (bit_buf v), num_bits := num_bits v - 3\<rparr>"
    and M: "after_block ((dec v)\<lparr>m_final := b\<rparr>) (read_block (drop_bit 1 b) (strm F e w) out) = Some x"
  define type where "type = drop_bit 1 b"
  define r where "r = (dec w)\<lparr>m_final := b, m_type := type\<rparr>"
  have ab: "after_block ((dec v)\<lparr>m_final := b\<rparr>) = after_block r" by (rule after_block_cong) (simp add: r_def)
  have M': "after_block r (read_block type (strm F e w) out) = Some x"
    using M by (simp only: ab [symmetric] type_def)
  have len: "length (m_table_sizes r) = 3" using invD(2) [OF inv] by (simp add: r_def w decomp_shape_def)
  have "type < 4" using b by (simp add: type_def drop_bit_Suc)
  then have t: "type = 0 \<or> type = 1 \<or> type = 2"
    using M' by (auto simp: read_block_def after_block_def split: if_splits)
  define r1 where "r1 = r\<lparr>m_table_sizes := (m_table_sizes r)[0 := 288, 1 := 32],
      m_code_size_1 := replicate 32 5 @ drop 32 (m_code_size_1 r),
      m_code_size_0 := fixed_code_sizes @ drop 288 (m_code_size_0 r)\<rparr>"
  have upd: "upd_o (m_table_sizes r) 0 288 = Some ((m_table_sizes r)[0 := 288])"
      "upd_o ((m_table_sizes r)[0 := 288]) 1 32 = Some ((m_table_sizes r)[0 := 288, 1 := 32])"
    using len by (simp_all add: upd_o_def)
  have "step_sim F e v out x (go (St 5) (w\<lparr>dec := r\<rparr>))" if "type = 0"
    by (rule sim_go)
      (use M' core that in \<open>simp_all add: side_def meaning_at_def read_block_def\<close>, simp add: w)
  moreover have "step_sim F e v out x (go (St 11) (w\<lparr>dec := r, counter := 0\<rparr>))" if "type = 2"
  proof (rule sim_go)
    show "core e (w\<lparr>dec := r, counter := 0\<rparr>) out" using core by simp
    show "meaning (w\<lparr>dec := r, counter := 0, pc := St 11\<rparr>) (strm F e (w\<lparr>dec := r, counter := 0\<rparr>)) out = Some x"
      using M' that sizes_dynamic [of r] len by (simp add: meaning_at_def read_block_def)
  qed (simp_all add: side_def w)
  moreover have "step_sim F e v out x (go Tables (w\<lparr>dec := r1\<rparr>))" if "type = 1"
  proof (rule sim_go)
    have l: "lits r1 = fixed_ls" "dists r1 = fixed_ds" "m_type r1 = 1" "after_block r1 = after_block r"
      using len that fixed_codes(1,2) by (simp_all add: lits_def dists_def r1_def fixed_ds_def r_def after_block_upd)
    then show "meaning (w\<lparr>dec := r1, pc := Tables\<rparr>) (strm F e (w\<lparr>dec := r1\<rparr>)) out = Some x"
      using M' that fixed_codes by (simp add: meaning_at_def tables_from_def syms_from_def read_block_def)
    show "side e (w\<lparr>dec := r1, pc := Tables\<rparr>) out" using l by (simp add: side_def)
  qed (use core in \<open>simp_all add: w\<close>)
  ultimately show "step_sim F e v out x (let type = drop_bit 1 b; r = (dec w)\<lparr>m_final := b, m_type := type\<rparr>
     in if type = 0 then go (St 5) (w\<lparr>dec := r\<rparr>)
        else if type = 3 then go (St 10) (w\<lparr>dec := r\<rparr>)
        else if type = 1 then do {
          sizes \<leftarrow> upd_o (m_table_sizes r) 0 288;
          sizes \<leftarrow> upd_o sizes 1 32;
          go Tables (w\<lparr>dec := r\<lparr>m_table_sizes := sizes,
            m_code_size_1 := replicate 32 5 @ drop 32 (m_code_size_1 r),
            m_code_size_0 := fixed_code_sizes @ drop 288 (m_code_size_0 r)\<rparr>\<rparr>)
        }
        else go (St 11) (w\<lparr>dec := r, counter := 0\<rparr>))"
    using t unfolding Let_def type_def [symmetric] r_def [symmetric] upd Option.bind.bind_lunit r1_def [symmetric] by (elim disjE) simp_all
qed (use invD(3) [OF inv] in simp_all)


section \<open>Writing a byte\<close>

lemma core_push:
  assumes core: "core e v out" and room: "out_cur v < out_end e" "out_end e \<le> length (out_buf v)"
  shows "core e (v\<lparr>out_buf := (out_buf v)[out_cur v := b], out_cur := out_cur v + 1\<rparr>) (out @ [b])"
proof -
  define M where "M = ring e"
  note rel = core [unfolded core_def out_rel_def, folded M_def]
  have M: "32768 \<le> M" "out_end e \<le> M" "out_cur v mod M = length out mod M" using rel by blast+
  have old: "out_buf v ! (j mod M) = out ! j" if "j < length out" "length out \<le> j + M" for j using rel that by blast
  have cur: "length out mod M = out_cur v" using M room(1) by simp
  have "(out_cur v + 1) mod M = (length out + 1) mod M" using M(3) by (rule mod_add_cong) simp
  moreover have "(out_buf v)[out_cur v := b] ! (j mod M) = (out @ [b]) ! j" if j: "j < length out + 1" "length out + 1 \<le> j + M" for j
  proof (cases "j = length out")
    case True
    then show ?thesis using cur room by simp
  next
    case False
    then have lt: "j < length out" using j(1) by simp
    have "j mod M \<noteq> length out mod M"
    proof
      assume "j mod M = length out mod M"
      then have "length out mod M = j mod M" by simp
      then have "M dvd length out - j" using mod_eq_dvd_iff_nat lt less_imp_le by blast
      then show False using lt j(2) by (auto dest: dvd_imp_le)
    qed
    then have "out_cur v \<noteq> j mod M" using cur by simp
    then show ?thesis using old [OF lt] j(2) lt by (simp add: nth_append)
  qed
  ultimately show ?thesis
    using rel by (simp add: core_def back_ok_def out_rel_def M_def [symmetric])
qed

lemma sim_put_byte:
  assumes sim: "sim F e v out x" and inv: "inv e v" and pc: "pc v = St k" and k: "k \<in> {24, 52}" and more: "length out < length (snd x)"
    and cont: "\<And>w. w = v\<lparr>out_buf := (out_buf v)[out_cur v := word_of_nat b], out_cur := out_cur v + 1\<rparr> \<Longrightarrow>
      core e w (out @ [word_of_nat b]) \<Longrightarrow> step_sim F e v out x (K w)"
  shows "step_sim F e v out x (put_byte e k b v K)"
proof (cases "out_end e \<le> out_cur v")
  case True
  then have "step_sim F e v out x (cr_return k TINFL_STATUS_HAS_MORE_OUTPUT v)"
    using sim_return [OF sim pc] invD(6) [OF inv] more k by auto
  then show ?thesis using True by (simp add: put_byte_def)
next
  case False
  note room = invD(7) [OF inv]
  have "step_sim F e v out x (K (v\<lparr>out_buf := (out_buf v)[out_cur v := word_of_nat b], out_cur := out_cur v + 1\<rparr>))"
    by (rule cont [OF refl], rule core_push [OF simD(1) [OF sim]]) (use False room in simp_all)
  then show ?thesis using False room by (simp add: put_byte_def upd_o_def)
qed

section \<open>The output only grows\<close>

lemma length_copy_stored: "copy_stored n s out = Some (s', out') \<Longrightarrow> length out' = length out + n"
  by (induction n arbitrary: s out) (auto simp: bind_eq_Some_conv)

lemma length_copy_out [simp]: "length (copy_out n d out) = length out + n"
  by (induction n arbitrary: out) simp_all

lemma length_read_syms: "read_syms ls ds s out = Some y \<Longrightarrow> length out \<le> length (snd y)"
proof (induction rule: read_syms.raw_induct [rotated, consumes 1])
  case (1 rec ls ds s out y)
  have "length out \<le> length (snd y)" if "rec ls ds s' (out @ new) = Some y" for s' new
    using "1.IH" [OF that] by simp
  moreover have "length out \<le> length (snd y)" if "rec ls ds s' (copy_out n d out) = Some y" for s' n d
    using "1.IH" [OF that] by simp
  ultimately show ?case using "1.hyps" by (auto simp: bind_eq_Some_conv split: if_splits prod.splits)
qed

lemma length_read_block:
  assumes "read_block type s out = Some y"
  shows "length out \<le> length (snd y)"
proof (cases y)
  case (Pair s' out')
  then show ?thesis using assms
    by (auto simp: read_block_def stored_block_def dynamic_block_def coded_block_def bind_eq_Some_conv
      split: if_splits dest!: length_copy_stored length_read_syms)
qed

lemma length_inflate_blocks: "inflate_blocks s out = Some y \<Longrightarrow> length out \<le> length (snd y)"
proof (induction rule: inflate_blocks.raw_induct [rotated, consumes 1])
  case (1 rec s out y)
  have "length out \<le> length (snd y)" if "rec s' out' = Some y" "read_block t s'' out = Some (s', out')" for s' out' t s''
    using "1.IH" [OF that(1)] length_read_block [OF that(2)] by simp
  moreover have "length out \<le> length out'" if "read_block t s'' out = Some (s', out')" for s' out' t s''
    using length_read_block [OF that] by simp
  ultimately show ?case using "1.hyps" by (auto simp: bind_eq_Some_conv split: if_splits)
qed

lemma after_block_grows:
  assumes "after_block r y = Some x"
  obtains s' out' where "y = Some (s', out')" "length out' \<le> length (snd x)"
proof (cases y)
  case (Some p)
  then show ?thesis
    using assms that [of "fst p" "snd p"] length_inflate_blocks [of "fst p" "snd p" x]
    by (auto simp: after_block_def split_def split: if_splits)
qed (use assms in \<open>simp add: after_block_def\<close>)


section \<open>Stored blocks\<close>

lemma and_7: "n AND 7 = n mod (8 :: nat)"
  using take_bit_eq_mask [of 3 n] by (simp add: take_bit_eq_mod mask_eq_exp_minus_1)

text \<open>The four bytes of the header are its two numbers.\<close>

lemma stored_raw: "raw_from r 0 (align s) out = after_block r (stored_block s out)"
proof -
  have two: "read_num 16 s = Option.bind (read_num 8 s) (\<lambda>(x, s). Option.bind (read_num 8 s) (\<lambda>(y, s). Some (x + 256 * y, s)))" for s
    using read_num_add [of 8 8 s] by simp
  have four: "read_bytes 4 = read_bytes (Suc (Suc (Suc (Suc 0))))" by (rule arg_cong [of _ _ read_bytes]) simp
  show ?thesis
    by (simp add: raw_from_def stored_block_def raw_done_def two four after_block_bind split_def Let_def cong: if_cong)
qed

lemma step_skip5_sim:
  assumes sim: "sim F e v out x" and inv: "inv e v" and pc: "pc v = St 5"
  shows "step_sim F e v out x (step_skip5 e v)"
  unfolding step_skip5_def and_7
proof (rule sim_get_bits [OF sim pc _ invD(4) [OF inv]])
  show "meaning v (strm F e v) out = Option.bind (read_num (num_bits v mod 8) (strm F e v)) (\<lambda>(b, s). raw_from (dec v) 0 s out)"
    unfolding read_align by (simp add: stored_raw meaning_def pc meaning_at_def)
next
  fix b w
  assume "core e w out" "w = v\<lparr>bit_buf := drop_bit (num_bits v mod 8) (bit_buf v), num_bits := num_bits v - num_bits v mod 8\<rparr>"
    "raw_from (dec v) 0 (strm F e w) out = Some x"
  then show "step_sim F e v out x (go Raw_header (w\<lparr>counter := 0\<rparr>))"
    by (intro sim_go) (simp_all add: side_def header_ok_def meaning_at_def)
next
  have "num_bits v mod 8 < 8" by simp
  then show "num_bits v mod 8 \<le> 16" by linarith
qed (use invD(3) [OF inv] in simp_all)

lemma not_16: "(a + 256 * b \<noteq> 0xFFFF XOR (c + 256 * d)) = (a + 256 * b + (c + 256 * d) \<noteq> 65535)"
  if "c < 256" "d < 256" for a b c d :: nat
proof -
  define m where "m = c + 256 * d"
  have m: "m < 2 ^ 16" using that by (simp add: m_def)
  have "(0xFFFF XOR m) + m = 65535"
  proof -
    have bits: "n < 16" if "bit m n" for n using that m by (metis bit_take_bit_iff take_bit_nat_eq_self)
    have full: "(65535 :: nat) = mask 16" by (simp add: mask_eq_exp_minus_1)
    have "(0xFFFF XOR m) AND m = 0" unfolding full
      by (rule bit_eqI) (auto simp: bit_simps dest: bits)
    then have "(0xFFFF XOR m) + m = (0xFFFF XOR m) OR m" by (simp add: disjunctive_add_eq_or)
    also have "\<dots> = 65535" unfolding full
      by (rule bit_eqI) (auto simp: bit_simps dest: bits)
    finally show ?thesis .
  qed
  then show ?thesis by (auto simp: m_def [symmetric])
qed

lemma step_raw_header_sim:
  assumes sim: "sim F e v out x" and inv: "inv e v" and pc: "pc v = Raw_header"
  shows "step_sim F e v out x (step_raw_header e v)"
proof (cases "counter v < 4")
  case True
  have "step_sim F e v out x (go (if num_bits v \<noteq> 0 then St 6 else St 7) v)"
    by (rule sim_go) (use simD [OF sim] pc in \<open>simp_all add: side_def header_ok_def meaning_def meaning_at_def\<close>)
  then show ?thesis using True by (simp add: step_raw_header_def)
next
  case False
  define h where "h = m_raw_header (dec v)"
  define n where "n = h ! 0 + 256 * h ! 1"
  have l: "length h = 4" using invD(2) [OF inv] by (simp add: h_def decomp_shape_def)
  have all: "take (counter v) h = h" using False l by simp
  have "\<forall>b \<in> set h. b < 256" using simD(2) [OF sim] all by (simp add: side_def pc header_ok_def h_def)
  then have b: "h ! i < 256" if "i < 4" for i using l that by simp
  have or: "a OR push_bit 8 c = a + 256 * c" if "a < 256" for a c :: nat
    using or_disjoint_add [of a 8 c] that by simp
  have "after_block (dec v) (raw_done h (strm F e v) out) = Some x"
    using simD(3) [OF sim] False all by (simp add: meaning_def pc meaning_at_def raw_from_def h_def)
  then have ok: "n + (h ! 2 + 256 * h ! 3) = 65535" "after_block (dec v) (copy_stored n (strm F e v) out) = Some x"
    by (auto simp: raw_done_def Let_def n_def after_block_bind split: if_splits)
  have "n < 65536" using b [of 0] b [of 1] by (simp add: n_def)
  then have "step_sim F e v out x (go Raw_bits (v\<lparr>counter := n\<rparr>))"
    using ok simD(1) [OF sim] by (intro sim_go) (simp_all add: side_def meaning_at_def stored_from_def)
  moreover have "\<not> n \<noteq> 0xFFFF XOR (h ! 2 + 256 * h ! 3)"
    using not_16 [OF b [of 2] b [of 3], of "h ! 0" "h ! 1"] ok(1) unfolding n_def by simp
  moreover have "nth_o h 0 = Some (h ! 0)" "nth_o h 1 = Some (h ! 1)" "nth_o h 2 = Some (h ! 2)" "nth_o h 3 = Some (h ! 3)"
    using l by (simp_all add: nth_o_def)
  moreover have "h ! 0 + 256 * h ! Suc 0 = n" by (simp add: n_def)
  ultimately show ?thesis
    using False or [of "h ! 0"] or [of "h ! 2"] b [of 0] b [of 2]
    by (simp add: step_raw_header_def h_def [symmetric] Let_def)
qed


lemma read_raw_byte:
  assumes "n < 4" "n < length (m_raw_header r)"
  shows "raw_from r n s out = Option.bind (read_num 8 s)
    (\<lambda>(b, s). raw_from (r\<lparr>m_raw_header := (m_raw_header r)[n := b]\<rparr>) (Suc n) s out)"
proof -
  have "4 - n = Suc (4 - Suc n)" using assms(1) by simp
  moreover have "take (Suc n) ((m_raw_header r)[n := b]) = take n (m_raw_header r) @ [b]" for b
    using assms(2) by (simp add: take_Suc_conv_app_nth)
  ultimately show ?thesis by (simp add: raw_from_def split_def)
qed

lemma store_raw_sim:
  assumes "counter w < length (m_raw_header (dec w))" "\<forall>b \<in> set (take (counter w) (m_raw_header (dec w))). b < 256" "b < 256"
    and "core e w out" "out_cur w = out_cur v"
    and "raw_from ((dec w)\<lparr>m_raw_header := (m_raw_header (dec w))[counter w := b]\<rparr>) (Suc (counter w)) (strm F e w) out = Some x"
  shows "step_sim F e v out x (store_raw b w)"
proof -
  define h where "h = m_raw_header (dec w)"
  have "step_sim F e v out x (go Raw_header (w\<lparr>dec := (dec w)\<lparr>m_raw_header := h[counter w := b]\<rparr>, counter := counter w + 1\<rparr>))"
    by (rule sim_go) (use assms in \<open>auto simp: side_def header_ok_def meaning_at_def h_def take_Suc_conv_app_nth\<close>)
  moreover have "upd_o h (counter w) b = Some (h[counter w := b])" using assms(1) by (simp add: upd_o_def h_def)
  ultimately show ?thesis by (simp add: store_raw_def h_def)
qed

lemma step_raw6_sim:
  assumes sim: "sim F e v out x" and inv: "inv e v" and pc: "pc v = St 6"
  shows "step_sim F e v out x (get_bits e 6 8 v store_raw)"
proof (rule sim_get_bits [OF sim pc _ invD(4) [OF inv]])
  have c: "counter v < 4" "length (m_raw_header (dec v)) = 4"
    using inv by (simp_all add: inv_def base_inv_def decomp_shape_def pc_inv_def pc label_inv_def label_at_def)
  show "meaning v (strm F e v) out = Option.bind (read_num 8 (strm F e v))
      (\<lambda>(b, s). raw_from ((dec v)\<lparr>m_raw_header := (m_raw_header (dec v))[counter v := b]\<rparr>) (Suc (counter v)) s out)"
    using c read_raw_byte [of "counter v" "dec v"] by (simp add: meaning_def pc meaning_at_def)
  fix b w
  assume "b < 2 ^ 8" "core e w out" "w = v\<lparr>bit_buf := drop_bit 8 (bit_buf v), num_bits := num_bits v - 8\<rparr>"
    "raw_from ((dec v)\<lparr>m_raw_header := (m_raw_header (dec v))[counter v := b]\<rparr>) (Suc (counter v)) (strm F e w) out = Some x"
  then show "step_sim F e v out x (store_raw b w)"
    using simD(2) [OF sim] pc c by (intro store_raw_sim) (simp_all add: side_def header_ok_def)
qed (use invD(3) [OF inv] in simp_all)

text \<open>With no bits left, the next byte of the input is the next number.\<close>

lemma core_at_byte: "num_bits v = 0 \<Longrightarrow> core e (v\<lparr>in_cur := i\<rparr>) out = core e v out"
  by (auto simp: core_def back_ok_def out_rel_def)

lemma strm_at_byte:
  assumes "num_bits v = 0" "bit_buf v < 2 ^ num_bits v"
  shows "strm F e v = (le_number (drop (in_cur v) (in_buf e) @ F), 8 * length (drop (in_cur v) (in_buf e) @ F))"
  using assms by (simp add: strm_def)

lemma read_byte: "read_num 8 (le_number (b # bs), 8 * length (b # bs)) = Some (unat b, le_number bs, 8 * length bs)"
proof -
  have "unat b < 256" by simp
  then show ?thesis by (simp add: read_num_def take_bit_eq_mod drop_bit_eq_div)
qed

lemma read_at_byte:
  assumes "num_bits v = 0" "bit_buf v < 2 ^ num_bits v" "in_cur v < length (in_buf e)"
  shows "read_num 8 (strm F e v) = Some (unat (in_buf e ! in_cur v), strm F e (v\<lparr>in_cur := in_cur v + 1\<rparr>))"
proof -
  have "strm F e (v\<lparr>in_cur := in_cur v + 1\<rparr>) = (le_number (drop (in_cur v + 1) (in_buf e) @ F), 8 * length (drop (in_cur v + 1) (in_buf e) @ F))"
    using strm_at_byte [of "v\<lparr>in_cur := in_cur v + 1\<rparr>"] assms(1,2) by simp
  moreover have "drop (in_cur v) (in_buf e) @ F = in_buf e ! in_cur v # drop (in_cur v + 1) (in_buf e) @ F"
    using assms(3) by (simp add: Cons_nth_drop_Suc)
  ultimately show ?thesis
    using read_byte [of "in_buf e ! in_cur v" "drop (in_cur v + 1) (in_buf e) @ F"] by (simp only: strm_at_byte [OF assms(1,2)])
qed

lemma no_byte:
  assumes "num_bits v = 0" "length (in_buf e) \<le> in_cur v"
  shows "read_num 8 (strm [] e v) = None"
  using assms by (simp add: strm_def read_num_def)

lemma step_raw7_sim:
  assumes sim: "sim F e v out x" and inv: "inv e v" and pc: "pc v = St 7"
  shows "step_sim F e v out x (get_byte e 7 v store_raw)"
proof -
  have c: "counter v < 4" "length (m_raw_header (dec v)) = 4"
    using inv by (simp_all add: inv_def base_inv_def decomp_shape_def pc_inv_def pc label_inv_def label_at_def)
  have nb: "num_bits v = 0" and hd: "header_ok v" using simD(2) [OF sim] pc by (simp_all add: side_def)
  have M: "Option.bind (read_num 8 (strm F e v))
      (\<lambda>(b, s). raw_from ((dec v)\<lparr>m_raw_header := (m_raw_header (dec v))[counter v := b]\<rparr>) (Suc (counter v)) s out) = Some x"
    using c read_raw_byte [of "counter v" "dec v"] simD(3) [OF sim] by (simp add: meaning_def pc meaning_at_def)
  show ?thesis
  proof (rule sim_get_byte [OF sim pc invD(4) [OF inv]])
    show "in_cur v < length (in_buf e)" if "F = []"
      using M no_byte [OF nb, of e] that by (fastforce simp: not_le [symmetric])
    fix b
    assume room: "in_cur v < length (in_buf e)" and b: "b = unat (in_buf e ! in_cur v)"
    then have "b < 256" by simp
    then show "step_sim F e v out x (store_raw b (v\<lparr>in_cur := in_cur v + 1\<rparr>))"
      using M read_at_byte [OF nb simD(4) [OF sim] room] hd c simD(1) [OF sim] core_at_byte [OF nb]
      by (intro store_raw_sim) (simp_all add: header_ok_def b)
  qed
qed

lemma step_raw_bits_sim:
  assumes sim: "sim F e v out x" and pc: "pc v = Raw_bits"
  shows "step_sim F e v out x (step_raw_bits e v)"
  unfolding step_raw_bits_def
  by (rule sim_go) (use simD [OF sim] pc in \<open>auto simp: side_def meaning_def meaning_at_def\<close>)

lemma step_raw_copy_sim:
  assumes sim: "sim F e v out x" and pc: "pc v = Raw_copy"
  shows "step_sim F e v out x (step_raw_copy e v)"
  unfolding step_raw_copy_def
  by (rule sim_go) (use simD [OF sim] pc in \<open>auto simp: side_def meaning_def meaning_at_def stored_from_def\<close>)

lemma step_raw51_sim:
  assumes sim: "sim F e v out x" and inv: "inv e v" and pc: "pc v = St 51"
  shows "step_sim F e v out x (get_bits e 51 8 v (\<lambda>b v. go (St 52) (v\<lparr>dist := b\<rparr>)))"
proof (rule sim_get_bits [OF sim pc _ invD(4) [OF inv]])
  define n where "n = counter v - 1"
  have n: "counter v = Suc n" using simD(2) [OF sim] pc by (simp add: side_def n_def)
  then have lt: "Suc n < 65536" using simD(3) [OF sim] by (simp add: meaning_def pc meaning_at_def stored_from_def split: if_splits)
  show "meaning v (strm F e v) out = Option.bind (read_num 8 (strm F e v))
      (\<lambda>(b, s). stored_from (dec v) n s (out @ [word_of_nat b]))"
    using n lt by (simp add: meaning_def pc meaning_at_def stored_from_def after_block_bind split_def)
  fix b w
  assume "core e w out" "w = v\<lparr>bit_buf := drop_bit 8 (bit_buf v), num_bits := num_bits v - 8\<rparr>"
    "stored_from (dec v) n (strm F e w) (out @ [word_of_nat b]) = Some x"
  then show "step_sim F e v out x (go (St 52) (w\<lparr>dist := b\<rparr>))"
    using n by (intro sim_go) (simp_all add: side_def meaning_at_def)
qed (use invD(3) [OF inv] in simp_all)

lemma stored_grows: "stored_from r n s out = Some x \<Longrightarrow> n < 65536 \<and> length out + n \<le> length (snd x)"
  by (auto simp: stored_from_def split: if_splits elim!: after_block_grows dest!: length_copy_stored)

lemma step_raw52_sim:
  assumes sim: "sim F e v out x" and inv: "inv e v" and pc: "pc v = St 52"
  shows "step_sim F e v out x (put_byte e 52 (dist v) v (\<lambda>v. go Raw_bits (v\<lparr>counter := sub32 (counter v) 1\<rparr>)))"
proof (rule sim_put_byte [OF sim inv pc], simp)
  have M: "stored_from (dec v) (counter v - 1) (strm F e v) (out @ [word_of_nat (dist v)]) = Some x"
    using simD(3) [OF sim] by (simp add: meaning_def pc meaning_at_def)
  then show "length out < length (snd x)" using stored_grows by fastforce
  have "0 < counter v" using simD(2) [OF sim] pc by (simp add: side_def)
  moreover have "counter v - 1 < 65536" using stored_grows [OF M] by simp
  ultimately have c: "sub32 (counter v) 1 = counter v - 1" by (intro sub32_le) simp_all
  fix w
  assume w: "w = v\<lparr>out_buf := (out_buf v)[out_cur v := word_of_nat (dist v)], out_cur := out_cur v + 1\<rparr>"
    "core e w (out @ [word_of_nat (dist v)])"
  show "step_sim F e v out x (go Raw_bits (w\<lparr>counter := sub32 (counter w) 1\<rparr>))"
    by (rule sim_go_out [of _ _ _ "[word_of_nat (dist v)]"]) (use w M c in \<open>simp_all add: side_def meaning_at_def\<close>)
qed


lemma step_out9_sim:
  assumes sim: "sim F e v out x" and inv: "inv e v" and pc: "pc v = St 9"
  shows "step_sim F e v out x (step_out9 e v)"
proof -
  have M: "stored_from (dec v) (counter v) (strm F e v) out = Some x"
    using simD(3) [OF sim] by (simp add: meaning_def pc meaning_at_def)
  have "0 < counter v" using inv by (simp add: inv_def pc_inv_def pc label_inv_def label_at_def)
  then have "length out < length (snd x)" using stored_grows [OF M] by simp
  then have "step_sim F e v out x (cr_return 9 TINFL_STATUS_HAS_MORE_OUTPUT v)" if "out_end e \<le> out_cur v"
    using sim_return [OF sim pc] invD(6) [OF inv] that by simp
  moreover have "step_sim F e v out x (go (St 38) v)"
    by (rule sim_go) (use simD [OF sim] pc M in \<open>simp_all add: side_def meaning_at_def\<close>)
  ultimately show ?thesis by (simp add: step_out9_def)
qed

lemma core_write:
  "core e v out \<Longrightarrow> out_cur v + length bs \<le> out_end e \<Longrightarrow> out_end e \<le> length (out_buf v) \<Longrightarrow>
     core e (v\<lparr>out_buf := take (out_cur v) (out_buf v) @ bs @ drop (out_cur v + length bs) (out_buf v),
       out_cur := out_cur v + length bs\<rparr>) (out @ bs)"
proof (induction bs arbitrary: v out)
  case (Cons b bs)
  define w where "w = v\<lparr>out_buf := (out_buf v)[out_cur v := b], out_cur := out_cur v + 1\<rparr>"
  have "core e w (out @ [b])" unfolding w_def by (rule core_push) (use Cons.prems in simp_all)
  then have "core e (w\<lparr>out_buf := take (out_cur w) (out_buf w) @ bs @ drop (out_cur w + length bs) (out_buf w),
       out_cur := out_cur w + length bs\<rparr>) ((out @ [b]) @ bs)"
    by (rule Cons.IH) (use Cons.prems in \<open>simp_all add: w_def\<close>)
  moreover have "take (out_cur w) (out_buf w) = take (out_cur v) (out_buf v) @ [b]"
    using Cons.prems by (simp add: w_def take_Suc_conv_app_nth)
  moreover have "drop (out_cur w + length bs) (out_buf w) = drop (out_cur v + length (b # bs)) (out_buf v)"
    by (simp add: w_def)
  ultimately show ?case by (simp add: w_def)
qed simp

lemma copy_stored_bytes:
  "m \<le> n \<Longrightarrow> m \<le> length xs \<Longrightarrow> copy_stored n (le_number xs, 8 * length xs) out =
     copy_stored (n - m) (le_number (drop m xs), 8 * length (drop m xs)) (out @ take m xs)"
proof (induction m arbitrary: n xs out)
  case (Suc m)
  obtain b bs where xs: "xs = b # bs" using Suc.prems(2) by (cases xs) auto
  obtain k where n: "n = Suc k" using Suc.prems(1) by (cases n) auto
  have "copy_stored n (le_number xs, 8 * length xs) out = copy_stored k (le_number bs, 8 * length bs) (out @ [b])"
    unfolding n xs copy_stored.simps read_byte by simp
  also have "\<dots> = copy_stored (k - m) (le_number (drop m bs), 8 * length (drop m bs)) ((out @ [b]) @ take m bs)"
    by (rule Suc.IH) (use Suc.prems n xs in simp_all)
  finally show ?case by (simp add: n xs)
qed simp

lemma copy_at_byte:
  assumes "num_bits v = 0" "bit_buf v < 2 ^ num_bits v" "in_cur v + m \<le> length (in_buf e)" "m \<le> n"
  shows "copy_stored n (strm F e v) out =
    copy_stored (n - m) (strm F e (v\<lparr>in_cur := in_cur v + m\<rparr>)) (out @ take m (drop (in_cur v) (in_buf e)))"
proof -
  have "strm F e (v\<lparr>in_cur := in_cur v + m\<rparr>) = (le_number (drop (in_cur v + m) (in_buf e) @ F), 8 * length (drop (in_cur v + m) (in_buf e) @ F))"
    using strm_at_byte [of "v\<lparr>in_cur := in_cur v + m\<rparr>"] assms(1,2) by simp
  moreover have "drop m (drop (in_cur v) (in_buf e) @ F) = drop (in_cur v + m) (in_buf e) @ F"
    "take m (drop (in_cur v) (in_buf e) @ F) = take m (drop (in_cur v) (in_buf e))"
    using assms(3) by (simp_all add: add.commute)
  moreover have "m \<le> length (drop (in_cur v) (in_buf e) @ F)" using assms(3) by simp
  ultimately show ?thesis
    using copy_stored_bytes [OF assms(4), of "drop (in_cur v) (in_buf e) @ F" out] by (simp only: strm_at_byte [OF assms(1,2)])
qed

lemma step_in38_sim:
  assumes sim: "sim F e v out x" and inv: "inv e v" and pc: "pc v = St 38"
  shows "step_sim F e v out x (step_in38 e v)"
proof -
  have M: "stored_from (dec v) (counter v) (strm F e v) out = Some x"
    using simD(3) [OF sim] by (simp add: meaning_def pc meaning_at_def)
  have c: "0 < counter v" using inv by (simp add: inv_def pc_inv_def pc label_inv_def label_at_def)
  have nb: "num_bits v = 0" using simD(2) [OF sim] pc by (simp add: side_def)
  show ?thesis
  proof (cases "length (in_buf e) \<le> in_cur v")
    case True
    have "F \<noteq> []"
    proof
      assume "F = []"
      moreover obtain n where "counter v = Suc n" using c by (cases "counter v") auto
      ultimately show False using M no_byte [OF nb True] by (simp add: stored_from_def after_block_def split: if_splits)
    qed
    then show ?thesis using sim_return [OF sim pc] True invD(4) [OF inv] by (simp add: step_in38_def)
  next
    case False
    define n where "n = min (min (out_end e - out_cur v) (length (in_buf e) - in_cur v)) (counter v)"
    define bs where "bs = take n (drop (in_cur v) (in_buf e))"
    have n: "in_cur v + n \<le> length (in_buf e)" "out_cur v + n \<le> out_end e" "n \<le> counter v" "out_end e \<le> length (out_buf v)"
      using False invD [OF inv] by (simp_all add: n_def)
    have lb: "length bs = n" using n(1) by (simp add: bs_def)
    define w where "w = v\<lparr>out_buf := take (out_cur v) (out_buf v) @ bs @ drop (out_cur v + n) (out_buf v),
      in_cur := in_cur v + n, out_cur := out_cur v + n, counter := counter v - n\<rparr>"
    have "stored_from (dec v) (counter v - n) (strm F e (v\<lparr>in_cur := in_cur v + n\<rparr>)) (out @ bs) = Some x"
      using M copy_at_byte [OF nb simD(4) [OF sim] n(1,3), of F out] by (simp add: stored_from_def bs_def split: if_splits)
    moreover have "strm F e (v\<lparr>in_cur := in_cur v + n\<rparr>) = strm F e w" by (simp add: strm_def w_def)
    moreover have "core e w (out @ bs)"
    proof -
      have "core e (v\<lparr>out_buf := take (out_cur v) (out_buf v) @ bs @ drop (out_cur v + length bs) (out_buf v),
          out_cur := out_cur v + length bs\<rparr>) (out @ bs)"
        by (rule core_write [OF simD(1) [OF sim]]) (use n lb in simp_all)
      then show ?thesis using nb lb by (simp add: core_def back_ok_def out_rel_def w_def)
    qed
    ultimately have "step_sim F e v out x (go Raw_copy w)"
      by (intro sim_go_out [of _ _ _ bs]) (simp_all add: side_def meaning_at_def nb lb w_def)
    moreover have "rdn (in_buf e) (in_cur v) n = Some bs" using n(1) by (simp add: rdn_def bs_def)
    moreover have "write_o (out_buf v) (out_cur v) bs = Some (take (out_cur v) (out_buf v) @ bs @ drop (out_cur v + n) (out_buf v))"
      using n lb by (simp add: write_o_def)
    ultimately show ?thesis using False by (simp add: step_in38_def n_def [symmetric] Let_def w_def)
  qed
qed

section \<open>The end of a block\<close>

lemma step_block_end_sim:
  assumes sim: "sim F e v out x" and pc: "pc v = Block_end"
  shows "step_sim F e v out x (step_block_end e v)"
  unfolding step_block_end_def
  by (rule sim_go) (use simD [OF sim] pc in \<open>auto simp: side_def meaning_def meaning_at_def after_block_def split: if_splits\<close>)

lemma le_number_take: "le_number xs mod 256 ^ i = le_number (take i xs)"
proof -
  have split: "le_number xs = le_number (take i xs) + 256 ^ length (take i xs) * le_number (drop i xs)"
    using le_number_append [of "take i xs" "drop i xs"] by simp
  show ?thesis
  proof (cases "i \<le> length xs")
    case True
    then have "le_number (take i xs) < 256 ^ i" using le_number_less [of "take i xs"] by simp
    then show ?thesis using split True by simp
  next
    case False
    then have "(256 :: nat) ^ length xs \<le> 256 ^ i" by (intro power_increasing) simp_all
    then have "le_number xs < 256 ^ i" using le_number_less [of xs] by linarith
    then show ?thesis using False by simp
  qed
qed

text \<open>Putting whole bytes back does not change what is left to read.\<close>

definition masked :: "tinfl_vars \<Rightarrow> tinfl_vars" where
  "masked v = v\<lparr>bit_buf := bit_buf v AND (2 ^ num_bits v - 1)\<rparr>"

lemma put_back_sim:
  assumes core: "core e v out" and len: "in_cur v \<le> length (in_buf e)"
  shows "core e (masked (put_back v)) out \<and> strm F e (masked (put_back v)) = strm F e v"
proof -
  define k where "k = min (in_cur v) (num_bits v div 8)"
  define N where "N = num_bits v - 8 * k"
  define ys where "ys = take k (drop (in_cur v - k) (in_buf e))"
  have k: "k \<le> in_cur v" "8 * k \<le> num_bits v" by (simp_all add: k_def min_def) linarith
  then have N: "num_bits v = N + 8 * k" by (simp add: N_def)
  note bk = core [unfolded core_def back_ok_def]
  define B where "B = take_bit N (bit_buf v)"
  have w: "masked (put_back v) = v\<lparr>in_cur := in_cur v - k, num_bits := N, bit_buf := B\<rparr>"
    by (simp add: masked_def put_back_def Let_def k_def [symmetric] N_def B_def take_bit_eq_mask mask_eq_exp_minus_1)
  have ly: "length ys = k" using k len by (simp add: ys_def)
  have up: "drop_bit N (bit_buf v) = le_number ys" using bk k by (simp add: N_def ys_def)
  have split: "bit_buf v = B + 2 ^ N * le_number ys"
    unfolding up [symmetric] B_def by (simp add: take_bit_eq_mod drop_bit_eq_div)
  have "drop (in_cur v - k) (in_buf e) = ys @ drop (in_cur v) (in_buf e)"
    using k(1) append_take_drop_id [of k "drop (in_cur v - k) (in_buf e)"] by (simp add: ys_def)
  then have "le_number (drop (in_cur v - k) (in_buf e) @ F) = le_number ys + 2 ^ (8 * k) * le_number (drop (in_cur v) (in_buf e) @ F)"
    by (simp add: le_number_append ly pow_256)
  then have "B + 2 ^ N * le_number (drop (in_cur v - k) (in_buf e) @ F) = bit_buf v + 2 ^ num_bits v * le_number (drop (in_cur v) (in_buf e) @ F)"
    by (simp add: split N power_add algebra_simps)
  moreover have "N + 8 * (length (in_buf e) - (in_cur v - k) + length F) = num_bits v + 8 * (length (in_buf e) - in_cur v + length F)"
    using N k len by simp
  ultimately have "strm F e (masked (put_back v)) = strm F e v" by (simp add: strm_def w)
  moreover have "drop_bit (N - 8 * j) B = le_number (take j (drop (in_cur v - k - j) (in_buf e)))"
    if j: "j \<le> in_cur v - k" "8 * j \<le> N" for j
  proof -
    have jk: "j + k \<le> in_cur v" "8 * (j + k) \<le> num_bits v" using j k N by simp_all
    have "drop_bit (num_bits v - 8 * (j + k)) (bit_buf v) = le_number (take (j + k) (drop (in_cur v - (j + k)) (in_buf e)))"
      using bk jk by blast
    moreover have "num_bits v - 8 * (j + k) = N - 8 * j" using N by simp
    moreover have cut: "drop_bit (N - 8 * j) B = take_bit (8 * j) (drop_bit (N - 8 * j) (bit_buf v))"
      using j(2) by (simp add: B_def drop_bit_take_bit)
    ultimately have "drop_bit (N - 8 * j) (bit_buf v) = le_number (take (j + k) (drop (in_cur v - k - j) (in_buf e)))"
      by (simp add: diff_diff_eq add.commute)
    then have "drop_bit (N - 8 * j) B = le_number (take (j + k) (drop (in_cur v - k - j) (in_buf e))) mod 256 ^ j"
      using cut by (simp add: take_bit_eq_mod pow_256)
    then show ?thesis by (simp add: le_number_take min.absorb1)
  qed
  moreover have "B < 2 ^ N" by (simp add: B_def)
  ultimately show ?thesis using bk by (simp add: core_def back_ok_def out_rel_def w)
qed

lemma step_tail_sim:
  assumes sim: "sim F e v out x" and inv: "inv e v" and pc: "pc v = St 32" and plain: "\<not> has_flag e TINFL_FLAG_PARSE_ZLIB_HEADER"
  shows "step_sim F e v out x (step_tail e v)"
  unfolding step_tail_def and_7
proof (rule sim_get_bits [OF sim pc _ invD(4) [OF inv]])
  show "meaning v (strm F e v) out = Option.bind (read_num (num_bits v mod 8) (strm F e v)) (\<lambda>(b, s). Some (s, out))"
    unfolding read_align by (simp add: meaning_def pc meaning_at_def)
next
  fix b w
  assume core: "core e w out" and w: "w = v\<lparr>bit_buf := drop_bit (num_bits v mod 8) (bit_buf v), num_bits := num_bits v - num_bits v mod 8\<rparr>"
    and M: "Some (strm F e w, out) = Some x"
  have "in_cur w \<le> length (in_buf e)" using invD(4) [OF inv] by (simp add: w)
  then have "step_sim F e v out x (go (St 34) (masked (put_back w)))"
    using put_back_sim [OF core] M
    by (intro sim_go) (simp_all add: side_def meaning_at_def, simp add: masked_def put_back_def Let_def w)
  moreover have "num_bits (put_back w) < 64" using invD(3) [OF inv] by (simp add: put_back_def Let_def w)
  ultimately show "step_sim F e v out x (let v = put_back w in if 64 \<le> num_bits v then None
      else let v = v\<lparr>bit_buf := bit_buf v AND (2 ^ num_bits v - 1)\<rparr>
        in if has_flag e TINFL_FLAG_PARSE_ZLIB_HEADER then go Adler_bytes (v\<lparr>counter := 0\<rparr>) else go (St 34) v)"
    using plain by (simp add: Let_def masked_def)
next
  have "num_bits v mod 8 < 8" by simp
  then show "num_bits v mod 8 \<le> 16" by linarith
qed (use invD(3) [OF inv] in simp_all)

end
