(* ===== verification/InflateHeader.thy ===== *)
theory InflateHeader
  imports InflateRaw
begin

unbundle bit_operations_syntax

text \<open>
  The decompressor follows the format: the header of a dynamic block and the tables.
\<close>

section \<open>The sizes and the code length code\<close>

lemma sizes_next:
  assumes "length (m_table_sizes r) = 3" "length (m_code_size_2 r) = 19" "c < 3"
  shows "sizes_from r c s out = Option.bind (read_num ([5, 5, 4, 0] ! c) s) (\<lambda>(b, s).
    (let r' = r\<lparr>m_table_sizes := (m_table_sizes r)[c := b + s_min_table_sizes ! c]\<rparr>
     in if c + 1 < 3 then sizes_from r' (c + 1) s out
        else clens_from (r'\<lparr>m_code_size_2 := replicate (length (m_code_size_2 r')) 0\<rparr>) 0 s out))"
  using assms by (auto simp: sizes_from_def s_min_table_sizes_def less3 Let_def)

lemma step_sizes_sim:
  assumes sim: "sim F e v out x" and inv: "inv e v" and pc: "pc v = St 11"
  shows "step_sim F e v out x (step_sizes e v)"
proof -
  define c where "c = counter v"
  define n where "n = [5, 5, 4, 0 :: nat] ! c"
  have c: "c < 3" using inv by (simp add: inv_def pc_inv_def pc label_inv_def label_at_def c_def)
  have shape: "length (m_table_sizes (dec v)) = 3" "length (m_code_size_2 (dec v)) = 19"
    using invD(2) [OF inv] by (simp_all add: decomp_shape_def)
  have rd: "nth_o [5, 5, 4, 0] c = Some n" "nth_o s_min_table_sizes c = Some (s_min_table_sizes ! c)"
    using c by (auto simp: nth_o_def n_def s_min_table_sizes_def)
  define M where "M b s = (let r' = (dec v)\<lparr>m_table_sizes := (m_table_sizes (dec v))[c := b + s_min_table_sizes ! c]\<rparr>
     in if c + 1 < 3 then sizes_from r' (c + 1) s out
        else clens_from (r'\<lparr>m_code_size_2 := replicate (length (m_code_size_2 r')) 0\<rparr>) 0 s out)" for b s
  have "step_sim F e v out x (get_bits e 11 n v (\<lambda>b v. do {
       base \<leftarrow> nth_o s_min_table_sizes (counter v);
       sizes \<leftarrow> upd_o (m_table_sizes (dec v)) (counter v) (b + base);
       (let r = (dec v)\<lparr>m_table_sizes := sizes\<rparr>
        in if counter v + 1 < 3 then go (St 11) (v\<lparr>dec := r, counter := counter v + 1\<rparr>)
           else go Code_sizes (v\<lparr>counter := 0,
             dec := r\<lparr>m_code_size_2 := replicate (length (m_code_size_2 r)) 0\<rparr>\<rparr>))
     }))"
  proof (rule sim_get_bits [OF sim pc _ invD(4) [OF inv]])
    show "meaning v (strm F e v) out = Option.bind (read_num n (strm F e v)) (\<lambda>(b, s). M b s)"
      using sizes_next [OF shape c] by (simp add: meaning_def pc meaning_at_def c_def [symmetric] n_def M_def)
    show "n \<le> 16" using c by (auto simp: n_def less3)
  next
    fix b w
    assume core: "core e w out" and w: "w = v\<lparr>bit_buf := drop_bit n (bit_buf v), num_bits := num_bits v - n\<rparr>"
      and M: "M b (strm F e w) = Some x"
    define ts where "ts = (m_table_sizes (dec v))[c := b + s_min_table_sizes ! c]"
    have upd: "upd_o (m_table_sizes (dec v)) c (b + s_min_table_sizes ! c) = Some ts"
      using c shape by (simp add: upd_o_def ts_def)
    have cw: "counter w = c" "dec w = dec v" by (simp_all add: w c_def)
    define r where "r = (dec v)\<lparr>m_table_sizes := ts\<rparr>"
    have "step_sim F e v out x (go (St 11) (w\<lparr>dec := r, counter := c + 1\<rparr>))" if "c + 1 < 3"
      by (rule sim_go) (use M core that in \<open>simp_all add: side_def meaning_at_def M_def r_def ts_def\<close>, simp add: w)
    moreover have "step_sim F e v out x (go Code_sizes (w\<lparr>counter := 0, dec := r\<lparr>m_code_size_2 := replicate (length (m_code_size_2 r)) 0\<rparr>\<rparr>))"
      if "\<not> c + 1 < 3"
      by (rule sim_go) (use M core that in \<open>simp_all add: side_def meaning_at_def M_def r_def ts_def\<close>, simp add: w)
    ultimately show "step_sim F e v out x (do {
       base \<leftarrow> nth_o s_min_table_sizes (counter w);
       sizes \<leftarrow> upd_o (m_table_sizes (dec w)) (counter w) (b + base);
       (let r = (dec w)\<lparr>m_table_sizes := sizes\<rparr>
        in if counter w + 1 < 3 then go (St 11) (w\<lparr>dec := r, counter := counter w + 1\<rparr>)
           else go Code_sizes (w\<lparr>counter := 0,
             dec := r\<lparr>m_code_size_2 := replicate (length (m_code_size_2 r)) 0\<rparr>\<rparr>))
     })"
      unfolding cw rd Option.bind.bind_lunit upd Let_def r_def [symmetric] by presburger
  qed (use invD(3) [OF inv] in simp_all)
  then show ?thesis by (simp only: step_sizes_def c_def [symmetric] rd Option.bind.bind_lunit)
qed

lemma step_code_sizes_sim:
  assumes sim: "sim F e v out x" and inv: "inv e v" and pc: "pc v = Code_sizes"
  shows "step_sim F e v out x (step_code_sizes e v)"
proof -
  define r where "r = dec v"
  have sz: "sizes_inv r" "length (m_table_sizes r) = 3" using inv by (simp_all add: inv_def pc_inv_def pc r_def base_inv_def decomp_shape_def)
  have M: "clens_from r (counter v) (strm F e v) out = Some x"
    using simD(3) [OF sim] by (simp add: meaning_def pc meaning_at_def r_def)
  have "step_sim F e v out x (go (St 14) v)"
    by (rule sim_go) (use M simD(1) [OF sim] in \<open>simp_all add: side_def meaning_at_def r_def\<close>)
  moreover have "step_sim F e v out x (go Tables (v\<lparr>dec := r\<lparr>m_table_sizes := (m_table_sizes r)[2 := 19]\<rparr>\<rparr>))"
    if "\<not> counter v < m_table_sizes r ! 2"
  proof (rule sim_go)
    have "codes_from (r\<lparr>m_table_sizes := (m_table_sizes r)[2 := 19]\<rparr>) s out = codes_from r s out" for s
      using sz(2) by (simp add: codes_from_def lens_from_def)
    moreover have "codes_from r (strm F e v) out = Some x"
      using M that by (simp add: clens_from_def)
    ultimately show "meaning (v\<lparr>dec := r\<lparr>m_table_sizes := (m_table_sizes r)[2 := 19]\<rparr>, pc := Tables\<rparr>)
        (strm F e (v\<lparr>dec := r\<lparr>m_table_sizes := (m_table_sizes r)[2 := 19]\<rparr>\<rparr>)) out = Some x"
      using sz(1) by (simp add: meaning_at_def tables_from_def sizes_inv_def)
  qed (use sz simD(1) [OF sim] in \<open>simp_all add: side_def sizes_inv_def\<close>)
  moreover have "upd_o (m_table_sizes r) 2 19 = Some ((m_table_sizes r)[2 := 19])" "nth_o (m_table_sizes r) 2 = Some (m_table_sizes r ! 2)"
    using sz(2) by (simp_all add: upd_o_def nth_o_def)
  ultimately show ?thesis by (simp add: step_code_sizes_def r_def)
qed

lemma step_clen14_sim:
  assumes sim: "sim F e v out x" and inv: "inv e v" and pc: "pc v = St 14"
  shows "step_sim F e v out x (step_clen14 e v)"
  unfolding step_clen14_def
proof (rule sim_get_bits [OF sim pc _ invD(4) [OF inv]])
  define r where "r = dec v"
  have c: "counter v < m_table_sizes r ! 2" "m_table_sizes r ! 2 \<le> 19"
    using inv by (simp_all add: inv_def pc_inv_def pc label_inv_def label_at_def sizes_inv_def size_ok_def syms_max_def r_def)
  have l: "length (m_code_size_2 r) = 19" using invD(2) [OF inv] by (simp add: decomp_shape_def r_def)
  define i where "i = clen_order ! counter v"
  have zz: "s_length_dezigzag = clen_order" by (simp add: s_length_dezigzag_def clen_order_def)
  have i: "i < 19" "nth_o s_length_dezigzag (counter v) = Some i"
    using c dezigzag_facts by (simp_all add: nth_o_def i_def zz)
  have "drop (counter v) (take (m_table_sizes r ! 2) clen_order) = i # drop (Suc (counter v)) (take (m_table_sizes r ! 2) clen_order)"
    using c dezigzag_facts(1) by (simp add: i_def zz flip: Cons_nth_drop_Suc)
  then show "meaning v (strm F e v) out = Option.bind (read_num 3 (strm F e v))
      (\<lambda>(b, s). clens_from (r\<lparr>m_code_size_2 := (m_code_size_2 r)[i := b]\<rparr>) (Suc (counter v)) s out)"
    by (simp add: meaning_def pc meaning_at_def clens_from_def r_def split_def)
  fix b w
  assume core: "core e w out" and w: "w = v\<lparr>bit_buf := drop_bit 3 (bit_buf v), num_bits := num_bits v - 3\<rparr>"
    and M: "clens_from (r\<lparr>m_code_size_2 := (m_code_size_2 r)[i := b]\<rparr>) (Suc (counter v)) (strm F e w) out = Some x"
  have "step_sim F e v out x (go Code_sizes (w\<lparr>dec := r\<lparr>m_code_size_2 := (m_code_size_2 r)[i := b]\<rparr>, counter := counter v + 1\<rparr>))"
    by (rule sim_go) (use M core in \<open>simp_all add: side_def meaning_at_def\<close>, simp add: w)
  moreover have "upd_o (m_code_size_2 r) i b = Some ((m_code_size_2 r)[i := b])" using i l by (simp add: upd_o_def)
  moreover have "dec w = r" "counter w = counter v" by (simp_all add: w r_def)
  ultimately show "step_sim F e v out x (do {
     i \<leftarrow> nth_o s_length_dezigzag (counter w);
     sizes \<leftarrow> upd_o (m_code_size_2 (dec w)) i b;
     go Code_sizes (w\<lparr>dec := (dec w)\<lparr>m_code_size_2 := sizes\<rparr>, counter := counter w + 1\<rparr>)
   })"
    using i(2) by simp
qed (use invD(3) [OF inv] in simp_all)


section \<open>The tables\<close>

text \<open>Only the first lengths count.\<close>

lemma take_min_length [simp]: "take (min (length cs) n) cs = take n cs"
  by (simp add: min_def)

lemma counts_take: "counts (length (take n cs)) (take n cs) = counts n cs"
  by (simp add: counts_def)

lemma code_value_take: "j < n \<Longrightarrow> code_value ts (take n cs) j = code_value ts cs j"
  by (simp add: code_value_def min.absorb1)

lemma table_decodes_take:
  assumes "table_decodes lu tr n cs" "n \<le> length cs"
  shows "table_decodes lu tr (length (take n cs)) (take n cs)"
  using assms unfolding table_decodes_def counts_take by (simp add: code_value_take min.absorb2)

lemma good_lengths_take: "good_lengths (take n cs) \<longleftrightarrow> \<not> bad_lengths n cs"
  by (auto simp: good_lengths_def bad_lengths_def kraft_sum_def used_syms_def)

lemma built_read:
  assumes "decomp_shape r" "m_type r < 3"
  shows "tree_of (built r lu tr) (m_type r) = Some tr" "m_look_up (built r lu tr) ! m_type r = lu"
    "t \<noteq> m_type r \<Longrightarrow> t < 3 \<Longrightarrow> tree_of (built r lu tr) t = tree_of r t"
    "t \<noteq> m_type r \<Longrightarrow> t < 3 \<Longrightarrow> m_look_up (built r lu tr) ! t = m_look_up r ! t"
    "lits (built r lu tr) = lits r" "dists (built r lu tr) = dists r" "m_final (built r lu tr) = m_final r"
    "m_code_size_2 (built r lu tr) = m_code_size_2 r" "m_table_sizes (built r lu tr) = m_table_sizes r"
proof -
  have m: "m_type r = 0 \<or> m_type r = 1 \<or> m_type r = 2" using assms(2) by linarith
  have l: "length (m_look_up r) = 3" using assms(1) by (simp add: decomp_shape_def)
  show "tree_of (built r lu tr) (m_type r) = Some tr" "m_look_up (built r lu tr) ! m_type r = lu"
    "lits (built r lu tr) = lits r" "dists (built r lu tr) = dists r" "m_final (built r lu tr) = m_final r"
    "m_code_size_2 (built r lu tr) = m_code_size_2 r" "m_table_sizes (built r lu tr) = m_table_sizes r"
    using m l by (auto simp: built_def set_tree_def tree_of_def lits_def dists_def)
  show "t \<noteq> m_type r \<Longrightarrow> t < 3 \<Longrightarrow> tree_of (built r lu tr) t = tree_of r t"
    "t \<noteq> m_type r \<Longrightarrow> t < 3 \<Longrightarrow> m_look_up (built r lu tr) ! t = m_look_up r ! t"
    using m by (auto simp: built_def set_tree_def tree_of_def)
qed

lemma build_good:
  assumes shape: "decomp_shape r" and type: "m_type r < 3" and ready: "code_ready r (m_type r)"
    and cs: "code_size_of r (m_type r) = Some cs" and good: "good_lengths (take (m_table_sizes r ! m_type r) cs)"
  shows "\<exists>lu tr. build_table r = Some (Some (built r lu tr)) \<and>
    has_table (built r lu tr) (m_type r) (take (m_table_sizes r ! m_type r) cs)"
proof -
  define n where "n = m_table_sizes r ! m_type r"
  have n: "0 < n" "n \<le> syms_max (m_type r)" using ready by (simp_all add: code_ready_def size_ok_def n_def)
  have below: "\<forall>x \<in> set (take n cs). x < 16" using ready cs by (auto simp: code_ready_def lens_below_def n_def)
  have "length cs = syms_max (m_type r)" using shape_arrays(1) [OF shape type] cs by simp
  then have l: "n \<le> length cs" "syms_max (m_type r) \<le> 288" using n(2) by (simp_all add: syms_max_def)
  have "\<not> bad_lengths n cs" using good by (simp add: good_lengths_take n_def)
  then obtain lu tr where b: "build_table r = Some (Some (built r lu tr))" "table_ok lu tr n" "table_decodes lu tr n cs"
    using build_table_correct [OF shape type n_def [symmetric] n cs below] by (auto simp: built_def)
  have "has_table (built r lu tr) (m_type r) (take n cs)"
    using b(2) table_decodes_take [OF b(3) l(1)] good below n l
    by (simp add: has_table_def built_read [OF shape type] n_def [symmetric] min.absorb2)
  then show ?thesis using b(1) by (auto simp: n_def)
qed

lemma lens_cong: "m_final r = m_final r' \<Longrightarrow> m_code_size_2 r = m_code_size_2 r' \<Longrightarrow> m_table_sizes r = m_table_sizes r' \<Longrightarrow>
    lens_from r = lens_from r'"
  using after_block_cong [of r r'] by (simp add: lens_from_def fun_eq_iff)

lemma next_type_read [simp]:
  "lits (next_type r) = lits r" "dists (next_type r) = dists r" "m_final (next_type r) = m_final r"
  "has_table (next_type r) t cs = has_table r t cs" "has_tabs (next_type r) = has_tabs r"
  by (simp_all add: next_type_def lits_def dists_def has_table_def has_tabs_def tree_of_def)

lemma step_tables_sim:
  assumes sim: "sim F e v out x" and inv: "inv e v" and pc: "pc v = Tables"
  shows "step_sim F e v out x (step_tables e v)"
proof -
  define r where "r = dec v"
  have t: "tables_inv r" using inv pc by (simp add: inv_def pc_inv_def r_def)
  have shape: "decomp_shape r" using invD(2) [OF inv] by (simp add: r_def)
  have M: "tables_from r (strm F e v) out = Some x"
    using simD(3) [OF sim] by (simp add: meaning_def pc meaning_at_def r_def)
  have sd: "side e v out" and core: "core e v out" using simD [OF sim] by simp_all
  show ?thesis
  proof (cases "2 ^ 31 \<le> m_type r")
    case True
    then have m: "m_type r \<noteq> 2" "m_type r \<noteq> 1" "m_type r \<noteq> 0" by auto
    have "step_sim F e v out x (go Syms v)"
      by (rule sim_go) (use M core sd m pc in \<open>simp_all add: side_def meaning_at_def tables_from_def r_def\<close>)
    then show ?thesis using True by (simp add: step_tables_def r_def)
  next
    case False
    have type: "m_type r < 3" "code_ready r (m_type r)" using tables_inv_type [OF t] False by simp_all
    then consider "m_type r = 2" | "m_type r = 1" | "m_type r = 0" by linarith
    then show ?thesis
    proof cases
      case 1
      have l: "length (m_code_size_2 r) = 19" using shape by (simp add: decomp_shape_def)
      have n: "m_table_sizes r ! 2 = 19" using sd 1 pc by (simp add: side_def r_def)
      have good: "good_lengths (m_code_size_2 r)" "lens_from r [] (strm F e v) out = Some x"
        using M 1 by (simp_all add: tables_from_def codes_from_def split: if_splits)
      obtain lu tr where b: "build_table r = Some (Some (built r lu tr))" "has_table (built r lu tr) 2 (m_code_size_2 r)"
        using build_good [OF shape type, of "m_code_size_2 r"] 1 good(1) n l by (auto simp: code_size_of_def)
      define r' where "r' = built r lu tr"
      note br = built_read [OF shape type(1), where lu = lu and tr = tr, folded r'_def]
      have "lens_from r' = lens_from r" by (rule lens_cong) (simp_all add: br)
      then have "step_sim F e v out x (go Lens (v\<lparr>dec := r', counter := 0\<rparr>))"
        using core good(2) b(2) by (intro sim_go) (simp_all add: side_def meaning_at_def br r'_def [symmetric])
      moreover have "m_type r' = 2" using 1 by (simp add: r'_def built_def set_tree_def)
      ultimately show ?thesis using False b(1) by (simp add: step_tables_def r_def [symmetric] r'_def [symmetric])
    next
      case 2
      have good: "good_lengths (lits r)" "good_lengths (dists r)" "syms_from r (strm F e v) out = Some x"
        using M 2 by (simp_all add: tables_from_def split: if_splits)
      obtain lu tr where b: "build_table r = Some (Some (built r lu tr))" "has_table (built r lu tr) 1 (dists r)"
        using build_good [OF shape type, of "m_code_size_1 r"] 2 good(2) by (auto simp: code_size_of_def dists_def)
      define r' where "r' = built r lu tr"
      note br = built_read [OF shape type(1), where lu = lu and tr = tr, folded r'_def]
      have m: "m_type r' = 1" using 2 by (simp add: r'_def built_def set_tree_def)
      have "syms_from (next_type r') = syms_from r" by (rule syms_cong) (simp_all add: br)
      then have "step_sim F e v out x (go Tables (v\<lparr>dec := next_type r'\<rparr>))"
        using core good b(2) next_type_type(2) [OF m]
        by (intro sim_go) (simp_all add: side_def meaning_at_def tables_from_def br r'_def [symmetric])
      then show ?thesis using False b(1) m by (simp add: step_tables_def r_def [symmetric] r'_def [symmetric])
    next
      case 3
      have good: "good_lengths (lits r)" "syms_from r (strm F e v) out = Some x"
        using M 3 by (simp_all add: tables_from_def split: if_splits)
      have h1: "has_table r 1 (dists r)" using sd 3 pc by (simp add: side_def r_def Let_def)
      obtain lu tr where b: "build_table r = Some (Some (built r lu tr))" "has_table (built r lu tr) 0 (lits r)"
        using build_good [OF shape type, of "m_code_size_0 r"] 3 good(1) by (auto simp: code_size_of_def lits_def)
      define r' where "r' = built r lu tr"
      note br = built_read [OF shape type(1), where lu = lu and tr = tr, folded r'_def]
      have m: "m_type r' = 0" using 3 by (simp add: r'_def built_def set_tree_def)
      have "syms_from (next_type r') = syms_from r" by (rule syms_cong) (simp_all add: br)
      moreover have "has_table r' 1 (dists r)" using h1 3 br(3) [of 1] br(4) [of 1] by (simp add: has_table_def)
      ultimately have "step_sim F e v out x (go Tables (v\<lparr>dec := next_type r'\<rparr>))"
        using core good b(2) next_type_type(3) [OF m]
        by (intro sim_go) (simp_all add: side_def meaning_at_def tables_from_def has_tabs_def br r'_def [symmetric])
      then show ?thesis using False b(1) m by (simp add: step_tables_def r_def [symmetric] r'_def [symmetric])
    qed
  qed
qed


section \<open>The code lengths\<close>

lemma lens_split_read:
  assumes "decomp_shape r" "a \<le> 288" "b \<le> 32" "a = m_table_sizes r ! 0" "b = m_table_sizes r ! 1"
  shows "lits (lens_split a b r) = take a (take (a + b) (m_len_codes r))"
    "dists (lens_split a b r) = drop a (take (a + b) (m_len_codes r))"
    "m_final (lens_split a b r) = m_final r" "m_type (lens_split a b r) = m_type r"
  using assms by (simp_all add: lens_split_def lits_def dists_def decomp_shape_def drop_take min.absorb1)

lemma step_lens_sim:
  assumes sim: "sim F e v out x" and inv: "inv e v" and pc: "pc v = Lens"
  shows "step_sim F e v out x (step_lens e v)"
proof -
  define r where "r = dec v"
  define a b where "a = m_table_sizes r ! 0" and "b = m_table_sizes r ! 1"
  have lens: "lens_inv r (counter v)" using inv pc by (simp add: inv_def pc_inv_def r_def)
  have shape: "decomp_shape r" using invD(2) [OF inv] by (simp add: r_def)
  have sz: "nth_o (m_table_sizes r) 0 = Some a" "nth_o (m_table_sizes r) 1 = Some b"
    using shape by (simp_all add: decomp_shape_def nth_o_def a_def b_def)
  have ab: "a \<le> 288" "b \<le> 32" using lens by (simp_all add: lens_inv_def size_ok_def syms_max_def a_def b_def)
  have l: "length (m_code_size_0 r) = 288" "length (m_code_size_1 r) = 32" "length (m_len_codes r) = 457" "counter v \<le> 457"
    using shape lens by (simp_all add: decomp_shape_def lens_inv_def)
  define ls where "ls = take (counter v) (m_len_codes r)"
  have ll: "length ls = counter v" using l by (simp add: ls_def)
  have M: "lens_from r ls (strm F e v) out = Some x"
    using simD(3) [OF sim] by (simp add: meaning_def pc meaning_at_def r_def ls_def)
  have sd: "has_table r 2 (m_code_size_2 r)" and core: "core e v out"
    using simD [OF sim] pc by (simp_all add: side_def r_def Let_def)
  show ?thesis
  proof (cases "counter v < a + b")
    case True
    have "step_sim F e v out x (go (Huff 16) v)"
      by (rule sim_go) (use M core sd in \<open>simp_all add: side_def meaning_at_def huff_from_def huff_tabs_def r_def ls_def\<close>)
    then show ?thesis using True by (simp add: step_lens_def r_def [symmetric] sz del: One_nat_def)
  next
    case more: False
    then have eq: "counter v = a + b"
      using M ll by (simp add: lens_from_def read_lens.simps [of _ _ ls] a_def [symmetric] b_def [symmetric] del: One_nat_def split: if_splits)
    define r' where "r' = lens_split a b r"
    note rd = lens_split_read [OF shape ab a_def b_def, folded r'_def]
    have m: "m_type r' = 2" using lens by (simp add: rd lens_inv_def)
    have ls: "ls = take (a + b) (m_len_codes r)" by (simp add: ls_def eq)
    have "after_block r (coded_block a ls (strm F e v) out) = Some x"
      using M ll eq by (simp add: lens_from_def read_lens.simps [of _ _ ls] a_def [symmetric] b_def [symmetric] del: One_nat_def)
    then have "good_lengths (lits r')" "good_lengths (dists r')" "after_block r (read_syms (lits r') (dists r') (strm F e v) out) = Some x"
      by (auto simp: coded_block_def rd ls after_block_bind split: if_splits)
    moreover have "after_block r = after_block (next_type r')" by (rule after_block_cong) (simp add: rd)
    ultimately have "step_sim F e v out x (go Tables (v\<lparr>dec := next_type r'\<rparr>))"
      using core next_type_type(1) [OF m] by (intro sim_go) (simp_all add: side_def meaning_at_def tables_from_def syms_from_def)
    moreover have "step_lens e v = go Tables (v\<lparr>dec := next_type r'\<rparr>)"
      using eq ab l by (simp add: step_lens_def r_def [symmetric] sz r'_def lens_split_def del: One_nat_def)
    ultimately show ?thesis by simp
  qed
qed

lemma step_repeat18_sim:
  assumes sim: "sim F e v out x" and inv: "inv e v" and pc: "pc v = St 18"
  shows "step_sim F e v out x (step_repeat18 e v)"
  unfolding step_repeat18_def
proof (rule sim_get_bits [OF sim pc _ invD(4) [OF inv]])
  have at: "in_lens v" "num_extra v \<in> {2, 3, 7}" "16 \<le> dist v" "dist v \<le> 18" "dist v = 16 \<Longrightarrow> 0 < counter v"
    using inv pc by (simp_all add: inv_def place_defs)
  show "num_extra v \<le> 16" using at(2) by auto
  define r where "r = dec v"
  define ls where "ls = m_len_codes r"
  define c where "c = counter v"
  define new where "new b = replicate (b + [3, 3, 11, 0 :: nat] ! (dist v - 16)) (if dist v = 16 then ls ! (c - 1) else 0)" for b
  have c: "c < 320" using at(1) in_lens_less by (simp add: c_def)
  have l: "length ls = 457" using invD(2) [OF inv] by (simp add: decomp_shape_def ls_def r_def)
  have d: "dist v = 16 \<or> dist v = 17 \<or> dist v = 18" using at(3,4) by linarith
  have last: "dist v = 16 \<Longrightarrow> last (take c ls) = ls ! (c - 1)"
    using at(5) c l last_conv_nth [of "take c ls"] by (cases ls) (auto simp: c_def [symmetric])
  have rep: "(if dist v = 16 then replicate (3 + b) (last (take c ls)) else if dist v = 17 then replicate (3 + b) 0
      else replicate (11 + b) 0) = new b" for b
    using d last by (auto simp: new_def)
  show "meaning v (strm F e v) out = Option.bind (read_num (num_extra v) (strm F e v)) (\<lambda>(b, s). lens_from r (take c ls @ new b) s out)"
    using rep by (simp add: meaning_def pc meaning_at_def rep_from_def r_def [symmetric] ls_def [symmetric] c_def [symmetric] cong: if_cong)
  fix b :: nat and w
  assume core: "core e w out" and b: "b < 2 ^ num_extra v"
    and w: "w = v\<lparr>bit_buf := drop_bit (num_extra v) (bit_buf v), num_bits := num_bits v - num_extra v\<rparr>"
    and M: "lens_from r (take c ls @ new b) (strm F e w) out = Some x"
  have "(2 :: nat) ^ num_extra v \<le> 2 ^ 7" by (rule power_increasing) (use at(2) in auto)
  then have b128: "b < 128" using b by simp
  define n where "n = length (new b)"
  define ls' where "ls' = take c ls @ new b @ drop (c + n) ls"
  have n: "c + n \<le> 457" "n = b + [3, 3, 11, 0] ! (dist v - 16)" using d c b128 by (auto simp: n_def new_def)
  have tk: "take (c + n) ls' = take c ls @ new b" using c l by (simp add: ls'_def n_def)
  have "step_sim F e v out x (go Lens (w\<lparr>dec := r\<lparr>m_len_codes := ls'\<rparr>, counter := c + n\<rparr>))"
  proof (rule sim_go)
    have "has_table r 2 (m_code_size_2 r)" using simD(2) [OF sim] pc by (simp add: side_def r_def Let_def)
    then show "side e (w\<lparr>dec := r\<lparr>m_len_codes := ls'\<rparr>, counter := c + n, pc := Lens\<rparr>) out"
      by (simp add: side_def has_table_def tree_of_def)
    have "lens_from (r\<lparr>m_len_codes := ls'\<rparr>) = lens_from r" by (rule lens_cong) simp_all
    then show "meaning (w\<lparr>dec := r\<lparr>m_len_codes := ls'\<rparr>, counter := c + n, pc := Lens\<rparr>)
        (strm F e (w\<lparr>dec := r\<lparr>m_len_codes := ls'\<rparr>, counter := c + n\<rparr>)) out = Some x"
      using M tk by (simp add: meaning_at_def)
  qed (use core in simp_all, simp add: w)
  moreover have "nth_o [3, 3, 11, 0] (dist v - 16) = Some ([3, 3, 11, 0 :: nat] ! (dist v - 16))"
    using d by (auto simp: nth_o_def)
  moreover have "(if dist v = 16 then nth_o ls (c - 1) else Some 0) = Some (if dist v = 16 then ls ! (c - 1) else 0)"
  proof -
    have "c - 1 < 457" using c by linarith
    then show ?thesis using l by (simp add: nth_o_def)
  qed
  moreover have cw: "dist w = dist v" "m_len_codes (dec w) = ls" "dec w = r" "counter w = c" by (simp_all add: w ls_def r_def c_def)
  moreover have "new b = replicate n (if dist v = 16 then ls ! (c - 1) else 0)" unfolding n(2) by (rule new_def)
  ultimately show "step_sim F e v out x (do {
     base \<leftarrow> nth_o [3, 3, 11, 0] (dist w - 16);
     x \<leftarrow> (if dist w = 16 then nth_o (m_len_codes (dec w)) (counter w - 1) else Some 0);
     (let n = b + base; lens = m_len_codes (dec w)
      in if counter w + n \<le> length lens
         then go Lens (w\<lparr>dec := (dec w)\<lparr>m_len_codes :=
                take (counter w) lens @ replicate n x @ drop (counter w + n) lens\<rparr>,
              counter := counter w + n\<rparr>)
         else None)
   })"
    using n(1) l unfolding cw by (simp only: Option.bind.bind_lunit Let_def n(2) [symmetric] if_True ls'_def)
qed (use invD(3) [OF inv] in simp_all)

end
