(* ===== verification/InflateHuff.thy ===== *)
theory InflateHuff
  imports InflateHeader
begin

unbundle bit_operations_syntax

text \<open>
  The decompressor follows the format: the symbols, literals and matches.
\<close>

section \<open>A symbol\<close>

text \<open>The code of a single symbol is all zeros.\<close>

lemma single_code:
  assumes cs: "\<forall>x \<in> set cs. x < 16" and one: "used_syms (length cs) cs \<le> 1" and j: "j < length cs" "0 < cs ! j"
  shows "code_value (counts (length cs) cs) cs j = 0"
proof -
  define U where "U = {i. i < length cs \<and> cs ! i \<noteq> 0}"
  have "card U \<le> Suc 0" using one by (simp add: used_syms_def length_filter_conv_card U_def)
  moreover have "finite U" by (simp add: U_def)
  ultimately have eq: "i = j" if "i < length cs" "cs ! i \<noteq> 0" for i
    using j that by (simp add: card_le_Suc0_iff_eq U_def)
  have none: "cnt k (take m cs) = 0" if "0 < k" "k \<noteq> cs ! j \<or> m \<le> j" for k m
  proof -
    have "x \<noteq> k" if x: "x \<in> set (take m cs)" for x
    proof
      assume "x = k"
      then obtain i where i: "i < m" "i < length cs" "cs ! i = k" using x by (auto simp: in_set_conv_nth)
      then have "i = j" using eq \<open>0 < k\<close> by simp
      then show False using i \<open>k \<noteq> cs ! j \<or> m \<le> j\<close> by auto
    qed
    then show ?thesis by (auto simp: cnt_def filter_empty_conv)
  qed
  have l: "cs ! j < 16" using cs j(1) by simp
  obtain i where i: "cs ! j = Suc i" using j(2) by (cases "cs ! j") auto
  have "first_code (counts (length cs) cs) (Suc i) = (\<Sum>k = 1..<Suc i. counts (length cs) cs ! k * 2 ^ (Suc i - k))"
    by (rule first_code_sum)
  also have "\<dots> = 0"
    using none [of _ "length cs"] i l by (intro sum.neutral) (auto simp: counts_def)
  finally show ?thesis using none [of "cs ! j" j] j(2) by (simp add: code_value_def i)
qed

lemma entry_inj: "entry l j = entry l i \<Longrightarrow> j = i"
  by (simp add: entry_def split: if_splits)

lemma rv_0 [simp]: "rv l 0 = 0"
  by (induction l) simp_all

text \<open>
  The bits at hand are enough: a symbol that the whole stream begins with is the one looked up in them.
\<close>

lemma found_symbol:
  assumes dec: "table_decodes lu tr (length cs) cs" and ok: "table_ok lu tr (length cs)" and good: "good_lengths cs"
    and cs: "\<forall>x \<in> set cs. x < 16" and found: "15 \<le> N \<or> fill_test lu tr B N = Some True" and B: "B = take_bit N S"
    and j: "j < length cs" "0 < cs ! j" "rv (cs ! j) S = code_value (counts (length cs) cs) cs j"
  shows "huff_lookup lu tr B = Some (entry (cs ! j) j, cs ! j) \<and> cs ! j \<le> N"
proof -
  obtain t len where t: "huff_lookup lu tr B = Some (t, len)" "len \<le> 15" "\<forall>m. \<exists>f. fill_test lu tr B m = Some f \<and> (f \<longrightarrow> len \<le> m)"
    using ok unfolding table_ok_def by blast
  have len: "len \<le> N"
    using found
  proof
    assume "fill_test lu tr B N = Some True"
    moreover obtain f where "fill_test lu tr B N = Some f" "f \<longrightarrow> len \<le> N" using t(3) by blast
    ultimately show ?thesis by simp
  qed (use t(2) in simp)
  have look: "huff_lookup lu tr b = Some (entry (cs ! i) i, cs ! i)"
    if "i < length cs" "0 < cs ! i" "rv (cs ! i) b = code_value (counts (length cs) cs) cs i" for i b
    using dec that by (simp add: table_decodes_def)
  show ?thesis
  proof (cases "used_syms (length cs) cs \<le> 1")
    case True
    then have zero: "code_value (counts (length cs) cs) cs j = 0" using single_code [OF cs] j by simp
    then have "rv (cs ! j) S = rv (cs ! j) 0" using j(3) by simp
    then have "take_bit (cs ! j) S = 0" using rv_inj [of "cs ! j" S 0] by simp
    then have "take_bit (min N (cs ! j)) (take_bit (cs ! j) S) = 0" by simp
    then have "take_bit (cs ! j) B = 0" by (simp add: B take_bit_take_bit min.commute)
    then have "rv (cs ! j) B = rv (cs ! j) 0" by (intro rv_cong) simp
    then have "huff_lookup lu tr B = Some (entry (cs ! j) j, cs ! j)" using look [OF j(1,2)] zero by simp
    then show ?thesis using t(1) len by simp
  next
    case False
    then have "kraft_sum (length cs) cs = 2 ^ 16" using good by (simp add: good_lengths_def)
    then obtain i where i: "i < length cs" "0 < cs ! i" "rv (cs ! i) B = code_value (counts (length cs) cs) cs i"
      using complete_code [of "length cs" cs B] cs by auto
    have "cs ! i \<le> N" using look [OF i] t(1) len by simp
    then have "rv (cs ! i) S = rv (cs ! i) B" by (simp add: B)
    then have "huff_lookup lu tr S = Some (entry (cs ! i) i, cs ! i)" using look i by simp
    from trans [OF this [symmetric] look [OF j]] have eq: "cs ! i = cs ! j" "entry (cs ! i) i = entry (cs ! j) j" by auto
    then have "i = j" using entry_inj by metis
    then show ?thesis using look [OF i] \<open>cs ! i \<le> N\<close> by simp
  qed
qed

lemma entry_symbol:
  assumes ok: "table_ok lu tr n" and n: "n \<le> 288" and look: "huff_lookup lu tr B = Some (entry l j, l)" and l: "0 < l" "j < n"
  shows "(if 0 \<le> lu ! (B AND 1023) then nat (entry l j) AND 511 else nat (entry l j)) = j"
proof -
  define x where "x = lu ! (B AND 1023)"
  have "B AND 1023 < 1024" using and_mask_less [of B 10] by simp
  then have rd: "nth_o lu (B AND (1024 - 1)) = Some x" using ok by (simp add: table_ok_def nth_o_def x_def)
  show ?thesis
  proof (cases "0 \<le> x")
    case True
    then have "huff_lookup lu tr B = Some (x, nat x div 512)"
      by (simp only: huff_lookup_def rd Option.bind.bind_lunit) simp
    from trans [OF this [symmetric] look] have "entry l j = x" "l = nat x div 512" unfolding option.inject prod.inject by metis+
    then have "l \<le> 10" using l n by (auto simp: entry_def split: if_splits)
    then have "nat (entry l j) = 512 * l + j" by (simp add: entry_def nat_int flip: of_nat_add of_nat_mult)
    then show ?thesis using True l n by (simp add: x_def [symmetric] sub_mod_512)
  next
    case False
    obtain t len where t: "huff_lookup lu tr B = Some (t, len)"
        "if lu ! (B AND 1023) < 0 then nat t < n \<and> 0 < len else nat t mod 512 < n \<and> (len = 0 \<longrightarrow> t = 0)"
      using ok unfolding table_ok_def by blast
    from t(2) have "nat t < n" using False by (simp add: x_def)
    moreover from trans [OF look [symmetric] t(1)] have "entry l j = t" by auto
    ultimately have "nat (entry l j) < n" by simp
    then have "\<not> l \<le> 10" using l n by (auto simp: entry_def)
    then show ?thesis using False by (simp add: x_def entry_def)
  qed
qed

lemma decode_strm:
  assumes core: "core e v out" and tab: "has_table r t cs" "tree_of r t = Some tr" and rd: "read_sym cs (strm F e v) = Some (j, s')"
    and found: "15 \<le> num_bits v \<or> fill_test (m_look_up r ! t) tr (bit_buf v) (num_bits v) = Some True"
  obtains l where "huff_lookup (m_look_up r ! t) tr (bit_buf v) = Some (entry l j, l)" "0 < l" "l \<le> num_bits v" "l \<le> 15" "j < length cs"
    "s' = strm F e (v\<lparr>bit_buf := drop_bit l (bit_buf v), num_bits := num_bits v - l\<rparr>)"
    "core e (v\<lparr>bit_buf := drop_bit l (bit_buf v), num_bits := num_bits v - l\<rparr>) out"
    "(if 0 \<le> m_look_up r ! t ! (bit_buf v AND 1023) then nat (entry l j) AND 511 else nat (entry l j)) = j"
proof -
  obtain S m where S: "strm F e v = (S, m)" by (cases "strm F e v")
  have tb: "good_lengths cs" "length cs \<le> 288" "\<forall>x \<in> set cs. x < 16" "table_decodes (m_look_up r ! t) tr (length cs) cs"
      "table_ok (m_look_up r ! t) tr (length cs)"
    using tab by (auto simp: has_table_def)
  have j: "j < length cs" "0 < cs ! j" "rv (cs ! j) S = code_value (counts (length cs) cs) cs j" "s' = (drop_bit (cs ! j) S, m - cs ! j)"
    using rd by (auto simp: read_sym_def S find_Some_iff split: option.splits)
  have "bit_buf v < 2 ^ num_bits v" using core by (simp add: core_def)
  then have B: "bit_buf v = take_bit (num_bits v) S" using S by (auto simp: strm_def take_bit_eq_mod)
  note f = found_symbol [OF tb(4,5,1,3) found B j(1-3)]
  then have "read_num (cs ! j) (strm F e v) = Some (take_bit (cs ! j) (bit_buf v),
      strm F e (v\<lparr>bit_buf := drop_bit (cs ! j) (bit_buf v), num_bits := num_bits v - cs ! j\<rparr>))"
    by (intro read_num_strm) simp
  then have "s' = strm F e (v\<lparr>bit_buf := drop_bit (cs ! j) (bit_buf v), num_bits := num_bits v - cs ! j\<rparr>)"
    using j(4) by (auto simp: S read_num_def split: if_splits)
  moreover have "core e (v\<lparr>bit_buf := drop_bit (cs ! j) (bit_buf v), num_bits := num_bits v - cs ! j\<rparr>) out"
    by (rule core_drop [OF core]) (use f in simp)
  moreover have "cs ! j \<le> 15" using tb(3) j(1) by (auto simp: all_set_conv_all_nth)
  moreover have "(if 0 \<le> m_look_up r ! t ! (bit_buf v AND 1023) then nat (entry (cs ! j) j) AND 511 else nat (entry (cs ! j) j)) = j"
    by (rule entry_symbol [OF tb(5,2) _ j(2,1)]) (use f in simp)
  ultimately show ?thesis using that f j by blast
qed


section \<open>What a symbol stands for\<close>

lemma len_tables:
  "257 \<le> sy \<Longrightarrow> sy < 286 \<Longrightarrow> s_length_base ! (sy - 257) = len_base sy \<and> s_length_extra ! (sy - 257) = len_extra sy \<and>
     len_base sy + 2 ^ len_extra sy \<le> 259 \<and> len_extra sy \<le> 5"
proof -
  have all: "\<forall>sy \<in> set [257..<286]. s_length_base ! (sy - 257) = len_base sy \<and> s_length_extra ! (sy - 257) = len_extra sy \<and>
     len_base sy + 2 ^ len_extra sy \<le> 259 \<and> len_extra sy \<le> 5" by code_simp
  show "257 \<le> sy \<Longrightarrow> sy < 286 \<Longrightarrow> ?thesis" by (rule bspec [OF all]) (simp only: set_upt atLeastLessThan_iff)
qed

lemma dist_tables:
  "sy < 30 \<Longrightarrow> s_dist_base ! sy = dist_base sy \<and> s_dist_extra ! sy = dist_extra sy \<and>
     0 < dist_base sy \<and> dist_base sy + 2 ^ dist_extra sy \<le> 32769 \<and> dist_extra sy \<le> 13"
proof -
  have all: "\<forall>sy \<in> set [0..<30]. s_dist_base ! sy = dist_base sy \<and> s_dist_extra ! sy = dist_extra sy \<and>
     0 < dist_base sy \<and> dist_base sy + 2 ^ dist_extra sy \<le> 32769 \<and> dist_extra sy \<le> 13" 
    by (simp add: s_dist_base_def s_dist_extra_def dist_base_def dist_extra_def upt_rec del: set_upt)
  show "sy < 30 \<Longrightarrow> ?thesis" by (rule bspec [OF all]) simp
qed

lemma read_len_range: "256 < sy \<Longrightarrow> read_len sy s = Some (len, s') \<Longrightarrow> len \<le> 258"
  using len_tables [of sy] by (auto simp: read_len_def bind_eq_Some_conv dest!: read_num_less split: if_splits)

lemma read_dist_range: "read_dist sy s = Some (d, s') \<Longrightarrow> 0 < d \<and> d \<le> 32768"
  using dist_tables [of sy] by (auto simp: read_dist_def bind_eq_Some_conv dest!: read_num_less split: if_splits)

lemma syms_unfold: "syms_from r s out = Option.bind (read_sym (lits r) s) (\<lambda>(sy, s). sym_from r sy s out)"
proof -
  have "after_block r (Option.bind (read_len sy s) (\<lambda>(len, s).
         Option.bind (read_sym (dists r) s) (\<lambda>(dsym, s).
           Option.bind (read_dist dsym s) (\<lambda>(dist, s).
             if dist \<le> length out then read_syms (lits r) (dists r) s (copy_out len dist out) else None)))) =
      Option.bind (read_len sy s) (\<lambda>(len, s). dist_from r len s out)" if "256 < sy" for sy s
    unfolding after_block_bind dist_from_def dsym_from_def copy_from_def syms_from_def
    by (auto intro!: Option.bind_cong simp: after_block_bind dest: read_len_range [OF that] read_dist_range split: prod.split)
  then show ?thesis
    unfolding syms_from_def
    by (subst read_syms.simps)
      (auto intro!: Option.bind_cong simp: after_block_bind sym_from_def syms_from_def split: prod.split)
qed

definition len_sym_from :: "tinfl_decompressor \<Rightarrow> nat \<Rightarrow> nat \<Rightarrow> stream \<Rightarrow> bytes \<Rightarrow> outcome" where
  "len_sym_from r n sy s out =
     (if sy < 16 then lens_from r (take n (m_len_codes r) @ [sy]) s out
      else if sy = 16 \<and> n = 0 then None
      else rep_from r n sy (if sy = 16 then 2 else if sy = 17 then 3 else 7) s out)"

lemma lens_unfold:
  assumes "n < m_table_sizes r ! 0 + m_table_sizes r ! 1" "n \<le> length (m_len_codes r)"
  shows "lens_from r (take n (m_len_codes r)) s out =
    Option.bind (read_sym (m_code_size_2 r) s) (\<lambda>(sy, s). len_sym_from r n sy s out)"
proof -
  define ls tot where "ls = take n (m_len_codes r)" and "tot = m_table_sizes r ! 0 + m_table_sizes r ! 1"
  have "length ls = n" using assms(2) by (simp add: ls_def)
  then have c: "(length ls = tot) = False" "(tot < length ls) = False" "(n = 0) = (ls = [])" using assms(1) by (auto simp: tot_def)
  have lens: "lens_from r l s out = Option.bind (read_lens (m_code_size_2 r) tot l s) (\<lambda>(lens, s).
       after_block r (coded_block (m_table_sizes r ! 0) lens s out))" for l s
    by (simp only: lens_from_def tot_def)
  show ?thesis
    unfolding len_sym_from_def rep_from_def ls_def [symmetric] lens c
    by (subst read_lens.simps) (auto intro!: Option.bind_cong simp: c split_def)
qed

text \<open>The three uses of the decoding.\<close>

definition huff_codes :: "nat \<Rightarrow> tinfl_decompressor \<Rightarrow> nat list" where
  "huff_codes k r = (if k = 16 then m_code_size_2 r else if k = 23 then lits r else dists r)"

definition huff_next :: "tinfl_decompressor \<Rightarrow> nat \<Rightarrow> nat \<Rightarrow> nat \<Rightarrow> stream \<Rightarrow> bytes \<Rightarrow> outcome" where
  "huff_next r n k sy s out = (if k = 16 then len_sym_from r n sy s out
     else if k = 23 then sym_from r sy s out else dsym_from r n sy s out)"

lemma huff_unfold:
  assumes "huff_inv k v" "decomp_shape (dec v)"
  shows "huff_from (dec v) (counter v) k s out =
    Option.bind (read_sym (huff_codes k (dec v)) s) (\<lambda>(sy, s). huff_next (dec v) (counter v) k sy s out)"
proof (cases "k = 16")
  case True
  then have at: "in_lens v" using assms(1) by (simp add: huff_inv_def)
  then have "counter v < m_table_sizes (dec v) ! 0 + m_table_sizes (dec v) ! 1" "counter v \<le> length (m_len_codes (dec v))"
    using assms(2) by (simp_all add: in_lens_def lens_inv_def decomp_shape_def)
  then show ?thesis using True lens_unfold by (simp add: huff_from_def huff_codes_def huff_next_def)
next
  case False
  then show ?thesis
    using assms(1) syms_unfold by (auto simp: huff_inv_def huff_from_def huff_codes_def huff_next_def dist_from_def)
qed

lemma huff_tabs_has: "huff_inv k v \<Longrightarrow> huff_tabs k r \<Longrightarrow> has_table r (huff_table k) (huff_codes k r)"
  by (auto simp: huff_inv_def huff_tabs_def has_tabs_def huff_table_def huff_codes_def split: if_splits)


section \<open>Collecting bits\<close>

lemma refilled_fields [simp]:
  "pc (refilled e m v) = pc v" "dec (refilled e m v) = dec v" "counter (refilled e m v) = counter v" "dist (refilled e m v) = dist v"
  "num_extra (refilled e m v) = num_extra v" "out_cur (refilled e m v) = out_cur v" "out_buf (refilled e m v) = out_buf v"
  "num_bits (refilled e m v) = num_bits v + 8 * m" "in_cur (refilled e m v) = in_cur v + m"
  by (simp_all add: refilled_def)

lemma bit_buf_refilled:
  "core e v out \<Longrightarrow> in_cur v + m \<le> length (in_buf e) \<Longrightarrow> bit_buf (refilled e m v) < 2 ^ (num_bits v + 8 * m)"
  using core_refilled [of e v out m] by (simp add: core_def)

lemma shift_in_byte:
  assumes core: "core e v out" and n: "num_bits v \<le> 56" and room: "in_cur v < length (in_buf e)"
  shows "shift_in (unat (in_buf e ! in_cur v)) 8 (v\<lparr>in_cur := i\<rparr>) = Some ((refilled e 1 v)\<lparr>in_cur := i\<rparr>)"
proof -
  have "shift_in (unat (in_buf e ! in_cur v)) (8 * 1) v = Some ((refilled e 1 v)\<lparr>in_cur := in_cur v\<rparr>)"
    by (rule shift_in_refilled) (use core n room one_byte [OF room] in \<open>simp_all add: core_def\<close>)
  then have "shift_in (unat (in_buf e ! in_cur v)) 8 v = Some ((refilled e 1 v)\<lparr>in_cur := in_cur v\<rparr>)" by (simp only: mult_1_right)
  then show ?thesis unfolding shift_in_in by simp
qed

lemma huff_sim:
  assumes "sim F e v out x" "pc v = Huff k \<or> pc v = Fill k \<or> pc v = Decode k \<or> pc v = St k \<and> k \<in> {16, 23, 26}"
  shows "huff_tabs k (dec v)" "huff_from (dec v) (counter v) k (strm F e v) out = Some x"
  using simD(2,3) [OF assms(1)] assms(2) by (auto simp: side_def Let_def meaning_def meaning_at_def)

lemma go_huff:
  assumes "huff_tabs k (dec w)" "huff_from (dec w) (counter w) k (strm F e w) out = Some x" "core e w out" "out_cur w = out_cur v"
    and "l = Huff k \<or> l = Fill k \<or> l = Decode k \<or> l = St k \<and> k \<in> {16, 23, 26} \<and> not_found k w"
  shows "step_sim F e v out x (go l w)"
  by (rule sim_go) (use assms in \<open>auto simp: side_def Let_def meaning_at_def not_found_def\<close>)

lemma step_huff_sim:
  assumes sim: "sim F e v out x" and inv: "inv e v" and pc: "pc v = Huff k"
  shows "step_sim F e v out x (step_huff e k v)"
proof -
  note h = huff_sim [OF sim, of k]
  have core: "core e v out" by (rule simD(1) [OF sim])
  have same: "step_sim F e v out x (go (Decode k) v)" "step_sim F e v out x (go (Fill k) v)"
    by (rule go_huff, use h core pc in simp_all)+
  show ?thesis
  proof (cases "num_bits v < 15 \<and> in_cur v + 2 \<le> length (in_buf e)")
    case True
    define v1 where "v1 = refilled e 1 v"
    define v2 where "v2 = refilled e 1 v1"
    have core1: "core e v1 out" unfolding v1_def by (rule core_refilled [OF core]) (use True in simp)
    have core2: "core e v2 out" unfolding v2_def by (rule core_refilled [OF core1]) (use True in \<open>simp add: v1_def\<close>)
    have "shift_in (unat (in_buf e ! in_cur v)) 8 (v\<lparr>in_cur := in_cur v\<rparr>) = Some (v1\<lparr>in_cur := in_cur v\<rparr>)"
      unfolding v1_def by (rule shift_in_byte [OF core]) (use True in simp_all)
    moreover have "shift_in (unat (in_buf e ! in_cur v1)) 8 (v1\<lparr>in_cur := in_cur v\<rparr>) = Some (v2\<lparr>in_cur := in_cur v\<rparr>)"
      unfolding v2_def by (rule shift_in_byte [OF core1]) (use True in \<open>simp_all add: v1_def\<close>)
    moreover have "v2\<lparr>in_cur := in_cur v + 2\<rparr> = v2" by (simp add: v2_def v1_def refilled_def)
    ultimately have "step_huff e k v = go (Decode k) v2"
      using True by (simp add: step_huff_def rd8_def v1_def)
    moreover have "strm F e v2 = strm F e v"
      using True strm_refilled [where v = v1 and m = 1] strm_refilled [where v = v and m = 1] by (simp add: v1_def v2_def)
    ultimately show ?thesis
      using go_huff [of k v2 F e out x v "Decode k"] h core2 pc by (simp add: v1_def v2_def)
  next
    case False
    then show ?thesis using same by (auto simp: step_huff_def)
  qed
qed

lemma huff_tree:
  assumes "huff_tabs k r" "decomp_shape r"
  obtains tr where "tree_of r (huff_table k) = Some tr" "nth_o (m_look_up r) (huff_table k) = Some (m_look_up r ! huff_table k)"
proof -
  have "\<exists>cs. has_table r (huff_table k) cs"
    using assms(1) by (auto simp: huff_tabs_def has_tabs_def huff_table_def split: if_splits)
  moreover have "nth_o (m_look_up r) (huff_table k) = Some (m_look_up r ! huff_table k)"
    using assms(2) huff_table_less [of k] by (simp add: decomp_shape_def nth_o_def)
  ultimately show ?thesis using that by (auto simp: has_table_def)
qed

lemma step_fill_sim:
  assumes sim: "sim F e v out x" and inv: "inv e v" and pc: "pc v = Fill k"
  shows "step_sim F e v out x (step_fill e k v)"
proof -
  have h: "huff_tabs k (dec v)" "huff_from (dec v) (counter v) k (strm F e v) out = Some x" using huff_sim [OF sim, of k] pc by simp_all
  have hi: "huff_inv k v" using inv pc by (simp add: inv_def pc_inv_def)
  obtain tr where tr: "tree_of (dec v) (huff_table k) = Some tr" "nth_o (m_look_up (dec v)) (huff_table k) = Some (m_look_up (dec v) ! huff_table k)"
    using huff_tree [OF h(1) invD(2) [OF inv]] by blast
  have "table_ok (m_look_up (dec v) ! huff_table k) tr (length (huff_codes k (dec v)))"
    using huff_tabs_has [OF hi h(1)] tr(1) by (auto simp: has_table_def)
  then obtain f where f: "fill_test (m_look_up (dec v) ! huff_table k) tr (bit_buf v) (num_bits v) = Some f"
    unfolding table_ok_def by blast
  have "not_found k v" if "\<not> f" using tr f that by (simp add: not_found_def)
  moreover have "k \<in> {16, 23, 26}" using huff_place(1) [OF hi] by auto
  ultimately have "step_sim F e v out x (go (if f then Decode k else St k) v)"
    by (intro go_huff) (use h simD(1) [OF sim] in auto)
  then show ?thesis by (simp add: step_fill_def tr f)
qed

lemma step_fill_byte_sim:
  assumes sim: "sim F e v out x" and inv: "inv e v" and pc: "pc v = St k" and k: "k = 16 \<or> k = 23 \<or> k = 26"
  shows "step_sim F e v out x (step_fill_byte e k v)"
  unfolding step_fill_byte_def
proof (rule sim_get_byte [OF sim pc invD(4) [OF inv]])
  have h: "huff_tabs k (dec v)" "huff_from (dec v) (counter v) k (strm F e v) out = Some x"
    using huff_sim [OF sim, of k] pc k by simp_all
  have hi: "huff_inv k v" "num_bits v < 15" using inv pc k by (auto simp: inv_def place_defs)
  have core: "core e v out" by (rule simD(1) [OF sim])
  show "in_cur v < length (in_buf e)" if F: "F = []"
  proof (rule ccontr)
    assume no: "\<not> in_cur v < length (in_buf e)"
    then have S: "strm F e v = (bit_buf v, num_bits v)" by (simp add: strm_def F)
    define cs where "cs = huff_codes k (dec v)"
    have tab: "has_table (dec v) (huff_table k) cs" unfolding cs_def by (rule huff_tabs_has [OF hi(1) h(1)])
    then obtain tr where tr: "tree_of (dec v) (huff_table k) = Some tr"
        "table_decodes (m_look_up (dec v) ! huff_table k) tr (length cs) cs" by (auto simp: has_table_def)
    have "read_sym cs (strm F e v) \<noteq> None"
      using h(2) huff_unfold [OF hi(1) invD(2) [OF inv], of "strm F e v" out] by (auto simp: cs_def bind_eq_Some_conv)
    then obtain j where j: "j < length cs" "0 < cs ! j" "cs ! j \<le> num_bits v"
        "rv (cs ! j) (bit_buf v) = code_value (counts (length cs) cs) cs j"
      by (auto simp: read_sym_def S find_Some_iff split: option.splits)
    then have "fill_test (m_look_up (dec v) ! huff_table k) tr (bit_buf v) (num_bits v) = Some True"
      using tr(2) by (simp add: table_decodes_def)
    moreover have "not_found k v" using simD(2) [OF sim] pc k by (auto simp: side_def)
    ultimately show False using tr(1) by (simp add: not_found_def)
  qed
  fix c
  assume room: "in_cur v < length (in_buf e)" and c: "c = unat (in_buf e ! in_cur v)"
  define w where "w = refilled e 1 v"
  have "shift_in c 8 (v\<lparr>in_cur := in_cur v + 1\<rparr>) = Some ((refilled e 1 v)\<lparr>in_cur := in_cur v + 1\<rparr>)"
    unfolding c by (rule shift_in_byte [OF core]) (use hi room in simp_all)
  then have sh: "shift_in c 8 (v\<lparr>in_cur := in_cur v + 1\<rparr>) = Some w" by (simp add: w_def refilled_def)
  have "core e w out" unfolding w_def by (rule core_refilled [OF core]) (use room in simp)
  moreover have "strm F e w = strm F e v" unfolding w_def by (rule strm_refilled) (use room in simp)
  ultimately have "step_sim F e v out x (go (if num_bits w < 15 then Fill k else Decode k) w)"
    by (intro go_huff) (use h in \<open>auto simp: w_def\<close>)
  then show "step_sim F e v out x (do {
     v \<leftarrow> shift_in c 8 (v\<lparr>in_cur := in_cur v + 1\<rparr>);
     go (if num_bits v < 15 then Fill k else Decode k) v
   })" by (simp only: sh Option.bind.bind_lunit)
qed

end
