(* ===== verification/InflateMatch.thy ===== *)
theory InflateMatch
  imports InflateHuff
begin

unbundle bit_operations_syntax

text \<open>
  The decompressor follows the format: the use of a symbol, the fast path, and the copying of matches.
\<close>

section \<open>The use of a symbol\<close>

lemma go_tabs:
  assumes "core e w out" "has_tabs (dec w)" "meaning_at l (dec w) (counter w) (dist w) (num_extra w) (strm F e w) out = Some x"
    and "out_cur w = out_cur v" "l \<in> {Syms, Match_len, Match_dist, Match_copy, Huff 23, Huff 26, St 24, St 25, St 27}"
  shows "step_sim F e v out x (go l w)"
  by (rule sim_go) (use assms in \<open>auto simp: side_def huff_tabs_def Let_def\<close>)

lemma step_len_sym_sim:
  assumes core: "core e w out" and tab: "has_table (dec w) 2 (m_code_size_2 (dec w))" and oc: "out_cur w = out_cur v"
    and c: "counter w < length (m_len_codes (dec w))" and sy: "dist w < 19"
    and M: "len_sym_from (dec w) (counter w) (dist w) (strm F e w) out = Some x"
  shows "step_sim F e v out x (step_len_sym e w)"
proof (cases "dist w < 16")
  case True
  define ls where "ls = (m_len_codes (dec w))[counter w := dist w]"
  have "take (counter w + 1) ls = take (counter w) (m_len_codes (dec w)) @ [dist w]"
    using c by (simp add: ls_def take_Suc_conv_app_nth)
  moreover have "lens_from ((dec w)\<lparr>m_len_codes := ls\<rparr>) = lens_from (dec w)" by (rule lens_cong) simp_all
  moreover have "has_table ((dec w)\<lparr>m_len_codes := ls\<rparr>) 2 (m_code_size_2 (dec w))"
    using tab by (simp add: has_table_def tree_of_def)
  ultimately have "step_sim F e v out x (go Lens (w\<lparr>dec := (dec w)\<lparr>m_len_codes := ls\<rparr>, counter := counter w + 1\<rparr>))"
    using core oc M True by (intro sim_go) (simp_all add: side_def meaning_at_def len_sym_from_def)
  then show ?thesis using True c by (simp add: step_len_sym_def upd_o_def ls_def)
next
  case False
  define n where "n = (if dist w = 16 then 2 else if dist w = 17 then 3 else 7 :: nat)"
  have d: "dist w = 16 \<or> dist w = 17 \<or> dist w = 18" using False sy by linarith
  then have n: "nth_o [2, 3, 7, 0] (dist w - 16) = Some n" by (auto simp: nth_o_def n_def)
  have ok: "\<not> (dist w = 16 \<and> counter w = 0)" "rep_from (dec w) (counter w) (dist w) n (strm F e w) out = Some x"
    using M False by (simp_all add: len_sym_from_def n_def split: if_splits)
  have "step_sim F e v out x (go (St 18) (w\<lparr>num_extra := n\<rparr>))"
    by (rule sim_go) (use core tab oc ok(2) in \<open>simp_all add: side_def meaning_at_def\<close>)
  then show ?thesis using False ok(1) by (auto simp: step_len_sym_def n)
qed

lemma step_decode_sim:
  assumes sim: "sim F e v out x" and inv: "inv e v" and pc: "pc v = Decode k"
  shows "step_sim F e v out x (step_decode e k v)"
proof -
  define r t where "r = dec v" and "t = huff_table k"
  have h: "huff_tabs k r" "huff_from r (counter v) k (strm F e v) out = Some x"
    using huff_sim [OF sim, of k] pc by (simp_all add: r_def)
  have hi: "huff_inv k v" "bits_found k v" using inv pc by (simp_all add: inv_def pc_inv_def)
  have core: "core e v out" by (rule simD(1) [OF sim])
  have shape: "decomp_shape r" using invD(2) [OF inv] by (simp add: r_def)
  have tab: "has_table r t (huff_codes k r)" unfolding t_def by (rule huff_tabs_has [OF hi(1) h(1)])
  obtain tr where tr: "tree_of r t = Some tr" "nth_o (m_look_up r) t = Some (m_look_up r ! t)"
    using huff_tree [OF h(1) shape] by (auto simp: t_def)
  have ok: "table_ok (m_look_up r ! t) tr (length (huff_codes k r))" using tab tr(1) by (auto simp: has_table_def)
  have found: "15 \<le> num_bits v \<or> fill_test (m_look_up r ! t) tr (bit_buf v) (num_bits v) = Some True"
    using hi(2) tr(1) by (auto simp: bits_found_def r_def t_def)
  obtain sy s' where sy: "read_sym (huff_codes k r) (strm F e v) = Some (sy, s')" "huff_next r (counter v) k sy s' out = Some x"
    using h(2) huff_unfold [OF hi(1) invD(2) [OF inv], of "strm F e v" out] by (auto simp: bind_eq_Some_conv r_def)
  obtain l where l: "huff_lookup (m_look_up r ! t) tr (bit_buf v) = Some (entry l sy, l)" "0 < l" "l \<le> num_bits v" "l \<le> 15"
    "sy < length (huff_codes k r)" "s' = strm F e (v\<lparr>bit_buf := drop_bit l (bit_buf v), num_bits := num_bits v - l\<rparr>)"
    "core e (v\<lparr>bit_buf := drop_bit l (bit_buf v), num_bits := num_bits v - l\<rparr>) out"
    "(if 0 \<le> m_look_up r ! t ! (bit_buf v AND 1023) then nat (entry l sy) AND 511 else nat (entry l sy)) = sy"
    using decode_strm [OF core tab tr(1) sy(1) found] by blast
  define w where "w = v\<lparr>bit_buf := drop_bit l (bit_buf v), num_bits := num_bits v - l\<rparr>"
  have drop: "drop_bits l v = Some w" using drop_bits_ok [OF l(3) invD(3) [OF inv]] by (simp add: w_def)
  have "bit_buf v AND 1023 < 1024" using and_mask_less [of "bit_buf v" 10] by simp
  then have rd: "nth_o (m_look_up r ! t) (bit_buf v AND (1024 - 1)) = Some (m_look_up r ! t ! (bit_buf v AND 1023))"
    using ok by (simp add: table_ok_def nth_o_def)
  have step: "step_decode e k v = (if k = 16 then step_len_sym e (w\<lparr>dist := sy\<rparr>)
         else if k = 23 then go (if 256 \<le> sy then Match_len else St 24) (w\<lparr>counter := sy\<rparr>)
         else go Match_dist (w\<lparr>dist := sy\<rparr>))"
    unfolding step_decode_def r_def [symmetric] t_def [symmetric]
    by (simp only: tr rd l(1) Option.bind.bind_lunit prod.case drop l(8) Let_def)
  have cw: "core e w out" "s' = strm F e w" using l(6,7) by (simp_all add: w_def)
  have fw: "dec w = r" "counter w = counter v" "out_cur w = out_cur v" "dist w = dist v" by (simp_all add: w_def r_def)
  from huff_place(1) [OF hi(1)] show ?thesis
  proof (elim disjE)
    assume k: "k = 16"
    have "counter v < 320" using hi(1) in_lens_less by (simp add: huff_inv_def k)
    moreover have "sy < 19" using l(5) shape by (simp add: k huff_codes_def decomp_shape_def)
    moreover have "has_table r 2 (m_code_size_2 r)" using h(1) by (simp add: k huff_tabs_def)
    ultimately have "step_sim F e v out x (step_len_sym e (w\<lparr>dist := sy\<rparr>))"
      using cw sy(2) shape by (intro step_len_sym_sim) (simp_all add: fw k huff_next_def decomp_shape_def)
    then show ?thesis by (simp add: step [unfolded k] k)
  next
    assume k: "k = 23"
    have tabs: "has_tabs r" using h(1) by (simp add: k huff_tabs_def)
    have sy288: "sy < 288"
      using l(5) tab by (simp add: has_table_def)
    have M: "sym_from r sy (strm F e w) out = Some x" using sy(2) by (simp add: k huff_next_def cw)
    have "step_sim F e v out x (go Match_len (w\<lparr>counter := sy\<rparr>))"
      by (rule go_tabs) (use cw tabs M sy288 in \<open>simp_all add: fw meaning_at_def sub_mod_512\<close>)
    moreover have "step_sim F e v out x (go (St 24) (w\<lparr>counter := sy\<rparr>))" if "\<not> 256 \<le> sy"
      by (rule go_tabs) (use cw tabs M that in \<open>simp_all add: fw meaning_at_def sym_from_def\<close>)
    ultimately show ?thesis by (simp add: step [unfolded k] k)
  next
    assume k: "k = 26"
    have tabs: "has_tabs r" using h(1) by (simp add: k huff_tabs_def)
    have "step_sim F e v out x (go Match_dist (w\<lparr>dist := sy\<rparr>))"
      by (rule go_tabs) (use cw tabs sy(2) in \<open>simp_all add: fw meaning_at_def k huff_next_def\<close>)
    then show ?thesis by (simp add: step [unfolded k] k)
  qed
qed

lemma step_lit24_sim:
  assumes sim: "sim F e v out x" and inv: "inv e v" and pc: "pc v = St 24"
  shows "step_sim F e v out x (put_byte e 24 (counter v) v (go Syms))"
proof (rule sim_put_byte [OF sim inv pc], simp)
  have M: "syms_from (dec v) (strm F e v) (out @ [word_of_nat (counter v)]) = Some x"
    using simD(3) [OF sim] by (simp add: meaning_def pc meaning_at_def)
  then obtain s' out' where "read_syms (lits (dec v)) (dists (dec v)) (strm F e v) (out @ [word_of_nat (counter v)]) = Some (s', out')"
      "length out' \<le> length (snd x)"
    unfolding syms_from_def by (rule after_block_grows)
  then show "length out < length (snd x)" using length_read_syms by fastforce
  fix w
  assume w: "w = v\<lparr>out_buf := (out_buf v)[out_cur v := word_of_nat (counter v)], out_cur := out_cur v + 1\<rparr>"
    "core e w (out @ [word_of_nat (counter v)])"
  have "has_tabs (dec v)" using simD(2) [OF sim] pc by (simp add: side_def)
  then show "step_sim F e v out x (go Syms w)"
    using w M by (intro sim_go_out [of _ _ _ "[word_of_nat (counter v)]"]) (simp_all add: side_def meaning_at_def)
qed

section \<open>Lengths and distances\<close>

lemma step_match_len_sim:
  assumes sim: "sim F e v out x" and inv: "inv e v" and pc: "pc v = Match_len"
  shows "step_sim F e v out x (step_match_len e v)"
proof -
  define c where "c = counter v AND 511"
  have c: "256 \<le> c" "c < 288" using inv pc by (simp_all add: inv_def pc_inv_def c_def)
  have M: "sym_from (dec v) c (strm F e v) out = Some x"
    using simD(3) [OF sim] by (simp add: meaning_def pc meaning_at_def c_def)
  have tabs: "has_tabs (dec v)" and core: "core e v out" using simD [OF sim] pc by (simp_all add: side_def)
  show ?thesis
  proof (cases "c = 256")
    case True
    have "step_sim F e v out x (go Block_end (v\<lparr>counter := 256\<rparr>))"
      by (rule sim_go) (use M core True in \<open>simp_all add: side_def meaning_at_def sym_from_def\<close>)
    then show ?thesis using True by (simp add: step_match_len_def c_def [symmetric])
  next
    case False
    then have c257: "257 \<le> c" using c by simp
    obtain len s' where len: "read_len c (strm F e v) = Some (len, s')" "dist_from (dec v) len s' out = Some x"
      using M c False by (auto simp: sym_from_def bind_eq_Some_conv)
    then have c286: "c < 286" by (auto simp: read_len_def split: if_splits)
    note t = len_tables [OF c257 c286]
    obtain y s2 where y: "read_num (len_extra c) (strm F e v) = Some (y, s2)" "dist_from (dec v) (len_base c + y) s2 out = Some x"
      using len c286 by (auto simp: read_len_def bind_eq_Some_conv)
    have rd: "nth_o s_length_extra (c - 257) = Some (len_extra c)" "nth_o s_length_base (c - 257) = Some (len_base c)"
      using t c286 c257 length_tables(1,2) by (simp_all add: nth_o_def)
    have "step_sim F e v out x (go (St 25) (v\<lparr>num_extra := len_extra c, counter := len_base c\<rparr>))"
      by (rule go_tabs) (use core tabs y in \<open>simp_all add: meaning_at_def\<close>)
    moreover have "step_sim F e v out x (go (Huff 26) (v\<lparr>num_extra := len_extra c, counter := len_base c\<rparr>))" if "len_extra c = 0"
      by (rule go_tabs) (use core tabs y that in \<open>simp_all add: meaning_at_def huff_from_def\<close>)
    ultimately show ?thesis using c257 by (simp add: step_match_len_def c_def [symmetric] rd)
  qed
qed

lemma step_len25_sim:
  assumes sim: "sim F e v out x" and inv: "inv e v" and pc: "pc v = St 25"
  shows "step_sim F e v out x (step_len25 e v)"
  unfolding step_len25_def
proof (rule sim_get_bits [OF sim pc _ invD(4) [OF inv]])
  show "meaning v (strm F e v) out = Option.bind (read_num (num_extra v) (strm F e v)) (\<lambda>(b, s). dist_from (dec v) (counter v + b) s out)"
    by (simp add: meaning_def pc meaning_at_def)
  fix b w
  assume w: "core e w out" "w = v\<lparr>bit_buf := drop_bit (num_extra v) (bit_buf v), num_bits := num_bits v - num_extra v\<rparr>"
    "dist_from (dec v) (counter v + b) (strm F e w) out = Some x"
  have "has_tabs (dec v)" using simD(2) [OF sim] pc by (simp add: side_def)
  then show "step_sim F e v out x (go (Huff 26) (w\<lparr>counter := counter w + b\<rparr>))"
    by (intro go_tabs) (use w in \<open>simp_all add: meaning_at_def huff_from_def\<close>)
next
  show "num_extra v \<le> 16" using inv pc by (simp add: inv_def place_defs)
qed (use invD(3) [OF inv] in simp_all)

lemma step_match_dist_sim:
  assumes sim: "sim F e v out x" and inv: "inv e v" and pc: "pc v = Match_dist"
  shows "step_sim F e v out x (step_match_dist e v)"
proof -
  have M: "dsym_from (dec v) (counter v) (dist v) (strm F e v) out = Some x"
    using simD(3) [OF sim] by (simp add: meaning_def pc meaning_at_def)
  have tabs: "has_tabs (dec v)" and core: "core e v out" using simD [OF sim] pc by (simp_all add: side_def)
  obtain d s' where d: "read_dist (dist v) (strm F e v) = Some (d, s')" "copy_from (dec v) (counter v) d s' out = Some x"
    using M by (auto simp: dsym_from_def bind_eq_Some_conv)
  then have d30: "dist v < 30" by (auto simp: read_dist_def split: if_splits)
  note t = dist_tables [OF d30]
  obtain y s2 where y: "read_num (dist_extra (dist v)) (strm F e v) = Some (y, s2)"
      "copy_from (dec v) (counter v) (dist_base (dist v) + y) s2 out = Some x"
    using d d30 by (auto simp: read_dist_def bind_eq_Some_conv)
  have rd: "nth_o s_dist_extra (dist v) = Some (dist_extra (dist v))" "nth_o s_dist_base (dist v) = Some (dist_base (dist v))"
    using t d30 length_tables(3,4) by (simp_all add: nth_o_def)
  have "step_sim F e v out x (go (St 27) (v\<lparr>num_extra := dist_extra (dist v), dist := dist_base (dist v)\<rparr>))"
    by (rule go_tabs) (use core tabs y in \<open>simp_all add: meaning_at_def\<close>)
  moreover have "step_sim F e v out x (go Match_copy (v\<lparr>num_extra := dist_extra (dist v), dist := dist_base (dist v)\<rparr>))"
    if "dist_extra (dist v) = 0"
    by (rule go_tabs) (use core tabs y that in \<open>simp_all add: meaning_at_def\<close>)
  ultimately show ?thesis by (simp add: step_match_dist_def rd)
qed

lemma step_dist27_sim:
  assumes sim: "sim F e v out x" and inv: "inv e v" and pc: "pc v = St 27"
  shows "step_sim F e v out x (step_dist27 e v)"
  unfolding step_dist27_def
proof (rule sim_get_bits [OF sim pc _ invD(4) [OF inv]])
  show "meaning v (strm F e v) out = Option.bind (read_num (num_extra v) (strm F e v)) (\<lambda>(b, s). copy_from (dec v) (counter v) (dist v + b) s out)"
    by (simp add: meaning_def pc meaning_at_def)
  fix b w
  assume w: "core e w out" "w = v\<lparr>bit_buf := drop_bit (num_extra v) (bit_buf v), num_bits := num_bits v - num_extra v\<rparr>"
    "copy_from (dec v) (counter v) (dist v + b) (strm F e w) out = Some x"
  have "has_tabs (dec v)" using simD(2) [OF sim] pc by (simp add: side_def)
  then show "step_sim F e v out x (go Match_copy (w\<lparr>dist := dist w + b\<rparr>))"
    by (intro go_tabs) (use w in \<open>simp_all add: meaning_at_def\<close>)
next
  show "num_extra v \<le> 16" using inv pc by (simp add: inv_def place_defs)
qed (use invD(3) [OF inv] in simp_all)


section \<open>The fast path\<close>

lemma le_number_le32:
  assumes "i + 3 < length buf"
  shows "le_number (take 4 (drop i buf)) = le32 buf i"
proof -
  have "drop i buf = buf ! i # buf ! (i + 1) # buf ! (i + 2) # buf ! (i + 3) # drop (i + 4) buf"
    using assms Cons_nth_drop_Suc [of i buf] Cons_nth_drop_Suc [of "i + 1" buf] Cons_nth_drop_Suc [of "i + 2" buf]
      Cons_nth_drop_Suc [of "i + 3" buf] by (simp add: eval_nat_numeral)
  then show ?thesis by (simp add: le32_def le16_def numeral_3_eq_3)
qed

lemma fast_refill_sim:
  assumes core: "core e v out" and room: "in_cur v + 4 \<le> length (in_buf e)" and nb: "num_bits v < 64"
  obtains w where "fast_refill e v = Some w" "core e w out" "strm F e w = strm F e v" "30 \<le> num_bits w" "num_bits w < 64"
    "dec w = dec v" "out_cur w = out_cur v" "out_buf w = out_buf v"
proof (cases "num_bits v < 30")
  case True
  have "shift_in (le32 (in_buf e) (in_cur v)) (8 * 4) v = Some ((refilled e 4 v)\<lparr>in_cur := in_cur v\<rparr>)"
    by (rule shift_in_refilled) (use core room True le_number_le32 [of "in_cur v" "in_buf e"] in \<open>simp_all add: core_def\<close>)
  moreover have "rd32 (in_buf e) (in_cur v) = Some (le32 (in_buf e) (in_cur v))" by (rule rd32_eq) (use room in simp)
  moreover have "(refilled e 4 v)\<lparr>in_cur := in_cur v + 4\<rparr> = refilled e 4 v" by (simp add: refilled_def)
  ultimately have "fast_refill e v = Some (refilled e 4 v)" using True by (simp add: fast_refill_def)
  then show ?thesis
    using that [of "refilled e 4 v"] core_refilled [OF core room] strm_refilled [OF room] True by simp
next
  case False
  then show ?thesis using that [of v] core nb by (simp add: fast_refill_def)
qed

lemma entry_value:
  assumes "sy < 512"
  shows "nat (entry l sy) mod 512 = sy" "word_of_nat (nat (entry l sy)) = (word_of_nat sy :: u8)"
proof -
  have e: "nat (entry l sy) = (if l \<le> 10 then 512 * l + sy else sy)"
    unfolding entry_def by (cases "l \<le> 10") (simp_all only: if_True if_False nat_int)
  show "nat (entry l sy) mod 512 = sy" using assms by (simp add: e)
  have "(512 :: u8) = 0" by simp
  then show "word_of_nat (nat (entry l sy)) = (word_of_nat sy :: u8)" by (simp only: e of_nat_add of_nat_mult of_nat_numeral split: if_splits) simp
qed

lemma step_fast_sim:
  assumes sim: "sim F e v out x" and inv: "inv e v" and pc: "pc v = Syms"
    and room: "in_cur v + 4 \<le> length (in_buf e)" "out_cur v + 2 \<le> out_end e"
  shows "step_sim F e v out x (step_fast e v)"
proof -
  define r where "r = dec v"
  have tabs: "has_tabs r" and M: "syms_from r (strm F e v) out = Some x"
    using simD(2,3) [OF sim] pc by (simp_all add: side_def meaning_def meaning_at_def r_def)
  then have tab: "has_table r 0 (lits r)" by (simp add: has_tabs_def)
  have tr: "tree_of r 0 = Some (m_tree_0 r)" by (simp add: tree_of_def)
  have lk: "nth_o (m_look_up r) 0 = Some (m_look_up r ! 0)" using invD(2) [OF inv] by (simp add: decomp_shape_def nth_o_def r_def)
  have bound: "sy < 512" if "sy < length (lits r)" for sy using tab that by (simp add: has_table_def)
  obtain w where w: "fast_refill e v = Some w" "core e w out" "strm F e w = strm F e v" "30 \<le> num_bits w" "num_bits w < 64"
      "dec w = r" "out_cur w = out_cur v" "out_buf w = out_buf v"
    using fast_refill_sim [OF simD(1) [OF sim] room(1) invD(3) [OF inv]] by (metis r_def)
  obtain sy s1 where sy: "read_sym (lits r) (strm F e w) = Some (sy, s1)" "sym_from r sy s1 out = Some x"
    using M by (auto simp: syms_unfold bind_eq_Some_conv w(3))
  have "15 \<le> num_bits w \<or> fill_test (m_look_up r ! 0) (m_tree_0 r) (bit_buf w) (num_bits w) = Some True" using w(4) by simp
  from decode_strm [OF w(2) tab tr sy(1) this] obtain l where
    l: "huff_lookup (m_look_up r ! 0) (m_tree_0 r) (bit_buf w) = Some (entry l sy, l)" "0 < l" "l \<le> num_bits w" "l \<le> 15" "sy < length (lits r)"
      "s1 = strm F e (w\<lparr>bit_buf := drop_bit l (bit_buf w), num_bits := num_bits w - l\<rparr>)"
      "core e (w\<lparr>bit_buf := drop_bit l (bit_buf w), num_bits := num_bits w - l\<rparr>) out" by metis
  define w1 where "w1 = w\<lparr>counter := nat (entry l sy), bit_buf := drop_bit l (bit_buf w), num_bits := num_bits w - l\<rparr>"
  have d1: "drop_bits l (w\<lparr>counter := nat (entry l sy)\<rparr>) = Some w1"
    by (subst drop_bits_ok) (use l(3) w(5) in \<open>simp_all add: w1_def\<close>)
  have f1: "dec w1 = r" "out_cur w1 = out_cur v" "out_buf w1 = out_buf v" "15 \<le> num_bits w1" "num_bits w1 < 64" "counter w1 = nat (entry l sy)"
    using w l(4) by (simp_all add: w1_def)
  have core1: "core e w1 out" using l(7) by (simp add: w1_def core_def back_ok_def out_rel_def)
  have s1: "s1 = strm F e w1" using l(6) by (simp add: w1_def strm_def)
  note ev = entry_value [OF bound [OF l(5)], of l]
  have m1: "step_sim F e v out x (go Match_len w1)"
    by (rule go_tabs) (use core1 tabs sy(2) ev(1) in \<open>simp_all add: f1 meaning_at_def sub_mod_512 s1\<close>)
  show ?thesis
  proof (cases "counter w1 AND 256 = 0")
    case False
    then have "step_fast e v = go Match_len w1"
      using l(2) by (simp only: step_fast_def w(1,6) lk l(1) Option.bind.bind_lunit prod.case d1) simp
    then show ?thesis using m1 by simp
  next
    case True
    then have lit: "sy < 256" using bit_256 [of "counter w1"] ev(1) by (simp add: f1)
    define out1 where "out1 = out @ [word_of_nat sy]"
    have "syms_from r (strm F e w1) out1 = Some x" using sy(2) lit by (simp add: sym_from_def s1 out1_def)
    then obtain sy2 s2 where sy2: "read_sym (lits r) (strm F e w1) = Some (sy2, s2)" "sym_from r sy2 s2 out1 = Some x"
      by (auto simp: syms_unfold bind_eq_Some_conv)
    have "15 \<le> num_bits w1 \<or> fill_test (m_look_up r ! 0) (m_tree_0 r) (bit_buf w1) (num_bits w1) = Some True" using f1(4) by simp
    from decode_strm [OF core1 tab tr sy2(1) this] obtain k where
      k: "huff_lookup (m_look_up r ! 0) (m_tree_0 r) (bit_buf w1) = Some (entry k sy2, k)" "0 < k" "k \<le> num_bits w1" "sy2 < length (lits r)"
        "s2 = strm F e (w1\<lparr>bit_buf := drop_bit k (bit_buf w1), num_bits := num_bits w1 - k\<rparr>)"
        "core e (w1\<lparr>bit_buf := drop_bit k (bit_buf w1), num_bits := num_bits w1 - k\<rparr>) out" by metis
    define w2 where "w2 = w1\<lparr>bit_buf := drop_bit k (bit_buf w1), num_bits := num_bits w1 - k\<rparr>"
    have d2: "drop_bits k w1 = Some w2" by (subst drop_bits_ok) (use k(3) f1(5) in \<open>simp_all add: w2_def\<close>)
    have f2: "dec w2 = r" "out_cur w2 = out_cur v" "out_buf w2 = out_buf v" "counter w2 = nat (entry l sy)" using f1 by (simp_all add: w2_def)
    note ev2 = entry_value [OF bound [OF k(4)], of k]
    define o1 where "o1 = (out_buf v)[out_cur v := word_of_nat sy]"
    define w3 where "w3 = w2\<lparr>out_buf := o1, out_cur := out_cur v + 1\<rparr>"
    define o2 where "o2 = o1[out_cur v + 1 := word_of_nat sy2]"
    define w4 where "w4 = w3\<lparr>out_buf := o2, out_cur := out_cur v + 2\<rparr>"
    have room2: "out_cur v + 2 \<le> length (out_buf v)" using room(2) invD(7) [OF inv] by simp
    have wr: "upd_o (out_buf w2) (out_cur w2) (word_of_nat (counter w2)) = Some o1"
        "upd_o o1 (out_cur w2 + 1) (word_of_nat (nat (entry k sy2))) = Some o2"
      using room2 by (simp_all add: upd_o_def f2 o1_def o2_def ev(2) ev2(2))
    have core3: "core e w3 out1"
      using core_push [OF k(6) [folded w2_def], of "word_of_nat sy"] room(2) invD(7) [OF inv] by (simp add: f2 w3_def o1_def out1_def)
    have core4: "core e w4 (out1 @ [word_of_nat sy2])"
      using core_push [OF core3, of "word_of_nat sy2"] room(2) invD(7) [OF inv] by (simp add: w3_def w4_def o1_def o2_def)
    have s2: "strm F e w3 = s2" "strm F e w4 = s2" using k(5) by (simp_all add: w3_def w4_def w2_def)
    have f3: "dec w3 = r" "dec w4 = r" "out_cur w3 = out_cur v + 1" "out_cur w4 = out_cur v + 2"
      using f2 by (simp_all add: w3_def w4_def)
    have "step_fast e v = (if nat (entry k sy2) AND 256 \<noteq> 0
        then go Match_len (w3\<lparr>counter := nat (entry k sy2)\<rparr>) else go Syms w4)"
      using True l(2) k(2)
      by (simp only: step_fast_def w(1,6) lk l(1) Option.bind.bind_lunit prod.case d1 k(1) d2 wr f1(1))
        (simp add: w3_def w4_def f2(2))
    moreover have "step_sim F e v out x (go Match_len (w3\<lparr>counter := nat (entry k sy2)\<rparr>))"
      by (rule sim_go_out [of _ _ _ "[word_of_nat sy]"])
        (use core3 tabs sy2(2) ev2(1) in \<open>simp_all add: side_def meaning_at_def f3 sub_mod_512 s2 out1_def\<close>)
    moreover have "step_sim F e v out x (go Syms w4)" if "nat (entry k sy2) AND 256 = 0"
    proof (rule sim_go_out [of _ _ _ "[word_of_nat sy, word_of_nat sy2]"])
      have "sy2 < 256" using that bit_256 [of "nat (entry k sy2)"] ev2(1) by simp
      then show "meaning (w4\<lparr>pc := Syms\<rparr>) (strm F e w4) (out @ [word_of_nat sy, word_of_nat sy2]) = Some x"
        using sy2(2) by (simp add: meaning_at_def f3 s2 sym_from_def out1_def)
    qed (use core4 tabs in \<open>simp_all add: side_def f3 out1_def\<close>)
    ultimately show ?thesis by auto
  qed
qed

lemma step_syms_sim:
  assumes sim: "sim F e v out x" and inv: "inv e v" and pc: "pc v = Syms"
  shows "step_sim F e v out x (step_syms e v)"
proof (cases "length (in_buf e) < in_cur v + 4 \<or> out_end e < out_cur v + 2")
  case True
  have "step_sim F e v out x (go (Huff 23) v)"
    by (rule go_tabs) (use simD [OF sim] pc in \<open>simp_all add: side_def meaning_def meaning_at_def huff_from_def\<close>)
  then show ?thesis using True by (simp add: step_syms_def)
next
  case False
  then have "step_sim F e v out x (step_fast e v)" by (intro step_fast_sim [OF sim inv pc]) linarith+
  then show ?thesis using False by (simp add: step_syms_def)
qed


section \<open>Copying a match\<close>

text \<open>Three bytes per turn or one: the order of reads and writes is the same.\<close>

fun copy_bytes :: "bytes \<Rightarrow> nat \<Rightarrow> nat \<Rightarrow> nat \<Rightarrow> bytes option" where
  "copy_bytes buf dst src 0 = Some buf"
| "copy_bytes buf dst src (Suc n) = do {
     a \<leftarrow> nth_o buf src; buf \<leftarrow> upd_o buf dst a;
     copy_bytes buf (dst + 1) (src + 1) n
   }"

lemma copy_match_bytes: "copy_match buf dst src n = copy_bytes buf dst src n"
  by (induction buf dst src n rule: copy_match.induct) (auto simp: numeral_2_eq_2 numeral_3_eq_3 intro!: Option.bind_cong)

text \<open>Where a match begins in the buffer.\<close>

lemma ring_facts:
  assumes "core e v out"
  obtains w where "w \<le> 64" "ring e = 2 ^ w" "32768 \<le> ring e" "out_end e \<le> ring e" "out_cur v mod ring e = length out mod ring e"
  using assms by (auto simp: core_def out_rel_def)

lemma source_at:
  assumes core: "core e v out" and D: "D mod ring e = length out mod ring e" and d: "d \<le> length out"
  shows "sub64 D d AND out_mask e = (length out - d) mod ring e"
proof -
  obtain w where w: "w \<le> 64" "ring e = 2 ^ w" using ring_facts [OF core] by blast
  have "out_mask e = mask w" using w(2) by (simp add: ring_def mask_eq_exp_minus_1)
  then have and_mod: "x AND out_mask e = x mod ring e" for x by (simp add: w(2) take_bit_eq_mod flip: take_bit_eq_mask)
  have "ring e dvd 2 ^ 64" unfolding w(2) by (rule le_imp_power_dvd [OF w(1)])
  then have dvd: "int (ring e) dvd 2 ^ 64" by (metis of_nat_dvd_iff of_nat_numeral of_nat_power)
  have "int (sub64 D d mod ring e) = (int D - int d) mod 2 ^ 64 mod int (ring e)" by (simp add: of_nat_mod int_sub64)
  also have "\<dots> = (int D - int d) mod int (ring e)" by (rule mod_mod_cancel [OF dvd])
  also have "\<dots> = (int (length out) - int d) mod int (ring e)"
    by (rule mod_diff_cong) (use D in \<open>simp_all flip: of_nat_mod\<close>)
  also have "\<dots> = int ((length out - d) mod ring e)" using d by (simp add: of_nat_mod of_nat_diff)
  finally show ?thesis by (simp add: and_mod)
qed

lemma source_byte:
  assumes core: "core e v out" and d: "0 < d" "d \<le> 32768" "d \<le> length out"
  shows "out_buf v ! ((length out - d) mod ring e) = out ! (length out - d)"
proof -
  have "\<forall>j < length out. length out \<le> j + ring e \<longrightarrow> out_buf v ! (j mod ring e) = out ! j" "32768 \<le> ring e"
    using core by (auto simp: core_def out_rel_def)
  then show ?thesis using d by simp
qed

lemma copy_bytes_sim:
  assumes "core e v out" "0 < d" "d \<le> 32768" "d \<le> length out" "n = 0 \<or> src = (length out - d) mod ring e"
    and "out_cur v + n \<le> out_end e" "src + n \<le> out_end e" "out_end e \<le> length (out_buf v)"
  shows "\<exists>ob. copy_bytes (out_buf v) (out_cur v) src n = Some ob \<and>
    core e (v\<lparr>out_buf := ob, out_cur := out_cur v + n\<rparr>) (copy_out n d out)"
  using assms
proof (induction n arbitrary: v out src)
  case (Suc n)
  define a where "a = out ! (length out - d)"
  have src: "src = (length out - d) mod ring e" using Suc.prems(5) by simp
  have a: "out_buf v ! src = a" unfolding src a_def by (rule source_byte [OF Suc.prems(1-4)])
  define w where "w = v\<lparr>out_buf := (out_buf v)[out_cur v := a], out_cur := out_cur v + 1\<rparr>"
  have core: "core e w (out @ [a])" unfolding w_def by (rule core_push [OF Suc.prems(1)]) (use Suc.prems(6,8) in simp_all)
  have fits: "out_end e \<le> ring e" using ring_facts [OF Suc.prems(1)] by blast
  have "\<exists>ob. copy_bytes (out_buf w) (out_cur w) (src + 1) n = Some ob \<and>
    core e (w\<lparr>out_buf := ob, out_cur := out_cur w + n\<rparr>) (copy_out n d (out @ [a]))"
  proof (rule Suc.IH [OF core])
    show "n = 0 \<or> src + 1 = (length (out @ [a]) - d) mod ring e"
    proof (cases "n = 0")
      case False
      then have "src + 1 < ring e" using Suc.prems(7) fits by simp
      then have "Suc (length out - d) mod ring e = src + 1" using mod_Suc [of "length out - d" "ring e"] src by simp
      then show ?thesis using Suc.prems(4) by (simp add: Suc_diff_le)
    qed simp
  qed (use Suc.prems in \<open>simp_all add: w_def\<close>)
  moreover have "nth_o (out_buf v) src = Some a" "upd_o (out_buf v) (out_cur v) a = Some (out_buf w)"
    using Suc.prems(6-8) a by (simp_all add: nth_o_def upd_o_def w_def)
  ultimately show ?case by (auto simp: w_def a_def)
qed simp

lemma copy_out_append: "\<exists>new. copy_out n d out = out @ new \<and> length new = n"
proof (induction n arbitrary: out)
  case (Suc n)
  obtain new where "copy_out n d (out @ [out ! (length out - d)]) = (out @ [out ! (length out - d)]) @ new" "length new = n"
    using Suc.IH by blast
  then show ?case by simp
qed simp

lemma step_match_copy_sim:
  assumes sim: "sim F e v out x" and inv: "inv e v" and pc: "pc v = Match_copy"
  shows "step_sim F e v out x (step_match_copy e v)"
proof -
  define d n where "d = dist v" and "n = counter v"
  have core: "core e v out" and tabs: "has_tabs (dec v)" using simD [OF sim] pc by (simp_all add: side_def)
  have M: "copy_from (dec v) n d (strm F e v) out = Some x"
    using simD(3) [OF sim] by (simp add: meaning_def pc meaning_at_def d_def n_def)
  then have d: "0 < d" "d \<le> 32768" "d \<le> length out" "syms_from (dec v) (strm F e v) (copy_out n d out) = Some x"
    by (simp_all add: copy_from_def split: if_splits)
  define src where "src = sub64 (out_cur v) d AND out_mask e"
  have cur: "out_cur v mod ring e = length out mod ring e" using ring_facts [OF core] by blast
  have src: "src = (length out - d) mod ring e" unfolding src_def by (rule source_at [OF core cur d(3)])
  have good: "\<not> ((d = 0 \<or> out_cur v < d \<or> out_cur v = 0) \<and> has_flag e TINFL_FLAG_USING_NON_WRAPPING_OUTPUT_BUF)"
    using core d by (auto simp: core_def out_rel_def)
  define w where "w = v\<lparr>dist_from_out_buf_start := out_cur v\<rparr>"
  have step: "step_match_copy e v = (if out_end e < max (out_cur v) src + n then go Slow_copy w
      else do {
        o' \<leftarrow> copy_match (out_buf v) (out_cur v) src n;
        go Syms (w\<lparr>out_buf := o', out_cur := out_cur v + n, counter := n mod 3\<rparr>)
      })"
    using good by (auto simp: step_match_copy_def Let_def src_def n_def w_def d_def)
  show ?thesis
  proof (cases "out_end e < max (out_cur v) src + n")
    case True
    have "step_sim F e v out x (go Slow_copy w)"
      by (rule sim_go) (use core tabs M cur in \<open>simp_all add: side_def meaning_at_def w_def n_def d_def\<close>)
    then show ?thesis using True by (simp add: step)
  next
    case False
    then have fits: "out_cur v + n \<le> out_end e" "src + n \<le> out_end e" by auto
    obtain ob where ob: "copy_bytes (out_buf v) (out_cur v) src n = Some ob"
        "core e (v\<lparr>out_buf := ob, out_cur := out_cur v + n\<rparr>) (copy_out n d out)"
      using copy_bytes_sim [OF core d(1-3) disjI2 [OF src] fits invD(7) [OF inv]] by blast
    obtain new where new: "copy_out n d out = out @ new" "length new = n" using copy_out_append by blast
    define w' where "w' = w\<lparr>out_buf := ob, out_cur := out_cur v + n, counter := n mod 3\<rparr>"
    have "core e w' (out @ new)" using ob(2) by (simp add: w'_def w_def core_def back_ok_def out_rel_def new(1))
    moreover have "strm F e w' = strm F e v" "dec w' = dec v" by (simp_all add: w'_def w_def)
    ultimately have "step_sim F e v out x (go Syms w')"
      using tabs d(4) new by (intro sim_go_out [of _ _ _ new]) (simp_all add: side_def meaning_at_def, simp add: w'_def)
    then show ?thesis using False ob(1) by (simp add: step copy_match_bytes w'_def)
  qed
qed

lemma step_slow_copy_sim:
  assumes sim: "sim F e v out x" and pc: "pc v = Slow_copy"
  shows "step_sim F e v out x (step_slow_copy e v)"
proof -
  have core: "core e v out" and tabs: "has_tabs (dec v)" and D: "dist_from_out_buf_start v mod ring e = length out mod ring e"
    using simD [OF sim] pc by (simp_all add: side_def)
  have M: "copy_from (dec v) (counter v) (dist v) (strm F e v) out = Some x"
    using simD(3) [OF sim] by (simp add: meaning_def pc meaning_at_def)
  show ?thesis
  proof (cases "counter v = 0")
    case True
    have "step_sim F e v out x (go Syms (v\<lparr>counter := sub32 (counter v) 1\<rparr>))"
      by (rule go_tabs) (use core tabs M True in \<open>simp_all add: meaning_at_def copy_from_def split: if_splits\<close>)
    then show ?thesis using True by (simp add: step_slow_copy_def)
  next
    case False
    have "counter v \<le> 258" using M by (simp add: copy_from_def split: if_splits)
    then have c: "sub32 (counter v) 1 = counter v - 1" using False by (intro sub32_le) simp_all
    have "step_sim F e v out x (go (St 53) (v\<lparr>counter := counter v - 1\<rparr>))"
      by (rule sim_go) (use core tabs M D False in \<open>simp_all add: side_def meaning_at_def\<close>)
    then show ?thesis using False c by (simp add: step_slow_copy_def)
  qed
qed

lemma step_slow53_sim:
  assumes sim: "sim F e v out x" and inv: "inv e v" and env: "env_ok e" and pc: "pc v = St 53"
  shows "step_sim F e v out x (step_slow53 e v)"
proof -
  define d n where "d = dist v" and "n = counter v"
  have core: "core e v out" and tabs: "has_tabs (dec v)" and D: "dist_from_out_buf_start v mod ring e = length out mod ring e"
    using simD [OF sim] pc by (simp_all add: side_def)
  have M: "copy_from (dec v) (n + 1) d (strm F e v) out = Some x"
    using simD(3) [OF sim] by (simp add: meaning_def pc meaning_at_def n_def d_def)
  then have d: "n + 1 \<le> 258" "0 < d" "d \<le> 32768" "d \<le> length out" "syms_from (dec v) (strm F e v) (copy_out (n + 1) d out) = Some x"
    by (simp_all add: copy_from_def split: if_splits)
  show ?thesis
  proof (cases "out_end e \<le> out_cur v")
    case True
    obtain s' out' where "read_syms (lits (dec v)) (dists (dec v)) (strm F e v) (copy_out (n + 1) d out) = Some (s', out')"
        "length out' \<le> length (snd x)"
      using d(5) unfolding syms_from_def by (rule after_block_grows)
    then have "length out < length (snd x)" using length_read_syms by fastforce
    then show ?thesis using True sim_return [OF sim pc] invD(6) [OF inv] by (simp add: step_slow53_def)
  next
    case False
    define i where "i = sub64 (dist_from_out_buf_start v) d AND out_mask e"
    have "slow_ok e v" using inv pc by (simp add: inv_def place_defs)
    then have i: "i < length (out_buf v)" unfolding i_def d_def by (intro slow_source [OF env inv]) (use False in simp_all)
    have src: "i = (length out - d) mod ring e" unfolding i_def by (rule source_at [OF core D d(4)])
    define a where "a = out ! (length out - d)"
    have a: "out_buf v ! i = a" unfolding src a_def by (rule source_byte [OF core d(2-4)])
    define w where "w = v\<lparr>out_buf := (out_buf v)[out_cur v := a], out_cur := out_cur v + 1,
      dist_from_out_buf_start := u64 (dist_from_out_buf_start v + 1)\<rparr>"
    have "core e (v\<lparr>out_buf := (out_buf v)[out_cur v := a], out_cur := out_cur v + 1\<rparr>) (out @ [a])"
      by (rule core_push [OF core]) (use False invD(7) [OF inv] in simp_all)
    then have cw: "core e w (out @ [a])" by (simp add: w_def)
    obtain k where k: "k \<le> 64" "ring e = 2 ^ k" using ring_facts [OF core] by blast
    have "ring e dvd 2 ^ 64" unfolding k(2) by (rule le_imp_power_dvd [OF k(1)])
    then have "u64 (dist_from_out_buf_start v + 1) mod ring e = (dist_from_out_buf_start v + 1) mod ring e"
      unfolding u64_def by (rule mod_mod_cancel)
    also have "\<dots> = (length out + 1) mod ring e" using D by (rule mod_add_cong) simp
    finally have D': "dist_from_out_buf_start w mod ring e = length (out @ [a]) mod ring e" by (simp add: w_def)
    have M': "copy_from (dec v) n d (strm F e v) (out @ [a]) = Some x" using d by (simp add: copy_from_def a_def)
    have "step_sim F e v out x (go Slow_copy w)"
      by (rule sim_go_out [of _ _ _ "[a]"])
        (use cw tabs D' M' in \<open>simp_all add: side_def meaning_at_def, simp_all add: w_def n_def d_def\<close>)
    moreover have "upd_o (out_buf v) (out_cur v) a = Some ((out_buf v)[out_cur v := a])"
      using False invD(7) [OF inv] by (simp add: upd_o_def)
    ultimately show ?thesis
      using False i a by (simp add: step_slow53_def d_def [symmetric] i_def [symmetric] nth_o_def w_def)
  qed
qed

end
