(* ===== verification/InflateCorrect.thy ===== *)
theory InflateCorrect
  imports InflateMatch
begin

unbundle bit_operations_syntax

text \<open>
  \<^verbatim>\<open>tinfl_decompress\<close> decompresses: what the format makes of an input is what the calls deliver.
\<close>

section \<open>Every step\<close>

lemma step_label_sim:
  assumes sim: "sim F e v out x" and inv: "inv e v" and env: "env_ok e" and plain: "\<not> has_flag e TINFL_FLAG_PARSE_ZLIB_HEADER"
    and pc: "pc v = St k"
  shows "step_sim F e v out x (step_label e k v)"
proof -
  have "meaning v (strm F e v) out \<noteq> None" using simD(3) [OF sim] by simp
  then have k: "k \<in> {3, 5, 6, 7, 9, 38, 51, 52, 11, 14, 16, 23, 26, 18, 24, 25, 27, 53, 32, 34}"
    by (auto simp: meaning_def pc meaning_at_def split: if_splits)
  note steps = step_block_sim step_skip5_sim step_raw6_sim step_raw7_sim step_out9_sim step_in38_sim step_raw51_sim step_raw52_sim
    step_sizes_sim step_clen14_sim step_repeat18_sim step_lit24_sim step_len25_sim step_dist27_sim
  have "step_sim F e v out x (step_fill_byte e k v)" if "k = 16 \<or> k = 23 \<or> k = 26"
    by (rule step_fill_byte_sim [OF sim inv pc that])
  moreover have "step_sim F e v out x (cr_return 34 TINFL_STATUS_DONE v)" if "k = 34"
    using sim_return [OF sim, of 34] pc that by simp
  ultimately show ?thesis
    using steps [OF sim inv] step_slow53_sim [OF sim inv env] step_tail_sim [OF sim inv _ plain] pc k unfolding insert_iff empty_iff
    by (elim disjE) (simp_all add: step_label_def)
qed

lemma tinfl_step_sim:
  assumes sim: "sim F e v out x" and inv: "inv e v" and env: "env_ok e" and plain: "\<not> has_flag e TINFL_FLAG_PARSE_ZLIB_HEADER"
  shows "step_sim F e v out x (tinfl_step e v)"
proof -
  have "pc v \<noteq> Adler_bytes" using simD(3) [OF sim] by (auto simp: meaning_def meaning_at_def)
  then show ?thesis
    using step_label_sim [OF assms] step_raw_header_sim [OF sim inv] step_raw_bits_sim [OF sim] step_raw_copy_sim [OF sim]
      step_code_sizes_sim [OF sim inv] step_tables_sim [OF sim inv] step_lens_sim [OF sim inv] step_huff_sim [OF sim inv]
      step_fill_sim [OF sim inv] step_decode_sim [OF sim inv] step_syms_sim [OF sim inv] step_match_len_sim [OF sim inv]
      step_match_dist_sim [OF sim inv] step_match_copy_sim [OF sim inv] step_slow_copy_sim [OF sim] step_block_end_sim [OF sim]
    by (cases "pc v") (simp_all add: tinfl_step_def)
qed

section \<open>The run\<close>

lemma progress_bits: "(w, v) \<in> progress e \<Longrightarrow> bits_left e w \<le> bits_left e v"
  by (auto simp: progress_def)

lemma tinfl_run_sim:
  assumes env: "env_ok e" and plain: "\<not> has_flag e TINFL_FLAG_PARSE_ZLIB_HEADER"
  shows "inv e v \<Longrightarrow> sim F e v out x \<Longrightarrow>
    \<exists>s w new. tinfl_run e v = Some (s, w) \<and> halted F e (out @ new) x s w \<and> out_cur w = out_cur v + length new \<and>
      bits_left e w \<le> bits_left e v"
proof (induction v arbitrary: out rule: wf_induct_rule [OF wf_progress [of e]])
  case (1 v)
  have "step_ok e v (tinfl_step e v)" by (rule tinfl_step_ok [OF env "1.prems"(1)])
  then obtain n where n: "tinfl_step e v = Some n" "next_ok e v n" by (auto simp: step_ok_def split: option.splits)
  have ss: "step_sim F e v out x (Some n)" using tinfl_step_sim [OF "1.prems"(2,1) env plain] by (simp add: n(1))
  show ?case
  proof (cases n)
    case (Halt s w)
    then have "halted F e (out @ []) x s w" "out_cur w = out_cur v" "bits_left e w = bits_left e v" using ss by (simp_all add: step_sim_def)
    moreover have "tinfl_run e v = Some (s, w)" using n(1) Halt by (subst tinfl_run.simps) simp
    ultimately show ?thesis by (intro exI [of _ s] exI [of _ w] exI [of _ "[]"]) simp
  next
    case (Go w)
    then have w: "inv e w" "(w, v) \<in> progress e" using n(2) by (simp_all add: next_ok_def)
    obtain new where new: "sim F e w (out @ new) x" "out_cur w = out_cur v + length new" using ss Go by (auto simp: step_sim_def)
    from "1.IH" [OF w(2,1) new(1)] obtain s z new' where z: "tinfl_run e w = Some (s, z)" "halted F e ((out @ new) @ new') x s z"
      "out_cur z = out_cur w + length new'" "bits_left e z \<le> bits_left e w" by blast
    have "tinfl_run e v = Some (s, z)" using n(1) Go z(1) by (subst tinfl_run.simps) simp
    then show ?thesis
      using z new(2) progress_bits [OF w(2)] by (intro exI [of _ s] exI [of _ z] exI [of _ "new @ new'"]) simp
  qed
qed


section \<open>Between the calls\<close>

text \<open>The fields the rest of the decompression depends on.\<close>

definition same_codes :: "tinfl_decompressor \<Rightarrow> tinfl_decompressor \<Rightarrow> bool" where
  "same_codes r r' \<longleftrightarrow> m_final r = m_final r' \<and> m_type r = m_type r' \<and> m_table_sizes r = m_table_sizes r' \<and>
     m_look_up r = m_look_up r' \<and> m_tree_0 r = m_tree_0 r' \<and> m_tree_1 r = m_tree_1 r' \<and> m_tree_2 r = m_tree_2 r' \<and>
     m_code_size_0 r = m_code_size_0 r' \<and> m_code_size_1 r = m_code_size_1 r' \<and> m_code_size_2 r = m_code_size_2 r' \<and>
     m_raw_header r = m_raw_header r' \<and> m_len_codes r = m_len_codes r'"

lemma same_codes_upd:
  assumes "same_codes r r'"
  shows "same_codes (r\<lparr>m_code_size_2 := c\<rparr>) (r'\<lparr>m_code_size_2 := c\<rparr>)"
    "same_codes (r\<lparr>m_table_sizes := t, m_code_size_2 := c\<rparr>) (r'\<lparr>m_table_sizes := t, m_code_size_2 := c\<rparr>)"
  using assms by (simp_all add: same_codes_def)

lemma same_lits: "same_codes r r' \<Longrightarrow> lits r = lits r' \<and> dists r = dists r'"
  by (simp add: same_codes_def lits_def dists_def)

lemma same_blocks:
  assumes "same_codes r r'"
  shows "after_block r = after_block r'" "syms_from r = syms_from r'" "lens_from r = lens_from r'"
proof -
  have f: "m_final r = m_final r'" "m_code_size_2 r = m_code_size_2 r'" "m_table_sizes r = m_table_sizes r'"
    using assms by (simp_all add: same_codes_def)
  show "after_block r = after_block r'" by (rule after_block_cong [OF f(1)])
  show "syms_from r = syms_from r'" by (rule syms_cong) (use f same_lits [OF assms] in simp_all)
  show "lens_from r = lens_from r'" by (rule lens_cong) (use f in simp_all)
qed

lemma same_codes_from: "same_codes r r' \<Longrightarrow> codes_from r = codes_from r'"
  using same_blocks(3) [of r r'] by (intro ext) (simp add: codes_from_def same_codes_def)

lemma same_clens_from: "same_codes r r' \<Longrightarrow> clens_from r = clens_from r'"
  using same_codes_from [OF same_codes_upd(1), of r r'] by (intro ext) (simp add: clens_from_def, simp add: same_codes_def)

lemma same_sizes_from:
  assumes "same_codes r r'"
  shows "sizes_from r = sizes_from r'"
proof -
  have "clens_from (r\<lparr>m_table_sizes := t, m_code_size_2 := c\<rparr>) = clens_from (r'\<lparr>m_table_sizes := t, m_code_size_2 := c\<rparr>)" for t c
    by (rule same_clens_from [OF same_codes_upd(2) [OF assms]])
  then show ?thesis using assms by (intro ext) (simp add: sizes_from_def same_codes_def cong: if_cong)
qed

lemma same_copy:
  assumes "same_codes r r'"
  shows "copy_from r = copy_from r'" "dsym_from r = dsym_from r'" "dist_from r = dist_from r'" "sym_from r = sym_from r'"
proof -
  show c: "copy_from r = copy_from r'" using same_blocks [OF assms] by (intro ext) (simp add: copy_from_def)
  then show d: "dsym_from r = dsym_from r'" by (intro ext) (simp add: dsym_from_def)
  then show "dist_from r = dist_from r'" using same_lits [OF assms] by (intro ext) (simp add: dist_from_def)
  then show "sym_from r = sym_from r'" using same_blocks [OF assms] by (intro ext) (simp add: sym_from_def)
qed

lemma same_stored:
  assumes "same_codes r r'"
  shows "stored_from r = stored_from r'" "raw_from r = raw_from r'" "rep_from r = rep_from r'" "huff_from r = huff_from r'"
    "tables_from r = tables_from r'"
  using same_blocks [OF assms] same_copy [OF assms] same_lits [OF assms] same_codes_from [OF assms] assms
  by (intro ext; simp add: stored_from_def raw_from_def rep_from_def huff_from_def tables_from_def same_codes_def cong: if_cong)+

lemma same_meaning:
  assumes "same_codes r r'"
  shows "meaning_at l r = meaning_at l r'"
proof -
  have "m_len_codes r = m_len_codes r'" using assms by (simp add: same_codes_def)
  then show ?thesis
    using same_blocks [OF assms] same_copy [OF assms] same_stored [OF assms] same_clens_from [OF assms] same_sizes_from [OF assms]
    by (intro ext) (cases l; simp add: meaning_at_def cong: if_cong)
qed

lemma same_tables:
  assumes "same_codes r r'"
  shows "tree_of r = tree_of r'" "has_table r = has_table r'" "has_tabs r = has_tabs r'" "huff_tabs k r = huff_tabs k r'"
proof -
  show t: "tree_of r = tree_of r'" using assms by (simp add: same_codes_def tree_of_def fun_eq_iff)
  then show h: "has_table r = has_table r'" using assms by (simp add: same_codes_def has_table_def fun_eq_iff)
  then show "has_tabs r = has_tabs r'" using same_lits [OF assms] by (simp add: has_tabs_def)
  then show "huff_tabs k r = huff_tabs k r'" using h assms by (simp add: huff_tabs_def same_codes_def)
qed

lemma sim_same:
  assumes "same_codes (dec v) r'"
  shows "sim F e (v\<lparr>dec := r'\<rparr>) out x = sim F e v out x"
proof -
  have "side e (v\<lparr>dec := r'\<rparr>) out = side e v out"
    using same_tables [OF assms] same_lits [OF assms] assms
    by (cases "pc v") (simp_all add: side_def not_found_def header_ok_def same_codes_def Let_def)
  moreover have "meaning (v\<lparr>dec := r'\<rparr>) = meaning v" using same_meaning [OF assms] by (simp add: meaning_def)
  ultimately show ?thesis by (simp add: sim_def)
qed


section \<open>The calls\<close>

text \<open>
  Between the calls: \<open>rest\<close> is all the input to come, \<open>out\<close> all the output so far; \<open>buf\<close> is the output buffer, with the
  next byte at \<open>next\<close>, used as a ring of \<open>mk + 1\<close> bytes unless it takes all the output (\<open>flat\<close>). The rest of the
  decompression is \<open>x\<close>.
\<close>

definition idle :: "nat \<Rightarrow> bool \<Rightarrow> tinfl_env" where
  "idle mk flat = \<lparr>in_buf = [], out_next = 0, out_end = 0, out_mask = mk,
     decomp_flags = (if flat then TINFL_FLAG_USING_NON_WRAPPING_OUTPUT_BUF else 0)\<rparr>"

definition between ::
    "nat \<Rightarrow> bool \<Rightarrow> bytes \<Rightarrow> tinfl_decompressor \<Rightarrow> bytes \<Rightarrow> nat \<Rightarrow> bytes \<Rightarrow> stream \<times> bytes \<Rightarrow> bool" where
  "between mk flat rest r buf next out x \<longleftrightarrow>
     (let v = (saved_vars r next)\<lparr>out_buf := buf\<rparr>
      in out_rel (idle mk flat) v out \<and>
        (if m_state r = 0 then out = [] \<and> inflate_blocks (stream_of rest) [] = Some x
         else sim rest (idle mk flat) v out x))"

text \<open>The parameters of a call that match.\<close>

definition call_fits :: "nat \<Rightarrow> bool \<Rightarrow> tinfl_env \<Rightarrow> bool" where
  "call_fits mk flat e \<longleftrightarrow> out_mask e = mk \<and> (has_flag e TINFL_FLAG_USING_NON_WRAPPING_OUTPUT_BUF \<longleftrightarrow> flat) \<and>
     out_end e \<le> mk + 1 \<and> \<not> has_flag e TINFL_FLAG_PARSE_ZLIB_HEADER"

lemma idle_flag: "has_flag (idle mk flat) TINFL_FLAG_USING_NON_WRAPPING_OUTPUT_BUF \<longleftrightarrow> flat"
  by (simp add: has_flag_def idle_def)

lemma out_rel_call: "call_fits mk flat e \<Longrightarrow> out_rel (idle mk flat) v out \<Longrightarrow> out_rel e v out"
  using idle_flag by (simp add: call_fits_def out_rel_def ring_def idle_def)

lemma out_rel_idle: "call_fits mk flat e \<Longrightarrow> out_rel e v out \<Longrightarrow> out_rel (idle mk flat) v out"
  using idle_flag by (simp add: call_fits_def out_rel_def ring_def idle_def)

lemma side_call:
  assumes "out_mask e = out_mask e'"
  shows "side e v out = side e' v out"
  using assms by (cases "pc v") (simp_all add: side_def ring_def)

lemma strm_start: "in_cur v = 0 \<Longrightarrow> strm (in_buf e @ F) (idle mk flat) v = strm F e v"
  by (simp add: strm_def idle_def)

lemma back_start: "in_cur v = 0 \<Longrightarrow> bit_buf v < 2 ^ num_bits v \<Longrightarrow> back_ok e v"
  by (simp add: back_ok_def drop_bit_eq_div)

lemma call_starts:
  assumes btw: "between mk flat (in_buf e @ F) r buf next out x" and fits: "call_fits mk flat e" and env: "env_ok e"
    and v: "v = (saved_vars r next)\<lparr>out_buf := buf\<rparr>" and inv: "inv e (if m_state r = 0 then v\<lparr>num_bits := 0\<rparr> else v)"
  obtains w where "tinfl_run e v = tinfl_run e w" "inv e w" "sim F e w out x" "out_cur w = next"
    "m_state r = 0 \<Longrightarrow> bits_left e w = 8 * length (in_buf e)"
proof (cases "m_state r = 0")
  case False
  have "sim (in_buf e @ F) (idle mk flat) v out x" using btw False by (simp add: between_def v Let_def)
  moreover have "in_cur v = 0" by (simp add: v saved_vars_def)
  moreover have "side (idle mk flat) v out = side e v out" using fits by (intro side_call) (simp add: call_fits_def idle_def)
  ultimately have "sim F e v out x"
    using out_rel_call [OF fits] strm_start [of v e F mk flat] back_start by (simp add: sim_def core_def)
  then show ?thesis using that [of v] inv False by (simp add: v saved_vars_def)
next
  case True
  have o: "out_rel (idle mk flat) v out" and out: "out = []" "inflate_blocks (stream_of (in_buf e @ F)) [] = Some x"
    using btw True unfolding between_def v Let_def by auto
  have pc: "pc v = St 0" using True by (simp add: v saved_vars_def)
  define w where "w = v\<lparr>bit_buf := 0, num_bits := 0, dist := 0, counter := 0, num_extra := 0,
      dec := (dec v)\<lparr>m_zhdr0 := 0, m_zhdr1 := 0, m_z_adler32 := 1, m_check_adler32 := 1\<rparr>, pc := St 3\<rparr>"
  have "step_start e v = Some (Go w)" "step_start e (v\<lparr>num_bits := 0\<rparr>) = Some (Go w)"
    using fits by (simp_all add: step_start_def go_def call_fits_def w_def Let_def)
  then have step: "tinfl_step e v = Some (Go w)" "tinfl_step e (v\<lparr>num_bits := 0\<rparr>) = Some (Go w)"
    using pc by (simp_all add: tinfl_step_def step_label_def)
  have "step_ok e (v\<lparr>num_bits := 0\<rparr>) (tinfl_step e (v\<lparr>num_bits := 0\<rparr>))"
    by (rule tinfl_step_ok [OF env]) (use inv True in simp)
  then have "inv e w" unfolding step(2) by (simp add: step_ok_def next_ok_def)
  moreover have "tinfl_run e v = tinfl_run e w" using step(1) by (subst tinfl_run.simps) simp
  moreover have "sim F e w out x"
  proof -
    have "strm F e w = stream_of (in_buf e @ F)" by (simp add: strm_def w_def v saved_vars_def stream_of_def)
    moreover have "out_rel e w out" using out_rel_call [OF fits o] by (simp add: out_rel_def w_def)
    moreover have "back_ok e w" by (rule back_start) (simp_all add: w_def v saved_vars_def)
    ultimately show ?thesis using out by (simp add: sim_def core_def side_def meaning_def meaning_at_def w_def)
  qed
  moreover have "out_cur w = next" "bits_left e w = 8 * length (in_buf e)" by (simp_all add: w_def v saved_vars_def bits_left_def)
  ultimately show ?thesis using that by blast
qed

text \<open>The exit: what is saved is the state after the run, whole bytes of the bit buffer put back.\<close>

lemma masked_id: "bit_buf v < 2 ^ num_bits v \<Longrightarrow> masked v = v"
proof -
  assume "bit_buf v < 2 ^ num_bits v"
  then have "bit_buf v AND mask (num_bits v) = bit_buf v" by (simp add: take_bit_nat_eq_self flip: take_bit_eq_mask)
  then show ?thesis by (simp add: masked_def mask_eq_exp_minus_1)
qed

definition leaves :: "tinfl_status \<Rightarrow> tinfl_vars \<Rightarrow> tinfl_vars" where
  "leaves s v = masked (if s \<noteq> TINFL_STATUS_NEEDS_MORE_INPUT \<and> s \<noteq> TINFL_STATUS_FAILED_CANNOT_MAKE_PROGRESS
     then put_back v else v)"

lemma leaves_fields [simp]:
  "pc (leaves s v) = pc v" "dist (leaves s v) = dist v" "counter (leaves s v) = counter v" "num_extra (leaves s v) = num_extra v"
  "dist_from_out_buf_start (leaves s v) = dist_from_out_buf_start v" "out_cur (leaves s v) = out_cur v"
  "out_buf (leaves s v) = out_buf v" "dec (leaves s v) = dec v"
  "leaves s (v\<lparr>pc := l\<rparr>) = (leaves s v)\<lparr>pc := l\<rparr>"
  by (simp_all add: leaves_def masked_def put_back_def Let_def)

lemma leaves_bounds:
  assumes "in_cur v \<le> length (in_buf e)"
  shows "in_cur (leaves s v) \<le> in_cur v" "num_bits (leaves s v) \<le> num_bits v" "bits_left e (leaves s v) = bits_left e v"
  using put_back_facts [OF assms] by (simp_all add: leaves_def masked_def bits_left_def)

lemma sim_leaves:
  assumes halt: "halted F e out x s w" and len: "in_cur w \<le> length (in_buf e)"
  shows "sim F e ((leaves s w)\<lparr>pc := St (m_state (dec w))\<rparr>) out x"
proof -
  define v where "v = w\<lparr>pc := St (m_state (dec w))\<rparr>"
  have sim: "sim F e v out x" using halt by (simp add: halted_def v_def)
  have "bit_buf v < 2 ^ num_bits v" using simD(1) [OF sim] by (simp add: core_def)
  then have id: "masked v = v" by (rule masked_id)
  have "core e (leaves s v) out \<and> strm F e (leaves s v) = strm F e v"
    using put_back_sim [of e v out F] simD(1) [OF sim] len id by (simp add: leaves_def v_def)
  moreover have "side e (leaves s v) out"
  proof (cases "s = TINFL_STATUS_NEEDS_MORE_INPUT \<or> s = TINFL_STATUS_FAILED_CANNOT_MAKE_PROGRESS")
    case True
    then show ?thesis using simD(2) [OF sim] id by (auto simp: leaves_def)
  next
    case False
    then have "m_state (dec w) \<in> {34, 9, 24, 52, 53}" using halt by (auto simp: halted_def need_input_def split: if_splits)
    moreover have "num_bits (leaves s v) \<le> num_bits v" using leaves_bounds(2) [of v e s] len by (simp add: v_def)
    ultimately show ?thesis using simD(2) [OF sim] by (auto simp: side_def v_def Let_def)
  qed
  moreover have "meaning (leaves s v) = meaning v" by (simp add: meaning_def)
  ultimately have "sim F e (leaves s v) out x" using simD(3) [OF sim] by (simp add: sim_def)
  then show ?thesis by (simp add: v_def)
qed

lemma exit_saves:
  assumes len: "in_cur w \<le> length (in_buf e)" and bits: "num_bits w < 64"
  obtains y where "common_exit e s w = Some y" "in_cur y = in_cur (leaves s w)" "out_cur y = out_cur w" "out_buf y = out_buf w"
    "saved_vars (dec y) (out_cur w) = (leaves s w)\<lparr>pc := St (m_state (dec w)), in_cur := 0, out_buf := [], dec := dec y\<rparr>"
    "same_codes (dec w) (dec y)" "m_state (dec y) = m_state (dec w)"
proof -
  define u where "u = (if s \<noteq> TINFL_STATUS_NEEDS_MORE_INPUT \<and> s \<noteq> TINFL_STATUS_FAILED_CANNOT_MAKE_PROGRESS then put_back w else w)"
  have lv: "leaves s w = masked u" by (simp add: leaves_def u_def)
  then have nb: "num_bits u < 64" using leaves_bounds(2) [OF len, of s] bits by (simp add: masked_def)
  have u: "dist u = dist w" "counter u = counter w" "num_extra u = num_extra w" "out_cur u = out_cur w" "out_buf u = out_buf w"
      "dist_from_out_buf_start u = dist_from_out_buf_start w" "dec u = dec w"
    by (simp_all add: u_def put_back_def Let_def)
  define y where "y = u\<lparr>dec := saved_dec (num_bits u) (bit_buf u AND (2 ^ num_bits u - 1)) (dist w) (counter w) (num_extra w)
    (dist_from_out_buf_start w) (dec w)\<rparr>"
  show ?thesis
  proof (rule that)
    show "common_exit e s w = Some y"
      using nb by (simp add: common_exit_def u_def [symmetric] y_def saved_dec_def Let_def u)
    show "saved_vars (dec y) (out_cur w) = (leaves s w)\<lparr>pc := St (m_state (dec w)), in_cur := 0, out_buf := [], dec := dec y\<rparr>"
      by (simp add: saved_vars_def y_def lv masked_def u)
    show "same_codes (dec w) (dec y)" by (simp add: y_def same_codes_def saved_dec_def)
  qed (simp_all add: y_def u lv masked_def)
qed

lemma call_env_ok:
  assumes res: "resumable r next flags" and room: "next + out_size \<le> length buf" "length buf < 2 ^ 64"
    and e: "e = \<lparr>in_buf = input, out_next = next, out_end = next + out_size,
      out_mask = out_buf_size_mask flags next out_size, decomp_flags = flags\<rparr>"
    and v: "v = (saved_vars r next)\<lparr>out_buf := buf\<rparr>"
  shows "env_ok e" "inv e (if m_state r = 0 then v\<lparr>num_bits := 0\<rparr> else v)"
proof -
  have "next + out_size = 0 \<or> sub64 (next + out_size) 1 < next + out_size"
  proof (cases "next + out_size = 0")
    case False
    have "sub64 (next + out_size) 1 = next + out_size - 1" by (rule sub64_le) (use False room in linarith, use room in linarith)
    then show ?thesis using False by simp
  qed simp
  then show "env_ok e" using room by (auto simp: env_ok_def e out_buf_size_mask_def has_flag_def)
  have "label_at e (m_state r) v"
    using res by (simp add: resumable_def label_inv_def v label_at_entry [of e _ _ "[]"]) (simp add: e saved_vars_def)
  then show "inv e (if m_state r = 0 then v\<lparr>num_bits := 0\<rparr> else v)"
    using res room label_at_0
    by (simp add: inv_def pc_inv_def label_inv_def base_inv_def v e resumable_def saved_vars_def labels_def)
qed

lemma between_saved:
  assumes sim: "sim F e (u\<lparr>pc := St k\<rparr>) out x" and fits: "call_fits mk flat e" and len: "in_cur u \<le> length (in_buf e)"
    and same: "same_codes (dec u) r"
    and saved: "saved_vars r (out_cur u) = u\<lparr>pc := St k, in_cur := 0, out_buf := [], dec := r\<rparr>" and k: "m_state r = k"
  shows "between mk flat (drop (in_cur u) (in_buf e) @ F) r (out_buf u) (out_cur u) out x"
proof -
  define v z where "v = u\<lparr>pc := St k, dec := r\<rparr>" and "z = v\<lparr>in_cur := 0\<rparr>"
  have "sim F e v out x" using sim sim_same [of "u\<lparr>pc := St k\<rparr>" r F e out x] same by (simp add: v_def)
  note S = simD [OF this]
  have "k \<noteq> 0"
  proof
    assume "k = 0"
    then show False using S(3) by (simp add: v_def meaning_def meaning_at_def)
  qed
  have M: "bit_buf v < 2 ^ num_bits v" and o: "out_rel e v out" using S(1) by (simp_all add: core_def)
  have "strm (drop (in_cur u) (in_buf e) @ F) (idle mk flat) z = strm F e v" using len by (simp add: strm_def z_def v_def idle_def)
  moreover have "meaning z = meaning v" by (simp add: meaning_def z_def)
  moreover have "side (idle mk flat) z out = side e v out"
    using fits side_call [of e "idle mk flat" v out] by (cases "pc v") (simp_all add: side_def not_found_def header_ok_def call_fits_def idle_def z_def Let_def)
  moreover have o': "out_rel (idle mk flat) z out" using out_rel_idle [OF fits o] by (simp add: out_rel_def z_def)
  moreover have "back_ok (idle mk flat) z" by (rule back_start) (use M in \<open>simp_all add: z_def\<close>)
  ultimately have "sim (drop (in_cur u) (in_buf e) @ F) (idle mk flat) z out x"
    using S M by (simp add: sim_def core_def z_def)
  moreover have "(saved_vars r (out_cur u))\<lparr>out_buf := out_buf u\<rparr> = z" unfolding saved by (simp add: z_def v_def)
  ultimately show ?thesis using o' k \<open>k \<noteq> 0\<close> by (simp add: between_def)
qed

lemma exit_adler_plain:
  assumes "\<not> has_flag e TINFL_FLAG_PARSE_ZLIB_HEADER"
  obtains r where "exit_adler e s v = (s, r)" "same_codes (dec v) r" "m_state r = m_state (dec v)" "m_num_bits r = m_num_bits (dec v)"
    "\<And>n. saved_vars r n = (saved_vars (dec v) n)\<lparr>dec := r\<rparr>"
  using assms by (cases "exit_adler e s v") (auto simp: exit_adler_def Let_def same_codes_def saved_vars_def split: if_splits)

lemma call_sim:
  assumes res: "resumable r next flags" and room: "next + out_size \<le> length buf" "length buf < 2 ^ 64"
    and btw: "between mk flat (input @ F) r buf next out x"
    and mk: "out_buf_size_mask flags next out_size = mk" "u64 (mk + 1) AND mk = 0" "next + out_size \<le> mk + 1"
    and flags: "flags AND TINFL_FLAG_PARSE_ZLIB_HEADER = 0" "flags AND TINFL_FLAG_USING_NON_WRAPPING_OUTPUT_BUF \<noteq> 0 \<longleftrightarrow> flat"
  obtains res new where "tinfl_decompress r input buf next out_size flags = Some res" "res_out res = length new"
    "between mk flat (drop (res_in res) input @ F) (res_dec res) (res_buf res) (next + res_out res) (out @ new) x"
    "res_status res = TINFL_STATUS_DONE \<and> m_state (res_dec res) = 34 \<or>
     res_status res = (if flags AND TINFL_FLAG_HAS_MORE_INPUT \<noteq> 0 then TINFL_STATUS_NEEDS_MORE_INPUT
       else TINFL_STATUS_FAILED_CANNOT_MAKE_PROGRESS) \<and> F \<noteq> [] \<and> res_in res = length input \<or>
     res_status res = TINFL_STATUS_HAS_MORE_OUTPUT \<and> res_out res = out_size \<and> length (out @ new) < length (snd x)"
    "m_state r = 0 \<Longrightarrow> m_num_bits (res_dec res) \<le> 8 * res_in res"
    "res_status res = TINFL_STATUS_DONE \<Longrightarrow> m_num_bits (res_dec res) < 8 \<or> res_in res = 0"
proof -
  define e where "e = \<lparr>in_buf = input, out_next = next, out_end = next + out_size, out_mask = mk, decomp_flags = flags\<rparr>"
  define v where "v = (saved_vars r next)\<lparr>out_buf := buf\<rparr>"
  define v' where "v' = (if m_state r = 0 then v\<lparr>num_bits := 0\<rparr> else v)"
  have ef: "in_buf e = input" "out_end e = next + out_size" by (simp_all add: e_def)
  have fits: "call_fits mk flat e" using mk(3) flags by (simp add: call_fits_def e_def has_flag_def)
  have plain: "\<not> has_flag e TINFL_FLAG_PARSE_ZLIB_HEADER" using fits by (simp add: call_fits_def)
  have env: "env_ok e" and inv': "inv e v'"
    using call_env_ok [OF res room e_def [folded mk(1)] v_def] by (simp_all add: v'_def)
  obtain w where w: "tinfl_run e v = tinfl_run e w" "inv e w" "sim F e w out x" "out_cur w = next"
      "m_state r = 0 \<Longrightarrow> bits_left e w = 8 * length (in_buf e)"
    using call_starts [of mk flat e F r buf "next" out x v] btw fits env inv' by (auto simp: ef v_def v'_def)
  obtain s z new where z: "tinfl_run e w = Some (s, z)" "halted F e (out @ new) x s z" "out_cur z = out_cur w + length new"
      "bits_left e z \<le> bits_left e w" using tinfl_run_sim [OF env plain w(2,3)] by blast
  have "inv e (z\<lparr>pc := St (m_state (dec z))\<rparr>)" using tinfl_run_ok [OF env w(2)] z(1) by auto
  then have zi: "in_cur z \<le> length (in_buf e)" "num_bits z < 64" by (simp_all add: inv_def base_inv_def)
  obtain y where y: "common_exit e s z = Some y" "in_cur y = in_cur (leaves s z)" "out_cur y = out_cur z" "out_buf y = out_buf z"
      "saved_vars (dec y) (out_cur z) = (leaves s z)\<lparr>pc := St (m_state (dec z)), in_cur := 0, out_buf := [], dec := dec y\<rparr>"
      "same_codes (dec z) (dec y)" "m_state (dec y) = m_state (dec z)"
    using exit_saves [OF zi] by blast
  obtain r' where r': "exit_adler e s y = (s, r')" "same_codes (dec y) r'" "m_state r' = m_state (dec y)" "m_num_bits r' = m_num_bits (dec y)"
      "\<And>n. saved_vars r' n = (saved_vars (dec y) n)\<lparr>dec := r'\<rparr>" by (rule exit_adler_plain [OF plain, of s y]) (rule that; assumption)
  have lb: "in_cur (leaves s z) \<le> length input" "bits_left e (leaves s z) = bits_left e z"
    using leaves_bounds [OF zi(1), of s] zi(1) by (simp_all add: ef)
  have nb: "m_num_bits r' = num_bits (leaves s z)" using arg_cong [OF y(5), of num_bits] r'(4) by (simp add: saved_vars_def)
  show ?thesis
  proof (rule that)
    let ?res = "\<lparr>res_status = s, res_dec = r', res_in = in_cur y, res_out = out_cur y - next, res_buf = out_buf y\<rparr>"
    show "tinfl_decompress r input buf next out_size flags = Some ?res"
      unfolding tinfl_decompress_def Let_def mk(1,2) e_def [symmetric] by (use w(1) z(1) y(1) r'(1) in \<open>simp add: v_def saved_vars_def\<close>)
    show "res_out ?res = length new" using y(3) z(3) w(4) by simp
    have "between mk flat (drop (in_cur (leaves s z)) (in_buf e) @ F) r' (out_buf (leaves s z)) (out_cur (leaves s z)) (out @ new) x"
    proof (rule between_saved [OF sim_leaves [OF z(2) zi(1)] fits])
      show "saved_vars r' (out_cur (leaves s z)) = (leaves s z)\<lparr>pc := St (m_state (dec z)), in_cur := 0, out_buf := [], dec := r'\<rparr>"
        using r'(5) y(5) by simp
      show "same_codes (dec (leaves s z)) r'" using y(6) r'(2) by (simp add: same_codes_def)
    qed (use lb r'(3) y(7) in \<open>simp_all add: ef\<close>)
    then show "between mk flat (drop (res_in ?res) input @ F) (res_dec ?res) (res_buf ?res) (next + res_out ?res) (out @ new) x"
      using y z(3) w(4) by (simp add: ef)
    show "res_status ?res = TINFL_STATUS_DONE \<and> m_state (res_dec ?res) = 34 \<or>
      res_status ?res = (if flags AND TINFL_FLAG_HAS_MORE_INPUT \<noteq> 0 then TINFL_STATUS_NEEDS_MORE_INPUT
        else TINFL_STATUS_FAILED_CANNOT_MAKE_PROGRESS) \<and> F \<noteq> [] \<and> res_in ?res = length input \<or>
      res_status ?res = TINFL_STATUS_HAS_MORE_OUTPUT \<and> res_out ?res = out_size \<and> length (out @ new) < length (snd x)"
      using z(2) y(2,3,7) r'(3) by (auto simp: halted_def need_input_def has_flag_def e_def leaves_def masked_def split: if_splits)
    show "m_num_bits (res_dec ?res) \<le> 8 * res_in ?res" if "m_state r = 0"
      using lb z(4) w(5) [OF that] nb y(2) by (simp add: bits_left_def ef)
    show "m_num_bits (res_dec ?res) < 8 \<or> res_in ?res = 0" if "res_status ?res = TINFL_STATUS_DONE"
    proof (cases "in_cur z \<le> num_bits z div 8")
      case False
      then have "min (in_cur z) (num_bits z div 8) = num_bits z div 8" "num_bits z - 8 * (num_bits z div 8) < 8" by (simp, presburger)
      then show ?thesis using that nb y(2) by (simp add: leaves_def masked_def put_back_def Let_def)
    qed (use that y(2) in \<open>simp add: leaves_def masked_def put_back_def Let_def min_def\<close>)
  qed
qed

text \<open>What a call has added is in the buffer.\<close>

lemma nat_mod_cancel: "(a + c) mod n = (b + c) mod n \<Longrightarrow> a mod n = b mod (n :: nat)"
proof -
  assume "(a + c) mod n = (b + c) mod n"
  then have "int (a + c) mod int n = int (b + c) mod int n" by (metis of_nat_mod)
  then have "int a mod int n = int b mod int n" by (simp add: mod_eq_dvd_iff)
  then show ?thesis by (simp flip: of_nat_mod)
qed

lemma between_new:
  assumes btw: "between mk flat rest r buf (next + length new) (out @ new) x" and room: "next + length new \<le> mk + 1" "next + length new \<le> length buf"
  shows "take (length new) (drop next buf) = new"
proof (rule nth_equalityI)
  show "length (take (length new) (drop next buf)) = length new" using room(2) by simp
  define R where "R = mk + 1"
  have o: "(next + length new) mod R = (length out + length new) mod R"
      "\<And>j. j < length out + length new \<Longrightarrow> length out + length new \<le> j + R \<Longrightarrow> buf ! (j mod R) = (out @ new) ! j"
    using btw by (simp_all add: between_def Let_def out_rel_def ring_def idle_def saved_vars_def R_def)
  fix i
  assume "i < length (take (length new) (drop next buf))"
  then have i: "i < length new" using room(2) by simp
  have "(next + i + (length new - i)) mod R = (length out + i + (length new - i)) mod R" using o(1) i by simp
  then have "(next + i) mod R = (length out + i) mod R" by (rule nat_mod_cancel)
  moreover have "(next + i) mod R = next + i" using i room(1) by (simp add: R_def)
  moreover have "buf ! ((length out + i) mod R) = (out @ new) ! (length out + i)"
    by (rule o(2)) (use i room(1) in \<open>simp_all add: R_def\<close>)
  ultimately show "take (length new) (drop next buf) ! i = new ! i" using i room(2) by (simp add: nth_append)
qed

text \<open>The end.\<close>

lemma inflate_aligned: "inflate_blocks s out = Some y \<Longrightarrow> snd (fst y) mod 8 = 0"
proof (induction rule: inflate_blocks.raw_induct [rotated, consumes 1])
  case (1 rec s out y)
  have "snd (align t) mod 8 = 0" for t by (cases t) (simp add: align_def)
  moreover have "snd (fst y) mod 8 = 0" if "rec s' out' = Some y" for s' out' by (rule "1.IH" [OF that])
  ultimately show ?case using "1.hyps" by (auto simp: bind_eq_Some_conv split: if_splits)
qed

lemma between_done:
  assumes btw: "between mk flat rest r buf next out x" and at_end: "m_state r = 34"
  shows "snd x = out" "snd (fst x) = m_num_bits r + 8 * length rest"
proof -
  have "meaning ((saved_vars r next)\<lparr>out_buf := buf\<rparr>) (strm rest (idle mk flat) ((saved_vars r next)\<lparr>out_buf := buf\<rparr>)) out = Some x"
    using btw at_end by (simp add: between_def Let_def sim_def)
  then have "x = (strm rest (idle mk flat) ((saved_vars r next)\<lparr>out_buf := buf\<rparr>), out)"
    using at_end by (simp add: meaning_def meaning_at_def saved_vars_def)
  then show "snd x = out" "snd (fst x) = m_num_bits r + 8 * length rest"
    by (simp_all add: strm_def idle_def saved_vars_def)
qed

lemma between_fresh:
  assumes "inflate_blocks (stream_of rest) [] = Some x" "m_state r = 0" "\<exists>w \<le> 64. mk + 1 = 2 ^ w" "32768 \<le> mk + 1"
  shows "between mk flat rest r buf 0 [] x"
  using assms by (simp add: between_def Let_def out_rel_def idle_def ring_def saved_vars_def)

section \<open>The fixed code\<close>

lemma cnt_replicate: "cnt k (replicate n x) = (if x = k then n else 0)"
  by (induction n) simp_all

text \<open>The fixed code, as section 3.2.6 of the RFC tabulates it.\<close>

lemma fixed_code:
  assumes "j < 288"
  shows "fixed_ls ! j = (if j < 144 then 8 else if j < 256 then 9 else if j < 280 then 7 else 8)"
    "code_value (counts 288 fixed_ls) fixed_ls j =
      (if j < 144 then 48 + j else if j < 256 then 400 + (j - 144) else if j < 280 then j - 256 else 192 + (j - 280))"
proof -
  show n: "fixed_ls ! j = (if j < 144 then 8 else if j < 256 then 9 else if j < 280 then 7 else 8)"
    using assms by (auto simp: fixed_ls_def nth_append)
  have l: "take 288 fixed_ls = fixed_ls" by (simp add: fixed_ls_def)
  define ts where "ts = counts 288 fixed_ls"
  have ts: "ts ! k = (if k = 8 then 152 else if k = 9 then 112 else if k = 7 then 24 else 0)" if "k < 16" for k
    using that by (simp add: ts_def counts_def l) (simp add: fixed_ls_def cnt_replicate)
  have f7: "k \<le> 7 \<Longrightarrow> first_code ts k = 0" for k by (induction k) (simp_all add: ts)
  have f8: "first_code ts 8 = 48" using first_code_Suc [of 7 ts] f7 ts by (simp add: code_lim_def)
  have f9: "first_code ts 9 = 400" using first_code_Suc [of 8 ts] f8 ts by (simp add: code_lim_def)
  note f = f8 f9 f7 [of 7, simplified]
  show "code_value (counts 288 fixed_ls) fixed_ls j =
      (if j < 144 then 48 + j else if j < 256 then 400 + (j - 144) else if j < 280 then j - 256 else 192 + (j - 280))"
    unfolding code_value_def n ts_def [symmetric] using assms f by (auto simp: fixed_ls_def cnt_replicate min_def)
qed

lemma find_upt: "j < n \<Longrightarrow> P j \<Longrightarrow> \<forall>i < j. \<not> P i \<Longrightarrow> find P [0..<n] = Some j"
  unfolding find_Some_iff by (rule exI [of _ j]) simp

text \<open>A single \<^verbatim>\<open>a\<close>, in a block with the fixed code.\<close>

lemma read_fixed:
  assumes "j < 288" "l = fixed_ls ! j" "l \<le> m" "rv l b = code_value (counts 288 fixed_ls) fixed_ls j"
    "rv 8 b div 2 = rv 7 b" "rv 9 b div 2 = rv 8 b"
  shows "read_sym fixed_ls (b, m) = Some (j, drop_bit l b, m - l)"
proof -
  have len: "length fixed_ls = 288" by (simp add: fixed_ls_def)
  have "find (\<lambda>i. 0 < fixed_ls ! i \<and> fixed_ls ! i \<le> m \<and> rv (fixed_ls ! i) b = code_value (counts 288 fixed_ls) fixed_ls i) [0..<288] = Some j"
  proof (rule find_upt [OF assms(1)])
    show "\<forall>i < j. \<not> (0 < fixed_ls ! i \<and> fixed_ls ! i \<le> m \<and> rv (fixed_ls ! i) b = code_value (counts 288 fixed_ls) fixed_ls i)"
    proof (intro allI impI)
      fix i assume "i < j"
      then have "i < 288" using assms(1) by simp
      then show "\<not> (0 < fixed_ls ! i \<and> fixed_ls ! i \<le> m \<and> rv (fixed_ls ! i) b = code_value (counts 288 fixed_ls) fixed_ls i)"
        using assms \<open>i < j\<close> by (auto simp: fixed_code split: if_splits)
    qed
  qed (use assms in \<open>auto simp: fixed_code\<close>)
  then show ?thesis using assms(2) by (simp add: read_sym_def len)
qed

lemma rvs: "rv 8 b div 2 = rv 7 b" "rv 9 b div 2 = rv 8 b"
  using rv_div [of 7 1 b] rv_div [of 8 1 b] by simp_all

lemma rv_numeral: "rv (numeral n) q = 2 * rv (pred_numeral n) q + of_bool (bit q (pred_numeral n))"
  by (simp add: numeral_eq_Suc)

lemma inflate_demo: "inflate_spec [75, 4, 0] = Some ([97], 0)"
proof -
  have a: "read_sym fixed_ls (137, 21) = Some (97, 0, 13)"
    by (subst read_fixed [of 97 8]) (simp_all add: rvs fixed_code rv_numeral bit_0)
  have e: "read_sym fixed_ls (0, 13) = Some (256, 0, 6)"
    by (subst read_fixed [of 256 7]) (simp_all add: rvs fixed_code rv_numeral bit_0)
  have "read_syms fixed_ls fixed_ds (137, 21) [] = Some ((0, 6), [97])"
    by (subst read_syms.simps, simp add: a, subst read_syms.simps, simp add: e)
  then show ?thesis
    unfolding inflate_spec_def by (subst inflate_blocks.simps) (simp add: stream_of_def read_num_def read_block_def align_def)
qed

section \<open>Properties\<close>

text \<open>C3. Inflate is correct. Whatever input the format of RFC 1951 makes the bytes \<open>out\<close> of (\<open>inflate_spec\<close>,
  which knows nothing of tables, bit buffers and labels), \<^verbatim>\<open>tinfl_decompress\<close> on a fresh structure, without a
  zlib header and with a buffer that has the room, is done after one call, has put exactly \<open>out\<close> at the
  beginning of the buffer and left the rest of it alone, and reports as consumed all but the bytes that follow
  the compressed data.\<close>

theorem inflate_correct:
  assumes shape: "decomp_shape r0" and spec: "inflate_spec input = Some (out, left)"
    and room: "length out \<le> length buf" "length buf < 2 ^ 64"
    and flags: "flags AND TINFL_FLAG_PARSE_ZLIB_HEADER = 0" "flags AND TINFL_FLAG_USING_NON_WRAPPING_OUTPUT_BUF \<noteq> 0"
  shows "\<exists>res. tinfl_decompress (tinfl_init r0) input buf 0 (length buf) flags = Some res \<and> res_status res = TINFL_STATUS_DONE \<and>
    res_out res = length out \<and> res_buf res = out @ drop (length out) buf \<and> res_in res = length input - left"
proof -
  let ?r = "tinfl_init r0"
  obtain t where t: "inflate_blocks (stream_of input) [] = Some (t, out)" "left = snd t div 8"
    using spec by (auto simp: inflate_spec_def)
  have r: "resumable ?r 0 flags" "m_state ?r = 0" using fresh_resumable [OF shape] by (simp_all add: tinfl_init_def)
  have mk: "out_buf_size_mask flags 0 (length buf) = 2 ^ 64 - 1" using flags by (simp add: out_buf_size_mask_def)
  have btw: "between (2 ^ 64 - 1) True (input @ []) ?r buf 0 [] (t, out)"
    by (rule between_fresh) (use t r(2) in \<open>simp_all, intro exI [of _ 64], simp\<close>)
  obtain res new where res: "tinfl_decompress ?r input buf 0 (length buf) flags = Some res" "res_out res = length new"
      "between (2 ^ 64 - 1) True (drop (res_in res) input @ []) (res_dec res) (res_buf res) (0 + res_out res) ([] @ new) (t, out)"
      "res_status res = TINFL_STATUS_DONE \<and> m_state (res_dec res) = 34 \<or>
       res_status res = TINFL_STATUS_HAS_MORE_OUTPUT \<and> res_out res = length buf \<and> length ([] @ new) < length (snd (t, out))"
      "m_num_bits (res_dec res) \<le> 8 * res_in res" "res_status res = TINFL_STATUS_DONE \<Longrightarrow> m_num_bits (res_dec res) < 8 \<or> res_in res = 0"
    using call_sim [OF r(1) _ room(2) btw mk] flags room r(2) by (auto simp: u64_def)
  have st: "res_status res = TINFL_STATUS_DONE" "m_state (res_dec res) = 34" using res(2,4) room by auto
  note fin = between_done [OF res(3) st(2)]
  have len: "res_in res \<le> length input" "length (res_buf res) = length buf" "\<And>j. res_out res \<le> j \<Longrightarrow> res_buf res ! j = buf ! j"
    using tinfl_call_ok [OF r(1), of "length buf" buf input] room res(1) by auto
  have "drop (length new) (res_buf res) = drop (length new) buf" by (rule nth_equalityI) (use len(2,3) res(2) in simp_all)
  moreover have "take (length new) (drop 0 (res_buf res)) = new"
    using between_new [of "2 ^ 64 - 1" True _ "res_dec res" "res_buf res" 0 new "[]"] res room fin len(2) by auto
  ultimately have "res_buf res = new @ drop (length new) buf" by (metis append_take_drop_id drop0)
  moreover have "8 * (length input - res_in res) + m_num_bits (res_dec res) = snd t" "snd t mod 8 = 0"
    using fin(2) inflate_aligned [OF t(1)] by simp_all
  then have "length input - res_in res = left" using t(2) res(5,6) st(1) by auto
  ultimately show ?thesis using res st fin len(1) by auto
qed

lemma inflate_correct_witness:
  "\<exists>res. tinfl_decompress (tinfl_init fresh_inflator) [75, 4, 0] [1, 2] 0 (length [1 :: 8 word, 2]) 4 = Some res \<and>
    res_status res = TINFL_STATUS_DONE \<and> res_out res = length [97 :: 8 word] \<and>
    res_buf res = [97] @ drop (length [97 :: 8 word]) [1, 2] \<and> res_in res = length [75 :: 8 word, 4, 0] - 0"
  by (rule inflate_correct [OF fresh_inflator_shape inflate_demo]) simp_all

end
