(* ===== verification/ZipExtract.thy ===== *)
theory ZipExtract
  imports ZipLocate Tinfl
begin

unbundle bit_operations_syntax

text \<open>
  Extraction: \<^verbatim>\<open>mz_zip_reader_extract_to_mem_no_alloc1\<close> and \<^verbatim>\<open>mz_zip_reader_extract_to_callback\<close> with
  their wrappers. A function that also writes to the caller's buffer or feeds the caller's callback
  threads that state beside the archive (\<open>xret\<close>); the boolean is the C result, and a failure has its
  code in \<^verbatim>\<open>m_last_error\<close> when the code stores one.

  A buffer is the list of its bytes. Forming a pointer beyond the archive in memory is undefined
  behaviour, hence \<^term>\<open>None\<close>, as is a null allocator. Local variables and fresh allocations hold
  arbitrary bytes: they are the arguments \<open>inflator\<close> and \<open>heap\<close>. The guards against null pointers for
  arguments that are values here have no counterpart.
\<close>

type_synonym 's xret = "(mz_zip_archive \<times> 's \<times> bool) option"

definition xfail :: "mz_zip_archive \<Rightarrow> 's \<Rightarrow> mz_zip_error \<Rightarrow> 's xret" where
  "xfail pZip s err_num = Some (pZip\<lparr>m_last_error := err_num\<rparr>, s, False)"

text \<open>A call of a reader function whose failure is returned at once.\<close>

definition xbind :: "'a zret \<Rightarrow> 's \<Rightarrow> (mz_zip_archive \<Rightarrow> 'a \<Rightarrow> 's xret) \<Rightarrow> 's xret" where
  "xbind m s f = (case m of None \<Rightarrow> None
     | Some (z, Inl e) \<Rightarrow> Some (z, s, False)
     | Some (z, Inr a) \<Rightarrow> f z a)"

abbreviation (input) MZ_DEFLATED :: nat where "MZ_DEFLATED \<equiv> 8"
abbreviation (input) MZ_ZIP_MAX_IO_BUF_SIZE :: nat where "MZ_ZIP_MAX_IO_BUF_SIZE \<equiv> 65536"

section \<open>The entry\<close>

text \<open>The refusal of encrypted entries, patches and unknown methods.\<close>

definition entry_refused :: "nat \<Rightarrow> mz_zip_archive_file_stat \<Rightarrow> mz_zip_error option" where
  "entry_refused flags s =
     (if m_bit_flag s AND (1 OR 64 OR 32) \<noteq> 0 then Some MZ_ZIP_UNSUPPORTED_ENCRYPTION
      else if flags AND MZ_ZIP_FLAG_COMPRESSED_DATA = 0 \<and> m_method s \<noteq> 0 \<and> m_method s \<noteq> MZ_DEFLATED
      then Some MZ_ZIP_UNSUPPORTED_METHOD
      else None)"

text \<open>Whether the bytes go out as they are stored.\<close>

definition copied_raw :: "nat \<Rightarrow> mz_zip_archive_file_stat \<Rightarrow> bool" where
  "copied_raw flags s \<longleftrightarrow> flags AND MZ_ZIP_FLAG_COMPRESSED_DATA \<noteq> 0 \<or> m_method s = 0"

text \<open>The local header: where the entry's data begins.\<close>

definition local_data_ofs :: "mz_zip_archive \<Rightarrow> mz_zip_archive_file_stat \<Rightarrow> (mz_zip_error + nat) option" where
  "local_data_ofs pZip s = do {
     hdr \<leftarrow> call_read pZip (m_local_header_ofs s) MZ_ZIP_LOCAL_DIR_HEADER_SIZE;
     (if length hdr \<noteq> MZ_ZIP_LOCAL_DIR_HEADER_SIZE then Some (Inl MZ_ZIP_FILE_READ_FAILED)
      else do {
        sig \<leftarrow> rd32 hdr 0;
        (if sig \<noteq> MZ_ZIP_LOCAL_DIR_HEADER_SIG then Some (Inl MZ_ZIP_INVALID_HEADER_OR_CORRUPTED)
         else do {
           name_len \<leftarrow> rd16 hdr MZ_ZIP_LDH_FILENAME_LEN_OFS;
           extra_len \<leftarrow> rd16 hdr MZ_ZIP_LDH_EXTRA_LEN_OFS;
           (let cur_file_ofs = u64 (m_local_header_ofs s + MZ_ZIP_LOCAL_DIR_HEADER_SIZE + name_len + extra_len)
            in if m_archive_size pZip < u64 (cur_file_ofs + m_comp_size s)
               then Some (Inl MZ_ZIP_INVALID_HEADER_OR_CORRUPTED)
               else Some (Inr cur_file_ofs))
         })
      })
   }"

text \<open>\<^verbatim>\<open>pZip->m_pAlloc(pZip->m_pAlloc_opaque, 1, n)\<close>.\<close>

definition call_alloc :: "mz_zip_archive \<Rightarrow> nat \<Rightarrow> bool option" where
  "call_alloc pZip n = (case m_pAlloc pZip of None \<Rightarrow> None | Some alloc \<Rightarrow> Some (alloc 1 n))"

text \<open>\<^verbatim>\<open>pZip->m_pState->m_pMem\<close>.\<close>

definition pMem_of :: "mz_zip_archive \<Rightarrow> bytes option" where
  "pMem_of pZip = Option.bind (m_pState pZip) m_pMem"

text \<open>
  The source of compressed bytes: what is left in the read buffer (for an archive in memory, of
  the entry itself), the position in the file, the bytes not read yet, the buffer's size.
\<close>

record read_src =
  src_avail :: bytes
  cur_ofs :: nat
  comp_remaining :: nat
  read_buf_size :: nat

text \<open>
  \<^verbatim>\<open>if ((!read_buf_avail) && (!pZip->m_pState->m_pMem))\<close>: the next piece of the file. Nothing inside: the
  read came back short.
\<close>

definition refill :: "mz_zip_archive \<Rightarrow> read_src \<Rightarrow> read_src option option" where
  "refill pZip src =
     (if src_avail src = [] \<and> pMem_of pZip = None
      then let n = min (read_buf_size src) (comp_remaining src) in do {
        bs \<leftarrow> call_read pZip (cur_ofs src) n;
        (if length bs \<noteq> n then Some None
         else Some (Some (src\<lparr>src_avail := bs, cur_ofs := u64 (cur_ofs src + n),
           comp_remaining := comp_remaining src - n\<rparr>)))
      }
      else Some (Some src))"

definition more_input :: "read_src \<Rightarrow> nat" where
  "more_input src = (if comp_remaining src \<noteq> 0 then TINFL_FLAG_HAS_MORE_INPUT else 0)"

type_synonym inflate_func =
  "tinfl_decompressor \<Rightarrow> bytes \<Rightarrow> bytes \<Rightarrow> nat \<Rightarrow> nat \<Rightarrow> nat \<Rightarrow> tinfl_result option"

section \<open>Extraction to memory\<close>

text \<open>
  The loop around \<^verbatim>\<open>tinfl_decompress\<close> (the argument \<open>inflate\<close>). The answer: archive, buffer, status,
  bytes written.
\<close>

partial_function (option) extract_mem_loop ::
    "inflate_func \<Rightarrow> nat \<Rightarrow> mz_zip_archive \<Rightarrow> tinfl_decompressor \<Rightarrow> read_src \<Rightarrow> bytes \<Rightarrow> nat \<Rightarrow>
     (mz_zip_archive \<times> bytes \<times> tinfl_status \<times> nat) option" where
  "extract_mem_loop inflate uncomp_size pZip inflator src pBuf out_buf_ofs =
     Option.bind (refill pZip src) (\<lambda>r. case r of
         None \<Rightarrow> Some (pZip\<lparr>m_last_error := MZ_ZIP_DECOMPRESSION_FAILED\<rparr>, pBuf, TINFL_STATUS_FAILED, out_buf_ofs)
       | Some src \<Rightarrow>
           Option.bind (inflate inflator (src_avail src) pBuf out_buf_ofs (sub64 uncomp_size out_buf_ofs)
               (TINFL_FLAG_USING_NON_WRAPPING_OUTPUT_BUF OR more_input src))
             (\<lambda>res. let src = src\<lparr>src_avail := drop (res_in res) (src_avail src)\<rparr>;
                   out_buf_ofs = u64 (out_buf_ofs + res_out res)
               in if res_status res = TINFL_STATUS_NEEDS_MORE_INPUT
                  then extract_mem_loop inflate uncomp_size pZip (res_dec res) src (res_buf res) out_buf_ofs
                  else Some (pZip, res_buf res, res_status res, out_buf_ofs)))"

declare extract_mem_loop.simps [code]

text \<open>The checks after the loop.\<close>

definition extract_mem_finish ::
    "mz_zip_archive_file_stat \<Rightarrow> mz_zip_archive \<times> bytes \<times> tinfl_status \<times> nat \<Rightarrow> bytes xret" where
  "extract_mem_finish s r = (case r of (pZip, pBuf, status, out_buf_ofs) \<Rightarrow>
     if status = TINFL_STATUS_DONE
     then if out_buf_ofs \<noteq> m_uncomp_size s then xfail pZip pBuf MZ_ZIP_UNEXPECTED_DECOMPRESSED_SIZE
          else do {
            bs \<leftarrow> rdn pBuf 0 (m_uncomp_size s);
            (if unat (mz_crc32 0 bs) \<noteq> m_crc32 s then xfail pZip pBuf MZ_ZIP_CRC_CHECK_FAILED
             else Some (pZip, pBuf, True))
          }
     else Some (pZip, pBuf, False))"

text \<open>Where the compressed bytes come from; \<open>user\<close> is the size of the read buffer the caller passes, if any.\<close>

definition open_source ::
    "mz_zip_archive \<Rightarrow> mz_zip_archive_file_stat \<Rightarrow> nat \<Rightarrow> nat option \<Rightarrow> (mz_zip_error option + read_src) option" where
  "open_source pZip s cur_file_ofs user =
     (case pMem_of pZip of
        Some mem \<Rightarrow> do {
          bs \<leftarrow> rdn mem cur_file_ofs (m_comp_size s);
          Some (Inr \<lparr>src_avail = bs, cur_ofs = cur_file_ofs, comp_remaining = 0, read_buf_size = m_comp_size s\<rparr>)
        }
      | None \<Rightarrow> (case user of
          Some n \<Rightarrow>
            if n = 0 then Some (Inl None)
            else Some (Inr \<lparr>src_avail = [], cur_ofs = cur_file_ofs, comp_remaining = m_comp_size s, read_buf_size = n\<rparr>)
        | None \<Rightarrow> (let n = min (m_comp_size s) MZ_ZIP_MAX_IO_BUF_SIZE in do {
            ok \<leftarrow> call_alloc pZip n;
            (if \<not> ok then Some (Inl (Some MZ_ZIP_ALLOC_FAILED))
             else Some (Inr \<lparr>src_avail = [], cur_ofs = cur_file_ofs, comp_remaining = m_comp_size s,
               read_buf_size = n\<rparr>))
          })))"

definition needed_size :: "nat \<Rightarrow> mz_zip_archive_file_stat \<Rightarrow> nat" where
  "needed_size flags s = (if flags AND MZ_ZIP_FLAG_COMPRESSED_DATA \<noteq> 0 then m_comp_size s else m_uncomp_size s)"

definition extract_stored :: "mz_zip_archive \<Rightarrow> mz_zip_archive_file_stat \<Rightarrow> nat \<Rightarrow> bytes \<Rightarrow> nat \<Rightarrow> bytes xret" where
  "extract_stored pZip s flags pBuf cur_file_ofs = do {
     bs \<leftarrow> call_read pZip cur_file_ofs (needed_size flags s);
     pBuf \<leftarrow> write_o pBuf 0 bs;
     (if length bs \<noteq> needed_size flags s then xfail pZip pBuf MZ_ZIP_FILE_READ_FAILED
      else if flags AND MZ_ZIP_FLAG_COMPRESSED_DATA = 0
      then do {
        bs \<leftarrow> rdn pBuf 0 (m_uncomp_size s);
        (if unat (mz_crc32 0 bs) \<noteq> m_crc32 s then xfail pZip pBuf MZ_ZIP_CRC_CHECK_FAILED
         else Some (pZip, pBuf, True))
      }
      else Some (pZip, pBuf, True))
   }"

definition extract_deflated ::
    "inflate_func \<Rightarrow> tinfl_decompressor \<Rightarrow> mz_zip_archive \<Rightarrow> mz_zip_archive_file_stat \<Rightarrow> bytes \<Rightarrow> nat \<Rightarrow>
     nat option \<Rightarrow> bytes xret" where
  "extract_deflated inflate inflator pZip s pBuf cur_file_ofs user = do {
     src \<leftarrow> open_source pZip s cur_file_ofs user;
     (case src of
        Inl None \<Rightarrow> Some (pZip, pBuf, False)
      | Inl (Some e) \<Rightarrow> xfail pZip pBuf e
      | Inr src \<Rightarrow> do {
          r \<leftarrow> extract_mem_loop inflate (m_uncomp_size s) pZip (tinfl_init inflator) src pBuf 0;
          extract_mem_finish s r
        })
   }"

definition extract_entry ::
    "inflate_func \<Rightarrow> tinfl_decompressor \<Rightarrow> mz_zip_archive \<Rightarrow> mz_zip_archive_file_stat \<Rightarrow> bytes \<Rightarrow> nat \<Rightarrow>
     nat option \<Rightarrow> bytes xret" where
  "extract_entry inflate inflator pZip s pBuf flags user =
     (if m_is_directory s \<or> m_comp_size s = 0 then Some (pZip, pBuf, True)
      else case entry_refused flags s of
          Some e \<Rightarrow> xfail pZip pBuf e
        | None \<Rightarrow>
            if length pBuf < needed_size flags s then xfail pZip pBuf MZ_ZIP_BUF_TOO_SMALL
            else do {
              at \<leftarrow> local_data_ofs pZip s;
              (case at of
                 Inl e \<Rightarrow> xfail pZip pBuf e
               | Inr cur_file_ofs \<Rightarrow>
                   if copied_raw flags s then extract_stored pZip s flags pBuf cur_file_ofs
                   else extract_deflated inflate inflator pZip s pBuf cur_file_ofs user)
            })"

definition mz_zip_reader_extract_to_mem_no_alloc1 ::
    "tinfl_decompressor \<Rightarrow> mz_zip_archive \<Rightarrow> nat \<Rightarrow> bytes \<Rightarrow> nat \<Rightarrow> nat option \<Rightarrow>
     mz_zip_archive_file_stat option \<Rightarrow> bytes xret" where
  "mz_zip_reader_extract_to_mem_no_alloc1 inflator pZip file_index pBuf flags user st =
     (if m_pState pZip = None \<or> m_pRead pZip = None then xfail pZip pBuf MZ_ZIP_INVALID_PARAMETER
      else case st of
          Some s \<Rightarrow> extract_entry tinfl_decompress inflator pZip s pBuf flags user
        | None \<Rightarrow> xbind (mz_zip_reader_file_stat pZip file_index) pBuf (\<lambda>pZip s.
            extract_entry tinfl_decompress inflator pZip s pBuf flags user))"

definition mz_zip_reader_extract_to_mem_no_alloc ::
    "tinfl_decompressor \<Rightarrow> mz_zip_archive \<Rightarrow> nat \<Rightarrow> bytes \<Rightarrow> nat \<Rightarrow> nat option \<Rightarrow> bytes xret" where
  "mz_zip_reader_extract_to_mem_no_alloc inflator pZip file_index pBuf flags user =
     mz_zip_reader_extract_to_mem_no_alloc1 inflator pZip file_index pBuf flags user None"

definition mz_zip_reader_extract_file_to_mem_no_alloc ::
    "tinfl_decompressor \<Rightarrow> mz_zip_archive \<Rightarrow> bytes option \<Rightarrow> bytes \<Rightarrow> nat \<Rightarrow> nat option \<Rightarrow> bytes xret" where
  "mz_zip_reader_extract_file_to_mem_no_alloc inflator pZip pFilename pBuf flags user =
     xbind (mz_zip_reader_locate_file_v2 pZip pFilename None flags) pBuf (\<lambda>pZip file_index.
       mz_zip_reader_extract_to_mem_no_alloc1 inflator pZip file_index pBuf flags user None)"

definition mz_zip_reader_extract_to_mem ::
    "tinfl_decompressor \<Rightarrow> mz_zip_archive \<Rightarrow> nat \<Rightarrow> bytes \<Rightarrow> nat \<Rightarrow> bytes xret" where
  "mz_zip_reader_extract_to_mem inflator pZip file_index pBuf flags =
     mz_zip_reader_extract_to_mem_no_alloc1 inflator pZip file_index pBuf flags None None"

definition mz_zip_reader_extract_file_to_mem ::
    "tinfl_decompressor \<Rightarrow> mz_zip_archive \<Rightarrow> bytes option \<Rightarrow> bytes \<Rightarrow> nat \<Rightarrow> bytes xret" where
  "mz_zip_reader_extract_file_to_mem inflator pZip pFilename pBuf flags =
     mz_zip_reader_extract_file_to_mem_no_alloc inflator pZip pFilename pBuf flags None"

text \<open>
  The heap variants: nothing inside is the null pointer. \<open>heap n\<close> are the \<open>n\<close> bytes the allocator
  returns; \<^verbatim>\<open>*pSize\<close> is the length of the answer.
\<close>

definition mz_zip_reader_extract_to_heap ::
    "tinfl_decompressor \<Rightarrow> (nat \<Rightarrow> bytes) \<Rightarrow> mz_zip_archive \<Rightarrow> nat \<Rightarrow> nat \<Rightarrow>
     (mz_zip_archive \<times> bytes option) option" where
  "mz_zip_reader_extract_to_heap inflator heap pZip file_index flags =
     (case mz_zip_reader_file_stat pZip file_index of
        None \<Rightarrow> None
      | Some (pZip, Inl e) \<Rightarrow> Some (pZip, None)
      | Some (pZip, Inr s) \<Rightarrow> do {
          ok \<leftarrow> call_alloc pZip (needed_size flags s);
          (if \<not> ok then Some (pZip\<lparr>m_last_error := MZ_ZIP_ALLOC_FAILED\<rparr>, None)
           else do {
             (pZip, pBuf, ok) \<leftarrow> mz_zip_reader_extract_to_mem_no_alloc1 inflator pZip file_index
               (heap (needed_size flags s)) flags None (Some s);
             Some (pZip, if ok then Some pBuf else None)
           })
        })"

definition mz_zip_reader_extract_file_to_heap ::
    "tinfl_decompressor \<Rightarrow> (nat \<Rightarrow> bytes) \<Rightarrow> mz_zip_archive \<Rightarrow> bytes option \<Rightarrow> nat \<Rightarrow>
     (mz_zip_archive \<times> bytes option) option" where
  "mz_zip_reader_extract_file_to_heap inflator heap pZip pFilename flags =
     (case mz_zip_reader_locate_file_v2 pZip pFilename None flags of
        None \<Rightarrow> None
      | Some (pZip, Inl e) \<Rightarrow> Some (pZip, None)
      | Some (pZip, Inr file_index) \<Rightarrow> mz_zip_reader_extract_to_heap inflator heap pZip file_index flags)"

section \<open>Extraction to a callback\<close>

text \<open>The client's \<^verbatim>\<open>mz_file_write_func\<close>: its state, the offset and the bytes give the state and the count.\<close>

type_synonym 's mz_file_write_func = "'s \<Rightarrow> nat \<Rightarrow> bytes \<Rightarrow> 's \<times> nat"

text \<open>What the loops carry: archive, callback state, status, running checksum, bytes put out.\<close>

record 's sink =
  sk_zip :: mz_zip_archive
  sk_opaque :: 's
  sk_status :: tinfl_status
  file_crc32 :: "32 word"
  out_buf_ofs :: nat

definition sink_fails :: "'s sink \<Rightarrow> mz_zip_error \<Rightarrow> 's sink" where
  "sink_fails k e = k\<lparr>sk_zip := (sk_zip k)\<lparr>m_last_error := e\<rparr>, sk_status := TINFL_STATUS_FAILED\<rparr>"

text \<open>An archive in memory: the stored bytes go out in one call, and count as written in any case.\<close>

definition copy_from_mem :: "'s mz_file_write_func \<Rightarrow> nat \<Rightarrow> bytes \<Rightarrow> 's sink \<Rightarrow> 's sink" where
  "copy_from_mem pCallback flags bs k =
     (let (s, n) = pCallback (sk_opaque k) (out_buf_ofs k) bs;
          k = k\<lparr>sk_opaque := s\<rparr>;
          k = (if n \<noteq> length bs then sink_fails k MZ_ZIP_WRITE_CALLBACK_FAILED
               else if flags AND MZ_ZIP_FLAG_COMPRESSED_DATA = 0
               then k\<lparr>file_crc32 := mz_crc32 (file_crc32 k) bs\<rparr> else k)
      in k\<lparr>out_buf_ofs := u64 (out_buf_ofs k + length bs)\<rparr>)"

text \<open>A file: \<^verbatim>\<open>while (comp_remaining)\<close>, through the read buffer.\<close>

partial_function (option) copy_from_file ::
    "'s mz_file_write_func \<Rightarrow> nat \<Rightarrow> nat \<Rightarrow> nat \<Rightarrow> nat \<Rightarrow> 's sink \<Rightarrow> 's sink option" where
  "copy_from_file pCallback flags buf_size cur_file_ofs remaining k =
     (if remaining = 0 then Some k
      else let n = min buf_size remaining in
        Option.bind (call_read (sk_zip k) cur_file_ofs n) (\<lambda>bs.
          if length bs \<noteq> n then Some (sink_fails k MZ_ZIP_FILE_READ_FAILED)
          else let
            k = (if flags AND MZ_ZIP_FLAG_COMPRESSED_DATA = 0
                 then k\<lparr>file_crc32 := mz_crc32 (file_crc32 k) bs\<rparr> else k);
            (s, m) = pCallback (sk_opaque k) (out_buf_ofs k) bs;
            k = k\<lparr>sk_opaque := s\<rparr>
          in if m \<noteq> n then Some (sink_fails k MZ_ZIP_WRITE_CALLBACK_FAILED)
             else copy_from_file pCallback flags buf_size (u64 (cur_file_ofs + n)) (remaining - n)
               (k\<lparr>out_buf_ofs := u64 (out_buf_ofs k + n)\<rparr>)))"

declare copy_from_file.simps [code]

text \<open>One piece of output to the callback. The second component: the loop is left.\<close>

definition put_piece :: "'s mz_file_write_func \<Rightarrow> nat \<Rightarrow> bytes \<Rightarrow> 's sink \<Rightarrow> 's sink \<times> bool" where
  "put_piece pCallback uncomp_size bs k =
     (if bs = [] then (k, False)
      else let (s, m) = pCallback (sk_opaque k) (out_buf_ofs k) bs; k = k\<lparr>sk_opaque := s\<rparr>
      in if m \<noteq> length bs then (sink_fails k MZ_ZIP_WRITE_CALLBACK_FAILED, True)
         else let k = k\<lparr>file_crc32 := mz_crc32 (file_crc32 k) bs, out_buf_ofs := u64 (out_buf_ofs k + length bs)\<rparr>
         in if uncomp_size < out_buf_ofs k then (sink_fails k MZ_ZIP_DECOMPRESSION_FAILED, True)
            else (k, False))"

text \<open>The loop around \<^verbatim>\<open>tinfl_decompress\<close>, with the dictionary \<open>dict\<close> as output buffer.\<close>

partial_function (option) inflate_to_callback ::
    "inflate_func \<Rightarrow> 's mz_file_write_func \<Rightarrow> nat \<Rightarrow> tinfl_decompressor \<Rightarrow> read_src \<Rightarrow> bytes \<Rightarrow> 's sink \<Rightarrow>
     's sink option" where
  "inflate_to_callback inflate pCallback uncomp_size inflator src dict k =
     (let at = out_buf_ofs k AND (TINFL_LZ_DICT_SIZE - 1) in
      Option.bind (refill (sk_zip k) src) (\<lambda>r. case r of
         None \<Rightarrow> Some (sink_fails k MZ_ZIP_FILE_READ_FAILED)
       | Some src \<Rightarrow>
           Option.bind (inflate inflator (src_avail src) dict at (TINFL_LZ_DICT_SIZE - at) (more_input src))
             (\<lambda>res. let
                  src = src\<lparr>src_avail := drop (res_in res) (src_avail src)\<rparr>;
                  (k, stop) = put_piece pCallback uncomp_size (take (res_out res) (drop at (res_buf res)))
                    (k\<lparr>sk_status := res_status res\<rparr>)
                in if \<not> stop \<and> (res_status res = TINFL_STATUS_NEEDS_MORE_INPUT \<or>
                                res_status res = TINFL_STATUS_HAS_MORE_OUTPUT)
                   then inflate_to_callback inflate pCallback uncomp_size (res_dec res) src (res_buf res) k
                   else Some k)))"

declare inflate_to_callback.simps [code]

text \<open>The checks at the end.\<close>

definition callback_finish :: "nat \<Rightarrow> mz_zip_archive_file_stat \<Rightarrow> 's sink \<Rightarrow> 's xret" where
  "callback_finish flags s k =
     (let k = (if sk_status k = TINFL_STATUS_DONE \<and> flags AND MZ_ZIP_FLAG_COMPRESSED_DATA = 0
               then if out_buf_ofs k \<noteq> m_uncomp_size s then sink_fails k MZ_ZIP_UNEXPECTED_DECOMPRESSED_SIZE
                    else if unat (file_crc32 k) \<noteq> m_crc32 s then sink_fails k MZ_ZIP_DECOMPRESSION_FAILED
                    else k
               else k)
      in Some (sk_zip k, sk_opaque k, sk_status k = TINFL_STATUS_DONE))"

text \<open>Stored and deflated data, from the source opened before.\<close>

definition callback_data ::
    "inflate_func \<Rightarrow> tinfl_decompressor \<Rightarrow> bytes \<Rightarrow> 's mz_file_write_func \<Rightarrow> nat \<Rightarrow> mz_zip_archive_file_stat \<Rightarrow>
     read_src \<Rightarrow> 's sink \<Rightarrow> 's sink option" where
  "callback_data inflate inflator dict pCallback flags s src k =
     (if copied_raw flags s
      then if pMem_of (sk_zip k) \<noteq> None then Some (copy_from_mem pCallback flags (src_avail src) k)
           else copy_from_file pCallback flags (read_buf_size src) (cur_ofs src) (comp_remaining src) k
      else do {
        ok \<leftarrow> call_alloc (sk_zip k) TINFL_LZ_DICT_SIZE;
        (if \<not> ok then Some (sink_fails k MZ_ZIP_ALLOC_FAILED)
         else inflate_to_callback inflate pCallback (m_uncomp_size s) (tinfl_init inflator) src dict k)
      })"

definition callback_entry ::
    "inflate_func \<Rightarrow> tinfl_decompressor \<Rightarrow> bytes \<Rightarrow> 's mz_file_write_func \<Rightarrow> mz_zip_archive \<Rightarrow>
     mz_zip_archive_file_stat \<Rightarrow> nat \<Rightarrow> 's \<Rightarrow> 's xret" where
  "callback_entry inflate inflator dict pCallback pZip s flags pOpaque =
     (if m_is_directory s \<or> m_comp_size s = 0 then Some (pZip, pOpaque, True)
      else case entry_refused flags s of
          Some e \<Rightarrow> xfail pZip pOpaque e
        | None \<Rightarrow> do {
            at \<leftarrow> local_data_ofs pZip s;
            (case at of
               Inl e \<Rightarrow> xfail pZip pOpaque e
             | Inr cur_file_ofs \<Rightarrow> do {
                 src \<leftarrow> open_source pZip s cur_file_ofs None;
                 (case src of
                    Inl None \<Rightarrow> Some (pZip, pOpaque, False)
                  | Inl (Some e) \<Rightarrow> xfail pZip pOpaque e
                  | Inr src \<Rightarrow> do {
                      k \<leftarrow> callback_data inflate inflator dict pCallback flags s src
                        \<lparr>sk_zip = pZip, sk_opaque = pOpaque, sk_status = TINFL_STATUS_DONE, file_crc32 = 0,
                         out_buf_ofs = 0\<rparr>;
                      callback_finish flags s k
                    })
               })
          })"

definition mz_zip_reader_extract_to_callback ::
    "tinfl_decompressor \<Rightarrow> bytes \<Rightarrow> mz_zip_archive \<Rightarrow> nat \<Rightarrow> 's mz_file_write_func \<Rightarrow> 's \<Rightarrow> nat \<Rightarrow> 's xret" where
  "mz_zip_reader_extract_to_callback inflator dict pZip file_index pCallback pOpaque flags =
     (if m_pState pZip = None \<or> m_pRead pZip = None then xfail pZip pOpaque MZ_ZIP_INVALID_PARAMETER
      else xbind (mz_zip_reader_file_stat pZip file_index) pOpaque (\<lambda>pZip s.
        callback_entry tinfl_decompress inflator dict pCallback pZip s flags pOpaque))"

definition mz_zip_reader_extract_file_to_callback ::
    "tinfl_decompressor \<Rightarrow> bytes \<Rightarrow> mz_zip_archive \<Rightarrow> bytes option \<Rightarrow> 's mz_file_write_func \<Rightarrow> 's \<Rightarrow> nat \<Rightarrow> 's xret" where
  "mz_zip_reader_extract_file_to_callback inflator dict pZip pFilename pCallback pOpaque flags =
     xbind (mz_zip_reader_locate_file_v2 pZip pFilename None flags) pOpaque (\<lambda>pZip file_index.
       mz_zip_reader_extract_to_callback inflator dict pZip file_index pCallback pOpaque flags)"

section \<open>Extraction to a file\<close>

text \<open>
  The destination: the bytes written so far, and how many more the file takes (\<^verbatim>\<open>fwrite\<close> returns
  the count it could write).
\<close>

record dst_file =
  dst_bytes :: bytes
  dst_room :: nat

definition mz_zip_file_write_callback :: "dst_file mz_file_write_func" where
  "mz_zip_file_write_callback f ofs bs =
     (let n = min (dst_room f) (length bs)
      in (f\<lparr>dst_bytes := dst_bytes f @ take n bs, dst_room := dst_room f - n\<rparr>, n))"

text \<open>
  The outside of \<^verbatim>\<open>mz_zip_reader_extract_to_file\<close>: the room on the device if \<^verbatim>\<open>fopen\<close> succeeds, whether
  \<^verbatim>\<open>fclose\<close> does. The answer also has the file, if one was created, and the time set on it.
\<close>

definition mz_zip_reader_extract_to_file ::
    "tinfl_decompressor \<Rightarrow> bytes \<Rightarrow> mz_zip_archive \<Rightarrow> nat \<Rightarrow> nat option \<Rightarrow> bool \<Rightarrow> nat \<Rightarrow>
     (dst_file option \<times> tm option) xret" where
  "mz_zip_reader_extract_to_file inflator dict pZip file_index fopen fclose_ok flags =
     xbind (mz_zip_reader_file_stat pZip file_index) (None, None) (\<lambda>pZip s.
       if m_is_directory s \<or> \<not> m_is_supported s then xfail pZip (None, None) MZ_ZIP_UNSUPPORTED_FEATURE
       else case fopen of
           None \<Rightarrow> xfail pZip (None, None) MZ_ZIP_FILE_OPEN_FAILED
         | Some room \<Rightarrow> do {
             (pZip, f, status) \<leftarrow> mz_zip_reader_extract_to_callback inflator dict pZip file_index
               mz_zip_file_write_callback \<lparr>dst_bytes = [], dst_room = room\<rparr> flags;
             (let pZip = (if \<not> fclose_ok \<and> status then pZip\<lparr>m_last_error := MZ_ZIP_FILE_CLOSE_FAILED\<rparr> else pZip);
                  status = (status \<and> fclose_ok)
              in Some (pZip, (Some f, if status then Some (m_time s) else None), status))
           })"

definition mz_zip_reader_extract_file_to_file ::
    "tinfl_decompressor \<Rightarrow> bytes \<Rightarrow> mz_zip_archive \<Rightarrow> bytes option \<Rightarrow> nat option \<Rightarrow> bool \<Rightarrow> nat \<Rightarrow>
     (dst_file option \<times> tm option) xret" where
  "mz_zip_reader_extract_file_to_file inflator dict pZip pArchive_filename fopen fclose_ok flags =
     xbind (mz_zip_reader_locate_file_v2 pZip pArchive_filename None flags) (None, None) (\<lambda>pZip file_index.
       mz_zip_reader_extract_to_file inflator dict pZip file_index fopen fclose_ok flags)"

definition mz_zip_reader_extract_to_cfile ::
    "tinfl_decompressor \<Rightarrow> bytes \<Rightarrow> mz_zip_archive \<Rightarrow> nat \<Rightarrow> dst_file \<Rightarrow> nat \<Rightarrow> dst_file xret" where
  "mz_zip_reader_extract_to_cfile inflator dict pZip file_index pFile flags =
     xbind (mz_zip_reader_file_stat pZip file_index) pFile (\<lambda>pZip s.
       if m_is_directory s \<or> \<not> m_is_supported s then xfail pZip pFile MZ_ZIP_UNSUPPORTED_FEATURE
       else mz_zip_reader_extract_to_callback inflator dict pZip file_index mz_zip_file_write_callback pFile flags)"

definition mz_zip_reader_extract_file_to_cfile ::
    "tinfl_decompressor \<Rightarrow> bytes \<Rightarrow> mz_zip_archive \<Rightarrow> bytes option \<Rightarrow> dst_file \<Rightarrow> nat \<Rightarrow> dst_file xret" where
  "mz_zip_reader_extract_file_to_cfile inflator dict pZip pArchive_filename pFile flags =
     xbind (mz_zip_reader_locate_file_v2 pZip pArchive_filename None flags) pFile (\<lambda>pZip file_index.
       mz_zip_reader_extract_to_cfile inflator dict pZip file_index pFile flags)"

section \<open>What the callback receives\<close>

text \<open>
  The callback's state after it has been given consecutive pieces, from offset \<open>n\<close> on.
\<close>

fun feed :: "'s mz_file_write_func \<Rightarrow> nat \<Rightarrow> 's \<Rightarrow> bytes list \<Rightarrow> 's" where
  "feed cb n s [] = s"
| "feed cb n s (c # cs) = feed cb (n + length c) (fst (cb s (u64 n) c)) cs"

lemma feed_snoc: "feed cb n s (cs @ [c]) = fst (cb (feed cb n s cs) (u64 (n + length (concat cs))) c)"
  by (induction cs arbitrary: n s) (simp_all add: add.assoc)

lemma feed_invariant:
  assumes "\<And>s ofs bs. I s \<Longrightarrow> I (fst (cb s ofs bs))"
  shows "I s \<Longrightarrow> I (feed cb n s cs)"
  by (induction cs arbitrary: n s) (simp_all add: assms)

text \<open>The loops' bookkeeping agrees with the pieces; \<open>raw\<close> leaves the checksum out.\<close>

definition sink_at :: "'s mz_file_write_func \<Rightarrow> 's \<Rightarrow> bool \<Rightarrow> 's sink \<Rightarrow> bytes list \<Rightarrow> bool" where
  "sink_at cb s0 raw k cs \<longleftrightarrow> sk_opaque k = feed cb 0 s0 cs \<and>
     out_buf_ofs k = u64 (length (concat cs)) \<and> (\<not> raw \<longrightarrow> file_crc32 k = mz_crc32 0 (concat cs))"

definition sink_after :: "'s mz_file_write_func \<Rightarrow> 's \<Rightarrow> bool \<Rightarrow> 's sink \<Rightarrow> bool" where
  "sink_after cb s0 raw k \<longleftrightarrow> (\<exists>cs. sk_opaque k = feed cb 0 s0 cs \<and>
     (sk_status k = TINFL_STATUS_DONE \<longrightarrow> sink_at cb s0 raw k cs))"

lemma u64_add [simp]: "u64 (u64 a + b) = u64 (a + b)" "u64 (u64 a) = u64 a"
  by (simp_all add: u64_def mod_simps)

lemma sink_at_status [simp]: "sink_at cb s0 raw (k\<lparr>sk_status := st\<rparr>) cs = sink_at cb s0 raw k cs"
  by (simp add: sink_at_def)

lemma sink_fails_after:
  "sk_opaque k = feed cb 0 s0 cs \<Longrightarrow> sink_after cb s0 raw (sink_fails k e)"
  unfolding sink_after_def by (rule exI [of _ cs]) (simp add: sink_fails_def)

lemma sink_at_after: "sink_at cb s0 raw k cs \<Longrightarrow> sink_after cb s0 raw k"
  unfolding sink_after_def by (rule exI [of _ cs]) (simp add: sink_at_def)

lemma sink_at_snoc:
  assumes "sink_at cb s0 raw k cs" and "fst (cb (sk_opaque k) (out_buf_ofs k) c) = s"
  shows "sk_opaque (k\<lparr>sk_opaque := s\<rparr>) = feed cb 0 s0 (cs @ [c])"
    and "\<lbrakk>x = u64 (out_buf_ofs k + length c); \<not> raw \<Longrightarrow> y = mz_crc32 (file_crc32 k) c\<rbrakk> \<Longrightarrow>
      sink_at cb s0 raw (k\<lparr>sk_opaque := s, file_crc32 := y, out_buf_ofs := x\<rparr>) (cs @ [c])"
  using assms by (auto simp: sink_at_def feed_snoc crc.upd_append)

lemma put_piece_sink:
  assumes k: "sink_at cb s0 False k cs" and put: "put_piece cb u bs k = (k', stop)"
  shows "if stop then \<exists>e j cs'. k' = sink_fails j e \<and> sk_opaque j = feed cb 0 s0 cs'
    else sk_status k' = sk_status k \<and> (\<exists>cs'. sink_at cb s0 False k' cs')"
proof (cases "bs = []")
  case True
  then show ?thesis using assms by (auto simp: put_piece_def)
next
  case False
  obtain s m where sm: "cb (sk_opaque k) (out_buf_ofs k) bs = (s, m)" by fastforce
  define j where "j = k\<lparr>sk_opaque := s, file_crc32 := mz_crc32 (file_crc32 k) bs,
    out_buf_ofs := u64 (out_buf_ofs k + length bs)\<rparr>"
  have fst: "fst (cb (sk_opaque k) (out_buf_ofs k) bs) = s" using sm by simp
  have at: "sink_at cb s0 False j (cs @ [bs])" unfolding j_def
    by (rule sink_at_snoc(2) [OF k fst]) simp_all
  have opq: "sk_opaque (k\<lparr>sk_opaque := s\<rparr>) = feed cb 0 s0 (cs @ [bs])" by (rule sink_at_snoc(1) [OF k fst])
  consider "m \<noteq> length bs" "k' = sink_fails (k\<lparr>sk_opaque := s\<rparr>) MZ_ZIP_WRITE_CALLBACK_FAILED" "stop"
    | "k' = sink_fails j MZ_ZIP_DECOMPRESSION_FAILED" "stop" | "k' = j" "\<not> stop"
    using put False sm by (auto simp: put_piece_def Let_def j_def split: if_splits)
  then show ?thesis
  proof cases
    case 1
    then have "\<exists>e j cs'. k' = sink_fails j e \<and> sk_opaque j = feed cb 0 s0 cs'" using opq by blast
    then show ?thesis using \<open>stop\<close> by simp
  next
    case 2
    then show ?thesis using at by (auto simp: sink_at_def)
  next
    case 3
    then show ?thesis using at by (auto simp: j_def)
  qed
qed

lemma inflate_to_callback_sink:
  "inflate_to_callback inflate cb u inflator src dict k = Some k' \<Longrightarrow>
     \<forall>cs. sink_at cb s0 False k cs \<longrightarrow> sink_after cb s0 False k'"
proof (induction rule: inflate_to_callback.raw_induct [rotated, consumes 1])
  case (1 f inflate cb u inflator src dict k k')
  show ?case
  proof (intro allI impI)
    fix cs
    assume k: "sink_at cb s0 False k cs"
    obtain r where r: "refill (sk_zip k) src = Some r" using "1.hyps"
      by (cases "refill (sk_zip k) src") (simp_all add: Let_def)
    show "sink_after cb s0 False k'"
    proof (cases r)
      case None
      then have "k' = sink_fails k MZ_ZIP_FILE_READ_FAILED" using "1.hyps" r by (simp add: Let_def)
      then show ?thesis using k by (auto simp: sink_at_def intro: sink_fails_after)
    next
      case (Some src1)
      define at where "at = out_buf_ofs k AND (TINFL_LZ_DICT_SIZE - 1)"
      obtain res where res: "inflate inflator (src_avail src1) dict at (TINFL_LZ_DICT_SIZE - at) (more_input src1) = Some res"
        using "1.hyps" r Some
        by (cases "inflate inflator (src_avail src1) dict at (TINFL_LZ_DICT_SIZE - at) (more_input src1)")
          (simp_all add: Let_def at_def)
      obtain j stop where j: "put_piece cb u (take (res_out res) (drop at (res_buf res)))
        (k\<lparr>sk_status := res_status res\<rparr>) = (j, stop)" by fastforce
      have step: "(if \<not> stop \<and> (res_status res = TINFL_STATUS_NEEDS_MORE_INPUT \<or>
            res_status res = TINFL_STATUS_HAS_MORE_OUTPUT)
          then f inflate cb u (res_dec res) (src1\<lparr>src_avail := drop (res_in res) (src_avail src1)\<rparr>) (res_buf res) j
          else Some j) = Some k'"
        using "1.hyps" r Some res j by (simp add: at_def Let_def)
      have put: "if stop then \<exists>e i cs'. j = sink_fails i e \<and> sk_opaque i = feed cb 0 s0 cs'
        else sk_status j = res_status res \<and> (\<exists>cs'. sink_at cb s0 False j cs')"
        using put_piece_sink [OF _ j, of s0 cs] k by (cases stop) simp_all
      show ?thesis
      proof (cases stop)
        case True
        then show ?thesis using step put by (auto intro: sink_fails_after)
      next
        case False
        then obtain cs' where cs': "sink_at cb s0 False j cs'" using put by auto
        show ?thesis
        proof (cases "res_status res = TINFL_STATUS_NEEDS_MORE_INPUT \<or> res_status res = TINFL_STATUS_HAS_MORE_OUTPUT")
          case True
          then have "f inflate cb u (res_dec res) (src1\<lparr>src_avail := drop (res_in res) (src_avail src1)\<rparr>)
              (res_buf res) j = Some k'" using step False by simp
          then show ?thesis using "1.IH" cs' by blast
        next
          case no: False
          then show ?thesis using step False cs' by (auto intro: sink_at_after)
        qed
      qed
    qed
  qed
qed

lemma copy_from_file_sink:
  "copy_from_file cb flags n ofs rest k = Some k' \<Longrightarrow>
     \<forall>raw cs. raw = (flags AND MZ_ZIP_FLAG_COMPRESSED_DATA \<noteq> 0) \<longrightarrow> sink_at cb s0 raw k cs \<longrightarrow>
       sink_after cb s0 raw k'"
proof (induction rule: copy_from_file.raw_induct [rotated, consumes 1])
  case (1 f cb flags n ofs rest k k')
  show ?case
  proof (intro allI impI)
    fix raw cs
    assume raw_def: "raw = (flags AND MZ_ZIP_FLAG_COMPRESSED_DATA \<noteq> 0)" and k: "sink_at cb s0 raw k cs"
    show "sink_after cb s0 raw k'"
    proof (cases "rest = 0")
      case True
      then show ?thesis using "1.hyps" k by (auto intro: sink_at_after)
    next
      case False
      define m where "m = min n rest"
      obtain bs where bs: "call_read (sk_zip k) ofs m = Some bs"
        using "1.hyps" False by (cases "call_read (sk_zip k) ofs m") (simp_all add: Let_def m_def)
      define k1 where "k1 = (if raw then k else k\<lparr>file_crc32 := mz_crc32 (file_crc32 k) bs\<rparr>)"
      obtain s c where sc: "cb (sk_opaque k) (out_buf_ofs k) bs = (s, c)" by fastforce
      have fst: "fst (cb (sk_opaque k) (out_buf_ofs k) bs) = s" using sc by simp
      have k1: "sk_opaque k1 = sk_opaque k" "out_buf_ofs k1 = out_buf_ofs k" "sk_zip k1 = sk_zip k"
        by (simp_all add: k1_def)
      show ?thesis
      proof (cases "length bs = m")
        case short: False
        then have "k' = sink_fails k MZ_ZIP_FILE_READ_FAILED"
          using "1.hyps" False bs by (simp add: m_def Let_def)
        then show ?thesis using k by (auto simp: sink_at_def intro: sink_fails_after)
      next
        case full: True
        define k2 where "k2 = k1\<lparr>sk_opaque := s, out_buf_ofs := u64 (out_buf_ofs k + m)\<rparr>"
        have step: "(if c \<noteq> m then Some (sink_fails (k1\<lparr>sk_opaque := s\<rparr>) MZ_ZIP_WRITE_CALLBACK_FAILED)
            else f cb flags n (u64 (ofs + m)) (rest - m) k2) = Some k'"
          using "1.hyps" False bs full sc k1 by (simp add: m_def k1_def raw_def Let_def k2_def split: if_splits)
        show ?thesis
        proof (cases "c = m")
          case True
          have "k2 = k\<lparr>sk_opaque := s, file_crc32 := file_crc32 k1, out_buf_ofs := u64 (out_buf_ofs k + length bs)\<rparr>"
            using full by (simp add: k2_def k1_def)
          then have "sink_at cb s0 raw k2 (cs @ [bs])"
            using sink_at_snoc(2) [OF k fst, of "u64 (out_buf_ofs k + length bs)" "file_crc32 k1"]
            by (simp add: k1_def)
          moreover have "f cb flags n (u64 (ofs + m)) (rest - m) k2 = Some k'" using step True by simp
          ultimately show ?thesis using "1.IH" raw_def by blast
        next
          case no: False
          have "sk_opaque (k1\<lparr>sk_opaque := s\<rparr>) = feed cb 0 s0 (cs @ [bs])"
            using sink_at_snoc(1) [OF k fst] by simp
          then show ?thesis using step no by (auto intro: sink_fails_after)
        qed
      qed
    qed
  qed
qed

lemma copy_from_mem_sink:
  assumes k: "sink_at cb s0 raw k cs" and raw: "raw = (flags AND MZ_ZIP_FLAG_COMPRESSED_DATA \<noteq> 0)"
  shows "sink_after cb s0 raw (copy_from_mem cb flags bs k)"
proof -
  obtain s n where sn: "cb (sk_opaque k) (out_buf_ofs k) bs = (s, n)" by fastforce
  then have fst: "fst (cb (sk_opaque k) (out_buf_ofs k) bs) = s" by simp
  show ?thesis
  proof (cases "n = length bs")
    case False
    have "sk_opaque (k\<lparr>sk_opaque := s\<rparr>) = feed cb 0 s0 (cs @ [bs])" by (rule sink_at_snoc(1) [OF k fst])
    then show ?thesis using False sn unfolding sink_after_def
      by (intro exI [of _ "cs @ [bs]"]) (simp add: copy_from_mem_def Let_def sink_fails_def)
  next
    case True
    have "copy_from_mem cb flags bs k = k\<lparr>sk_opaque := s,
        file_crc32 := (if raw then file_crc32 k else mz_crc32 (file_crc32 k) bs),
        out_buf_ofs := u64 (out_buf_ofs k + length bs)\<rparr>"
      using True sn raw by (simp add: copy_from_mem_def Let_def)
    moreover have "sink_at cb s0 raw (k\<lparr>sk_opaque := s,
        file_crc32 := (if raw then file_crc32 k else mz_crc32 (file_crc32 k) bs),
        out_buf_ofs := u64 (out_buf_ofs k + length bs)\<rparr>) (cs @ [bs])"
      by (rule sink_at_snoc(2) [OF k fst]) simp_all
    ultimately show ?thesis by (simp add: sink_at_after)
  qed
qed

lemma callback_data_sink:
  assumes k: "sink_at cb s0 raw k cs" and raw: "raw = (flags AND MZ_ZIP_FLAG_COMPRESSED_DATA \<noteq> 0)"
    and r: "callback_data inflate inflator dict cb flags s src k = Some k'"
  shows "sink_after cb s0 raw k'"
proof (cases "copied_raw flags s")
  case True
  show ?thesis
  proof (cases "pMem_of (sk_zip k) = None")
    case False
    then show ?thesis using True r copy_from_mem_sink [OF k raw] by (auto simp: callback_data_def)
  next
    case from_file: True
    then have "copy_from_file cb flags (read_buf_size src) (cur_ofs src) (comp_remaining src) k = Some k'"
      using True r by (simp add: callback_data_def)
    then show ?thesis by (rule copy_from_file_sink [rule_format, OF _ raw k])
  qed
next
  case False
  then have no: "\<not> raw" using raw by (simp add: copied_raw_def)
  obtain ok where ok: "call_alloc (sk_zip k) TINFL_LZ_DICT_SIZE = Some ok"
    using r False by (cases "call_alloc (sk_zip k) TINFL_LZ_DICT_SIZE") (simp_all add: callback_data_def)
  show ?thesis
  proof (cases ok)
    case True
    then have "inflate_to_callback inflate cb (m_uncomp_size s) (tinfl_init inflator) src dict k = Some k'"
      using r False ok by (simp add: callback_data_def)
    then show ?thesis using inflate_to_callback_sink k no by fastforce
  next
    case fails: False
    then show ?thesis using r False ok k
      by (auto simp: callback_data_def sink_at_def intro: sink_fails_after)
  qed
qed

text \<open>
  What an extraction of entry statistics \<open>s\<close> has done with the callback: fed it consecutive pieces; and after
  a success without \<^verbatim>\<open>MZ_ZIP_FLAG_COMPRESSED_DATA\<close>, of an entry that has data, the pieces have the size and
  the checksum of the central directory.
\<close>

definition delivered ::
    "'s mz_file_write_func \<Rightarrow> nat \<Rightarrow> mz_zip_archive_file_stat \<Rightarrow> 's \<Rightarrow> 's \<Rightarrow> bool \<Rightarrow> bool" where
  "delivered cb flags s s0 s' ok \<longleftrightarrow> (\<exists>cs. s' = feed cb 0 s0 cs \<and>
     (ok \<and> flags AND MZ_ZIP_FLAG_COMPRESSED_DATA = 0 \<and> \<not> m_is_directory s \<and> m_comp_size s \<noteq> 0 \<longrightarrow>
        u64 (length (concat cs)) = m_uncomp_size s \<and> unat (mz_crc32 0 (concat cs)) = m_crc32 s))"

lemma delivered_nothing: "\<not> ok \<or> m_is_directory s \<or> m_comp_size s = 0 \<Longrightarrow> delivered cb flags s s0 s0 ok"
  unfolding delivered_def by (rule exI [of _ "[]"]) auto

lemma callback_finish_delivered:
  assumes "sink_after cb s0 (flags AND MZ_ZIP_FLAG_COMPRESSED_DATA \<noteq> 0) k"
    and "callback_finish flags s k = Some (z', s', ok)"
  shows "delivered cb flags s s0 s' ok"
proof -
  obtain cs where cs: "sk_opaque k = feed cb 0 s0 cs"
    "sk_status k = TINFL_STATUS_DONE \<Longrightarrow> sink_at cb s0 (flags AND MZ_ZIP_FLAG_COMPRESSED_DATA \<noteq> 0) k cs"
    using assms(1) by (auto simp: sink_after_def)
  have s': "s' = sk_opaque k"
    using assms(2) by (auto simp: callback_finish_def Let_def sink_fails_def split: if_splits)
  have "ok \<Longrightarrow> sk_status k = TINFL_STATUS_DONE" and
    "ok \<Longrightarrow> flags AND MZ_ZIP_FLAG_COMPRESSED_DATA = 0 \<Longrightarrow>
      out_buf_ofs k = m_uncomp_size s \<and> unat (file_crc32 k) = m_crc32 s"
    using assms(2) by (auto simp: callback_finish_def Let_def sink_fails_def split: if_splits)
  then show ?thesis unfolding delivered_def
    by (intro exI [of _ cs]) (use cs s' in \<open>auto simp: sink_at_def\<close>)
qed

lemma callback_entry_delivered:
  assumes "callback_entry inflate inflator dict cb z s flags s0 = Some (z', s', ok)"
  shows "delivered cb flags s s0 s' ok"
proof (cases "m_is_directory s \<or> m_comp_size s = 0")
  case True
  then show ?thesis using assms by (auto simp: callback_entry_def intro: delivered_nothing)
next
  case False
  note entry = assms [unfolded callback_entry_def]
  show ?thesis
  proof (cases "entry_refused flags s")
    case (Some e)
    then show ?thesis using entry False by (auto simp: xfail_def intro: delivered_nothing)
  next
    case None
    obtain at where at: "local_data_ofs z s = Some at"
      using entry False None by (cases "local_data_ofs z s") simp_all
    show ?thesis
    proof (cases at)
      case (Inl e)
      then show ?thesis using entry False None at by (auto simp: xfail_def intro: delivered_nothing)
    next
      case (Inr ofs)
      obtain src where src: "open_source z s ofs None = Some src"
        using entry False None at Inr by (cases "open_source z s ofs None") simp_all
      show ?thesis
      proof (cases src)
        case (Inl e)
        then show ?thesis using entry False None at Inr src
          by (cases e) (auto simp: xfail_def intro: delivered_nothing)
      next
        case src': (Inr sr)
        define k0 where "k0 = \<lparr>sk_zip = z, sk_opaque = s0, sk_status = TINFL_STATUS_DONE, file_crc32 = 0,
          out_buf_ofs = 0\<rparr>"
        obtain k where k: "callback_data inflate inflator dict cb flags s sr k0 = Some k"
          "callback_finish flags s k = Some (z', s', ok)"
          using entry False None at Inr src src'
          by (cases "callback_data inflate inflator dict cb flags s sr k0") (simp_all add: k0_def)
        have "sink_at cb s0 (flags AND MZ_ZIP_FLAG_COMPRESSED_DATA \<noteq> 0) k0 []"
          by (simp add: sink_at_def k0_def crc.upd_nil)
        then have "sink_after cb s0 (flags AND MZ_ZIP_FLAG_COMPRESSED_DATA \<noteq> 0) k"
          by (rule callback_data_sink [OF _ refl k(1)])
        then show ?thesis by (rule callback_finish_delivered [OF _ k(2)])
      qed
    qed
  qed
qed

lemma extract_to_callback_delivered:
  assumes "mz_zip_reader_extract_to_callback inflator dict z i cb s0 flags = Some (z', s', ok)"
  shows "\<exists>s. delivered cb flags s s0 s' ok \<and> (ok \<longrightarrow> (\<exists>z1. mz_zip_reader_file_stat z i = Some (z1, Inr s)))"
proof (cases "m_pState z = None \<or> m_pRead z = None")
  case True
  then have "xfail z s0 MZ_ZIP_INVALID_PARAMETER = Some (z', s', ok)"
    using assms unfolding mz_zip_reader_extract_to_callback_def by (simp only: if_True)
  then have "s' = s0" "\<not> ok" by (simp_all add: xfail_def)
  then show ?thesis by (simp add: delivered_nothing)
next
  case False
  have call: "xbind (mz_zip_reader_file_stat z i) s0 (\<lambda>z1 s.
      callback_entry tinfl_decompress inflator dict cb z1 s flags s0) = Some (z', s', ok)"
    using assms unfolding mz_zip_reader_extract_to_callback_def by (simp only: if_not_P [OF False])
  consider (none) "mz_zip_reader_file_stat z i = None"
    | (err) z1 e where "mz_zip_reader_file_stat z i = Some (z1, Inl e)"
    | (ok) z1 s where "mz_zip_reader_file_stat z i = Some (z1, Inr s)"
    by (metis option.exhaust surj_pair sum.exhaust)
  then show ?thesis
  proof cases
    case none
    then show ?thesis using call by (simp add: xbind_def)
  next
    case err
    then have "s' = s0" "\<not> ok" using call by (simp_all add: xbind_def)
    then show ?thesis by (simp add: delivered_nothing)
  next
    case ok
    then have "callback_entry tinfl_decompress inflator dict cb z1 s flags s0 = Some (z', s', ok)"
      using call by (simp add: xbind_def)
    then have "delivered cb flags s s0 s' ok" by (rule callback_entry_delivered)
    then show ?thesis using ok(1) by blast
  qed
qed

end
