(* ===== verification/ExtractSafe.thy ===== *)
theory ExtractSafe
  imports ZipExtract TinflSafe
begin

unbundle bit_operations_syntax

text \<open>
  Extraction always returns: the loops around \<^verbatim>\<open>tinfl_decompress\<close> end for every archive in a file and every
  callback, and no buffer is left. First, that an archive opened from a file is not one in memory.
\<close>

section \<open>Opening a file keeps it out of memory\<close>

definition keeps_mem :: "mz_zip_archive \<Rightarrow> 'a zret \<Rightarrow> bool" where
  "keeps_mem z m \<longleftrightarrow> (\<forall>z' a. m = Some (z', Inr a) \<longrightarrow> pMem_of z' = pMem_of z)"

named_theorems keeps_intros

lemma keeps_basic [keeps_intros]:
  "pMem_of z' = pMem_of z \<Longrightarrow> keeps_mem z (zok z' a)" "keeps_mem z (mz_zip_set_error z' e)" "keeps_mem z None"
  "keeps_mem z (Some (z', Inl e))"
  by (simp_all add: keeps_mem_def zok_def mz_zip_set_error_def)

lemma keeps_bind [keeps_intros]: "(\<And>x. m = Some x \<Longrightarrow> keeps_mem z (f x)) \<Longrightarrow> keeps_mem z (Option.bind m f)"
  by (cases m) (simp_all add: keeps_basic)

lemma keeps_if [keeps_intros]: "(b \<Longrightarrow> keeps_mem z x) \<Longrightarrow> (\<not> b \<Longrightarrow> keeps_mem z y) \<Longrightarrow> keeps_mem z (if b then x else y)"
  by simp

lemma keeps_zbind [keeps_intros]:
  "keeps_mem z m \<Longrightarrow> (\<And>z' a. pMem_of z' = pMem_of z \<Longrightarrow> keeps_mem z' (f z' a)) \<Longrightarrow> keeps_mem z (zbind m f)"
proof -
  assume m: "keeps_mem z m" and f: "\<And>z' a. pMem_of z' = pMem_of z \<Longrightarrow> keeps_mem z' (f z' a)"
  consider "m = None" | z' e where "m = Some (z', Inl e)" | z' a where "m = Some (z', Inr a)"
    by (metis option.exhaust surj_pair sum.exhaust)
  then show "keeps_mem z (zbind m f)"
  proof cases
    case (3 z' a)
    then have "pMem_of z' = pMem_of z" using m by (simp add: keeps_mem_def)
    then show ?thesis using f [of z' a] 3 by (simp add: keeps_mem_def zbind_def)
  qed (simp_all add: keeps_mem_def zbind_def)
qed

lemma keeps_eq: "keeps_mem z m \<Longrightarrow> pMem_of z = pMem_of w \<Longrightarrow> keeps_mem w m"
  by (simp add: keeps_mem_def)

lemma pMem_updates [simp]:
  "pMem_of (z\<lparr>m_last_error := e\<rparr>) = pMem_of z" "pMem_of (z\<lparr>m_total_files := n\<rparr>) = pMem_of z"
  "pMem_of (z\<lparr>m_central_directory_file_ofs := n\<rparr>) = pMem_of z" "pMem_of (z\<lparr>m_archive_size := n\<rparr>) = pMem_of z"
  "pMem_of (set_state z st) = m_pMem st"
  by (simp_all add: pMem_of_def set_state_def)

lemma pMem_state: "m_pState z = Some st \<Longrightarrow> m_pMem st = pMem_of z"
  by (simp add: pMem_of_def)

lemma read_eocd_keeps: "keeps_mem z (read_eocd z)"
  unfolding read_eocd_def by (intro keeps_intros) (auto split: option.split intro!: keeps_intros)

lemma read_zip64_locator_keeps: "keeps_mem z (read_zip64_locator z n)"
  unfolding read_zip64_locator_def by (intro keeps_intros) (simp_all add: pMem_state)

lemma read_eocd64_keeps: "keeps_mem z (read_eocd64 z n loc)"
  unfolding read_eocd64_def by (intro keeps_intros) (auto split: option.split intro!: keeps_intros)

lemma read_fields_keeps: "keeps_mem z (read_fields z p loc rec)"
  unfolding read_fields_def read_fields64_def Let_def by (intro keeps_intros) (auto intro!: keeps_intros)

lemma check_cdir_keeps: "keeps_mem z (check_cdir z n f)"
  unfolding check_cdir_def Let_def by (intro keeps_intros) (simp_all add: pMem_state)

lemma entry_zip64_keeps: "keeps_mem z (entry_zip64 z o' p n)"
  unfolding entry_zip64_def Let_def
  by (intro keeps_intros) (auto simp: pMem_state split: option.split sum.split intro!: keeps_intros)

lemma entry_checks_keeps: "keeps_mem z (entry_checks z d p n)"
  unfolding entry_checks_def Let_def by (intro keeps_intros) simp_all

lemma read_entry_keeps: "keeps_mem z (read_entry z d o' s i p n)"
  unfolding read_entry_def
  by (intro keeps_intros) (auto intro: keeps_eq [OF entry_zip64_keeps] entry_checks_keeps simp: pMem_state)

lemma read_entries_keeps: "keeps_mem z (read_entries z d o' s left i p n)"
proof (induction left arbitrary: z i p n)
  case (Suc left)
  show ?case unfolding read_entries.simps by (rule keeps_zbind [OF read_entry_keeps Suc.IH])
qed (simp add: keeps_intros)

lemma load_cdir_keeps: "keeps_mem z (load_cdir z f s)"
  unfolding load_cdir_def
  by (intro keeps_intros) (auto intro: keeps_eq [OF read_entries_keeps] simp: pMem_state)

lemma sort_keeps: "mz_zip_reader_sort_central_dir_offsets_by_filename z = Some z' \<Longrightarrow> pMem_of z' = pMem_of z"
  by (auto simp: mz_zip_reader_sort_central_dir_offsets_by_filename_def pMem_of_def split: bind_splits)

lemma read_central_dir_keeps: "keeps_mem z (mz_zip_reader_read_central_dir z flags)"
proof -
  have last: "keeps_mem z (if b then do { z' \<leftarrow> mz_zip_reader_sort_central_dir_offsets_by_filename z; zok z' () } else zok z ())"
    for z b by (intro keeps_intros) (simp_all add: sort_keeps)
  show ?thesis
    unfolding mz_zip_reader_read_central_dir_def Let_def split_def
    by (intro keeps_zbind read_eocd_keeps read_zip64_locator_keeps read_eocd64_keeps read_fields_keeps check_cdir_keeps
      load_cdir_keeps last)
qed

lemma finish_init_keeps: "keeps_mem z (finish_init z flags)"
proof -
  consider "mz_zip_reader_read_central_dir z flags = None"
    | z' e where "mz_zip_reader_read_central_dir z flags = Some (z', Inl e)"
    | z' a where "mz_zip_reader_read_central_dir z flags = Some (z', Inr a)"
    by (metis option.exhaust surj_pair sum.exhaust)
  then show ?thesis
  proof cases
    case (2 z' e)
    then show ?thesis
      by (cases "mz_zip_reader_end_internal z' False") (auto simp: finish_init_def keeps_mem_def)
  next
    case (3 z' a)
    then show ?thesis using read_central_dir_keeps [of z flags] by (simp add: finish_init_def keeps_mem_def zok_def)
  qed (simp add: finish_init_def keeps_mem_def)
qed

lemma init_internal_keeps: "m_pState z = None \<Longrightarrow> keeps_mem z (mz_zip_reader_init_internal z flags)"
  unfolding mz_zip_reader_init_internal_def Let_def by (intro keeps_intros) (simp_all add: pMem_of_def zero_state_def)

lemma init_file_not_mem:
  assumes "m_pState z = None" "mz_zip_reader_init_file z contents ok flags = Some (z', Inr u)"
  shows "pMem_of z' = None"
proof -
  have "keeps_mem z (mz_zip_reader_init_file z contents ok flags)"
    unfolding mz_zip_reader_init_file_def mz_zip_reader_init_file_v2_def Let_def
    by (cases contents) (auto intro!: keeps_intros init_internal_keeps [OF assms(1)] intro: keeps_eq [OF finish_init_keeps] simp: pMem_state)
  then show ?thesis using assms by (auto simp: keeps_mem_def pMem_of_def)
qed

section \<open>The source of compressed bytes\<close>

lemma resumable_flags:
  assumes "f AND TINFL_FLAG_USING_NON_WRAPPING_OUTPUT_BUF = 0 \<longleftrightarrow> g AND TINFL_FLAG_USING_NON_WRAPPING_OUTPUT_BUF = 0"
  shows "resumable r next f = resumable r next g"
  using assms by (simp add: resumable_def saved_vars_def label_inv_def label_at_def huff_inv_def in_lens_def slow_ok_def has_flag_def)

lemma more_input_flags:
  "more_input src AND TINFL_FLAG_USING_NON_WRAPPING_OUTPUT_BUF = 0"
  "more_input src AND TINFL_FLAG_HAS_MORE_INPUT \<noteq> 0 \<longleftrightarrow> comp_remaining src \<noteq> 0"
  "(TINFL_FLAG_USING_NON_WRAPPING_OUTPUT_BUF OR more_input src) AND TINFL_FLAG_USING_NON_WRAPPING_OUTPUT_BUF \<noteq> 0"
  "(TINFL_FLAG_USING_NON_WRAPPING_OUTPUT_BUF OR more_input src) AND TINFL_FLAG_HAS_MORE_INPUT \<noteq> 0 \<longleftrightarrow> comp_remaining src \<noteq> 0"
  by (simp_all add: more_input_def)

text \<open>More input is promised only from a file, through a buffer; a turn that asks for it lowers the weight.\<close>

definition source_ok :: "mz_zip_archive \<Rightarrow> read_src \<Rightarrow> bool" where
  "source_ok z src \<longleftrightarrow> comp_remaining src = 0 \<or> pMem_of z = None \<and> 0 < read_buf_size src"

definition weight :: "read_src \<Rightarrow> nat" where
  "weight src = 2 * comp_remaining src + (if src_avail src = [] then 0 else 1)"

lemma refill_ok:
  assumes "reader_ok z" "source_ok z src"
  shows "\<exists>r. refill z src = Some r \<and> (\<forall>s. r = Some s \<longrightarrow>
    source_ok z s \<and> weight s \<le> weight src \<and> (comp_remaining s \<noteq> 0 \<longrightarrow> 2 * comp_remaining s < weight src))"
proof (cases "src_avail src = [] \<and> pMem_of z = None")
  case False
  then show ?thesis using assms(2) by (auto simp: refill_def weight_def source_ok_def)
next
  case True
  define n where "n = min (read_buf_size src) (comp_remaining src)"
  obtain bs where bs: "call_read z (cur_ofs src) n = Some bs" "length bs \<le> n" using rd.read_bounded [OF assms(1)] by blast
  have r: "refill z src = (if length bs \<noteq> n then Some None else Some (Some (src\<lparr>src_avail := bs, cur_ofs := u64 (cur_ofs src + n),
           comp_remaining := comp_remaining src - n\<rparr>)))"
    using True bs(1) by (simp add: refill_def n_def Let_def)
  show ?thesis
  proof (cases "length bs = n")
    case False
    then show ?thesis by (simp add: r)
  next
    case len: True
    have "0 < n" if "comp_remaining src \<noteq> 0" using that assms(2) by (auto simp: n_def source_ok_def)
    moreover have "n \<le> comp_remaining src" by (simp add: n_def)
    moreover have "weight (src\<lparr>src_avail := bs, cur_ofs := u64 (cur_ofs src + n), comp_remaining := comp_remaining src - n\<rparr>) =
        2 * (comp_remaining src - n) + (if n = 0 then 0 else 1)" using len by (auto simp: weight_def)
    moreover have "weight src = 2 * comp_remaining src" using True by (simp add: weight_def)
    ultimately have "weight (src\<lparr>src_avail := bs, cur_ofs := u64 (cur_ofs src + n), comp_remaining := comp_remaining src - n\<rparr>) \<le> weight src"
      "comp_remaining src - n \<noteq> 0 \<Longrightarrow> 2 * (comp_remaining src - n) < weight src"
      by (auto split: if_splits)
    then show ?thesis using len assms(2) by (simp add: r source_ok_def) auto
  qed
qed

lemma weight_taken: "weight (s\<lparr>src_avail := drop i (src_avail s)\<rparr>) \<le> weight s"
  by (simp add: weight_def)

section \<open>Extraction to memory\<close>

lemma extract_mem_loop_total:
  assumes "reader_ok z" "uncomp \<le> length buf" "length buf < 2 ^ 64" "source_ok z src" "ofs \<le> uncomp"
    "resumable infl ofs TINFL_FLAG_USING_NON_WRAPPING_OUTPUT_BUF"
  shows "\<exists>z' b st n. extract_mem_loop tinfl_decompress uncomp z infl src buf ofs = Some (z', b, st, n) \<and>
    (z' = z \<or> z' = z\<lparr>m_last_error := MZ_ZIP_DECOMPRESSION_FAILED\<rparr>) \<and> length b = length buf \<and> n \<le> uncomp \<and> (\<forall>j \<ge> uncomp. b ! j = buf ! j)"
  using assms(2-)
proof (induction "weight src" arbitrary: infl src buf ofs rule: less_induct)
  case less
  obtain r where r: "refill z src = Some r" "\<And>s. r = Some s \<Longrightarrow> source_ok z s"
      "\<And>s. r = Some s \<Longrightarrow> comp_remaining s \<noteq> 0 \<Longrightarrow> 2 * comp_remaining s < weight src"
    using refill_ok [OF assms(1) less.prems(3)] by blast
  show ?case
  proof (cases r)
    case None
    have "extract_mem_loop tinfl_decompress uncomp z infl src buf ofs =
        Some (z\<lparr>m_last_error := MZ_ZIP_DECOMPRESSION_FAILED\<rparr>, buf, TINFL_STATUS_FAILED, ofs)"
      using None r(1) by (subst extract_mem_loop.simps) simp
    then show ?thesis using less.prems(4) by blast
  next
    case (Some s)
    define fl where "fl = TINFL_FLAG_USING_NON_WRAPPING_OUTPUT_BUF OR more_input s"
    have size: "sub64 uncomp ofs = uncomp - ofs" by (rule sub64_le) (use less.prems in simp_all)
    have "resumable infl ofs fl"
      using less.prems(5) resumable_flags [of fl TINFL_FLAG_USING_NON_WRAPPING_OUTPUT_BUF infl ofs] more_input_flags(3) by (simp add: fl_def)
    from tinfl_call_ok [OF this, of "uncomp - ofs" buf "src_avail s"] less.prems
    obtain res where res: "tinfl_decompress infl (src_avail s) buf ofs (uncomp - ofs) fl = Some res"
        "res_out res \<le> uncomp - ofs" "length (res_buf res) = length buf"
        "\<forall>j. j < ofs \<or> ofs + res_out res \<le> j \<longrightarrow> res_buf res ! j = buf ! j"
        "res_status res = TINFL_STATUS_NEEDS_MORE_INPUT \<longrightarrow> res_in res = length (src_avail s) \<and> fl AND TINFL_FLAG_HAS_MORE_INPUT \<noteq> 0"
        "resumable (res_dec res) (ofs + res_out res) fl" by auto
    define ofs' where "ofs' = ofs + res_out res"
    have ofs': "ofs' \<le> uncomp" "u64 ofs' = ofs'" using res(2) less.prems by (simp_all add: ofs'_def)
    define s' where "s' = s\<lparr>src_avail := drop (res_in res) (src_avail s)\<rparr>"
    have step: "extract_mem_loop tinfl_decompress uncomp z infl src buf ofs =
        (if res_status res = TINFL_STATUS_NEEDS_MORE_INPUT
         then extract_mem_loop tinfl_decompress uncomp z (res_dec res) s' (res_buf res) ofs'
         else Some (z, res_buf res, res_status res, ofs'))"
      using r(1) Some res(1) ofs'(2)
      by (subst extract_mem_loop.simps) (simp add: size fl_def s'_def ofs'_def Let_def)
    show ?thesis
    proof (cases "res_status res = TINFL_STATUS_NEEDS_MORE_INPUT")
      case True
      then have more: "comp_remaining s \<noteq> 0" "src_avail s' = []" using res(5) more_input_flags(4) by (simp_all add: fl_def s'_def)
      have "weight s' = 2 * comp_remaining s" using more(2) by (simp add: weight_def s'_def)
      then have "weight s' < weight src" using r(3) [OF Some more(1)] by simp
      moreover have "source_ok z s'" using r(2) [OF Some] by (simp add: source_ok_def s'_def)
      moreover have "resumable (res_dec res) ofs' TINFL_FLAG_USING_NON_WRAPPING_OUTPUT_BUF"
        using res(6) resumable_flags [of fl TINFL_FLAG_USING_NON_WRAPPING_OUTPUT_BUF "res_dec res" ofs'] more_input_flags(3)
        by (simp add: fl_def ofs'_def)
      ultimately obtain z' b st n where "extract_mem_loop tinfl_decompress uncomp z (res_dec res) s' (res_buf res) ofs' = Some (z', b, st, n)"
          "z' = z \<or> z' = z\<lparr>m_last_error := MZ_ZIP_DECOMPRESSION_FAILED\<rparr>" "length b = length buf" "n \<le> uncomp" "\<forall>j \<ge> uncomp. b ! j = res_buf res ! j"
        using less.hyps [of s' "res_buf res" ofs' "res_dec res"] less.prems(1,2) res(3) ofs'(1) by auto
      moreover have "res_buf res ! j = buf ! j" if "uncomp \<le> j" for j using res(4) that ofs'(1) by (simp add: ofs'_def)
      ultimately show ?thesis using True by (simp add: step)
    next
      case False
      have "res_buf res ! j = buf ! j" if "uncomp \<le> j" for j using res(4) that ofs'(1) by (simp add: ofs'_def)
      then show ?thesis using False res(3) ofs'(1) by (simp add: step)
    qed
  qed
qed

section \<open>Extraction to a callback\<close>

text \<open>Extraction changes nothing of the archive but the error code.\<close>

definition same_zip :: "mz_zip_archive \<Rightarrow> mz_zip_archive \<Rightarrow> bool" where
  "same_zip z z' \<longleftrightarrow> (\<exists>e. z' = z\<lparr>m_last_error := e\<rparr>)"

lemma same_zip_simps [simp]:
  "same_zip z (z\<lparr>m_last_error := e\<rparr>)" "same_zip (z\<lparr>m_last_error := e\<rparr>) z' \<longleftrightarrow> same_zip z z'"
  by (auto simp: same_zip_def)

lemma same_zip_refl [simp]: "same_zip z z"
  unfolding same_zip_def by (rule exI [of _ "m_last_error z"]) simp

lemma sink_fails_simps [simp]:
  "sk_zip (sink_fails k e) = (sk_zip k)\<lparr>m_last_error := e\<rparr>" "sk_status (sink_fails k e) = TINFL_STATUS_FAILED"
  by (simp_all add: sink_fails_def)

lemma put_piece_ok:
  assumes "put_piece cb u bs k = (k', stop)" "out_buf_ofs k \<le> u" "u + length bs < 2 ^ 64"
  shows "same_zip (sk_zip k) (sk_zip k') \<and>
    (\<not> stop \<longrightarrow> out_buf_ofs k' = out_buf_ofs k + length bs \<and> out_buf_ofs k' \<le> u \<and> sk_zip k' = sk_zip k)"
  using assms by (cases "bs = []") (auto simp: put_piece_def Let_def split: prod.splits if_splits)

lemma inflate_to_callback_total:
  assumes "u + 32768 < 2 ^ 64"
  shows "reader_ok (sk_zip k) \<Longrightarrow> pMem_of (sk_zip k) = None \<Longrightarrow> source_ok (sk_zip k) src \<Longrightarrow> out_buf_ofs k \<le> u \<Longrightarrow>
    length dict = TINFL_LZ_DICT_SIZE \<Longrightarrow> resumable infl 0 0 \<Longrightarrow>
    \<exists>k'. inflate_to_callback tinfl_decompress cb u infl src dict k = Some k' \<and> same_zip (sk_zip k) (sk_zip k')"
proof (induction "(src, k)" arbitrary: infl src dict k
    rule: wf_induct_rule [OF wf_measures [of "[\<lambda>(src, k). weight src, \<lambda>(src, k). u - out_buf_ofs k]"]])
  case 1
  note prems = "1.prems"
  define at where "at = out_buf_ofs k AND (TINFL_LZ_DICT_SIZE - 1)"
  have at: "at < 32768" using and_mask_less [of "out_buf_ofs k" 15] by (simp add: at_def)
  obtain r where r: "refill (sk_zip k) src = Some r" "\<And>s. r = Some s \<Longrightarrow> source_ok (sk_zip k) s \<and> weight s \<le> weight src"
      "\<And>s. r = Some s \<Longrightarrow> comp_remaining s \<noteq> 0 \<Longrightarrow> 2 * comp_remaining s < weight src"
    using refill_ok [OF prems(1,3)] by blast
  show ?case
  proof (cases r)
    case None
    then show ?thesis using r(1) by (subst inflate_to_callback.simps) (simp add: Let_def)
  next
    case (Some s)
    have "resumable infl at (more_input s)"
      using prems(6) resumable_wrap [OF more_input_flags(1), of infl at s 0] resumable_flags [of "more_input s" 0 infl 0] more_input_flags(1) [of s]
      by simp
    from tinfl_call_ok [OF this, of "32768 - at" dict "src_avail s"] at prems(5)
    obtain res where res: "tinfl_decompress infl (src_avail s) dict at (32768 - at) (more_input s) = Some res"
        "res_out res \<le> 32768 - at" "length (res_buf res) = 32768"
        "res_status res = TINFL_STATUS_NEEDS_MORE_INPUT \<longrightarrow> res_in res = length (src_avail s) \<and> more_input s AND TINFL_FLAG_HAS_MORE_INPUT \<noteq> 0"
        "res_status res = TINFL_STATUS_HAS_MORE_OUTPUT \<longrightarrow> res_out res = 32768 - at"
        "resumable (res_dec res) (at + res_out res) (more_input s)" by auto
    define bs where "bs = take (res_out res) (drop at (res_buf res))"
    have bs: "length bs = res_out res" using res(2,3) at by (simp add: bs_def)
    obtain k' stop where put: "put_piece cb u bs (k\<lparr>sk_status := res_status res\<rparr>) = (k', stop)" by fastforce
    have "u + length bs < 2 ^ 64" using assms res(2) bs by simp
    then have "same_zip (sk_zip k) (sk_zip k') \<and>
        (\<not> stop \<longrightarrow> out_buf_ofs k' = out_buf_ofs k + length bs \<and> out_buf_ofs k' \<le> u \<and> sk_zip k' = sk_zip k)"
      using put_piece_ok [OF put] prems(4) by auto
    then have piece: "same_zip (sk_zip k) (sk_zip k')"
        "\<not> stop \<longrightarrow> out_buf_ofs k' = out_buf_ofs k + length bs \<and> out_buf_ofs k' \<le> u \<and> sk_zip k' = sk_zip k" by blast+
    define s' where "s' = s\<lparr>src_avail := drop (res_in res) (src_avail s)\<rparr>"
    have step: "inflate_to_callback tinfl_decompress cb u infl src dict k =
        (if \<not> stop \<and> (res_status res = TINFL_STATUS_NEEDS_MORE_INPUT \<or> res_status res = TINFL_STATUS_HAS_MORE_OUTPUT)
         then inflate_to_callback tinfl_decompress cb u (res_dec res) s' (res_buf res) k' else Some k')"
    proof -
      have a: "out_buf_ofs k AND 32767 = at" by (simp add: at_def)
      show ?thesis
        using r(1) Some res(1) put
        by (subst inflate_to_callback.simps) (simp add: a bs_def [symmetric] s'_def Let_def)
    qed
    show ?thesis
    proof (cases "\<not> stop \<and> (res_status res = TINFL_STATUS_NEEDS_MORE_INPUT \<or> res_status res = TINFL_STATUS_HAS_MORE_OUTPUT)")
      case False
      have "inflate_to_callback tinfl_decompress cb u infl src dict k = Some k'" by (simp only: step False if_False)
      then show ?thesis using piece by simp
    next
      case go: True
      have k': "out_buf_ofs k' = out_buf_ofs k + res_out res" "out_buf_ofs k' \<le> u" "sk_zip k' = sk_zip k" using piece go by (simp_all add: bs)
      have less: "((s', k'), (src, k)) \<in> measures [\<lambda>(src, k). weight src, \<lambda>(src, k). u - out_buf_ofs k]"
      proof (cases "res_status res = TINFL_STATUS_NEEDS_MORE_INPUT")
        case True
        then have more: "comp_remaining s \<noteq> 0" "src_avail s' = []" using res(4) more_input_flags(2) by (simp_all add: s'_def)
        have "weight s' = 2 * comp_remaining s" using more(2) by (simp add: weight_def s'_def)
        then have "weight s' < weight src" using r(3) [OF Some more(1)] by simp
        then show ?thesis by simp
      next
        case False
        then have "res_out res = 32768 - at" using go res(5) by blast
        then have "out_buf_ofs k < out_buf_ofs k'" using k'(1) at by simp
        moreover have "weight s' \<le> weight src" using r(2) [OF Some] weight_taken [of "res_in res" s] by (simp add: s'_def)
        ultimately show ?thesis using k'(2) by auto
      qed
      have "resumable (res_dec res) 0 0"
        using res(6) resumable_wrap [OF more_input_flags(1), of "res_dec res" "at + res_out res" s 0]
          resumable_flags [of "more_input s" 0 "res_dec res" 0] more_input_flags(1) [of s] by simp
      moreover have "source_ok (sk_zip k) s'" using r(2) [OF Some] by (simp add: source_ok_def s'_def)
      ultimately have "\<exists>j. inflate_to_callback tinfl_decompress cb u (res_dec res) s' (res_buf res) k' = Some j \<and> same_zip (sk_zip k') (sk_zip j)"
        using "1.hyps" [OF less] prems(1,2) k'(2,3) res(3) by simp
      then show ?thesis using go k'(3) by (simp add: step)
    qed
  qed
qed

lemma copy_from_file_total:
  "reader_ok (sk_zip k) \<Longrightarrow> 0 < n \<or> rest = 0 \<Longrightarrow> 
    \<exists>k'. copy_from_file cb flags n ofs rest k = Some k' \<and> same_zip (sk_zip k) (sk_zip k')"
proof (induction rest arbitrary: ofs k rule: less_induct)
  case (less rest)
  show ?case
  proof (cases "rest = 0")
    case True
    then show ?thesis by (subst copy_from_file.simps) simp
  next
    case False
    define m where "m = min n rest"
    have m: "0 < m" "m \<le> rest" using False less.prems(2) by (auto simp: m_def)
    obtain bs where bs: "call_read (sk_zip k) ofs m = Some bs" using rd.read_bounded [OF less.prems(1)] by blast
    define k1 where "k1 = (if flags AND MZ_ZIP_FLAG_COMPRESSED_DATA = 0 then k\<lparr>file_crc32 := mz_crc32 (file_crc32 k) bs\<rparr> else k)"
    obtain s c where sc: "cb (sk_opaque k1) (out_buf_ofs k1) bs = (s, c)" by fastforce
    define k2 where "k2 = k1\<lparr>sk_opaque := s, out_buf_ofs := u64 (out_buf_ofs k1 + m)\<rparr>"
    have z: "sk_zip k2 = sk_zip k" "sk_zip k1 = sk_zip k" by (simp_all add: k2_def k1_def)
    then have "\<exists>k'. copy_from_file cb flags n (u64 (ofs + m)) (rest - m) k2 = Some k' \<and> same_zip (sk_zip k) (sk_zip k')"
      using less.IH [of "rest - m" k2 "u64 (ofs + m)"] m less.prems by auto
    then show ?thesis
      using False bs sc by (subst copy_from_file.simps) (auto simp: m_def [symmetric] k1_def [symmetric] k2_def z Let_def)
  qed
qed


section \<open>The entry\<close>

lemma wf_same: "wf_archive z \<Longrightarrow> same_zip z z' \<Longrightarrow> wf_archive z'"
  by (auto simp: same_zip_def wf_archive_def split: option.splits)

lemma pMem_same: "same_zip z z' \<Longrightarrow> pMem_of z' = pMem_of z"
  by (auto simp: same_zip_def)

lemma wf_archive_parts:
  "wf_archive z \<Longrightarrow> reader_ok z \<and> (\<exists>alloc. m_pAlloc z = Some alloc) \<and> m_pState z \<noteq> None \<and> m_pRead z \<noteq> None"
  by (auto simp: wf_archive_def being_read_def reader_ok_def split: option.splits)

lemma local_data_ofs_defined: "reader_ok z \<Longrightarrow> \<exists>r. local_data_ofs z s = Some r"
proof -
  assume "reader_ok z"
  then obtain hdr where hdr: "call_read z (m_local_header_ofs s) 30 = Some hdr" using rd.read_bounded by blast
  show ?thesis
    by (cases "length hdr = 30") (simp_all add: local_data_ofs_def hdr rd32_eq rd16_eq Let_def)
qed

lemma callback_finish_same: "same_zip z (sk_zip k) \<Longrightarrow>
    \<exists>z' c ok. callback_finish flags s k = Some (z', c, ok) \<and> same_zip z z'"
  by (auto simp: callback_finish_def Let_def same_zip_def)

lemma callback_data_total:
  assumes "wf_archive (sk_zip k)" "pMem_of (sk_zip k) = None" "decomp_shape infl" "length dict = TINFL_LZ_DICT_SIZE"
    "m_uncomp_size s + 32768 < 2 ^ 64" "out_buf_ofs k = 0" "source_ok (sk_zip k) src"
  shows "\<exists>k'. callback_data tinfl_decompress infl dict cb flags s src k = Some k' \<and> same_zip (sk_zip k) (sk_zip k')"
proof -
  obtain alloc where z: "reader_ok (sk_zip k)" "m_pAlloc (sk_zip k) = Some alloc" using wf_archive_parts [OF assms(1)] by blast
  have "resumable (tinfl_init infl) 0 0" using assms(3) by (rule fresh_resumable)
  then obtain k' where "inflate_to_callback tinfl_decompress cb (m_uncomp_size s) (tinfl_init infl) src dict k = Some k'"
      "same_zip (sk_zip k) (sk_zip k')"
    using inflate_to_callback_total [OF assms(5) z(1) assms(2,7) _ assms(4)] assms(6) by auto
  moreover obtain k'' where "copy_from_file cb flags (read_buf_size src) (cur_ofs src) (comp_remaining src) k = Some k''"
      "same_zip (sk_zip k) (sk_zip k'')"
    using copy_from_file_total [OF z(1)] assms(7) by (metis source_ok_def)
  ultimately show ?thesis
    using assms(2) z(2) by (simp add: callback_data_def call_alloc_def)
qed

lemma callback_entry_total:
  assumes "wf_archive z" "pMem_of z = None" "decomp_shape infl" "length dict = TINFL_LZ_DICT_SIZE"
    "m_uncomp_size s + 32768 < 2 ^ 64"
  shows "\<exists>z' c ok. callback_entry tinfl_decompress infl dict cb z s flags c0 = Some (z', c, ok) \<and> same_zip z z'"
proof -
  obtain alloc where z: "reader_ok z" "m_pAlloc z = Some alloc" using wf_archive_parts [OF assms(1)] by blast
  obtain at where at: "local_data_ofs z s = Some at" using local_data_ofs_defined [OF z(1)] by blast
  show ?thesis
  proof (cases "m_is_directory s \<or> m_comp_size s = 0 \<or> entry_refused flags s \<noteq> None \<or> (\<exists>e. at = Inl e) \<or>
      \<not> alloc 1 (min (m_comp_size s) 65536)")
    case True
    then show ?thesis
      using assms(2) z at
      by (auto simp: callback_entry_def xfail_def open_source_def call_alloc_def Let_def split: option.split sum.split)
  next
    case False
    then obtain ofs where ofs: "at = Inr ofs" by (cases at) auto
    define src where "src = \<lparr>src_avail = [], cur_ofs = ofs, comp_remaining = m_comp_size s, read_buf_size = min (m_comp_size s) 65536\<rparr>"
    have src: "open_source z s ofs None = Some (Inr src)"
      using False assms(2) z(2) by (simp add: open_source_def call_alloc_def src_def Let_def)
    have "source_ok z src" using False assms(2) by (simp add: source_ok_def src_def)
    define k where "k = \<lparr>sk_zip = z, sk_opaque = c0, sk_status = TINFL_STATUS_DONE, file_crc32 = 0, out_buf_ofs = 0\<rparr>"
    have "\<exists>k'. callback_data tinfl_decompress infl dict cb flags s src k = Some k' \<and> same_zip (sk_zip k) (sk_zip k')"
      by (rule callback_data_total) (use assms \<open>source_ok z src\<close> in \<open>simp_all add: k_def\<close>)
    then obtain k' where k': "callback_data tinfl_decompress infl dict cb flags s src k = Some k'" "same_zip z (sk_zip k')"
      by (auto simp: k_def)
    have "callback_entry tinfl_decompress infl dict cb z s flags c0 = callback_finish flags s k'"
      using False at ofs src k'(1) by (simp add: callback_entry_def k_def)
    then show ?thesis using callback_finish_same [OF k'(2)] by simp
  qed
qed

text \<open>The statistics do not depend on the error code.\<close>

lemma file_stat_same:
  assumes "wf_archive z" "same_zip z z'" "mz_zip_reader_file_stat z i = Some (z1, r)"
  shows "\<exists>z2. mz_zip_reader_file_stat z' i = Some (z2, r) \<and> same_zip z z2"
proof -
  obtain e where e: "z' = z\<lparr>m_last_error := e\<rparr>" using assms(2) by (auto simp: same_zip_def)
  have wf': "wf_archive z'" using wf_same assms(1,2) by blast
  obtain z2 r2 where z2: "mz_zip_reader_file_stat z' i = Some (z2, r2)" "same_zip z z2"
    using file_stat_post [OF wf', of i] e by (auto simp: zpost_def same_zip_def split: option.splits)
  have "r2 = r"
  proof (cases "i < m_total_files z")
    case True
    then have True': "i < m_total_files z'" by (simp add: e)
    obtain st where st: "m_pState z = Some st" "mz_zip_get_cdh z i = Some (Some (m_central_dir_offsets st ! i))"
      using wf_archive_entry [OF assms(1) True] by blast
    have same: "mz_zip_get_cdh z' i = mz_zip_get_cdh z i" "m_pState z' = m_pState z" "entry_directory z' i = entry_directory z i"
      "entry_encrypted z' i = entry_encrypted z i" "entry_supported z' i = entry_supported z i"
      by (simp_all add: e mz_zip_get_cdh_def entry_directory_def entry_encrypted_def entry_supported_def cdh_of_def
          split: option.split)
    obtain e1 e2 where sup: "mz_zip_reader_is_file_supported z i = Some (z\<lparr>m_last_error := e1\<rparr>, entry_supported z i)"
        "mz_zip_reader_is_file_supported z' i = Some (z'\<lparr>m_last_error := e2\<rparr>, entry_supported z i)"
      using is_supported_eq [OF assms(1) True] is_supported_eq [OF wf' True', unfolded same(5)] by blast
    show ?thesis
      using assms(3) z2(1)
      by (simp add: mz_zip_reader_file_stat_def mz_zip_file_stat_internal_def st same is_directory_eq [OF assms(1) True]
          is_directory_eq [OF wf' True'] is_encrypted_eq [OF assms(1) True] is_encrypted_eq [OF wf' True'] sup zbind_def zok_def
          mz_zip_set_error_def Let_def split: bind_splits if_splits sum.splits option.splits prod.splits)
  next
    case False
    then show ?thesis
      using assms(3) z2(1)
      by (auto simp: mz_zip_reader_file_stat_def get_cdh_out_of_range mz_zip_file_stat_internal_def e mz_zip_set_error_def zbind_def)
  qed
  then show ?thesis using z2 by blast
qed

lemma file_stat_cases:
  assumes "wf_archive z"
  obtains (failed) z1 e where "mz_zip_reader_file_stat z i = Some (z1, Inl e)" "same_zip z z1"
    | (found) z1 s where "mz_zip_reader_file_stat z i = Some (z1, Inr s)" "same_zip z z1" "wf_archive z1"
proof -
  obtain z1 r where r: "mz_zip_reader_file_stat z i = Some (z1, r)" "same_zip z z1"
    using file_stat_post [OF assms, of i] by (auto simp: zpost_def same_zip_def split: option.splits)
  then show ?thesis using that wf_same [OF assms] by (cases r) blast+
qed

lemma extract_to_callback_total:
  assumes "wf_archive z" "pMem_of z = None" "decomp_shape infl" "length dict = TINFL_LZ_DICT_SIZE"
    "\<And>z1 s. mz_zip_reader_file_stat z i = Some (z1, Inr s) \<Longrightarrow> m_uncomp_size s + 32768 < 2 ^ 64"
  shows "\<exists>z' c ok. mz_zip_reader_extract_to_callback infl dict z i cb c0 flags = Some (z', c, ok) \<and> same_zip z z'"
proof -
  note z = wf_archive_parts [OF assms(1)]
  show ?thesis
  proof (cases rule: file_stat_cases [OF assms(1), of i, case_names failed found])
    case (failed z1 e)
    then show ?thesis using z by (auto simp: mz_zip_reader_extract_to_callback_def xbind_def)
  next
    case (found z1 s)
    then have "pMem_of z1 = None" using assms(2) by (simp add: pMem_same)
    then obtain z' c ok where "callback_entry tinfl_decompress infl dict cb z1 s flags c0 = Some (z', c, ok)" "same_zip z1 z'"
      using callback_entry_total [OF found(3) _ assms(3,4) assms(5) [OF found(1)], where cb = cb and flags = flags and ?c0.0 = c0] by blast
    then show ?thesis
      using z found(1,2) by (auto simp: mz_zip_reader_extract_to_callback_def xbind_def same_zip_def)
  qed
qed

lemma extract_entry_total:
  assumes "wf_archive z" "pMem_of z = None" "decomp_shape infl" "length buf < 2 ^ 64" "user \<noteq> Some 0"
  shows "\<exists>z' b ok. extract_entry tinfl_decompress infl z s buf flags user = Some (z', b, ok) \<and> same_zip z z' \<and>
    length b = length buf"
proof -
  obtain alloc where z: "reader_ok z" "m_pAlloc z = Some alloc" using wf_archive_parts [OF assms(1)] by blast
  obtain at where at: "local_data_ofs z s = Some at" using local_data_ofs_defined [OF z(1)] by blast
  show ?thesis
  proof (cases "m_is_directory s \<or> m_comp_size s = 0 \<or> entry_refused flags s \<noteq> None \<or>
      length buf < needed_size flags s \<or> (\<exists>e. at = Inl e)")
    case True
    then show ?thesis
      using at by (auto simp: extract_entry_def xfail_def split: option.split sum.split)
  next
    case False
    then obtain ofs where ofs: "at = Inr ofs" by (cases at) auto
    note e = False
    show ?thesis
    proof (cases "copied_raw flags s")
      case True
      obtain bs where bs: "call_read z ofs (needed_size flags s) = Some bs" "length bs \<le> needed_size flags s"
        using rd.read_bounded [OF z(1)] by blast
      then have w: "length bs \<le> length buf" using e by simp
      show ?thesis
        using e at ofs True bs(1) w
        by (auto simp: extract_entry_def extract_stored_def write_o_def xfail_def needed_size_def rdn_Some split: if_splits)
    next
      case False
      then have u: "m_uncomp_size s \<le> length buf" using e by (auto simp: needed_size_def copied_raw_def)
      have "\<exists>src. open_source z s ofs user = Some src \<and> (\<forall>x. src = Inr x \<longrightarrow> source_ok z x)"
        using assms(2,5) e z(2)
        by (cases user) (auto simp: open_source_def call_alloc_def Let_def source_ok_def)
      then obtain src where src: "open_source z s ofs user = Some src" "\<And>x. src = Inr x \<Longrightarrow> source_ok z x" by blast
      show ?thesis
      proof (cases src)
        case (Inl err)
        then show ?thesis
          using e at ofs False src(1)
          by (cases err) (auto simp: extract_entry_def extract_deflated_def xfail_def)
      next
        case (Inr x)
        have "resumable (tinfl_init infl) 0 TINFL_FLAG_USING_NON_WRAPPING_OUTPUT_BUF" using assms(3) by (rule fresh_resumable)
        from extract_mem_loop_total [OF z(1) u assms(4) src(2) [OF Inr] _ this]
        obtain z' b st n where l: "extract_mem_loop tinfl_decompress (m_uncomp_size s) z (tinfl_init infl) x buf 0 = Some (z', b, st, n)"
            "z' = z \<or> z' = z\<lparr>m_last_error := MZ_ZIP_DECOMPRESSION_FAILED\<rparr>" "length b = length buf" by auto
        then show ?thesis
          using e at ofs False src(1) Inr u
          by (auto simp: extract_entry_def extract_deflated_def extract_mem_finish_def xfail_def rdn_Some)
      qed
    qed
  qed
qed

lemma extract_to_mem_total:
  assumes "wf_archive z" "pMem_of z = None" "decomp_shape infl" "length buf < 2 ^ 64" "user \<noteq> Some 0"
  shows "\<exists>z' b ok. mz_zip_reader_extract_to_mem_no_alloc infl z i buf flags user = Some (z', b, ok) \<and> same_zip z z' \<and>
    length b = length buf"
proof -
  note z = wf_archive_parts [OF assms(1)]
  show ?thesis
  proof (cases rule: file_stat_cases [OF assms(1), of i, case_names failed found])
    case (failed z1 e)
    then show ?thesis
      using z by (auto simp: mz_zip_reader_extract_to_mem_no_alloc_def mz_zip_reader_extract_to_mem_no_alloc1_def xbind_def)
  next
    case (found z1 s)
    then have "pMem_of z1 = None" using assms(2) by (simp add: pMem_same)
    then obtain z' b ok where "extract_entry tinfl_decompress infl z1 s buf flags user = Some (z', b, ok)" "same_zip z1 z'"
        "length b = length buf"
      using extract_entry_total [OF found(3) _ assms(3-5)] by blast
    then show ?thesis
      using z found(1,2)
      by (auto simp: mz_zip_reader_extract_to_mem_no_alloc_def mz_zip_reader_extract_to_mem_no_alloc1_def xbind_def same_zip_def)
  qed
qed

section \<open>Properties\<close>

text \<open>An archive in a file, with one entry, for the witnesses.\<close>

definition demo_on_disk :: mz_zip_archive where
  "demo_on_disk = demo_archive\<lparr>m_zip_type := MZ_ZIP_TYPE_FILE, m_pRead := Some File_read,
     m_pState := Some ((zero_state 0)\<lparr>m_pFile := Some (replicate 100 0), m_central_dir := demo_cd,
       m_central_dir_offsets := [0], m_sorted_central_dir_offsets := [0]\<rparr>)\<rparr>"

lemma demo_on_disk_ok: "wf_archive demo_on_disk" "pMem_of demo_on_disk = None"
  by (simp_all add: wf_archive_def demo_on_disk_def demo_archive_def zero_state_def cleared_def being_read_def reader_ok_def
      entries_ok_def index_ok_def entry_ok_def demo_cd_def le32_def le16_def pMem_of_def)





end
