(* ===== verification/ExtractCorrect.thy ===== *)
theory ExtractCorrect
  imports InflateCorrect ExtractSafe "HOL-Library.Sublist"
begin

unbundle bit_operations_syntax

text \<open>
  Extraction delivers what was compressed: the loop of \<^verbatim>\<open>mz_zip_reader_extract_to_callback\<close> around
  \<^verbatim>\<open>tinfl_decompress\<close>, with its read buffer and its dictionary, hands the callback the bytes the format makes of
  the entry's data.
\<close>

section \<open>The output so far is a prefix of the result\<close>

definition extends :: "bytes \<Rightarrow> outcome \<Rightarrow> bool" where
  "extends out y \<longleftrightarrow> (\<forall>x. y = Some x \<longrightarrow> prefix out (snd x))"

named_theorems extends_intros

lemma extends_basic [extends_intros]: "extends out None" "extends out (Some (s, out))"
  by (simp_all add: extends_def)

lemma extends_if [extends_intros]: "(b \<Longrightarrow> extends out x) \<Longrightarrow> (\<not> b \<Longrightarrow> extends out y) \<Longrightarrow> extends out (if b then x else y)"
  by simp

lemma extends_bind [extends_intros]: "(\<And>a. y = Some a \<Longrightarrow> extends out (f a)) \<Longrightarrow> extends out (Option.bind y f)"
  by (cases y) (simp_all add: extends_basic)

lemma extends_case [extends_intros]: "(\<And>a b. p = (a, b) \<Longrightarrow> extends out (f a b)) \<Longrightarrow> extends out (case p of (a, b) \<Rightarrow> f a b)"
  by (cases p) simp

lemma extends_more: "prefix out out' \<Longrightarrow> extends out' y \<Longrightarrow> extends out y"
  unfolding extends_def using prefix_order.trans by blast

lemma extends_then: "extends out y \<Longrightarrow> (\<And>s out'. y = Some (s, out') \<Longrightarrow> extends out' (f (s, out'))) \<Longrightarrow> extends out (Option.bind y f)"
  by (cases y) (auto simp: extends_basic(1) intro: extends_more simp: extends_def [of out "Some _"])

lemma prefix_copy_out: "prefix out (copy_out n d out)"
proof (induction n arbitrary: out)
  case (Suc n)
  then show ?case using Suc [of "out @ [out ! (length out - d)]"] append_prefixD by auto
qed simp

lemma extends_copy_stored [extends_intros]: "extends out (copy_stored n s out)"
proof (induction n arbitrary: s out)
  case (Suc n)
  then have "extends out (copy_stored n s (out @ [b]))" for s b by (rule extends_more [rotated]) simp
  then show ?case by (auto intro!: extends_intros)
qed (simp add: extends_basic)

lemma extends_read_syms [extends_intros]: "extends out (read_syms ls ds s out)"
proof -
  have "prefix out (snd y)" if "read_syms ls ds s out = Some y" for y
    using that
  proof (induction rule: read_syms.raw_induct [rotated, consumes 1])
    case (1 rec ls ds s out y)
    have "prefix out (snd y)" if "rec ls ds s' (out @ new) = Some y" for s' new
      using "1.IH" [OF that] append_prefixD by blast
    moreover have "prefix out (snd y)" if "rec ls ds s' (copy_out n d out) = Some y" for s' n d
      using "1.IH" [OF that] prefix_copy_out prefix_order.trans by blast
    ultimately show ?case using "1.hyps" by (auto simp: bind_eq_Some_conv split: if_splits prod.splits)
  qed
  then show ?thesis by (simp add: extends_def)
qed

lemma extends_read_block [extends_intros]: "extends out (read_block type s out)"
  unfolding read_block_def stored_block_def dynamic_block_def coded_block_def by (intro extends_intros)

lemma extends_inflate_blocks [extends_intros]: "extends out (inflate_blocks s out)"
proof -
  have "prefix out (snd y)" if "inflate_blocks s out = Some y" for y
    using that
  proof (induction rule: inflate_blocks.raw_induct [rotated, consumes 1])
    case (1 rec s out y)
    have b: "prefix out out'" if "read_block t s'' out = Some (s', out')" for s' out' t s''
      using extends_read_block [of out t s''] that by (simp add: extends_def)
    moreover have "prefix out (snd y)" if "rec s' out' = Some y" "read_block t s'' out = Some (s', out')" for s' out' t s''
      using "1.IH" [OF that(1)] b [OF that(2)] prefix_order.trans by blast
    ultimately show ?case using "1.hyps" by (auto simp: bind_eq_Some_conv split: if_splits)
  qed
  then show ?thesis by (simp add: extends_def)
qed

lemma extends_after_block [extends_intros]: "extends out y \<Longrightarrow> extends out (after_block r y)"
  unfolding after_block_def by (rule extends_then) (auto intro!: extends_intros)

lemma extends_syms [extends_intros]: "extends out (syms_from r s out)"
  unfolding syms_from_def by (intro extends_intros)

lemma extends_syms_more [extends_intros]: "extends out (syms_from r s (out @ new))"
  by (rule extends_more [OF _ extends_syms]) simp

lemma extends_copy [extends_intros]: "extends out (copy_from r n d s out)"
  unfolding copy_from_def by (intro extends_intros extends_more [OF prefix_copy_out extends_syms])

lemma extends_stored [extends_intros]: "extends out (stored_from r n s out)"
  unfolding stored_from_def by (intro extends_intros)

lemma extends_stored_more [extends_intros]: "extends out (stored_from r n s (out @ new))"
  by (rule extends_more [OF _ extends_stored]) simp

lemma extends_lens [extends_intros]: "extends out (lens_from r lens s out)"
  unfolding lens_from_def coded_block_def by (intro extends_intros)

lemma extends_stored_block [extends_intros]: "extends out (stored_block s out)" "extends out (raw_done h s out)"
  unfolding stored_block_def raw_done_def Let_def by (intro extends_intros)+

lemma extends_froms [extends_intros]:
  "extends out (dsym_from r n d s out)" "extends out (dist_from r n s out)" "extends out (sym_from r n s out)"
  "extends out (codes_from r s out)" "extends out (clens_from r n s out)" "extends out (sizes_from r n s out)"
  "extends out (raw_from r n s out)" "extends out (huff_from r n k s out)" "extends out (rep_from r n d ex s out)"
  "extends out (tables_from r s out)"
  unfolding dsym_from_def dist_from_def sym_from_def codes_from_def clens_from_def sizes_from_def raw_from_def huff_from_def
    rep_from_def tables_from_def Let_def
  by (intro extends_intros)+

lemma extends_meaning: "extends out (meaning v s out)"
  unfolding meaning_def meaning_at_def by (cases "pc v"; simp only: tinfl_pc.case; intro extends_intros)

lemma between_prefix:
  assumes "between mk flat rest r buf next out x"
  shows "prefix out (snd x)"
proof (cases "m_state r = 0")
  case False
  then have "meaning ((saved_vars r next)\<lparr>out_buf := buf\<rparr>) (strm rest (idle mk flat) ((saved_vars r next)\<lparr>out_buf := buf\<rparr>)) out = Some x"
    using assms by (simp add: between_def Let_def sim_def)
  then show ?thesis using extends_meaning unfolding extends_def by blast
qed (use assms in \<open>simp add: between_def Let_def\<close>)

lemma between_wrap:
  assumes "between mk False rest r buf next out x" "next mod (mk + 1) = next' mod (mk + 1)"
  shows "between mk False rest r buf next' out x"
proof -
  define v v' where "v = (saved_vars r next)\<lparr>out_buf := buf\<rparr>" and "v' = (saved_vars r next')\<lparr>out_buf := buf\<rparr>"
  have v': "v' = v\<lparr>out_cur := next'\<rparr>" "out_cur v = next" by (simp_all add: v_def v'_def saved_vars_def)
  have o: "out_rel (idle mk False) v' out = out_rel (idle mk False) v out"
    using assms(2) idle_flag [of mk False] v' by (simp add: out_rel_def ring_def idle_def)
  moreover have "sim rest (idle mk False) v' out x = sim rest (idle mk False) v out x"
    using o by (cases "pc v") (simp_all add: sim_def core_def v' side_def not_found_def header_ok_def back_ok_def strm_def meaning_def Let_def)
  ultimately show ?thesis using assms(1) by (simp add: between_def Let_def flip: v_def v'_def)
qed

section \<open>The loop\<close>

text \<open>The archive holds \<open>data\<close> from the offset \<open>ofs\<close> on: every read inside it delivers its bytes.\<close>

definition holds_at :: "mz_zip_archive \<Rightarrow> nat \<Rightarrow> bytes \<Rightarrow> bool" where
  "holds_at z ofs data \<longleftrightarrow> (\<forall>p n. p + n \<le> length data \<longrightarrow> call_read z (u64 (ofs + p)) n = Some (take n (drop p data)))"

definition feeds :: "mz_zip_archive \<Rightarrow> read_src \<Rightarrow> bytes \<Rightarrow> bool" where
  "feeds z src R \<longleftrightarrow> pMem_of z = None \<and> 0 < read_buf_size src \<and> cur_ofs src < 2 ^ 64 \<and> comp_remaining src = length R \<and>
     holds_at z (cur_ofs src) R"

lemma holds_at_drop:
  assumes "holds_at z ofs data" "n \<le> length data"
  shows "holds_at z (u64 (ofs + n)) (drop n data)"
  unfolding holds_at_def
proof (intro allI impI)
  fix p m
  assume "p + m \<le> length (drop n data)"
  then have "call_read z (u64 (ofs + (n + p))) m = Some (take m (drop (n + p) data))"
    using assms unfolding holds_at_def by auto
  then show "call_read z (u64 (u64 (ofs + n) + p)) m = Some (take m (drop p (drop n data)))"
    by (simp add: add.assoc) (simp add: add.commute)
qed

lemma refill_feeds:
  assumes "feeds z src R"
  obtains src' R' where "refill z src = Some (Some src')" "feeds z src' R'" "src_avail src' @ R' = src_avail src @ R"
proof (cases "src_avail src = []")
  case True
  define n where "n = min (read_buf_size src) (comp_remaining src)"
  have n: "n \<le> length R" "u64 (cur_ofs src) = cur_ofs src" "pMem_of z = None" using assms by (simp_all add: n_def feeds_def)
  have "0 + n \<le> length R \<longrightarrow> call_read z (u64 (cur_ofs src + 0)) n = Some (take n (drop 0 R))"
    using assms unfolding feeds_def holds_at_def by blast
  then have "call_read z (cur_ofs src) n = Some (take n R)" using n by simp
  then have "refill z src = Some (Some (src\<lparr>src_avail := take n R, cur_ofs := u64 (cur_ofs src + n), comp_remaining := comp_remaining src - n\<rparr>))"
    using True n by (simp add: refill_def n_def [symmetric] Let_def)
  moreover have "feeds z (src\<lparr>src_avail := take n R, cur_ofs := u64 (cur_ofs src + n), comp_remaining := comp_remaining src - n\<rparr>) (drop n R)"
    using assms holds_at_drop [OF _ n(1)] by (simp add: feeds_def)
  ultimately show ?thesis using that True by simp
qed (use assms that in \<open>simp add: refill_def\<close>)

text \<open>The callback takes every piece of \<open>out\<close> it is given in order.\<close>

definition accepts :: "'s mz_file_write_func \<Rightarrow> 's \<Rightarrow> bytes \<Rightarrow> bool" where
  "accepts cb c0 out \<longleftrightarrow> (\<forall>cs c. prefix (concat cs @ c) out \<longrightarrow>
     snd (cb (feed cb 0 c0 cs) (length (concat cs)) c) = length c)"

lemma put_piece_accepted:
  assumes k: "sink_at cb c0 False k cs" and acc: "accepts cb c0 out" "prefix (concat cs @ bs) out" and u: "length out \<le> u" "u < 2 ^ 64"
  obtains k' cs' where "put_piece cb u bs k = (k', False)" "sk_status k' = sk_status k" "sk_zip k' = sk_zip k"
    "sink_at cb c0 False k' cs'" "concat cs' = concat cs @ bs"
proof (cases "bs = []")
  case True
  then show ?thesis using that [of k cs] k by (simp add: put_piece_def)
next
  case False
  have len: "length (concat cs) + length bs \<le> u" using prefix_length_le [OF acc(2)] u(1) by simp
  then have o: "out_buf_ofs k = length (concat cs)" "u64 (out_buf_ofs k + length bs) = length (concat cs) + length bs"
    using k u(2) by (simp_all add: sink_at_def)
  obtain s m where sm: "cb (sk_opaque k) (out_buf_ofs k) bs = (s, m)" by fastforce
  have "sk_opaque k = feed cb 0 c0 cs" using k by (simp add: sink_at_def)
  moreover have "snd (cb (feed cb 0 c0 cs) (length (concat cs)) bs) = length bs" using acc unfolding accepts_def by blast
  ultimately have m: "m = length bs" using sm o(1) by simp
  define j where "j = k\<lparr>sk_opaque := s, file_crc32 := mz_crc32 (file_crc32 k) bs, out_buf_ofs := u64 (out_buf_ofs k + length bs)\<rparr>"
  have "sink_at cb c0 False j (cs @ [bs])" unfolding j_def
    by (rule sink_at_snoc(2) [OF k]) (use sm in simp_all)
  moreover have "put_piece cb u bs k = (j, False)"
    using False sm m len o(2) by (simp add: put_piece_def j_def Let_def)
  ultimately show ?thesis using that [of j "cs @ [bs]"] by (simp add: j_def)
qed

lemma inflate_to_callback_correct:
  "inflate_to_callback inflate cb u infl src dict k = Some k' \<Longrightarrow> inflate = tinfl_decompress \<and> length (snd x) \<le> u \<and> u < 2 ^ 64 \<and>
    accepts cb c0 (snd x) \<and> length dict = TINFL_LZ_DICT_SIZE \<and> resumable infl 0 0 \<longrightarrow>
    (\<forall>R cs. feeds (sk_zip k) src R \<and> sink_at cb c0 False k cs \<and>
      between 32767 False (src_avail src @ R) infl dict (length (concat cs) mod 32768) (concat cs) x \<longrightarrow>
      sk_status k' = TINFL_STATUS_DONE \<and> (\<exists>cs'. sink_at cb c0 False k' cs' \<and> concat cs' = snd x))"
proof (induction rule: inflate_to_callback.raw_induct [rotated, consumes 1])
  case (1 f inflate cb u infl src dict k k')
  show ?case
  proof (intro impI allI, elim conjE)
    fix R cs
    assume inf: "inflate = tinfl_decompress" and u: "length (snd x) \<le> u" "u < 2 ^ 64" and acc: "accepts cb c0 (snd x)"
      and dict: "length dict = TINFL_LZ_DICT_SIZE" and res0: "resumable infl 0 0"
      and fd: "feeds (sk_zip k) src R" and sk: "sink_at cb c0 False k cs"
      and btw: "between 32767 False (src_avail src @ R) infl dict (length (concat cs) mod 32768) (concat cs) x"
    define at where "at = length (concat cs) mod 32768"
    have "out_buf_ofs k AND mask 15 = at"
      using sk by (simp add: sink_at_def at_def u64_def mod_mod_cancel flip: take_bit_eq_mask) (simp add: take_bit_eq_mod mod_mod_cancel)
    then have at: "out_buf_ofs k AND 32767 = at" "at < 32768" by (simp_all add: mask_numeral at_def)
    obtain s R' where s: "refill (sk_zip k) src = Some (Some s)" "feeds (sk_zip k) s R'" "src_avail s @ R' = src_avail src @ R"
      by (rule refill_feeds [OF fd])
    have res1: "resumable infl at (more_input s)"
      using res0 resumable_wrap [OF more_input_flags(1), of infl at s 0] resumable_flags [of "more_input s" 0 infl 0] more_input_flags(1) [of s]
      by simp
    have mk: "out_buf_size_mask (more_input s) at (32768 - at) = 32767"
      using at(2) more_input_flags(1) [of s] by (simp add: out_buf_size_mask_def sub64_def u64_def)
    have btw': "between 32767 False (src_avail s @ R') infl dict at (concat cs) x" using btw by (simp add: s(3) at_def)
    have room: "at + (32768 - at) \<le> length dict" "length dict < 2 ^ 64" using at(2) dict by simp_all
    have fits: "u64 (32767 + 1) AND 32767 = 0" "at + (32768 - at) \<le> 32767 + 1" using at(2) by (simp_all add: u64_def)
    have flags: "more_input s AND TINFL_FLAG_PARSE_ZLIB_HEADER = 0" "more_input s AND TINFL_FLAG_USING_NON_WRAPPING_OUTPUT_BUF \<noteq> 0 \<longleftrightarrow> False"
      by (simp_all add: more_input_def)
    obtain res new where res: "tinfl_decompress infl (src_avail s) dict at (32768 - at) (more_input s) = Some res" "res_out res = length new"
        "between 32767 False (drop (res_in res) (src_avail s) @ R') (res_dec res) (res_buf res) (at + res_out res) (concat cs @ new) x"
        "res_status res = TINFL_STATUS_DONE \<and> m_state (res_dec res) = 34 \<or>
         res_status res = (if more_input s AND TINFL_FLAG_HAS_MORE_INPUT \<noteq> 0 then TINFL_STATUS_NEEDS_MORE_INPUT
           else TINFL_STATUS_FAILED_CANNOT_MAKE_PROGRESS) \<and> R' \<noteq> [] \<and> res_in res = length (src_avail s) \<or>
         res_status res = TINFL_STATUS_HAS_MORE_OUTPUT \<and> res_out res = 32768 - at \<and> length (concat cs @ new) < length (snd x)"
      by (rule call_sim [OF res1 room btw' mk fits flags])
    have ok: "res_out res \<le> 32768 - at" "length (res_buf res) = TINFL_LZ_DICT_SIZE" "resumable (res_dec res) (at + res_out res) (more_input s)"
      using tinfl_call_ok [OF res1, of "32768 - at" dict "src_avail s"] at(2) dict res(1) by auto
    have new: "take (res_out res) (drop at (res_buf res)) = new"
      using between_new [OF res(3) [unfolded res(2)]] ok at(2) res(2) by simp
    have pre: "prefix (concat cs @ new) (snd x)" by (rule between_prefix [OF res(3)])
    have "sink_at cb c0 False (k\<lparr>sk_status := res_status res\<rparr>) cs" using sk by simp
    from put_piece_accepted [OF this acc pre u] obtain j cs' where
      j: "put_piece cb u new (k\<lparr>sk_status := res_status res\<rparr>) = (j, False)" "sk_status j = res_status res" "sk_zip j = sk_zip k"
        "sink_at cb c0 False j cs'" "concat cs' = concat cs @ new" by auto
    define s' where "s' = s\<lparr>src_avail := drop (res_in res) (src_avail s)\<rparr>"
    have step: "(if res_status res = TINFL_STATUS_NEEDS_MORE_INPUT \<or> res_status res = TINFL_STATUS_HAS_MORE_OUTPUT
        then f inflate cb u (res_dec res) s' (res_buf res) j else Some j) = Some k'"
      using "1.hyps" s(1) res(1) [folded inf] j(1) at(1) new by (auto simp: Let_def s'_def split: if_splits)
    show "sk_status k' = TINFL_STATUS_DONE \<and> (\<exists>cs'. sink_at cb c0 False k' cs' \<and> concat cs' = snd x)"
    proof (cases "res_status res = TINFL_STATUS_DONE")
      case True
      then have "m_state (res_dec res) = 34" using res(4) by (auto split: if_splits)
      then have "snd x = concat cs @ new" by (rule between_done(1) [OF res(3)])
      moreover have "k' = j" using step True by simp
      ultimately show ?thesis using j True by auto
    next
      case False
      have fs: "feeds (sk_zip j) s' R'" using s(2) j(3) by (simp add: feeds_def s'_def)
      have "more_input s AND TINFL_FLAG_HAS_MORE_INPUT \<noteq> 0" if "R' \<noteq> []"
        using that s(2) more_input_flags(2) by (simp add: feeds_def)
      then have rec: "f inflate cb u (res_dec res) s' (res_buf res) j = Some k'" using step False res(4) by (auto split: if_splits)
      have "resumable (res_dec res) 0 0"
        using ok(3) resumable_wrap [OF more_input_flags(1), of "res_dec res" "at + res_out res" s 0]
          resumable_flags [of "more_input s" 0 "res_dec res" 0] more_input_flags(1) [of s] by simp
      moreover have "between 32767 False (src_avail s' @ R') (res_dec res) (res_buf res) (length (concat cs') mod 32768) (concat cs') x"
        using between_wrap [OF res(3), of "length (concat cs') mod 32768"] res(2) j(5) by (simp add: s'_def at_def mod_simps)
      ultimately show ?thesis using "1.IH" [OF rec] inf u acc ok(2) fs j(4) by blast
    qed
  qed
qed

section \<open>The entry\<close>

lemma inflate_nonempty: "inflate_spec data = Some y \<Longrightarrow> data \<noteq> []"
  by (rule notI) (simp add: inflate_spec_def stream_of_def inflate_blocks.simps [of _ "[]"] read_num_def)

lemma callback_entry_correct:
  assumes z: "wf_archive z" "pMem_of z = None" "\<And>alloc n. m_pAlloc z = Some alloc \<Longrightarrow> alloc 1 n"
    and mem: "decomp_shape infl" "length dict = TINFL_LZ_DICT_SIZE"
    and kind: "\<not> m_is_directory s" "m_method s = MZ_DEFLATED" "m_bit_flag s AND (1 OR 64 OR 32) = 0"
    and data: "local_data_ofs z s = Some (Inr ofs)" "holds_at z ofs data" "length data = m_comp_size s" "ofs < 2 ^ 64"
    and spec: "inflate_spec data = Some (out, left)" "m_uncomp_size s = length out" "m_crc32 s = unat (mz_crc32 0 out)"
    and small: "length out + TINFL_LZ_DICT_SIZE < 2 ^ 64" and acc: "accepts cb c0 out"
  shows "\<exists>z' cs. callback_entry tinfl_decompress infl dict cb z s 0 c0 = Some (z', feed cb 0 c0 cs, True) \<and> concat cs = out"
proof -
  obtain alloc where a: "reader_ok z" "m_pAlloc z = Some alloc" using wf_archive_parts [OF z(1)] by blast
  have grants: "alloc 1 n" for n by (rule z(3) [OF a(2)])
  obtain t where t: "inflate_blocks (stream_of data) [] = Some (t, out)" using spec(1) by (auto simp: inflate_spec_def)
  have comp: "m_comp_size s \<noteq> 0" using inflate_nonempty [OF spec(1)] unfolding data(3) [symmetric] by simp
  define src where "src = \<lparr>src_avail = [], cur_ofs = ofs, comp_remaining = m_comp_size s, read_buf_size = min (m_comp_size s) 65536\<rparr>"
  define k where "k = \<lparr>sk_zip = z, sk_opaque = c0, sk_status = TINFL_STATUS_DONE, file_crc32 = 0, out_buf_ofs = 0\<rparr>"
  have fd: "feeds (sk_zip k) src data" using data z(2) comp by (simp add: feeds_def src_def k_def)
  have "resumable (tinfl_init infl) 0 0" by (rule fresh_resumable [OF mem(1)])
  moreover have "source_ok (sk_zip k) src" using z(2) comp by (simp add: source_ok_def src_def k_def)
  ultimately obtain k' where k': "inflate_to_callback tinfl_decompress cb (m_uncomp_size s) (tinfl_init infl) src dict k = Some k'"
    using inflate_to_callback_total [of "m_uncomp_size s" k src dict "tinfl_init infl" cb] small spec(2) a(1) z(2) mem(2) by (auto simp: k_def)
  have "between 32767 False (src_avail src @ data) (tinfl_init infl) dict 0 [] (t, out)"
    by (rule between_fresh) (use t in \<open>simp_all add: src_def tinfl_init_def, intro exI [of _ 15], simp\<close>)
  moreover have "sink_at cb c0 False k []" by (simp add: sink_at_def k_def crc.upd_nil)
  ultimately have "sk_status k' = TINFL_STATUS_DONE \<and> (\<exists>cs'. sink_at cb c0 False k' cs' \<and> concat cs' = out)"
    using inflate_to_callback_correct [OF k', of "(t, out)" c0, THEN mp, THEN HOL.spec, THEN HOL.spec, of data "[]"]
      small spec(2) acc mem \<open>resumable (tinfl_init infl) 0 0\<close> fd by simp
  then obtain cs where cs: "sk_status k' = TINFL_STATUS_DONE" "sink_at cb c0 False k' cs" "concat cs = out" by blast
  have "callback_entry tinfl_decompress infl dict cb z s 0 c0 = callback_finish 0 s k'"
    using kind data(1) comp a z(2) grants [unfolded One_nat_def] k'
    by (simp add: callback_entry_def entry_refused_def open_source_def call_alloc_def callback_data_def copied_raw_def src_def k_def Let_def)
  moreover have "callback_finish 0 s k' = Some (sk_zip k', feed cb 0 c0 cs, True)"
    using cs spec(2,3) small by (simp add: callback_finish_def sink_at_def)
  ultimately show ?thesis using cs(3) by auto
qed

text \<open>Reading does not depend on the error code; what a file holds.\<close>

lemma call_read_same: "same_zip z z' \<Longrightarrow> call_read z' = call_read z"
proof -
  assume "same_zip z z'"
  then have "m_pRead z' = m_pRead z" "m_pState z' = m_pState z" "m_archive_size z' = m_archive_size z" by (auto simp: same_zip_def)
  then show ?thesis by (intro ext) (simp only: call_read_def mz_zip_mem_read_func_def mz_zip_file_read_func_def)
qed

lemma local_data_same: "same_zip z z' \<Longrightarrow> local_data_ofs z' s = local_data_ofs z s"
proof -
  assume same: "same_zip z z'"
  then have "m_archive_size z' = m_archive_size z" by (auto simp: same_zip_def)
  then show ?thesis by (simp only: local_data_ofs_def call_read_same [OF same])
qed

lemma local_data_less: "local_data_ofs z s = Some (Inr ofs) \<Longrightarrow> ofs < 2 ^ 64"
  by (auto simp: local_data_ofs_def Let_def split: bind_splits if_splits)

lemma file_holds:
  assumes "m_pRead z = Some File_read" "m_pState z = Some st" "m_pFile st = Some f" "m_file_archive_start_ofs st = 0"
    "ofs + length data < 2 ^ 63" "take (length data) (drop ofs f) = data"
  shows "holds_at z ofs data"
  unfolding holds_at_def
proof (intro allI impI)
  fix p n
  assume n: "p + n \<le> length data"
  then have "take n (drop p (take (length data) (drop ofs f))) = take n (drop (ofs + p) f)" by (simp add: drop_take add.commute)
  then have "take n (drop (ofs + p) f) = take n (drop p data)" by (simp only: assms(6))
  then show "call_read z (u64 (ofs + p)) n = Some (take n (drop p data))"
    using assms(1-5) n by (simp add: call_read_def mz_zip_file_read_func_def)
qed

section \<open>Properties\<close>

text \<open>C4. Extraction delivers what was compressed. For a deflated, unencrypted entry of an open archive in a
  file whose data decompress, after RFC 1951, to bytes \<open>out\<close> with the size and the CRC of the directory, and a
  callback that takes every piece of \<open>out\<close> in order, \<^verbatim>\<open>mz_zip_reader_extract_to_callback\<close> succeeds, and
  the pieces it has given the callback are together exactly \<open>out\<close>: whatever the piece sizes in which the file
  is read, and however often the dictionary of 32768 bytes wraps around.\<close>

theorem extraction_correct:
  assumes z: "wf_archive z" "pMem_of z = None" "\<And>alloc n. m_pAlloc z = Some alloc \<Longrightarrow> alloc 1 n"
    and mem: "decomp_shape infl" "length dict = TINFL_LZ_DICT_SIZE"
    and stat: "mz_zip_reader_file_stat z i = Some (z1, Inr s)"
    and kind: "\<not> m_is_directory s" "m_method s = MZ_DEFLATED" "m_bit_flag s AND (1 OR 64 OR 32) = 0"
    and data: "local_data_ofs z s = Some (Inr ofs)" "holds_at z ofs data" "length data = m_comp_size s"
    and spec: "inflate_spec data = Some (out, left)" "m_uncomp_size s = length out" "m_crc32 s = unat (mz_crc32 0 out)"
    and small: "length out + TINFL_LZ_DICT_SIZE < 2 ^ 64" and acc: "accepts cb c0 out"
  shows "\<exists>z' cs. mz_zip_reader_extract_to_callback infl dict z i cb c0 0 = Some (z', feed cb 0 c0 cs, True) \<and> concat cs = out"
proof (cases rule: file_stat_cases [OF z(1), of i, case_names failed found])
  case (found z2 s2)
  then have s: "z2 = z1" "s2 = s" using stat by simp_all
  note same = found(2) [unfolded s]
  have "\<exists>z' cs. callback_entry tinfl_decompress infl dict cb z1 s 0 c0 = Some (z', feed cb 0 c0 cs, True) \<and> concat cs = out"
  proof (rule callback_entry_correct [OF _ _ _ mem kind _ _ data(3) local_data_less [OF data(1)] spec small acc])
    show "m_pAlloc z1 = Some alloc \<Longrightarrow> alloc 1 n" for alloc n
      by (rule z(3)) (use same in \<open>auto simp: same_zip_def\<close>)
    show "holds_at z1 ofs data" using data(2) call_read_same [OF same] by (simp add: holds_at_def)
  qed (use found(3) s z(2) pMem_same [OF same] data(1) local_data_same [OF same] in simp_all)
  moreover have "m_pState z \<noteq> None" "m_pRead z \<noteq> None" using wf_archive_parts [OF z(1)] by blast+
  ultimately show ?thesis using stat by (auto simp: mz_zip_reader_extract_to_callback_def xbind_def)
qed (use stat in simp)

text \<open>A file with one deflated entry, for the witness.\<close>

definition demo_entry :: bytes where
  "demo_entry = [80, 75, 1, 2, 0, 0, 0, 0, 0, 0, 8, 0, 0, 0, 0, 0, 67, 190, 183, 232, 3, 0, 0, 0,
     1, 0, 0, 0, 1, 0, 0, 0, 0, 0, 0, 0, 0, 0, 0, 0, 0, 0, 0, 0, 0, 0, 97]"

definition demo_file :: bytes where
  "demo_file = [80, 75, 3, 4, 0, 0, 0, 0, 8, 0, 0, 0, 0, 0, 67, 190, 183, 232, 3, 0, 0, 0,
     1, 0, 0, 0, 1, 0, 0, 0, 97] @ [75, 4, 0] @ demo_entry"

definition demo_zip :: mz_zip_archive where
  "demo_zip = demo_archive\<lparr>m_zip_type := MZ_ZIP_TYPE_FILE, m_pRead := Some File_read,
     m_pState := Some ((zero_state 0)\<lparr>m_pFile := Some demo_file, m_central_dir := demo_entry,
       m_central_dir_offsets := [0], m_sorted_central_dir_offsets := [0]\<rparr>)\<rparr>"

lemma demo_state: "m_pState demo_zip = Some ((zero_state 0)\<lparr>m_pFile := Some demo_file, m_central_dir := demo_entry,
    m_central_dir_offsets := [0], m_sorted_central_dir_offsets := [0]\<rparr>)"
  by (simp add: demo_zip_def)

lemma demo_zip_ok: "wf_archive demo_zip" "pMem_of demo_zip = None"
  by (simp_all add: wf_archive_def demo_zip_def demo_archive_def zero_state_def cleared_def being_read_def reader_ok_def
      entries_ok_def index_ok_def entry_ok_def demo_entry_def le32_def le16_def pMem_of_def)

lemma demo_crc: "unat (mz_crc32 0 [97]) = 0xE8B7BE43"
  by (simp add: mz_crc32_def crc_byte_def s_crc_table_def)

lemma demo_stat:
  obtains z1 s where "mz_zip_reader_file_stat demo_zip 0 = Some (z1, Inr s)" "stat_matches demo_zip 0 s"
proof (cases rule: file_stat_cases [OF demo_zip_ok(1), of 0, case_names failed found])
  case (failed z1 e)
  have "0 < m_total_files demo_zip" by (simp add: demo_zip_def demo_archive_def)
  note eqs = is_directory_eq [OF demo_zip_ok(1) this] is_encrypted_eq [OF demo_zip_ok(1) this]
  obtain e1 where sup: "mz_zip_reader_is_file_supported demo_zip 0 = Some (demo_zip\<lparr>m_last_error := e1\<rparr>, entry_supported demo_zip 0)"
    using is_supported_eq [OF demo_zip_ok(1) \<open>0 < m_total_files demo_zip\<close>] by blast
  have cdh: "mz_zip_get_cdh demo_zip 0 = Some (Some 0)"
    by (simp add: mz_zip_get_cdh_def demo_zip_def demo_archive_def nth_o_def)
  have rd: "rd16 demo_entry 30 = Some 0" "rd16 demo_entry 28 = Some 1" by (simp_all add: rd16_eq demo_entry_def le16_def)
  show ?thesis
    using failed(1) rd
    by (simp add: mz_zip_reader_file_stat_def mz_zip_file_stat_internal_def demo_state cdh eqs sup zbind_def zok_def Let_def split: bind_splits)
next
  case (found z1 s)
  then show ?thesis using that file_stat_post [OF demo_zip_ok(1), of 0] by (simp add: zpost_def)
qed

lemma demo_data: "m_local_header_ofs s = 0 \<Longrightarrow> m_comp_size s = 3 \<Longrightarrow> local_data_ofs demo_zip s = Some (Inr 31)"
  by (simp add: local_data_ofs_def call_read_def mz_zip_file_read_func_def demo_zip_def demo_archive_def cleared_def zero_state_def
     demo_file_def rd32_eq rd16_eq le32_def le16_def Let_def)

lemma extraction_correct_witness:
  "\<exists>z' cs. mz_zip_reader_extract_to_callback fresh_inflator (replicate 32768 0) demo_zip 0
      (\<lambda>log ofs bs. (log @ bs, length bs)) [] 0 = Some (z', feed (\<lambda>log ofs bs. (log @ bs, length bs)) 0 [] cs, True) \<and>
    concat cs = ([97] :: bytes)"
proof (rule demo_stat)
  fix z1 s
  assume stat: "mz_zip_reader_file_stat demo_zip 0 = Some (z1, Inr s)" and m: "stat_matches demo_zip 0 s"
  have cd: "cdh_of demo_zip 0 = (demo_entry, 0)" by (simp add: cdh_of_def demo_zip_def)
  have s: "m_method s = 8" "m_bit_flag s = 0" "m_crc32 s = 0xE8B7BE43" "m_comp_size s = 3" "m_uncomp_size s = 1"
      "m_local_header_ofs s = 0" "m_is_directory s = entry_directory demo_zip 0"
    using m by (simp_all add: stat_matches_def cd demo_entry_def le16_def le32_def)
  show ?thesis
  proof (rule extraction_correct [OF demo_zip_ok _ fresh_inflator_shape _ stat])
    show "\<not> m_is_directory s" using s by (simp add: entry_directory_def cd demo_entry_def le16_def le32_def cdh_filename_def)
    show "local_data_ofs demo_zip s = Some (Inr 31)" by (rule demo_data) (use s in simp_all)
    show "holds_at demo_zip 31 [75, 4, 0]"
      by (rule file_holds [of _ _ demo_file, OF _ demo_state])
        (simp_all add: demo_zip_def demo_archive_def zero_state_def, simp_all add: demo_file_def)
    show "inflate_spec [75, 4, 0] = Some ([97], 0)" by (rule inflate_demo)
    show "m_crc32 s = unat (mz_crc32 0 [97])" using s demo_crc by simp
    show "alloc 1 n" if "m_pAlloc demo_zip = Some alloc" for alloc n using that by (auto simp: demo_zip_def demo_archive_def)
  qed (use s in \<open>simp_all add: accepts_def\<close>)
qed

end
