(* ===== verification/ZipIter.thy ===== *)
theory ZipIter
  imports ZipExtract
begin

unbundle bit_operations_syntax

text \<open>
  The extraction iterator: \<^verbatim>\<open>mz_zip_reader_extract_iter_new\<close>, \<^verbatim>\<open>_read\<close>, \<^verbatim>\<open>_free\<close>. The iterator's pointer to the
  archive is the archive passed along and returned. \<open>it_pRead_buf\<close> are the bytes at \<^verbatim>\<open>pRead_buf\<close>: the
  allocated buffer (first with the arbitrary contents \<open>heap n\<close>), or for an archive in memory the entry's data.
\<close>

record mz_zip_reader_extract_iter_state =
  it_flags :: nat
  it_status :: tinfl_status
  it_read_buf_size :: nat
  it_pRead_buf :: bytes
  it_read_buf_ofs :: nat
  it_read_buf_avail :: nat
  it_comp_remaining :: nat
  it_out_buf_ofs :: nat
  it_cur_file_ofs :: nat
  it_file_stat :: mz_zip_archive_file_stat
  it_pWrite_buf :: "bytes option"
  it_out_blk_remain :: nat
  it_inflator :: tinfl_decompressor
  it_file_crc32 :: "32 word"

text \<open>\<^verbatim>\<open>sizeof(mz_zip_reader_extract_iter_state)\<close> decides nothing but the allocator's answer; it is an argument.\<close>

definition iter_new_bufs ::
    "nat \<Rightarrow> (nat \<Rightarrow> bytes) \<Rightarrow> mz_zip_archive \<Rightarrow> nat \<Rightarrow> mz_zip_reader_extract_iter_state \<Rightarrow>
     (mz_zip_archive \<times> mz_zip_reader_extract_iter_state option) option" where
  "iter_new_bufs flags heap pZip cur_file_ofs it = (
     let s = it_file_stat it;
         raw = copied_raw flags s;
         it = it\<lparr>it_cur_file_ofs := cur_file_ofs, it_comp_remaining := m_comp_size s\<rparr>;
         fails = Some (pZip\<lparr>m_last_error := MZ_ZIP_ALLOC_FAILED\<rparr>, None);
         finish = (\<lambda>it. if raw then Some (pZip, Some it)
           else do {
             ok \<leftarrow> call_alloc pZip TINFL_LZ_DICT_SIZE;
             (if \<not> ok then fails
              else Some (pZip, Some (it\<lparr>it_inflator := tinfl_init (it_inflator it), it_pWrite_buf := Some (heap TINFL_LZ_DICT_SIZE)\<rparr>)))
           })
     in case pMem_of pZip of
          Some mem \<Rightarrow> do {
            bs \<leftarrow> rdn mem cur_file_ofs (m_comp_size s);
            finish (it\<lparr>it_pRead_buf := bs, it_read_buf_size := m_comp_size s, it_read_buf_avail := m_comp_size s\<rparr>)
          }
        | None \<Rightarrow>
            if raw then finish (it\<lparr>it_read_buf_size := 0, it_read_buf_avail := 0\<rparr>)
            else (let n = min (m_comp_size s) MZ_ZIP_MAX_IO_BUF_SIZE in do {
              ok \<leftarrow> call_alloc pZip n;
              (if \<not> ok then fails else finish (it\<lparr>it_pRead_buf := heap n, it_read_buf_size := n, it_read_buf_avail := 0\<rparr>))
            }))"

definition mz_zip_reader_extract_iter_new ::
    "nat \<Rightarrow> tinfl_decompressor \<Rightarrow> (nat \<Rightarrow> bytes) \<Rightarrow> mz_zip_archive \<Rightarrow> nat \<Rightarrow> nat \<Rightarrow>
     (mz_zip_archive \<times> mz_zip_reader_extract_iter_state option) option" where
  "mz_zip_reader_extract_iter_new sizeof inflator heap pZip file_index flags =
     (if m_pState pZip = None then Some (pZip, None)
      else do {
        ok \<leftarrow> call_alloc pZip sizeof;
        (if \<not> ok then Some (pZip\<lparr>m_last_error := MZ_ZIP_ALLOC_FAILED\<rparr>, None)
         else case mz_zip_reader_file_stat pZip file_index of
             None \<Rightarrow> None
           | Some (pZip, Inl e) \<Rightarrow> Some (pZip, None)
           | Some (pZip, Inr s) \<Rightarrow> (case entry_refused flags s of
               Some e \<Rightarrow> Some (pZip\<lparr>m_last_error := e\<rparr>, None)
             | None \<Rightarrow> do {
                 at \<leftarrow> local_data_ofs pZip s;
                 (case at of
                    Inl e \<Rightarrow> Some (pZip\<lparr>m_last_error := e\<rparr>, None)
                  | Inr cur_file_ofs \<Rightarrow> iter_new_bufs flags heap pZip cur_file_ofs
                      \<lparr>it_flags = flags, it_status = TINFL_STATUS_DONE, it_read_buf_size = 0, it_pRead_buf = [],
                       it_read_buf_ofs = 0, it_read_buf_avail = 0,
                       it_comp_remaining = 0, it_out_buf_ofs = 0, it_cur_file_ofs = 0, it_file_stat = s,
                       it_pWrite_buf = None, it_out_blk_remain = 0, it_inflator = inflator, it_file_crc32 = 0\<rparr>)
               }))
      })"

definition mz_zip_reader_extract_file_iter_new ::
    "nat \<Rightarrow> tinfl_decompressor \<Rightarrow> (nat \<Rightarrow> bytes) \<Rightarrow> mz_zip_archive \<Rightarrow> bytes option \<Rightarrow> nat \<Rightarrow>
     (mz_zip_archive \<times> mz_zip_reader_extract_iter_state option) option" where
  "mz_zip_reader_extract_file_iter_new sizeof inflator heap pZip pFilename flags =
     (case mz_zip_reader_locate_file_v2 pZip pFilename None flags of
        None \<Rightarrow> None
      | Some (pZip, Inl e) \<Rightarrow> Some (pZip, None)
      | Some (pZip, Inr file_index) \<Rightarrow> mz_zip_reader_extract_iter_new sizeof inflator heap pZip file_index flags)"

section \<open>Reading\<close>

text \<open>
  A read of stored data. The second component of the answer is what reached the caller's buffer of
  \<open>buf_size\<close> bytes, the third the returned count.
\<close>

definition iter_read_raw ::
    "mz_zip_archive \<Rightarrow> mz_zip_reader_extract_iter_state \<Rightarrow> nat \<Rightarrow>
     (mz_zip_archive \<times> mz_zip_reader_extract_iter_state \<times> bytes \<times> nat) option" where
  "iter_read_raw pZip it buf_size =
     (let n = min buf_size (it_comp_remaining it);
          done = (\<lambda>pZip it bs n.
            let it = (if it_flags it AND MZ_ZIP_FLAG_COMPRESSED_DATA = 0
                  then it\<lparr>it_file_crc32 := mz_crc32 (it_file_crc32 it) (take n bs)\<rparr> else it)
            in Some (pZip, it\<lparr>it_cur_file_ofs := u64 (it_cur_file_ofs it + n),
                 it_out_buf_ofs := u64 (it_out_buf_ofs it + n),
                 it_comp_remaining := it_comp_remaining it - n\<rparr>, bs, n))
      in if pMem_of pZip \<noteq> None
         then do {
           bs \<leftarrow> rdn (it_pRead_buf it) 0 n;
           done pZip (it\<lparr>it_pRead_buf := drop n (it_pRead_buf it)\<rparr>) bs n
         }
         else do {
           bs \<leftarrow> call_read pZip (it_cur_file_ofs it) n;
           (if length bs \<noteq> n
            then done (pZip\<lparr>m_last_error := MZ_ZIP_FILE_READ_FAILED\<rparr>) (it\<lparr>it_status := TINFL_STATUS_FAILED\<rparr>) bs 0
            else done pZip it bs n)
         })"

text \<open>
  The next piece of the file into the read buffer, when that is empty. The boolean: the read came back
  short. \<^verbatim>\<open>read_buf_avail\<close> has been set by then.
\<close>

definition iter_refill ::
    "mz_zip_archive \<Rightarrow> mz_zip_reader_extract_iter_state \<Rightarrow> (mz_zip_reader_extract_iter_state \<times> bool) option" where
  "iter_refill pZip it =
     (if it_read_buf_avail it = 0 \<and> pMem_of pZip = None
      then let n = min (it_read_buf_size it) (it_comp_remaining it) in do {
        bs \<leftarrow> call_read pZip (it_cur_file_ofs it) n;
        buf \<leftarrow> write_o (it_pRead_buf it) 0 bs;
        (let it = it\<lparr>it_read_buf_avail := n, it_pRead_buf := buf\<rparr>
         in if length bs \<noteq> n then Some (it, True)
            else Some (it\<lparr>it_cur_file_ofs := u64 (it_cur_file_ofs it + n),
              it_comp_remaining := it_comp_remaining it - n, it_read_buf_ofs := 0\<rparr>, False))
      }
      else Some (it, False))"

text \<open>
  One turn up to the output block, the boolean again for a failed read. No call of \<^verbatim>\<open>tinfl_decompress\<close>
  while the last block is not used up.
\<close>

definition iter_block ::
    "inflate_func \<Rightarrow> mz_zip_archive \<Rightarrow> mz_zip_reader_extract_iter_state \<Rightarrow>
     (mz_zip_reader_extract_iter_state \<times> bool) option" where
  "iter_block inflate pZip it =
     (if it_out_blk_remain it \<noteq> 0 then Some (it, False)
      else do {
        (it, short) \<leftarrow> iter_refill pZip it;
        (if short then Some (it, True)
         else let at = it_out_buf_ofs it AND (TINFL_LZ_DICT_SIZE - 1) in do {
           dict \<leftarrow> it_pWrite_buf it;
           bs \<leftarrow> rdn (it_pRead_buf it) (it_read_buf_ofs it) (it_read_buf_avail it);
           res \<leftarrow> inflate (it_inflator it) bs dict at (TINFL_LZ_DICT_SIZE - at)
             (if it_comp_remaining it \<noteq> 0 then TINFL_FLAG_HAS_MORE_INPUT else 0);
           Some (it\<lparr>it_status := res_status res, it_inflator := res_dec res,
             it_read_buf_avail := it_read_buf_avail it - res_in res,
             it_read_buf_ofs := u64 (it_read_buf_ofs it + res_in res), it_pWrite_buf := Some (res_buf res),
             it_out_blk_remain := res_out res\<rparr>, False)
         })
      })"

text \<open>The block's bytes to the caller. The last component: the loop is left.\<close>

definition iter_copy ::
    "mz_zip_archive \<Rightarrow> mz_zip_reader_extract_iter_state \<Rightarrow> nat \<Rightarrow> nat \<Rightarrow>
     (mz_zip_archive \<times> mz_zip_reader_extract_iter_state \<times> bytes \<times> nat \<times> bool) option" where
  "iter_copy pZip it buf_size copied =
     (if it_out_blk_remain it = 0 then Some (pZip, it, [], copied, False)
      else let n = min (buf_size - copied) (it_out_blk_remain it) in do {
        dict \<leftarrow> it_pWrite_buf it;
        bs \<leftarrow> rdn dict (it_out_buf_ofs it AND (TINFL_LZ_DICT_SIZE - 1)) n;
        (let it = it\<lparr>it_file_crc32 := mz_crc32 (it_file_crc32 it) bs, it_out_blk_remain := it_out_blk_remain it - n,
               it_out_buf_ofs := u64 (it_out_buf_ofs it + n)\<rparr>
         in if m_uncomp_size (it_file_stat it) < it_out_buf_ofs it
            then Some (pZip\<lparr>m_last_error := MZ_ZIP_DECOMPRESSION_FAILED\<rparr>, it\<lparr>it_status := TINFL_STATUS_FAILED\<rparr>,
              bs, copied, True)
            else Some (pZip, it, bs, copied + n, False))
      })"

partial_function (option) iter_read_inflate ::
    "inflate_func \<Rightarrow> nat \<Rightarrow> mz_zip_archive \<Rightarrow> mz_zip_reader_extract_iter_state \<Rightarrow> bytes \<Rightarrow> nat \<Rightarrow>
     (mz_zip_archive \<times> mz_zip_reader_extract_iter_state \<times> bytes \<times> nat) option" where
  "iter_read_inflate inflate buf_size pZip it acc copied =
     Option.bind (iter_block inflate pZip it) (\<lambda>(it, short).
       if short then Some (pZip\<lparr>m_last_error := MZ_ZIP_FILE_READ_FAILED\<rparr>, it\<lparr>it_status := TINFL_STATUS_FAILED\<rparr>,
           acc, copied)
       else Option.bind (iter_copy pZip it buf_size copied) (\<lambda>(pZip, it, bs, copied, stop).
             if \<not> stop \<and> copied < buf_size \<and>
                (it_status it = TINFL_STATUS_NEEDS_MORE_INPUT \<or> it_status it = TINFL_STATUS_HAS_MORE_OUTPUT)
             then iter_read_inflate inflate buf_size pZip it (acc @ bs) copied
             else Some (pZip, it, acc @ bs, copied)))"

declare iter_read_inflate.simps [code]

definition mz_zip_reader_extract_iter_read ::
    "mz_zip_archive \<Rightarrow> mz_zip_reader_extract_iter_state \<Rightarrow> nat \<Rightarrow>
     (mz_zip_archive \<times> mz_zip_reader_extract_iter_state \<times> bytes \<times> nat) option" where
  "mz_zip_reader_extract_iter_read pZip it buf_size =
     (if m_pState pZip = None then Some (pZip, it, [], 0)
      else if copied_raw (it_flags it) (it_file_stat it) then iter_read_raw pZip it buf_size
      else iter_read_inflate tinfl_decompress buf_size pZip it [] 0)"

definition mz_zip_reader_extract_iter_free ::
    "mz_zip_archive \<Rightarrow> mz_zip_reader_extract_iter_state \<Rightarrow> mz_zip_archive \<times> bool" where
  "mz_zip_reader_extract_iter_free pZip it =
     (if m_pState pZip = None then (pZip, False)
      else if it_status it = TINFL_STATUS_DONE \<and> it_flags it AND MZ_ZIP_FLAG_COMPRESSED_DATA = 0
      then if it_out_buf_ofs it \<noteq> m_uncomp_size (it_file_stat it)
           then (pZip\<lparr>m_last_error := MZ_ZIP_UNEXPECTED_DECOMPRESSED_SIZE\<rparr>, False)
           else if unat (it_file_crc32 it) \<noteq> m_crc32 (it_file_stat it)
           then (pZip\<lparr>m_last_error := MZ_ZIP_DECOMPRESSION_FAILED\<rparr>, False)
           else (pZip, True)
      else (pZip, it_status it = TINFL_STATUS_DONE))"

end
