(* ===== verification/ZipValidate.thy ===== *)
theory ZipValidate
  imports ZipExtract
begin

unbundle bit_operations_syntax

text \<open>
  Validation: \<^verbatim>\<open>mz_zip_validate_file\<close> compares an entry's local header, zip64 field and data descriptor
  with the central directory and extracts it into a checksum; \<^verbatim>\<open>mz_zip_validate_archive\<close> does so for
  every entry, and two functions open an archive for it.
\<close>

section \<open>One entry\<close>

text \<open>\<^verbatim>\<open>mz_zip_compute_crc32_callback\<close>.\<close>

definition mz_zip_compute_crc32_callback :: "32 word mz_file_write_func" where
  "mz_zip_compute_crc32_callback p file_ofs bs = (mz_crc32 p bs, length bs)"

text \<open>A read of exactly \<open>n\<close> bytes.\<close>

definition read_exactly :: "mz_zip_archive \<Rightarrow> nat \<Rightarrow> nat \<Rightarrow> bytes zret" where
  "read_exactly pZip file_ofs n = do {
     bs \<leftarrow> call_read pZip file_ofs n;
     (if length bs \<noteq> n then mz_zip_set_error pZip MZ_ZIP_FILE_READ_FAILED else zok pZip bs)
   }"

text \<open>The fields of the local header.\<close>

record local_header =
  lh_ofs :: nat
  filename_len :: nat
  extra_len :: nat
  lh_comp_size :: nat
  lh_uncomp_size :: nat
  lh_crc32 :: nat
  lh_bit_flags :: nat
  lh_zip64 :: bool

definition read_local_header :: "mz_zip_archive \<Rightarrow> mz_zip_archive_file_stat \<Rightarrow> local_header zret" where
  "read_local_header pZip s =
     zbind (read_exactly pZip (m_local_header_ofs s) MZ_ZIP_LOCAL_DIR_HEADER_SIZE) (\<lambda>pZip hdr. do {
       sig \<leftarrow> rd32 hdr 0;
       (if sig \<noteq> MZ_ZIP_LOCAL_DIR_HEADER_SIG then mz_zip_set_error pZip MZ_ZIP_INVALID_HEADER_OR_CORRUPTED
        else do {
          n \<leftarrow> rd16 hdr MZ_ZIP_LDH_FILENAME_LEN_OFS;
          x \<leftarrow> rd16 hdr MZ_ZIP_LDH_EXTRA_LEN_OFS;
          c \<leftarrow> rd32 hdr MZ_ZIP_LDH_COMPRESSED_SIZE_OFS;
          u \<leftarrow> rd32 hdr MZ_ZIP_LDH_DECOMPRESSED_SIZE_OFS;
          crc \<leftarrow> rd32 hdr MZ_ZIP_LDH_CRC32_OFS;
          b \<leftarrow> rd16 hdr MZ_ZIP_LDH_BIT_FLAG_OFS;
          (if n \<noteq> length (c_str (m_filename s)) \<or>
              m_archive_size pZip <
                u64 (m_local_header_ofs s + MZ_ZIP_LOCAL_DIR_HEADER_SIZE + n + x + m_comp_size s)
           then mz_zip_set_error pZip MZ_ZIP_INVALID_HEADER_OR_CORRUPTED
           else zok pZip \<lparr>lh_ofs = m_local_header_ofs s, filename_len = n, extra_len = x, lh_comp_size = c,
             lh_uncomp_size = u, lh_crc32 = crc, lh_bit_flags = b, lh_zip64 = False\<rparr>)
        })
     })"

text \<open>The name in the local header is that of the central directory.\<close>

definition check_local_name :: "mz_zip_archive \<Rightarrow> mz_zip_archive_file_stat \<Rightarrow> local_header \<Rightarrow> unit zret" where
  "check_local_name pZip s h =
     (if filename_len h = 0 then zok pZip ()
      else zbind (read_exactly pZip (u64 (lh_ofs h + MZ_ZIP_LOCAL_DIR_HEADER_SIZE)) (filename_len h))
        (\<lambda>pZip bs. do {
          name \<leftarrow> rdn (m_filename s @ [0]) 0 (filename_len h);
          (if name \<noteq> bs then mz_zip_set_error pZip MZ_ZIP_VALIDATION_FAILED else zok pZip ())
        }))"

text \<open>The loop over the extra fields: the sizes of the zip64 field, if there is one.\<close>

function local_extra_walk :: "bytes \<Rightarrow> nat \<Rightarrow> nat \<Rightarrow> (mz_zip_error + (nat \<times> nat) option) option" where
  "local_extra_walk buf pos n =
     (if n < 4 then Some (Inl MZ_ZIP_INVALID_HEADER_OR_CORRUPTED)
      else do {
        field_id \<leftarrow> rd16 buf pos;
        field_data_size \<leftarrow> rd16 buf (pos + 2);
        (let field_total_size = field_data_size + 4
         in if n < field_total_size then Some (Inl MZ_ZIP_INVALID_HEADER_OR_CORRUPTED)
            else if field_id = MZ_ZIP64_EXTENDED_INFORMATION_FIELD_HEADER_ID
            then if field_data_size < 16 then Some (Inl MZ_ZIP_INVALID_HEADER_OR_CORRUPTED)
                 else do {
                   uncomp \<leftarrow> rd64 buf (pos + 4);
                   cmp \<leftarrow> rd64 buf (pos + 4 + 8);
                   Some (Inr (Some (uncomp, cmp)))
                 }
            else if n - field_total_size = 0 then Some (Inr None)
            else local_extra_walk buf (pos + field_total_size) (n - field_total_size))
      })"
  by pat_completeness auto
termination by (relation "measure (\<lambda>(b, p, n). n)") (auto simp: Let_def)

declare local_extra_walk.simps [simp del]

definition read_local_zip64 :: "mz_zip_archive \<Rightarrow> local_header \<Rightarrow> local_header zret" where
  "read_local_zip64 pZip h =
     (if extra_len h \<noteq> 0 \<and> (lh_comp_size h = MZ_UINT32_MAX \<or> lh_uncomp_size h = MZ_UINT32_MAX)
      then zbind (read_exactly pZip (u64 (lh_ofs h + MZ_ZIP_LOCAL_DIR_HEADER_SIZE + filename_len h)) (extra_len h))
        (\<lambda>pZip bs. do {
          w \<leftarrow> local_extra_walk bs 0 (extra_len h);
          (case w of
             Inl e \<Rightarrow> mz_zip_set_error pZip e
           | Inr None \<Rightarrow> zok pZip h
           | Inr (Some (u, c)) \<Rightarrow> zok pZip (h\<lparr>lh_uncomp_size := u, lh_comp_size := c, lh_zip64 := True\<rparr>))
        })
      else zok pZip h)"

text \<open>The checksum and the sizes in the data descriptor, whose signature is optional.\<close>

definition descriptor_fields :: "bool \<Rightarrow> bytes \<Rightarrow> (nat \<times> nat \<times> nat) option" where
  "descriptor_fields wide buf = do {
     sig \<leftarrow> rd32 buf 0;
     (let p = (if sig = MZ_ZIP_DATA_DESCRIPTOR_ID then 4 else 0) in do {
        crc \<leftarrow> rd32 buf p;
        cmp \<leftarrow> (if wide then rd64 buf (p + 4) else rd32 buf (p + 4));
        uncomp \<leftarrow> (if wide then rd64 buf (p + 4 + 8) else rd32 buf (p + 4 + 4));
        Some (crc, cmp, uncomp)
      })
   }"

text \<open>The comparison of checksum and sizes, from the descriptor or from the header.\<close>

definition check_sizes :: "mz_zip_archive \<Rightarrow> mz_zip_archive_file_stat \<Rightarrow> nat \<times> nat \<times> nat \<Rightarrow> unit zret" where
  "check_sizes pZip s f = (case f of (crc, cmp, uncomp) \<Rightarrow>
     if crc \<noteq> m_crc32 s \<or> cmp \<noteq> m_comp_size s \<or> uncomp \<noteq> m_uncomp_size s
     then mz_zip_set_error pZip MZ_ZIP_VALIDATION_FAILED else zok pZip ())"

definition check_local_sizes :: "mz_zip_archive \<Rightarrow> mz_zip_archive_file_stat \<Rightarrow> local_header \<Rightarrow> unit zret" where
  "check_local_sizes pZip s h =
     (if lh_bit_flags h AND 8 \<noteq> 0 \<and> lh_comp_size h = 0 \<and> lh_crc32 h = 0
      then do {
        st \<leftarrow> m_pState pZip;
        (let wide = (m_zip64 st \<or> lh_zip64 h)
         in zbind (read_exactly pZip
              (u64 (lh_ofs h + MZ_ZIP_LOCAL_DIR_HEADER_SIZE + filename_len h + extra_len h + m_comp_size s))
              (4 * (if wide then 6 else 4)))
           (\<lambda>pZip bs. do { f \<leftarrow> descriptor_fields wide bs; check_sizes pZip s f }))
      }
      else check_sizes pZip s (lh_crc32 h, lh_comp_size h, lh_uncomp_size h))"

text \<open>Everything between the local header's first checks and the extraction.\<close>

definition check_local_entry :: "mz_zip_archive \<Rightarrow> mz_zip_archive_file_stat \<Rightarrow> unit zret" where
  "check_local_entry pZip s =
     zbind (read_local_header pZip s) (\<lambda>pZip h. do {
       ok \<leftarrow> mz_zip_array_resize pZip 1 (max (filename_len h) (extra_len h));
       (if \<not> ok then mz_zip_set_error pZip MZ_ZIP_ALLOC_FAILED
        else zbind (check_local_name pZip s h) (\<lambda>pZip _.
          zbind (read_local_zip64 pZip h) (\<lambda>pZip h. check_local_sizes pZip s h)))
     })"

definition validate_data ::
    "tinfl_decompressor \<Rightarrow> bytes \<Rightarrow> mz_zip_archive \<Rightarrow> nat \<Rightarrow> nat \<Rightarrow> mz_zip_archive_file_stat \<Rightarrow> unit zret" where
  "validate_data inflator dict pZip file_index flags s =
     (if flags AND MZ_ZIP_FLAG_VALIDATE_HEADERS_ONLY \<noteq> 0 then zok pZip ()
      else do {
        (pZip, crc, ok) \<leftarrow> mz_zip_reader_extract_to_callback inflator dict pZip file_index
          mz_zip_compute_crc32_callback 0 0;
        (if \<not> ok then Some (pZip, Inl (m_last_error pZip))
         else if unat crc \<noteq> m_crc32 s then mz_zip_set_error pZip MZ_ZIP_VALIDATION_FAILED
         else zok pZip ())
      })"

definition mz_zip_validate_file ::
    "tinfl_decompressor \<Rightarrow> bytes \<Rightarrow> mz_zip_archive \<Rightarrow> nat \<Rightarrow> nat \<Rightarrow> unit zret" where
  "mz_zip_validate_file inflator dict pZip file_index flags =
     (if m_pState pZip = None \<or> m_pAlloc pZip = None \<or> \<not> m_pFree pZip \<or> m_pRead pZip = None
      then mz_zip_set_error pZip MZ_ZIP_INVALID_PARAMETER
      else if m_total_files pZip < file_index then mz_zip_set_error pZip MZ_ZIP_INVALID_PARAMETER
      else do {
        cdh \<leftarrow> mz_zip_get_cdh pZip file_index;
        zbind (mz_zip_file_stat_internal pZip file_index cdh) (\<lambda>pZip (s, found).
          if m_is_directory s \<or> m_uncomp_size s = 0 then zok pZip ()
          else if m_is_encrypted s then mz_zip_set_error pZip MZ_ZIP_UNSUPPORTED_ENCRYPTION
          else if m_method s \<noteq> 0 \<and> m_method s \<noteq> MZ_DEFLATED then mz_zip_set_error pZip MZ_ZIP_UNSUPPORTED_METHOD
          else if \<not> m_is_supported s then mz_zip_set_error pZip MZ_ZIP_UNSUPPORTED_FEATURE
          else zbind (check_local_entry pZip s) (\<lambda>pZip _. validate_data inflator dict pZip file_index flags s))
      })"

section \<open>The archive\<close>

text \<open>The entry is found again under its own name.\<close>

definition validate_locate :: "mz_zip_archive \<Rightarrow> nat \<Rightarrow> nat \<Rightarrow> unit zret" where
  "validate_locate pZip i flags =
     (if flags AND MZ_ZIP_FLAG_VALIDATE_LOCATE_FILE_FLAG = 0 then zok pZip ()
      else zbind (mz_zip_reader_file_stat pZip i) (\<lambda>pZip s.
        zbind (mz_zip_reader_locate_file_v2 pZip (Some (c_str (m_filename s))) None 0) (\<lambda>pZip found.
          if found \<noteq> i then mz_zip_set_error pZip MZ_ZIP_VALIDATION_FAILED else zok pZip ())))"

fun validate_entries ::
    "tinfl_decompressor \<Rightarrow> bytes \<Rightarrow> nat \<Rightarrow> mz_zip_archive \<Rightarrow> nat \<Rightarrow> nat \<Rightarrow> unit zret" where
  "validate_entries inflator dict flags pZip i 0 = zok pZip ()"
| "validate_entries inflator dict flags pZip i (Suc left) =
     zbind (validate_locate pZip i flags) (\<lambda>pZip _.
       zbind (mz_zip_validate_file inflator dict pZip i flags) (\<lambda>pZip _.
         validate_entries inflator dict flags pZip (i + 1) left))"

definition mz_zip_validate_archive ::
    "tinfl_decompressor \<Rightarrow> bytes \<Rightarrow> mz_zip_archive \<Rightarrow> nat \<Rightarrow> unit zret" where
  "mz_zip_validate_archive inflator dict pZip flags =
     (if m_pAlloc pZip = None \<or> \<not> m_pFree pZip \<or> m_pRead pZip = None
      then mz_zip_set_error pZip MZ_ZIP_INVALID_PARAMETER
      else case m_pState pZip of
          None \<Rightarrow> mz_zip_set_error pZip MZ_ZIP_INVALID_PARAMETER
        | Some st \<Rightarrow>
            if \<not> m_zip64 st \<and> (MZ_UINT16_MAX < m_total_files pZip \<or> MZ_UINT32_MAX < m_archive_size pZip) \<or>
               m_zip64 st \<and> MZ_UINT32_MAX \<le> length (m_central_dir st)
            then mz_zip_set_error pZip MZ_ZIP_ARCHIVE_TOO_LARGE
            else validate_entries inflator dict flags pZip 0 (m_total_files pZip))"

text \<open>
  Open, validate, close: the answer and \<^verbatim>\<open>*pErr\<close>. \<open>z\<close> is the local archive, of which the opening function
  sees a zeroed structure.
\<close>

definition validate_opened ::
    "tinfl_decompressor \<Rightarrow> bytes \<Rightarrow> unit zret \<Rightarrow> nat \<Rightarrow> (bool \<times> mz_zip_error) option" where
  "validate_opened inflator dict opening flags =
     (case opening of
        None \<Rightarrow> None
      | Some (z, Inl e) \<Rightarrow> Some (False, m_last_error z)
      | Some (z, Inr _) \<Rightarrow> do {
          (z, r) \<leftarrow> mz_zip_validate_archive inflator dict z flags;
          (let success = (\<exists>x. r = Inr x);
               actual_err = (if success then MZ_ZIP_NO_ERROR else m_last_error z) in do {
             (z, r) \<leftarrow> mz_zip_reader_end_internal z success;
             Some (case r of
               Inl e \<Rightarrow> (False, if actual_err = MZ_ZIP_NO_ERROR then m_last_error z else actual_err)
             | Inr _ \<Rightarrow> (success, actual_err))
           })
        })"

definition mz_zip_validate_mem_archive ::
    "tinfl_decompressor \<Rightarrow> bytes \<Rightarrow> mz_zip_archive \<Rightarrow> bytes option \<Rightarrow> nat \<Rightarrow> nat \<Rightarrow> (bool \<times> mz_zip_error) option" where
  "mz_zip_validate_mem_archive inflator dict z pMem size' flags =
     (if pMem = None \<or> size' = 0 then Some (False, MZ_ZIP_INVALID_PARAMETER)
      else validate_opened inflator dict (mz_zip_reader_init_mem (mz_zip_zero_struct z) pMem size' flags) flags)"

definition mz_zip_validate_file_archive ::
    "tinfl_decompressor \<Rightarrow> bytes \<Rightarrow> mz_zip_archive \<Rightarrow> bytes option \<Rightarrow> bool \<Rightarrow> nat \<Rightarrow> (bool \<times> mz_zip_error) option" where
  "mz_zip_validate_file_archive inflator dict z pFile seek_ok flags =
     validate_opened inflator dict (mz_zip_reader_init_file_v2 (mz_zip_zero_struct z) pFile seek_ok flags 0 0) flags"

end
