(* ===== verification/QtBase.thy ===== *)
theory QtBase
  imports Prelude
begin

text \<open>
  What the plugin's C++ classes use of Qt. Qt is not part of the repository: its pure functions are the
  fields of an environment, and the file system behind \<^verbatim>\<open>QDir\<close>, \<^verbatim>\<open>QFile\<close> and \<^verbatim>\<open>QFileInfo\<close> is a function
  that answers the latest operation from the whole history of operations, so it may change and fail in any
  way. A method of the program threads that history, newest operation first; theorems about it speak of
  the operations the code performs, in their order.
\<close>

text \<open>A \<^verbatim>\<open>QString\<close>: its UTF-16 code units. \<open>qs\<close> makes one of a literal.\<close>

type_synonym qchar = "16 word"
type_synonym qstring = "qchar list"

definition qs :: "string \<Rightarrow> qstring" where
  "qs s = map of_char s"

text \<open>A \<^verbatim>\<open>QVariant\<close>, by its \<^verbatim>\<open>type()\<close>. \<open>QInvalid\<close> is one that is invalid or null, \<open>QDouble\<close> holds the double's \<^verbatim>\<open>%.15g\<close> rendering, \<open>QOther\<close> the
  \<^verbatim>\<open>toString()\<close> of any other type.\<close>

datatype qvariant =
    QInvalid
  | QBool bool
  | QInt int
  | QUInt nat
  | QLongLong int
  | QULongLong nat
  | QDouble bytes
  | QString qstring
  | QList "qvariant list"
  | QMap "(qstring \<times> qvariant) list"
  | QOther qstring

text \<open>A finite \<^verbatim>\<open>double\<close>: \<open>(m, k)\<close> is \<open>m\<close> divided by \<open>2 ^ k\<close>.\<close>

type_synonym qdouble = "int \<times> nat"

text \<open>
  The operations: \<open>Mkpath d n\<close> is \<^verbatim>\<open>QDir(d).mkpath(n)\<close>, and \<^verbatim>\<open>QDir()\<close> is the empty \<open>d\<close>. \<open>StartProcess\<close> is
  \<^verbatim>\<open>QProcess::start\<close> with its program and arguments, \<open>SetEnvironment\<close> what its environment adds to the system's; \<open>HttpGet\<close> and \<open>HttpPost\<close> have the \<^verbatim>\<open>X-DPB-Token\<close> header if
  there is one, and the body.
\<close>

datatype io_op =
    Exists qstring
  | Mkpath qstring qstring
  | OpenWrite qstring
  | WriteFile qstring bytes
  | CloseFile qstring
  | ReadAll qstring
  | RemoveRecursively qstring
  | Rename qstring qstring
  | NewUuid
  | OpenZip qstring
  | OpenRead qstring
  | ReadBytes qstring nat
  | Permissions qstring
  | Chmod qstring
  | Sleep nat
  | AcquireContext
  | GenRandom nat
  | RtlGenRandom nat
  | SetEnvironment "(qstring \<times> qstring) list"
  | StartProcess qstring "qstring list"
  | Terminate
  | Kill
  | HttpGet qstring "bytes option"
  | HttpPost qstring "bytes option" bytes

type_synonym io_log = "io_op list"

text \<open>
  The answers: success or existence, the count \<^verbatim>\<open>QFile::write\<close> returns, a new UUID, the contents of a
  file that can be opened. The other fields are Qt's conversions, \<^verbatim>\<open>QTextStream::readLine\<close> on a file's
  contents, the standard directories, and whether the program was built for Windows.
\<close>

record env =
  env_yes :: "io_log \<Rightarrow> bool"
  env_count :: "io_log \<Rightarrow> int"
  env_uuid :: "io_log \<Rightarrow> qstring"
  env_data :: "io_log \<Rightarrow> bytes option"
  qt_filePath :: "qstring \<Rightarrow> qstring \<Rightarrow> qstring"
  qt_absolutePath :: "qstring \<Rightarrow> qstring"
  qt_fromUtf8 :: "bytes \<Rightarrow> qstring"
  qt_toUtf8 :: "qstring \<Rightarrow> bytes"
  qt_parseJson :: "bytes \<Rightarrow> bytes + (qstring \<times> qvariant) list"
  qt_toString :: "qvariant \<Rightarrow> qstring"
  qt_toBool :: "qvariant \<Rightarrow> bool"
  qt_toLongLong :: "qvariant \<Rightarrow> int"
  qt_toDouble :: "qvariant \<Rightarrow> qdouble"
  qt_isSpace :: "qchar \<Rightarrow> bool"
  qt_readLine :: "bytes \<Rightarrow> qstring"
  qt_appDataLocation :: qstring
  qt_homePath :: qstring
  q_os_win :: bool

definition ask :: "env \<Rightarrow> io_op \<Rightarrow> io_log \<Rightarrow> bool \<times> io_log" where
  "ask E op log = (env_yes E (op # log), op # log)"

definition ask_data :: "env \<Rightarrow> io_op \<Rightarrow> io_log \<Rightarrow> bytes option \<times> io_log" where
  "ask_data E op log = (env_data E (op # log), op # log)"

lemma ask_simps [simp]:
  "fst (ask E op log) = env_yes E (op # log)" "snd (ask E op log) = op # log"
  "fst (ask_data E op log) = env_data E (op # log)" "snd (ask_data E op log) = op # log"
  by (simp_all add: ask_def ask_data_def)

definition qvalue :: "(qstring \<times> qvariant) list \<Rightarrow> qstring \<Rightarrow> qvariant" where
  "qvalue m k = (case map_of m k of None \<Rightarrow> QInvalid | Some v \<Rightarrow> v)"

text \<open>\<^verbatim>\<open>QVariant::toList\<close>, \<^verbatim>\<open>QVariant::toMap\<close>, \<^verbatim>\<open>QString::trimmed\<close>, and the token header a request gets.\<close>

fun qt_toList :: "qvariant \<Rightarrow> qvariant list" where
  "qt_toList (QList vs) = vs"
| "qt_toList _ = []"

fun qt_toMap :: "qvariant \<Rightarrow> (qstring \<times> qvariant) list" where
  "qt_toMap (QMap m) = m"
| "qt_toMap _ = []"

definition trimmed :: "env \<Rightarrow> qstring \<Rightarrow> qstring" where
  "trimmed E s = rev (dropWhile (qt_isSpace E) (rev (dropWhile (qt_isSpace E) s)))"

definition token_header :: "env \<Rightarrow> qstring \<Rightarrow> bytes option" where
  "token_header E m_authToken = (if m_authToken = [] then None else Some (qt_toUtf8 E m_authToken))"

text \<open>An environment where every operation succeeds, no file has contents and texts are ASCII, for the witnesses.\<close>

definition blank_env :: env where
  "blank_env = \<lparr>env_yes = (\<lambda>_. True), env_count = (\<lambda>_. 0), env_uuid = (\<lambda>_. []), env_data = (\<lambda>_. None),
     qt_filePath = (\<lambda>d n. d @ of_char CHR ''/'' # n), qt_absolutePath = (\<lambda>p. p),
     qt_fromUtf8 = map ucast, qt_toUtf8 = map ucast, qt_parseJson = (\<lambda>_. Inl []),
     qt_toString = (\<lambda>v. case v of QString s \<Rightarrow> s | _ \<Rightarrow> []), qt_toBool = (\<lambda>v. v = QBool True),
     qt_toLongLong = (\<lambda>v. case v of QLongLong i \<Rightarrow> i | _ \<Rightarrow> 0), qt_toDouble = (\<lambda>_. (0, 0)),
     qt_isSpace = (\<lambda>c. c = 32), qt_readLine = map ucast, qt_appDataLocation = qs ''data'',
     qt_homePath = qs ''home'', q_os_win = False\<rparr>"

end
