(* ===== verification/JsonStd.thy ===== *)
theory JsonStd
  imports QtBase
begin

text \<open>
  \<^verbatim>\<open>include/JsonStd.h\<close>: the JSON writer every class uses. Texts are the bytes of a \<^verbatim>\<open>std::string\<close>. The
  reader \<^verbatim>\<open>parseObject\<close> is Qt's \<^verbatim>\<open>QJsonDocument\<close>, a parameter (\<open>qt_parseJson\<close>).
\<close>

definition str :: "string \<Rightarrow> bytes" where
  "str s = map of_char s"

section \<open>The writer\<close>

text \<open>\<^verbatim>\<open>snprintf("\\u%04x")\<close> of a byte.\<close>

definition hex_digit :: "nat \<Rightarrow> u8" where
  "hex_digit n = (if n < 10 then of_nat (48 + n) else of_nat (87 + n))"

definition escape_char :: "u8 \<Rightarrow> bytes" where
  "escape_char c =
     (if c = 0x22 then [0x5C, 0x22]
      else if c = 0x5C then [0x5C, 0x5C]
      else if c = 0x0A then [0x5C, 0x6E]
      else if c = 0x0D then [0x5C, 0x72]
      else if c = 0x09 then [0x5C, 0x74]
      else if c < 0x20 then [0x5C, 0x75, 0x30, 0x30, hex_digit (unat c div 16), hex_digit (unat c mod 16)]
      else [c])"

fun escape :: "bytes \<Rightarrow> bytes" where
  "escape [] = []"
| "escape (c # s) = escape_char c @ escape s"

definition quoted :: "bytes \<Rightarrow> bytes" where
  "quoted s = [0x22] @ escape s @ [0x22]"

text \<open>\<^verbatim>\<open>std::to_string\<close> of a 64-bit integer.\<close>

function dec_nat :: "nat \<Rightarrow> bytes" where
  "dec_nat n = (if n < 10 then [of_nat (48 + n)] else dec_nat (n div 10) @ [of_nat (48 + n mod 10)])"
  by pat_completeness auto
termination by (relation "measure id") auto

declare dec_nat.simps [simp del]

definition to_string :: "int \<Rightarrow> bytes" where
  "to_string i = (if i < 0 then 0x2D # dec_nat (nat (- i)) else dec_nat (nat i))"

text \<open>\<^verbatim>\<open>toLongLong()\<close> of the unsigned 64-bit type wraps.\<close>

definition to_longlong :: "nat \<Rightarrow> int" where
  "to_longlong n = (if n mod 2 ^ 64 < 2 ^ 63 then int (n mod 2 ^ 64) else int (n mod 2 ^ 64) - 2 ^ 64)"

text \<open>\<open>u8\<close> is \<^verbatim>\<open>QString::toUtf8\<close>. The commas go before every element but the first.\<close>

fun variantToJson :: "(qstring \<Rightarrow> bytes) \<Rightarrow> qvariant \<Rightarrow> bytes"
  and list_items :: "(qstring \<Rightarrow> bytes) \<Rightarrow> bool \<Rightarrow> qvariant list \<Rightarrow> bytes"
  and map_items :: "(qstring \<Rightarrow> bytes) \<Rightarrow> bool \<Rightarrow> (qstring \<times> qvariant) list \<Rightarrow> bytes" where
  "variantToJson u8 QInvalid = str ''null''"
| "variantToJson u8 (QBool b) = (if b then str ''true'' else str ''false'')"
| "variantToJson u8 (QInt i) = to_string i"
| "variantToJson u8 (QLongLong i) = to_string i"
| "variantToJson u8 (QUInt n) = to_string (int n)"
| "variantToJson u8 (QULongLong n) = to_string (to_longlong n)"
| "variantToJson u8 (QDouble s) = s"
| "variantToJson u8 (QString s) = quoted (u8 s)"
| "variantToJson u8 (QList vs) = [0x5B] @ list_items u8 True vs @ [0x5D]"
| "variantToJson u8 (QMap m) = [0x7B] @ map_items u8 True m @ [0x7D]"
| "variantToJson u8 (QOther s) = quoted (u8 s)"
| "list_items u8 first [] = []"
| "list_items u8 first (v # vs) =
     (if first then [] else [0x2C]) @ variantToJson u8 v @ list_items u8 False vs"
| "map_items u8 first [] = []"
| "map_items u8 first ((k, v) # m) =
     (if first then [] else [0x2C]) @ (quoted (u8 k) @ [0x3A]) @ variantToJson u8 v @ map_items u8 False m"

definition variantToJsonBytes :: "env \<Rightarrow> qvariant \<Rightarrow> bytes" where
  "variantToJsonBytes E v = variantToJson (qt_toUtf8 E) v"

section \<open>A reader for comparison\<close>

text \<open>
  JSON values and a reader for them after RFC 8259: literals, integers, strings with the escapes, arrays,
  objects, no white space. \<open>n\<close> bounds the nesting; a text of \<open>n\<close> bytes needs no more than \<open>n\<close>.
\<close>

datatype json =
    JNull
  | JBool bool
  | JInt int
  | JStr bytes
  | JArr "json list"
  | JObj "(bytes \<times> json) list"

definition is_digit :: "u8 \<Rightarrow> bool" where
  "is_digit c \<longleftrightarrow> 48 \<le> c \<and> c \<le> 57"

definition digits_value :: "bytes \<Rightarrow> nat" where
  "digits_value ds = foldl (\<lambda>n d. 10 * n + (unat d - 48)) 0 ds"

definition json_digits :: "bytes \<Rightarrow> (nat \<times> bytes) option" where
  "json_digits s = (let ds = takeWhile is_digit s
     in if ds = [] \<or> hd ds = 48 \<and> tl ds \<noteq> [] then None
        else Some (digits_value ds, dropWhile is_digit s))"

definition hex_value :: "u8 \<Rightarrow> nat option" where
  "hex_value c = (if is_digit c then Some (unat c - 48)
     else if 97 \<le> c \<and> c \<le> 102 then Some (unat c - 87)
     else if 65 \<le> c \<and> c \<le> 70 then Some (unat c - 55) else None)"

definition hex4 :: "u8 \<Rightarrow> u8 \<Rightarrow> u8 \<Rightarrow> u8 \<Rightarrow> nat option" where
  "hex4 a b c d = do {
     a \<leftarrow> hex_value a; b \<leftarrow> hex_value b; c \<leftarrow> hex_value c; d \<leftarrow> hex_value d;
     Some (((a * 16 + b) * 16 + c) * 16 + d)
   }"

text \<open>The UTF-8 bytes of a code unit of the basic plane.\<close>

definition utf8_bmp :: "nat \<Rightarrow> bytes" where
  "utf8_bmp n = (if n < 0x80 then [of_nat n]
     else if n < 0x800 then [of_nat (0xC0 + n div 64), of_nat (0x80 + n mod 64)]
     else [of_nat (0xE0 + n div 4096), of_nat (0x80 + n div 64 mod 64), of_nat (0x80 + n mod 64)])"

definition simple_escape :: "u8 \<Rightarrow> u8 option" where
  "simple_escape e = (if e = 0x22 \<or> e = 0x5C \<or> e = 0x2F then Some e
     else if e = 0x62 then Some 8 else if e = 0x66 then Some 12 else if e = 0x6E then Some 10
     else if e = 0x72 then Some 13 else if e = 0x74 then Some 9 else None)"

definition prepend :: "'a list \<Rightarrow> ('a list \<times> 'b) option \<Rightarrow> ('a list \<times> 'b) option" where
  "prepend xs r = (case r of None \<Rightarrow> None | Some (ys, t) \<Rightarrow> Some (xs @ ys, t))"

fun json_string :: "bytes \<Rightarrow> (bytes \<times> bytes) option" where
  "json_string [] = None"
| "json_string (c # r) =
     (if c = 0x22 then Some ([], r)
      else if c < 0x20 then None
      else if c = 0x5C
      then (case r of
          [] \<Rightarrow> None
        | e # r' \<Rightarrow>
            if e = 0x75
            then (case r' of
                a # b # c # d # q \<Rightarrow>
                  (case hex4 a b c d of None \<Rightarrow> None | Some n \<Rightarrow> prepend (utf8_bmp n) (json_string q))
              | _ \<Rightarrow> None)
            else (case simple_escape e of None \<Rightarrow> None | Some b \<Rightarrow> prepend [b] (json_string r')))
      else prepend [c] (json_string r))"

definition literal :: "bytes \<Rightarrow> json \<Rightarrow> bytes \<Rightarrow> (json \<times> bytes) option" where
  "literal w j s = (if take (length w) s = w then Some (j, drop (length w) s) else None)"

fun json_value :: "nat \<Rightarrow> bytes \<Rightarrow> (json \<times> bytes) option"
  and json_elems :: "nat \<Rightarrow> bytes \<Rightarrow> (json list \<times> bytes) option"
  and json_members :: "nat \<Rightarrow> bytes \<Rightarrow> ((bytes \<times> json) list \<times> bytes) option" where
  "json_value 0 s = None"
| "json_value (Suc n) s = (case s of
      [] \<Rightarrow> None
    | c # r \<Rightarrow>
        if c = 0x6E then literal (str ''null'') JNull s
        else if c = 0x74 then literal (str ''true'') (JBool True) s
        else if c = 0x66 then literal (str ''false'') (JBool False) s
        else if c = 0x22 then do { (b, r) \<leftarrow> json_string r; Some (JStr b, r) }
        else if c = 0x5B
        then if r \<noteq> [] \<and> hd r = 0x5D then Some (JArr [], tl r)
             else do { (vs, r) \<leftarrow> json_elems n r; Some (JArr vs, r) }
        else if c = 0x7B
        then if r \<noteq> [] \<and> hd r = 0x7D then Some (JObj [], tl r)
             else do { (m, r) \<leftarrow> json_members n r; Some (JObj m, r) }
        else if c = 0x2D then do { (k, r) \<leftarrow> json_digits r; Some (JInt (- int k), r) }
        else do { (k, r) \<leftarrow> json_digits s; Some (JInt (int k), r) })"
| "json_elems 0 s = None"
| "json_elems (Suc n) s = do {
     (v, r) \<leftarrow> json_value n s;
     (if r = [] then None
      else if hd r = 0x2C then prepend [v] (json_elems n (tl r))
      else if hd r = 0x5D then Some ([v], tl r)
      else None)
   }"
| "json_members 0 s = None"
| "json_members (Suc n) s =
     (if s = [] \<or> hd s \<noteq> 0x22 then None
      else do {
        (k, r) \<leftarrow> json_string (tl s);
        (if r = [] \<or> hd r \<noteq> 0x3A then None
         else do {
           (v, r) \<leftarrow> json_value n (tl r);
           (if r = [] then None
            else if hd r = 0x2C then prepend [(k, v)] (json_members n (tl r))
            else if hd r = 0x7D then Some ([(k, v)], tl r)
            else None)
         })
      })"

text \<open>What a value denotes; numbers the writer renders with \<^verbatim>\<open>snprintf\<close> are left out.\<close>

fun json_of :: "(qstring \<Rightarrow> bytes) \<Rightarrow> qvariant \<Rightarrow> json" where
  "json_of u8 QInvalid = JNull"
| "json_of u8 (QBool b) = JBool b"
| "json_of u8 (QInt i) = JInt i"
| "json_of u8 (QLongLong i) = JInt i"
| "json_of u8 (QUInt n) = JInt (int n)"
| "json_of u8 (QULongLong n) = JInt (int n)"
| "json_of u8 (QDouble s) = JNull"
| "json_of u8 (QString s) = JStr (u8 s)"
| "json_of u8 (QList vs) = JArr (map (json_of u8) vs)"
| "json_of u8 (QMap m) = JObj (map (\<lambda>(k, v). (u8 k, json_of u8 v)) m)"
| "json_of u8 (QOther s) = JStr (u8 s)"

fun exact :: "qvariant \<Rightarrow> bool" where
  "exact (QDouble s) = False"
| "exact (QULongLong n) = (n < 2 ^ 63)"
| "exact (QList vs) = list_all exact vs"
| "exact (QMap m) = list_all (\<lambda>(k, v). exact v) m"
| "exact _ = True"

section \<open>The texts read back\<close>

lemma hex_value_digit: "n < 16 \<Longrightarrow> hex_value (hex_digit n) = Some n"
proof -
  assume "n < 16"
  then have "n \<in> set [0..<16]" by simp
  moreover have "\<forall>k \<in> set [0..<16]. hex_value (hex_digit k) = Some k"
    by code_simp
  ultimately show ?thesis by blast
qed

lemma hex4_byte: "hex4 0x30 0x30 (hex_digit (unat c div 16)) (hex_digit (unat c mod 16)) = Some (unat (c :: u8))"
proof -
  have "unat c < 2 ^ LENGTH(8)" by (rule unsigned_less)
  then have "unat c < 256" by simp
  then have "unat c < 16 * 16" by simp
  then have "unat c div 16 < 16" "unat c mod 16 < 16" by (rule less_mult_imp_div_less) simp
  then have h: "hex_value (hex_digit (unat c div 16)) = Some (unat c div 16)"
    "hex_value (hex_digit (unat c mod 16)) = Some (unat c mod 16)" by (simp_all add: hex_value_digit)
  have z: "hex_value 0x30 = Some 0" by (simp add: hex_value_def is_digit_def)
  have "((0 * 16 + 0) * 16 + unat c div 16) * 16 + unat c mod 16 = unat c" by simp
  then show ?thesis unfolding hex4_def h z by simp
qed

lemma utf8_ascii: "unat (c :: u8) < 128 \<Longrightarrow> utf8_bmp (unat c) = [c]"
  by (simp add: utf8_bmp_def)

lemma json_string_escape_char: "json_string (escape_char c @ t) = prepend [c] (json_string t)"
proof -
  consider "c = 0x22" | "c = 0x5C" | "c = 0x0A" | "c = 0x0D" | "c = 0x09"
    | (ctl) "c < 0x20" "c \<noteq> 0x22" "c \<noteq> 0x5C" "c \<noteq> 0x0A" "c \<noteq> 0x0D" "c \<noteq> 0x09"
    | (plain) "\<not> c < 0x20" "c \<noteq> 0x22" "c \<noteq> 0x5C" by blast
  then show ?thesis
  proof cases
    case ctl
    then have "unat c < 128" by (simp add: word_less_nat_alt)
    then show ?thesis using ctl by (simp add: escape_char_def hex4_byte utf8_ascii)
  next
    case plain
    then have "c \<noteq> 0x0A" "c \<noteq> 0x0D" "c \<noteq> 0x09" by auto
    then show ?thesis using plain by (simp add: escape_char_def)
  qed (simp_all add: escape_char_def simple_escape_def)
qed

lemma json_string_escape: "json_string (escape s @ 0x22 # r) = Some (s, r)"
  by (induction s) (simp_all add: json_string_escape_char prepend_def)

lemma dec_nat_digits: "list_all is_digit (dec_nat n)"
proof (induction n rule: dec_nat.induct)
  case (1 n)
  have d: "is_digit (of_nat (48 + k))" if "k < 10" for k
  proof -
    have "k = 0 \<or> k = 1 \<or> k = 2 \<or> k = 3 \<or> k = 4 \<or> k = 5 \<or> k = 6 \<or> k = 7 \<or> k = 8 \<or> k = 9"
      using that by presburger
    then show ?thesis by (elim disjE) (simp_all add: is_digit_def)
  qed
  show ?case using 1 d [of n] d [of "n mod 10"] by (subst dec_nat.simps) auto
qed

lemma digit_byte: "k < 10 \<Longrightarrow> unat (of_nat (48 + k) :: u8) - 48 = k"
  unfolding unat_of_nat by simp

lemma dec_nat_value: "digits_value (dec_nat n) = n"
proof (induction n rule: dec_nat.induct)
  case (1 n)
  show ?case
  proof (cases "n < 10")
    case True
    then show ?thesis by (subst dec_nat.simps) (simp add: digits_value_def digit_byte del: of_nat_add)
  next
    case False
    then show ?thesis using 1
      by (subst dec_nat.simps) (simp add: digits_value_def digit_byte del: of_nat_add)
  qed
qed

lemma dec_nat_nonempty [simp]: "dec_nat n \<noteq> []"
  by (subst dec_nat.simps) simp

lemma dec_nat_no_zero: "0 < n \<Longrightarrow> hd (dec_nat n) \<noteq> 48"
proof (induction n rule: dec_nat.induct)
  case (1 n)
  show ?case
  proof (cases "n < 10")
    case True
    have "unat (of_nat (48 + n) :: u8) = 48 + n" using True unfolding unat_of_nat by simp
    then have "(of_nat (48 + n) :: u8) \<noteq> 48" using "1.prems" by auto
    then show ?thesis using True by (subst dec_nat.simps) (simp del: of_nat_add)
  next
    case False
    then show ?thesis using 1 by (subst dec_nat.simps) simp
  qed
qed

definition no_digit :: "bytes \<Rightarrow> bool" where
  "no_digit r \<longleftrightarrow> r = [] \<or> \<not> is_digit (hd r)"

lemma json_digits_dec:
  assumes "no_digit r"
  shows "json_digits (dec_nat n @ r) = Some (n, r)"
proof -
  have all: "\<And>c. c \<in> set (dec_nat n) \<Longrightarrow> is_digit c" using dec_nat_digits by (auto simp: list_all_iff)
  then have t: "takeWhile is_digit (dec_nat n @ r) = dec_nat n" "dropWhile is_digit (dec_nat n @ r) = r"
    using assms by (simp_all add: takeWhile_append2 dropWhile_append2 no_digit_def takeWhile_eq_Nil_iff)
      (cases r; simp)+
  have "\<not> (hd (dec_nat n) = 48 \<and> tl (dec_nat n) \<noteq> [])"
  proof (cases "n < 10")
    case True
    then show ?thesis by (subst (2) dec_nat.simps) simp
  next
    case False
    then show ?thesis using dec_nat_no_zero [of n] by simp
  qed
  then show ?thesis unfolding json_digits_def t Let_def by (simp add: dec_nat_value)
qed

lemma to_string_reads:
  assumes "no_digit r"
  shows "json_value (Suc k) (to_string i @ r) = Some (JInt i, r)"
proof (cases "i < 0")
  case True
  then show ?thesis by (simp add: to_string_def json_digits_dec [OF assms])
next
  case False
  define n where "n = nat i"
  have i: "i = int n" and t: "to_string i = dec_nat n" using False by (simp_all add: n_def to_string_def)
  obtain c cs where c: "dec_nat n = c # cs" by (cases "dec_nat n") simp_all
  then have "is_digit c" using dec_nat_digits [of n] by simp
  then have "c \<noteq> 0x6E \<and> c \<noteq> 0x74 \<and> c \<noteq> 0x66 \<and> c \<noteq> 0x22 \<and> c \<noteq> 0x5B \<and> c \<noteq> 0x7B \<and> c \<noteq> 0x2D"
    by (auto simp: is_digit_def)
  moreover have e: "to_string i @ r = c # cs @ r" using t c by simp
  moreover have "json_digits (c # cs @ r) = Some (n, r)" using json_digits_dec [OF assms, of n] c by simp
  ultimately show ?thesis unfolding e by (simp add: i)
qed

lemma literal_append: "literal w j (w @ r) = Some (j, r)"
  by (simp add: literal_def)

lemma json_value_quoted: "json_value (Suc k) (quoted s @ r) = Some (JStr s, r)"
  by (simp add: quoted_def json_string_escape)

lemma quoted_length: "2 \<le> length (quoted s)"
  by (simp add: quoted_def)

lemma to_string_nonempty [simp]: "to_string i \<noteq> []"
  by (simp add: to_string_def)

lemma variantToJson_nonempty: "exact v \<Longrightarrow> variantToJson u8 v \<noteq> []"
  by (cases v) (simp_all add: str_def quoted_def)

text \<open>The three statements of the mutual induction: a value, the rest of an array, the rest of an object.\<close>

definition value_reads :: "(qstring \<Rightarrow> bytes) \<Rightarrow> qvariant \<Rightarrow> bool" where
  "value_reads u8 v \<longleftrightarrow> (\<forall>k r. no_digit r \<longrightarrow> length (variantToJson u8 v) \<le> k \<longrightarrow>
     json_value k (variantToJson u8 v @ r) = Some (json_of u8 v, r))"

definition items_read :: "(qstring \<Rightarrow> bytes) \<Rightarrow> bool \<Rightarrow> qvariant list \<Rightarrow> bool" where
  "items_read u8 first vs \<longleftrightarrow> vs \<noteq> [] \<longrightarrow>
     (\<exists>t. list_items u8 first vs = (if first then [] else [0x2C]) @ t \<and>
        (\<forall>k r. length t < k \<longrightarrow> json_elems k (t @ 0x5D # r) = Some (map (json_of u8) vs, r)))"

definition members_read :: "(qstring \<Rightarrow> bytes) \<Rightarrow> bool \<Rightarrow> (qstring \<times> qvariant) list \<Rightarrow> bool" where
  "members_read u8 first m \<longleftrightarrow> m \<noteq> [] \<longrightarrow>
     (\<exists>t. map_items u8 first m = (if first then [] else [0x2C]) @ t \<and>
        (\<forall>k r. length t < k \<longrightarrow>
           json_members k (t @ 0x7D # r) = Some (map (\<lambda>(k, v). (u8 k, json_of u8 v)) m, r)))"

lemma no_digit_simps [simp]: "no_digit []" "no_digit (0x2C # r)" "no_digit (0x5D # r)" "no_digit (0x7D # r)"
  by (simp_all add: no_digit_def is_digit_def)

lemma items_read_Cons:
  assumes "value_reads u8 v" "items_read u8 False vs"
  shows "items_read u8 first (v # vs)"
proof (cases "vs = []")
  case True
  have "json_elems k (variantToJson u8 v @ 0x5D # r) = Some ([json_of u8 v], r)"
    if "length (variantToJson u8 v) < k" for k r
    using that assms(1) by (cases k) (simp_all add: value_reads_def)
  then show ?thesis using True by (simp add: items_read_def)
next
  case False
  then obtain t where t: "list_items u8 False vs = 0x2C # t"
    "\<And>k r. length t < k \<Longrightarrow> json_elems k (t @ 0x5D # r) = Some (map (json_of u8) vs, r)"
    using assms(2) by (auto simp: items_read_def)
  have "json_elems k ((variantToJson u8 v @ 0x2C # t) @ 0x5D # r) = Some (map (json_of u8) (v # vs), r)"
    if "length (variantToJson u8 v @ 0x2C # t) < k" for k r
    using that assms(1) t(2) by (cases k) (simp_all add: value_reads_def prepend_def)
  then show ?thesis unfolding items_read_def using t(1) by auto
qed

lemma members_read_Cons:
  assumes "value_reads u8 v" "members_read u8 False m"
  shows "members_read u8 first ((k, v) # m)"
proof -
  have q: "json_string (tl (quoted (u8 k)) @ q) = Some (u8 k, q)" "hd (quoted (u8 k)) = 0x22"
    "quoted (u8 k) \<noteq> []" for q
    by (simp_all add: quoted_def json_string_escape)
  show ?thesis
  proof (cases "m = []")
    case True
    have "json_members n ((quoted (u8 k) @ 0x3A # variantToJson u8 v) @ 0x7D # r) = Some ([(u8 k, json_of u8 v)], r)"
      if "length (quoted (u8 k) @ 0x3A # variantToJson u8 v) < n" for n r
      using that assms(1) q by (cases n) (simp_all add: value_reads_def)
    then show ?thesis using True by (simp add: members_read_def)
  next
    case False
    then obtain t where t: "map_items u8 False m = 0x2C # t"
      "\<And>n r. length t < n \<Longrightarrow> json_members n (t @ 0x7D # r) = Some (map (\<lambda>(k, v). (u8 k, json_of u8 v)) m, r)"
      using assms(2) by (auto simp: members_read_def)
    have "json_members n ((quoted (u8 k) @ 0x3A # variantToJson u8 v @ 0x2C # t) @ 0x7D # r) =
        Some (map (\<lambda>(k, v). (u8 k, json_of u8 v)) ((k, v) # m), r)"
      if "length (quoted (u8 k) @ 0x3A # variantToJson u8 v @ 0x2C # t) < n" for n r
      using that assms(1) t(2) q by (cases n) (simp_all add: value_reads_def prepend_def)
    then show ?thesis unfolding members_read_def using t(1) by auto
  qed
qed

lemma closing_first:
  "json_elems k (0x5D # s) = None" "json_members k (0x7D # s) = None"
proof -
  have "json_value j (0x5D # s) = None" for j
    by (cases j) (simp_all add: json_digits_def is_digit_def)
  then show "json_elems k (0x5D # s) = None" by (cases k) simp_all
  show "json_members k (0x7D # s) = None" by (cases k) simp_all
qed

lemma begins_with: "t = [] \<or> hd t = c \<Longrightarrow> \<exists>u. t @ c # r = c # u"
  by (cases t) auto

lemma value_reads_list:
  assumes "items_read u8 True vs"
  shows "value_reads u8 (QList vs)"
proof (cases "vs = []")
  case True
  have "json_value k (variantToJson u8 (QList []) @ r) = Some (json_of u8 (QList []), r)" if "2 \<le> k" for k r
    using that by (cases k) simp_all
  then show ?thesis using True by (simp add: value_reads_def)
next
  case False
  then obtain t where t: "list_items u8 True vs = t"
    "\<And>k r. length t < k \<Longrightarrow> json_elems k (t @ 0x5D # r) = Some (map (json_of u8) vs, r)"
    using assms by (auto simp: items_read_def)
  have "t \<noteq> [] \<and> hd t \<noteq> 0x5D"
    using t(2) [of "Suc (length t)" "[]"] begins_with [of t "0x5D" "[]"] closing_first(1) by fastforce
  then have "json_value k (variantToJson u8 (QList vs) @ r) = Some (json_of u8 (QList vs), r)"
    if "length t + 2 \<le> k" for k r
    using that t by (cases k) simp_all
  then show ?thesis using t(1) by (simp add: value_reads_def)
qed

lemma value_reads_map:
  assumes "members_read u8 True m"
  shows "value_reads u8 (QMap m)"
proof (cases "m = []")
  case True
  have "json_value k (variantToJson u8 (QMap []) @ r) = Some (json_of u8 (QMap []), r)" if "2 \<le> k" for k r
    using that by (cases k) simp_all
  then show ?thesis using True by (simp add: value_reads_def)
next
  case False
  then obtain t where t: "map_items u8 True m = t"
    "\<And>k r. length t < k \<Longrightarrow>
      json_members k (t @ 0x7D # r) = Some (map (\<lambda>(k, v). (u8 k, json_of u8 v)) m, r)"
    using assms by (auto simp: members_read_def)
  have "t \<noteq> [] \<and> hd t \<noteq> 0x7D"
    using t(2) [of "Suc (length t)" "[]"] begins_with [of t "0x7D" "[]"] closing_first(2) by fastforce
  then have "json_value k (variantToJson u8 (QMap m) @ r) = Some (json_of u8 (QMap m), r)"
    if "length t + 2 \<le> k" for k r
    using that t by (cases k) simp_all
  then show ?thesis using t(1) by (simp add: value_reads_def)
qed

lemma value_reads_string: "value_reads u8 (QString s)" "value_reads u8 (QOther s)"
proof -
  have "json_value k (quoted b @ r) = Some (JStr b, r)" if "length (quoted b) \<le> k" for k b r
    using that quoted_length [of b] json_value_quoted by (cases k) auto
  then show "value_reads u8 (QString s)" "value_reads u8 (QOther s)" by (simp_all add: value_reads_def)
qed

lemma value_reads_int: "variantToJson u8 v = to_string i \<Longrightarrow> json_of u8 v = JInt i \<Longrightarrow> value_reads u8 v"
proof -
  assume "variantToJson u8 v = to_string i" "json_of u8 v = JInt i"
  moreover have "json_value k (to_string i @ r) = Some (JInt i, r)" if "no_digit r" "length (to_string i) \<le> k" for k r
    using that to_string_reads [of r _ i] by (cases k) auto
  ultimately show ?thesis by (simp add: value_reads_def)
qed

lemma value_reads_word:
  assumes "variantToJson u8 v = w" "json_of u8 v = j" "w \<noteq> []"
    and "\<And>k r. json_value (Suc k) (w @ r) = literal w j (w @ r)"
  shows "value_reads u8 v"
proof -
  have "json_value k (w @ r) = Some (j, r)" if "length w \<le> k" for k r
    using that assms(3,4) literal_append by (cases k) auto
  then show ?thesis using assms(1,2) by (simp add: value_reads_def)
qed

lemma writer_reads_back:
  shows "exact v \<Longrightarrow> value_reads u8 v"
    and "list_all exact vs \<Longrightarrow> items_read u8 first vs"
    and "list_all (\<lambda>(k, v). exact v) m \<Longrightarrow> members_read u8 first m"
proof (induction u8 v and u8 first vs and u8 first m rule: variantToJson_list_items_map_items.induct)
  case (1 u8)
  show ?case by (rule value_reads_word [of _ _ "str ''null''" JNull]) (simp_all add: str_def)
next
  case (2 u8 b)
  show ?case by (rule value_reads_word [of _ _ "if b then str ''true'' else str ''false''" "JBool b"])
      (auto simp: str_def)
next
  case (6 u8 n)
  then have "to_longlong n = int n" by (simp add: to_longlong_def)
  then show ?case by (intro value_reads_int) simp_all
next
  case (9 u8 vs)
  then show ?case by (simp add: value_reads_list)
next
  case (10 u8 m)
  then show ?case by (simp add: value_reads_map)
next
  case (13 u8 first v vs)
  then show ?case by (simp add: items_read_Cons)
next
  case (15 u8 first k v m)
  then show ?case by (simp add: members_read_Cons)
qed (simp_all add: value_reads_int value_reads_string items_read_def members_read_def)

text \<open>C22. The JSON writer is faithful: for every variant whose numbers are integers (an unsigned 64-bit number
  below 2^63), reading the produced text with a JSON reader gives back exactly the value, nested lists and
  maps, keys, and strings with any byte included, and consumes the whole text.\<close>

theorem json_roundtrip:
  assumes "exact v"
  shows "json_value (length (variantToJson u8 v)) (variantToJson u8 v) = Some (json_of u8 v, [])"
  using writer_reads_back(1) [OF assms, of u8] by (auto simp: value_reads_def dest!: spec [of _ "[]"])

lemma json_roundtrip_witness:
  "json_value (length (variantToJson (\<lambda>s. []) (QList [QInt (- 5), QBool True])))
     (variantToJson (\<lambda>s. []) (QList [QInt (- 5), QBool True])) =
   Some (json_of (\<lambda>s. []) (QList [QInt (- 5), QBool True]), [])"
  by (rule json_roundtrip) simp

text \<open>C23. An unsigned 64-bit number of 2^63 or more is written as the negative number with the same bits, for
  the writer converts it with \<^verbatim>\<open>toLongLong()\<close>.\<close>

theorem ulonglong_wraps:
  assumes "2 ^ 63 \<le> n" and "n < 2 ^ 64"
  shows "json_value (length (variantToJson u8 (QULongLong n))) (variantToJson u8 (QULongLong n)) =
    Some (JInt (int n - 2 ^ 64), [])"
proof -
  have "to_longlong n = int n - 2 ^ 64" using assms by (simp add: to_longlong_def)
  then have w: "variantToJson u8 (QULongLong n) = variantToJson u8 (QInt (int n - 2 ^ 64))" by simp
  have "value_reads u8 (QInt (int n - 2 ^ 64))" by (rule value_reads_int) simp_all
  then show ?thesis unfolding w by (auto simp: value_reads_def dest!: spec [of _ "[]"])
qed

lemma ulonglong_wraps_witness:
  "json_value (length (variantToJson (\<lambda>s. []) (QULongLong (2 ^ 63)))) (variantToJson (\<lambda>s. []) (QULongLong (2 ^ 63))) =
    Some (JInt (int (2 ^ 63) - 2 ^ 64), [])"
  by (rule ulonglong_wraps) simp_all

end
