(* ===== verification/ZipInstaller.thy ===== *)
theory ZipInstaller
  imports QtBase ZipExtract
begin

unbundle bit_operations_syntax

text \<open>
  \<^verbatim>\<open>src/ZipInstaller.cpp\<close>: extraction of a plugin archive into a staging directory with the defences
  against hostile archives, and the commit that moves it into the plugins directory. The archive is
  read by the model of \<^verbatim>\<open>miniz\<close>; \<^term>\<open>None\<close> is undefined behaviour inside it. A human-readable message is
  a constructor of \<open>install_error\<close>.
\<close>

section \<open>Entry checks\<close>

abbreviation (input) slash :: qchar where "slash \<equiv> 0x2F"
abbreviation (input) backslash :: qchar where "backslash \<equiv> 0x5C"
abbreviation (input) colon :: qchar where "colon \<equiv> 0x3A"
abbreviation (input) dot :: qchar where "dot \<equiv> 0x2E"

text \<open>\<^verbatim>\<open>split(QRegularExpression("[/\\\\]"), Qt::SkipEmptyParts)\<close>.\<close>

definition is_sep :: "qchar \<Rightarrow> bool" where
  "is_sep c \<longleftrightarrow> c = slash \<or> c = backslash"

fun split_segments :: "qstring \<Rightarrow> qstring \<Rightarrow> qstring list" where
  "split_segments acc [] = (if acc = [] then [] else [acc])"
| "split_segments acc (c # cs) =
     (if is_sep c then (if acc = [] then split_segments [] cs else acc # split_segments [] cs)
      else split_segments (acc @ [c]) cs)"

definition isSafeRelativePath :: "qstring \<Rightarrow> bool" where
  "isSafeRelativePath entryName =
     (if entryName = [] then False
      else if hd entryName = slash \<or> hd entryName = backslash then False
      else if 2 \<le> length entryName \<and> entryName ! 1 = colon then False
      else \<not> (\<exists>segment \<in> set (split_segments [] entryName). segment = [dot, dot]))"

definition isSymlinkEntry :: "mz_zip_archive_file_stat \<Rightarrow> bool" where
  "isSymlinkEntry stat \<longleftrightarrow> drop_bit 16 (m_external_attr stat) AND 0xF000 = 0xA000"

section \<open>Limits and results\<close>

record limits =
  maxTotalUncompressedBytes :: int
  maxEntryUncompressedBytes :: int
  maxEntryCount :: int
  maxCompressionRatio :: int

definition default_limits :: limits where
  "default_limits = \<lparr>maxTotalUncompressedBytes = 200 * 1024 * 1024,
     maxEntryUncompressedBytes = 100 * 1024 * 1024, maxEntryCount = 5000, maxCompressionRatio = 1024\<rparr>"

datatype install_error =
    ArchiveNotFound
  | NoPluginsDir
  | NoStagingDir
  | NotAZip
  | TooManyEntries
  | EntryUnreadable nat
  | Encrypted qstring
  | UnsupportedMethod qstring
  | UnsafePath qstring
  | Symlink qstring
  | EntryTooLarge qstring
  | ImplausibleSize qstring
  | ImplausibleRatio qstring
  | NoDirectory qstring
  | NoParent qstring
  | NoFile qstring
  | LimitExceeded qstring
  | ExtractFailed qstring
  | NoManifest
  | BadManifest bytes
  | BadId
  | AlreadyInstalled qstring
  | CannotMoveAside qstring
  | CannotMoveIntoPlace qstring

record staged =
  st_pluginId :: qstring
  st_version :: qstring
  st_stagingDir :: qstring

section \<open>The write callback\<close>

record live_ctx =
  destFile :: qstring
  entryBytesSoFar :: int
  totalBytesSoFar :: int
  entryLimit :: int
  totalLimit :: int
  limitExceeded :: bool
  live_log :: io_log

definition liveExtractWriteCallback :: "env \<Rightarrow> live_ctx mz_file_write_func" where
  "liveExtractWriteCallback E ctx fileOfs bs =
     (let n = int (length bs);
          ctx = ctx\<lparr>entryBytesSoFar := entryBytesSoFar ctx + n, totalBytesSoFar := totalBytesSoFar ctx + n\<rparr>
      in if entryLimit ctx < entryBytesSoFar ctx \<or> totalLimit ctx < totalBytesSoFar ctx
         then (ctx\<lparr>limitExceeded := True\<rparr>, 0)
         else let log = WriteFile (destFile ctx) bs # live_log ctx; ctx = ctx\<lparr>live_log := log\<rparr>
         in if env_count E log \<noteq> n then (ctx\<lparr>limitExceeded := False\<rparr>, 0)
            else (ctx, length bs))"

section \<open>One entry\<close>

text \<open>The checks on an entry's header, in the code's order.\<close>

definition entry_error :: "env \<Rightarrow> limits \<Rightarrow> mz_zip_archive_file_stat \<Rightarrow> install_error option" where
  "entry_error E lim stat =
     (let entryName = qt_fromUtf8 E (c_str (m_filename stat))
      in if m_is_encrypted stat then Some (Encrypted entryName)
         else if \<not> m_is_supported stat then Some (UnsupportedMethod entryName)
         else if \<not> isSafeRelativePath entryName then Some (UnsafePath entryName)
         else if isSymlinkEntry stat then Some (Symlink entryName)
         else if nat (maxEntryUncompressedBytes lim mod 2 ^ 64) < m_uncomp_size stat
         then Some (EntryTooLarge entryName)
         else if 0 < m_uncomp_size stat \<and> m_comp_size stat = 0 then Some (ImplausibleSize entryName)
         else if 0 < m_comp_size stat \<and>
           maxCompressionRatio lim < int (m_uncomp_size stat div m_comp_size stat)
         then Some (ImplausibleRatio entryName)
         else None)"

text \<open>What the loop carries: the archive, the running total, the history.\<close>

record stage_state =
  ss_zip :: mz_zip_archive
  liveTotalBytes :: int
  ss_log :: io_log

definition extract_file ::
    "env \<Rightarrow> limits \<Rightarrow> tinfl_decompressor \<Rightarrow> bytes \<Rightarrow> qstring \<Rightarrow> nat \<Rightarrow> qstring \<Rightarrow> stage_state \<Rightarrow>
     (stage_state \<times> install_error option) option" where
  "extract_file E lim inflator dict stagingRoot i entryName s = (
     let destPath = qt_filePath E stagingRoot entryName;
         (ok, log) = ask E (Mkpath [] (qt_absolutePath E destPath)) (ss_log s)
     in if \<not> ok then Some (s\<lparr>ss_log := log\<rparr>, Some (NoParent entryName))
        else let (ok, log) = ask E (OpenWrite destPath) log
        in if \<not> ok then Some (s\<lparr>ss_log := log\<rparr>, Some (NoFile entryName))
           else do {
             (z, ctx, extractOk) \<leftarrow> mz_zip_reader_extract_to_callback inflator dict (ss_zip s) i
               (liveExtractWriteCallback E)
               \<lparr>destFile = destPath, entryBytesSoFar = 0, totalBytesSoFar = liveTotalBytes s,
                entryLimit = maxEntryUncompressedBytes lim, totalLimit = maxTotalUncompressedBytes lim,
                limitExceeded = False, live_log = log\<rparr> 0;
             Some (\<lparr>ss_zip = z, liveTotalBytes = totalBytesSoFar ctx, ss_log = CloseFile destPath # live_log ctx\<rparr>,
               if extractOk then None
               else if limitExceeded ctx then Some (LimitExceeded entryName)
               else Some (ExtractFailed entryName))
           })"

definition extract_one ::
    "env \<Rightarrow> limits \<Rightarrow> tinfl_decompressor \<Rightarrow> bytes \<Rightarrow> qstring \<Rightarrow> nat \<Rightarrow> stage_state \<Rightarrow>
     (stage_state \<times> install_error option) option" where
  "extract_one E lim inflator dict stagingRoot i s =
     (case mz_zip_reader_file_stat (ss_zip s) i of
        None \<Rightarrow> None
      | Some (z, Inl e) \<Rightarrow> Some (s\<lparr>ss_zip := z\<rparr>, Some (EntryUnreadable i))
      | Some (z, Inr stat) \<Rightarrow>
          let entryName = qt_fromUtf8 E (c_str (m_filename stat)); s = s\<lparr>ss_zip := z\<rparr>
          in case entry_error E lim stat of
               Some e \<Rightarrow> Some (s, Some e)
             | None \<Rightarrow>
                 if m_is_directory stat
                 then let (ok, log) = ask E (Mkpath stagingRoot entryName) (ss_log s)
                   in Some (s\<lparr>ss_log := log\<rparr>, if ok then None else Some (NoDirectory entryName))
                 else extract_file E lim inflator dict stagingRoot i entryName s)"

text \<open>The loop over the entries, up to the first rejection.\<close>

fun extract_all ::
    "env \<Rightarrow> limits \<Rightarrow> tinfl_decompressor \<Rightarrow> bytes \<Rightarrow> qstring \<Rightarrow> nat \<Rightarrow> nat \<Rightarrow> stage_state \<Rightarrow>
     (stage_state \<times> install_error option) option" where
  "extract_all E lim inflator dict stagingRoot i 0 s = Some (s, None)"
| "extract_all E lim inflator dict stagingRoot i (Suc left) s = do {
     (s, e) \<leftarrow> extract_one E lim inflator dict stagingRoot i s;
     (if e \<noteq> None then Some (s, e)
      else extract_all E lim inflator dict stagingRoot (i + 1) left s)
   }"

section \<open>Staging\<close>

text \<open>
  \<^verbatim>\<open>QRegularExpression("^[A-Za-z0-9_-]+$").match(s).hasMatch()\<close>: \<^verbatim>\<open>$\<close> also matches before a newline that
  ends the subject.
\<close>

definition id_char :: "qchar \<Rightarrow> bool" where
  "id_char c \<longleftrightarrow> 0x41 \<le> c \<and> c \<le> 0x5A \<or> 0x61 \<le> c \<and> c \<le> 0x7A \<or> 0x30 \<le> c \<and> c \<le> 0x39 \<or> c = 0x5F \<or> c = 0x2D"

definition id_matches :: "qstring \<Rightarrow> bool" where
  "id_matches s = (let t = (if s \<noteq> [] \<and> last s = 0x0A then butlast s else s) in t \<noteq> [] \<and> list_all id_char t)"

text \<open>The manifest at the root of the extracted archive.\<close>

definition read_manifest :: "env \<Rightarrow> qstring \<Rightarrow> io_log \<Rightarrow> io_log \<times> (install_error + staged)" where
  "read_manifest E stagingRoot log =
     (let (contents, log) = ask_data E (ReadAll (qt_filePath E stagingRoot (qs ''manifest.json''))) log
      in (log, case contents of
           None \<Rightarrow> Inl NoManifest
         | Some bs \<Rightarrow> (case qt_parseJson E bs of
             Inl detail \<Rightarrow> Inl (BadManifest detail)
           | Inr manifest \<Rightarrow>
               let pluginId = qt_toString E (qvalue manifest (qs ''id''))
               in if pluginId = [] \<or> \<not> id_matches pluginId then Inl BadId
                  else Inr \<lparr>st_pluginId = pluginId,
                    st_version = qt_toString E (qvalue manifest (qs ''version'')), st_stagingDir = stagingRoot\<rparr>)))"

text \<open>\<^verbatim>\<open>failAndCleanStaging\<close>. The archive is closed when the function returns (\<^verbatim>\<open>ZipReaderGuard\<close>).\<close>

definition fail_clean :: "qstring \<Rightarrow> io_log \<Rightarrow> install_error \<Rightarrow> io_log \<times> (install_error + staged)" where
  "fail_clean stagingRoot log e = (RemoveRecursively stagingRoot # log, Inl e)"

text \<open>\<^verbatim>\<open>z0\<close> is the storage of the local archive structure, of which only the allocator and \<^verbatim>\<open>fclose\<close> matter.\<close>

definition stage_archive ::
    "env \<Rightarrow> limits \<Rightarrow> tinfl_decompressor \<Rightarrow> bytes \<Rightarrow> mz_zip_archive \<Rightarrow> qstring \<Rightarrow> qstring \<Rightarrow> io_log \<Rightarrow>
     (io_log \<times> (install_error + staged)) option" where
  "stage_archive E lim inflator dict z0 zipPath stagingRoot log = (
     let (contents, log) = ask_data E (OpenZip zipPath) log
     in case mz_zip_reader_init_file (mz_zip_zero_struct z0) contents (env_yes E log) 0 of
          None \<Rightarrow> None
        | Some (z, Inl e) \<Rightarrow> Some (fail_clean stagingRoot log NotAZip)
        | Some (z, Inr _) \<Rightarrow>
            let numFiles = mz_zip_reader_get_num_files z
            in if maxEntryCount lim < s32 (int numFiles) then Some (fail_clean stagingRoot log TooManyEntries)
               else do {
                 (s, e) \<leftarrow> extract_all E lim inflator dict stagingRoot 0 numFiles
                   \<lparr>ss_zip = z, liveTotalBytes = 0, ss_log = log\<rparr>;
                 (case e of
                    Some e \<Rightarrow> Some (fail_clean stagingRoot (ss_log s) e)
                  | None \<Rightarrow> (case read_manifest E stagingRoot (ss_log s) of
                      (log, Inl e) \<Rightarrow> Some (fail_clean stagingRoot log e)
                    | (log, Inr st) \<Rightarrow> Some (log, Inr st)))
               })"

definition extractToStaging ::
    "env \<Rightarrow> limits \<Rightarrow> tinfl_decompressor \<Rightarrow> bytes \<Rightarrow> mz_zip_archive \<Rightarrow> qstring \<Rightarrow> qstring \<Rightarrow> io_log \<Rightarrow>
     (io_log \<times> (install_error + staged)) option" where
  "extractToStaging E lim inflator dict z0 pluginsDir zipPath log = (
     let (ok, log) = ask E (Exists zipPath) log
     in if \<not> ok then Some (log, Inl ArchiveNotFound)
        else let (ok, log) = ask E (Mkpath pluginsDir (qs ''.'')) log
        in if \<not> ok then Some (log, Inl NoPluginsDir)
           else let log = NewUuid # log;
                    stagingRoot = qt_filePath E pluginsDir (qs ''.staging/'' @ env_uuid E log);
                    (ok, log) = ask E (Mkpath stagingRoot (qs ''.'')) log
           in if \<not> ok then Some (log, Inl NoStagingDir)
              else stage_archive E lim inflator dict z0 zipPath stagingRoot log)"

section \<open>Commit\<close>

definition commit :: "env \<Rightarrow> qstring \<Rightarrow> qstring \<Rightarrow> qstring \<Rightarrow> io_log \<Rightarrow> io_log \<times> (install_error + qstring)" where
  "commit E pluginsDir pluginId stagingDir log = (
     let finalDir = qt_filePath E pluginsDir pluginId;
         (there, log) = ask E (Exists finalDir) log
     in if there
        then let log = NewUuid # log;
                 displacedDir = qt_filePath E pluginsDir (pluginId @ qs ''.old-'' @ env_uuid E log);
                 (ok, log) = ask E (Rename finalDir displacedDir) log
          in if \<not> ok then (log, Inl (CannotMoveAside finalDir))
             else let (ok, log) = ask E (Rename stagingDir finalDir) log
             in if \<not> ok then (Rename displacedDir finalDir # log, Inl (CannotMoveIntoPlace finalDir))
                else (RemoveRecursively displacedDir # log, Inr finalDir)
        else let (ok, log) = ask E (Rename stagingDir finalDir) log
          in if \<not> ok then (log, Inl (CannotMoveIntoPlace finalDir)) else (log, Inr finalDir))"

text \<open>\<^verbatim>\<open>install\<close>: the id and the directory of the plugin.\<close>

definition install ::
    "env \<Rightarrow> limits \<Rightarrow> tinfl_decompressor \<Rightarrow> bytes \<Rightarrow> mz_zip_archive \<Rightarrow> qstring \<Rightarrow> qstring \<Rightarrow> io_log \<Rightarrow>
     (io_log \<times> (install_error + qstring \<times> qstring)) option" where
  "install E lim inflator dict z0 pluginsDir zipPath log = do {
     (log, r) \<leftarrow> extractToStaging E lim inflator dict z0 pluginsDir zipPath log;
     (case r of
        Inl e \<Rightarrow> Some (log, Inl e)
      | Inr st \<Rightarrow>
          let (there, log) = ask E (Exists (qt_filePath E pluginsDir (st_pluginId st))) log
          in if there
             then Some (RemoveRecursively (st_stagingDir st) # log, Inl (AlreadyInstalled (st_pluginId st)))
             else (case commit E pluginsDir (st_pluginId st) (st_stagingDir st) log of
               (log, Inl e) \<Rightarrow> Some (log, Inl e)
             | (log, Inr finalDir) \<Rightarrow> Some (log, Inr (st_pluginId st, finalDir))))
   }"

end
