(* ===== verification/InstallerSafety.thy ===== *)
theory InstallerSafety
  imports ZipInstaller "HOL-Library.Code_Target_Nat"
begin

text \<open>
  What the installer guarantees against a hostile archive: an accepted entry name stays below the directory
  it is resolved against; every operation before the commit is confined to the staging directory; the bytes
  written respect the limits, whatever the headers say; a rejection removes the staging directory; the commit
  loses neither the new nor the old installation.
\<close>

section \<open>Entry names\<close>

text \<open>A component of a name: a piece between separators or the ends.\<close>

definition occurs :: "qstring \<Rightarrow> qstring \<Rightarrow> bool" where
  "occurs seg n \<longleftrightarrow> (\<exists>a b. n = a @ seg @ b \<and> (a = [] \<or> is_sep (last a)) \<and> (b = [] \<or> is_sep (hd b)))"

abbreviation plain :: "qstring \<Rightarrow> bool" where
  "plain w \<equiv> list_all (\<lambda>c. \<not> is_sep c) w"

lemma plain_split: "plain w \<Longrightarrow> is_sep c \<Longrightarrow> seg @ b = w @ c # r \<Longrightarrow> plain seg \<Longrightarrow> b = [] \<or> is_sep (hd b) \<Longrightarrow>
    seg = w \<and> b = c # r"
proof (induction w arbitrary: seg)
  case Nil
  then show ?case by (cases seg) auto
next
  case (Cons x w)
  then show ?case by (cases seg) auto
qed

lemma occurs_plain: "plain w \<Longrightarrow> seg \<noteq> [] \<Longrightarrow> occurs seg w \<longleftrightarrow> seg = w"
proof
  assume w: "plain w" "seg \<noteq> []" and "occurs seg w"
  then obtain a b where ab: "w = a @ seg @ b" "a = [] \<or> is_sep (last a)" "b = [] \<or> is_sep (hd b)"
    by (auto simp: occurs_def)
  have "a = []" using ab(1,2) w(1) by (cases a rule: rev_cases) auto
  moreover have "b = []" using ab(1,3) w(1) by (cases b) auto
  ultimately show "seg = w" using ab by simp
next
  assume "seg = w"
  then show "occurs seg w" unfolding occurs_def by (intro exI [of _ "[]"]) simp
qed

lemma occurs_split:
  assumes "plain w" "is_sep c" "plain seg" "seg \<noteq> []"
  shows "occurs seg (w @ c # r) \<longleftrightarrow> seg = w \<or> occurs seg r"
proof
  assume "occurs seg (w @ c # r)"
  then obtain a b where ab: "w @ c # r = a @ seg @ b" "a = [] \<or> is_sep (last a)" "b = [] \<or> is_sep (hd b)"
    by (auto simp: occurs_def)
  show "seg = w \<or> occurs seg r"
  proof (cases a rule: rev_cases)
    case Nil
    then show ?thesis using plain_split [of w c seg b r] assms ab by auto
  next
    case (snoc a' d)
    then have "w @ c # r = a' @ d # seg @ b" "is_sep d" using ab by auto
    then have "(a' = w \<and> seg @ b = r) \<or> (\<exists>a''. r = a'' @ d # seg @ b)"
      using assms(1) by (auto simp: append_eq_append_conv2 Cons_eq_append_conv append_eq_Cons_conv)
    then show ?thesis
    proof
      assume "a' = w \<and> seg @ b = r"
      then have "occurs seg r" unfolding occurs_def by (intro exI [of _ "[]"] exI [of _ b]) (use ab in auto)
      then show ?thesis ..
    next
      assume "\<exists>a''. r = a'' @ d # seg @ b"
      then obtain a'' where "r = (a'' @ [d]) @ seg @ b" by auto
      then have "occurs seg r" unfolding occurs_def
        by (intro exI [of _ "a'' @ [d]"] exI [of _ b]) (use ab \<open>is_sep d\<close> in auto)
      then show ?thesis ..
    qed
  qed
next
  assume "seg = w \<or> occurs seg r"
  then show "occurs seg (w @ c # r)"
  proof
    assume "seg = w"
    then show ?thesis unfolding occurs_def
      by (intro exI [of _ "[]"] exI [of _ "c # r"]) (use assms in auto)
  next
    assume "occurs seg r"
    then obtain a b where ab: "r = a @ seg @ b" "a = [] \<or> is_sep (last a)" "b = [] \<or> is_sep (hd b)"
      by (auto simp: occurs_def)
    then show ?thesis unfolding occurs_def
      by (intro exI [of _ "w @ c # a"] exI [of _ b]) (use assms in auto)
  qed
qed

lemma split_segments_plain: "plain w \<Longrightarrow> split_segments acc w = (if acc @ w = [] then [] else [acc @ w])"
  by (induction w arbitrary: acc) auto

lemma split_segments_sep:
  "plain w \<Longrightarrow> is_sep c \<Longrightarrow> split_segments acc (w @ c # r) =
    (if acc @ w = [] then [] else [acc @ w]) @ split_segments [] r"
  by (induction w arbitrary: acc) auto

lemma first_sep: "plain n \<or> (\<exists>w c r. n = w @ c # r \<and> plain w \<and> is_sep c)"
  by (cases "\<exists>c \<in> set n. is_sep c") (auto simp: list_all_iff dest!: split_list_first_prop)

lemma split_segments_occurs:
  assumes "plain seg" "seg \<noteq> []"
  shows "seg \<in> set (split_segments [] n) \<longleftrightarrow> occurs seg n"
proof (induction n rule: length_induct)
  case (1 n)
  consider "plain n" | w c r where "n = w @ c # r" "plain w" "is_sep c" using first_sep [of n] by blast
  then show ?case
  proof cases
    case 1
    then show ?thesis using assms by (simp add: split_segments_plain occurs_plain)
  next
    case 2
    then show ?thesis using 1 assms by (simp add: split_segments_sep occurs_split)
  qed
qed

text \<open>
  The lexical meaning of a relative path: the components a base directory and the path's components lead
  to; \<^term>\<open>None\<close> leaves the file system at its root.
\<close>

fun resolve :: "qstring list \<Rightarrow> qstring list \<Rightarrow> qstring list option" where
  "resolve base [] = Some base"
| "resolve base (s # ss) =
     (if s = [dot] then resolve base ss
      else if s = [dot, dot] then (if base = [] then None else resolve (butlast base) ss)
      else resolve (base @ [s]) ss)"

lemma resolve_below: "[dot, dot] \<notin> set ss \<Longrightarrow> \<exists>rest. resolve base ss = Some (base @ rest)"
proof (induction ss arbitrary: base)
  case (Cons s ss)
  show ?case
  proof (cases "s = [dot]")
    case True
    then show ?thesis using Cons by simp
  next
    case False
    obtain rest where "resolve (base @ [s]) ss = Some ((base @ [s]) @ rest)"
      using Cons.IH [of "base @ [s]"] Cons.prems by auto
    then show ?thesis using False Cons.prems by auto
  qed
qed simp

lemma isSafeRelativePath_iff:
  "isSafeRelativePath n \<longleftrightarrow>
     n \<noteq> [] \<and> \<not> is_sep (hd n) \<and> \<not> (1 < length n \<and> n ! 1 = colon) \<and> \<not> occurs [dot, dot] n"
  using split_segments_occurs [of "[dot, dot]" n] by (auto simp: isSafeRelativePath_def is_sep_def)

text \<open>C5. Zip-slip: the entry names the installer accepts are exactly the non-empty ones that are not absolute
  (a leading separator of either kind, a drive letter) and have no component \<^verbatim>\<open>..\<close> between separators of
  either kind; resolved against any base directory such a name never leaves it.\<close>

theorem safe_path_correct:
  "(isSafeRelativePath n \<longleftrightarrow>
      n \<noteq> [] \<and> \<not> is_sep (hd n) \<and> \<not> (1 < length n \<and> n ! 1 = colon) \<and> \<not> occurs [dot, dot] n) \<and>
   (isSafeRelativePath n \<longrightarrow> (\<exists>rest. resolve base (split_segments [] n) = Some (base @ rest)))"
proof
  show "isSafeRelativePath n \<longleftrightarrow>
      n \<noteq> [] \<and> \<not> is_sep (hd n) \<and> \<not> (1 < length n \<and> n ! 1 = colon) \<and> \<not> occurs [dot, dot] n"
    by (rule isSafeRelativePath_iff)
  show "isSafeRelativePath n \<longrightarrow> (\<exists>rest. resolve base (split_segments [] n) = Some (base @ rest))"
    by (auto simp: isSafeRelativePath_def intro: resolve_below split: if_splits)
qed

lemma safe_path_correct_witness:
  "isSafeRelativePath (qs ''a/b.txt'') \<and>
   (\<exists>rest. resolve [qs ''staging''] (split_segments [] (qs ''a/b.txt'')) = Some ([qs ''staging''] @ rest))"
proof -
  have "isSafeRelativePath (qs ''a/b.txt'')" by code_simp
  then show ?thesis using safe_path_correct [of "qs ''a/b.txt''" "[qs ''staging'']"] by blast
qed

section \<open>The operations of the staging phase\<close>

text \<open>An operation that touches nothing but the archive, the plugins directory itself and the staging directory.\<close>

fun confined :: "env \<Rightarrow> qstring \<Rightarrow> qstring \<Rightarrow> qstring \<Rightarrow> io_op \<Rightarrow> bool" where
  "confined E plugins zipPath root (Exists p) = (p = zipPath)"
| "confined E plugins zipPath root (OpenZip p) = (p = zipPath)"
| "confined E plugins zipPath root NewUuid = True"
| "confined E plugins zipPath root (Mkpath d n) =
     (d = plugins \<and> n = qs ''.'' \<or> d = root \<and> (n = qs ''.'' \<or> isSafeRelativePath n) \<or>
      d = [] \<and> (\<exists>name. isSafeRelativePath name \<and> n = qt_absolutePath E (qt_filePath E root name)))"
| "confined E plugins zipPath root (OpenWrite p) = (\<exists>name. isSafeRelativePath name \<and> p = qt_filePath E root name)"
| "confined E plugins zipPath root (WriteFile p bs) = (\<exists>name. isSafeRelativePath name \<and> p = qt_filePath E root name)"
| "confined E plugins zipPath root (CloseFile p) = (\<exists>name. isSafeRelativePath name \<and> p = qt_filePath E root name)"
| "confined E plugins zipPath root (ReadAll p) = (p = qt_filePath E root (qs ''manifest.json''))"
| "confined E plugins zipPath root (RemoveRecursively p) = (p = root)"
| "confined E plugins zipPath root op = False"

text \<open>Bytes written: in all, and to the file opened last.\<close>

fun written :: "io_log \<Rightarrow> int" where
  "written [] = 0"
| "written (WriteFile p bs # ops) = int (length bs) + written ops"
| "written (op # ops) = written ops"

fun open_bytes :: "io_log \<Rightarrow> int" where
  "open_bytes [] = 0"
| "open_bytes (WriteFile p bs # ops) = int (length bs) + open_bytes ops"
| "open_bytes (OpenWrite p # ops) = 0"
| "open_bytes (op # ops) = open_bytes ops"

fun files_within :: "int \<Rightarrow> io_log \<Rightarrow> bool" where
  "files_within m [] = True"
| "files_within m (op # ops) \<longleftrightarrow> open_bytes (op # ops) \<le> m \<and> files_within m ops"

text \<open>The operations since \<open>log0\<close>, with the running total the code keeps.\<close>

definition staging_ops ::
    "env \<Rightarrow> limits \<Rightarrow> qstring \<Rightarrow> qstring \<Rightarrow> qstring \<Rightarrow> io_log \<Rightarrow> int \<Rightarrow> io_log \<Rightarrow> bool" where
  "staging_ops E lim plugins zipPath root log0 sofar log \<longleftrightarrow>
     (\<exists>ops. log = ops @ log0 \<and> list_all (confined E plugins zipPath root) ops \<and> written ops \<le> sofar \<and>
       written ops \<le> max 0 (maxTotalUncompressedBytes lim) \<and>
       files_within (max 0 (maxEntryUncompressedBytes lim)) ops)"

text \<open>An operation other than a write.\<close>

fun is_write :: "io_op \<Rightarrow> bool" where
  "is_write (WriteFile p bs) = True"
| "is_write op = False"

lemma files_within_open: "files_within m ops \<Longrightarrow> 0 \<le> m \<Longrightarrow> open_bytes ops \<le> m"
  by (cases ops) auto

lemma no_write_bytes:
  "\<not> is_write op \<Longrightarrow> written (op # ops) = written ops"
  "\<not> is_write op \<Longrightarrow> files_within m ops \<Longrightarrow> 0 \<le> m \<Longrightarrow> open_bytes (op # ops) \<le> m"
  using files_within_open by (cases op; auto)+

lemma staging_ops_step:
  assumes "staging_ops E lim plugins zipPath root log0 sofar log" "confined E plugins zipPath root op" "\<not> is_write op"
  shows "staging_ops E lim plugins zipPath root log0 sofar (op # log)"
proof -
  obtain ops where ops: "log = ops @ log0" "list_all (confined E plugins zipPath root) ops"
    "written ops \<le> sofar" "written ops \<le> max 0 (maxTotalUncompressedBytes lim)"
    "files_within (max 0 (maxEntryUncompressedBytes lim)) ops"
    using assms(1) by (auto simp: staging_ops_def)
  have "open_bytes (op # ops) \<le> max 0 (maxEntryUncompressedBytes lim)"
    by (rule no_write_bytes(2) [OF assms(3) ops(5)]) simp
  then show ?thesis unfolding staging_ops_def
    by (intro exI [of _ "op # ops"]) (use ops assms(2,3) in \<open>simp add: no_write_bytes(1)\<close>)
qed

text \<open>The callback: the counters bound what has been written.\<close>

definition live_inv ::
    "env \<Rightarrow> limits \<Rightarrow> qstring \<Rightarrow> qstring \<Rightarrow> qstring \<Rightarrow> io_log \<Rightarrow> qstring \<Rightarrow> live_ctx \<Rightarrow> bool" where
  "live_inv E lim plugins zipPath root log0 dest ctx \<longleftrightarrow>
     destFile ctx = dest \<and> entryLimit ctx = maxEntryUncompressedBytes lim \<and>
     totalLimit ctx = maxTotalUncompressedBytes lim \<and>
     staging_ops E lim plugins zipPath root log0 (totalBytesSoFar ctx) (live_log ctx) \<and>
     (\<exists>ops. live_log ctx = ops @ log0 \<and> open_bytes ops \<le> entryBytesSoFar ctx)"

lemma staging_ops_more:
  "staging_ops E lim plugins zipPath root log0 sofar log \<Longrightarrow> sofar \<le> sofar' \<Longrightarrow>
    staging_ops E lim plugins zipPath root log0 sofar' log"
  unfolding staging_ops_def by force

lemma live_callback_inv:
  assumes "live_inv E lim plugins zipPath root log0 dest ctx"
    and dest: "isSafeRelativePath name" "dest = qt_filePath E root name"
  shows "live_inv E lim plugins zipPath root log0 dest (fst (liveExtractWriteCallback E ctx ofs bs))"
proof -
  obtain ops where ops: "live_log ctx = ops @ log0" "list_all (confined E plugins zipPath root) ops"
    "written ops \<le> totalBytesSoFar ctx" "written ops \<le> max 0 (maxTotalUncompressedBytes lim)"
    "files_within (max 0 (maxEntryUncompressedBytes lim)) ops" "open_bytes ops \<le> entryBytesSoFar ctx"
    and c: "destFile ctx = dest" "entryLimit ctx = maxEntryUncompressedBytes lim"
    "totalLimit ctx = maxTotalUncompressedBytes lim"
    using assms(1) by (auto simp: live_inv_def staging_ops_def)
  define n where "n = int (length bs)"
  have n: "0 \<le> n" by (simp add: n_def)
  show ?thesis
  proof (cases "entryLimit ctx < entryBytesSoFar ctx + n \<or> totalLimit ctx < totalBytesSoFar ctx + n")
    case True
    then have "fst (liveExtractWriteCallback E ctx ofs bs) = ctx\<lparr>entryBytesSoFar := entryBytesSoFar ctx + n,
        totalBytesSoFar := totalBytesSoFar ctx + n, limitExceeded := True\<rparr>"
      by (simp add: liveExtractWriteCallback_def Let_def n_def)
    moreover have "staging_ops E lim plugins zipPath root log0 (totalBytesSoFar ctx + n) (live_log ctx)"
      unfolding staging_ops_def by (rule exI [of _ ops]) (use ops n in auto)
    ultimately show ?thesis using c ops(1,6) n by (auto simp: live_inv_def)
  next
    case False
    let ?op = "WriteFile dest bs"
    have "staging_ops E lim plugins zipPath root log0 (totalBytesSoFar ctx + n) (?op # live_log ctx)"
      unfolding staging_ops_def
      by (rule exI [of _ "?op # ops"]) (use ops c dest False n in \<open>auto simp: n_def\<close>)
    moreover have "\<exists>ops'. ?op # live_log ctx = ops' @ log0 \<and> open_bytes ops' \<le> entryBytesSoFar ctx + n"
      by (rule exI [of _ "?op # ops"]) (use ops in \<open>simp add: n_def\<close>)
    ultimately show ?thesis using c False
      by (auto simp: live_inv_def liveExtractWriteCallback_def Let_def n_def split: if_splits)
  qed
qed

text \<open>One entry, and all of them. \<open>passed\<close> is the state of the loop.\<close>

definition passed ::
    "env \<Rightarrow> limits \<Rightarrow> qstring \<Rightarrow> qstring \<Rightarrow> qstring \<Rightarrow> io_log \<Rightarrow> stage_state \<Rightarrow> bool" where
  "passed E lim plugins zipPath root log0 s \<longleftrightarrow>
     staging_ops E lim plugins zipPath root log0 (liveTotalBytes s) (ss_log s)"

lemma live_inv_start:
  assumes "staging_ops E lim plugins zipPath root log0 sofar log" "confined E plugins zipPath root (OpenWrite dest)"
  shows "live_inv E lim plugins zipPath root log0 dest
    \<lparr>destFile = dest, entryBytesSoFar = 0, totalBytesSoFar = sofar, entryLimit = maxEntryUncompressedBytes lim,
     totalLimit = maxTotalUncompressedBytes lim, limitExceeded = False, live_log = OpenWrite dest # log\<rparr>"
proof -
  have "staging_ops E lim plugins zipPath root log0 sofar (OpenWrite dest # log)"
    using assms by (intro staging_ops_step) simp_all
  moreover obtain ops where "log = ops @ log0" using assms(1) by (auto simp: staging_ops_def)
  then have "OpenWrite dest # log = (OpenWrite dest # ops) @ log0 \<and> open_bytes (OpenWrite dest # ops) \<le> 0" by simp
  ultimately show ?thesis unfolding live_inv_def by (simp only: live_ctx.simps simp_thms) blast
qed

lemma extract_file_passed:
  assumes p: "passed E lim plugins zipPath root log0 s" and safe: "isSafeRelativePath name"
    and r: "extract_file E lim inflator dict root i name s = Some (s', e)"
  shows "passed E lim plugins zipPath root log0 s'"
proof -
  define dest where "dest = qt_filePath E root name"
  define log1 where "log1 = Mkpath [] (qt_absolutePath E dest) # ss_log s"
  have c: "confined E plugins zipPath root (Mkpath [] (qt_absolutePath E dest))"
    "confined E plugins zipPath root (OpenWrite dest)" "confined E plugins zipPath root (CloseFile dest)"
    using safe by (auto simp: dest_def)
  have l1: "staging_ops E lim plugins zipPath root log0 (liveTotalBytes s) log1"
    unfolding log1_def by (rule staging_ops_step) (use p c in \<open>simp_all add: passed_def\<close>)
  then have l2: "staging_ops E lim plugins zipPath root log0 (liveTotalBytes s) (OpenWrite dest # log1)"
    by (rule staging_ops_step) (use c in simp_all)
  show ?thesis
  proof (cases "env_yes E log1 \<and> env_yes E (OpenWrite dest # log1)")
    case False
    then have "ss_log s' = log1 \<or> ss_log s' = OpenWrite dest # log1" "liveTotalBytes s' = liveTotalBytes s"
      using r by (auto simp: extract_file_def Let_def ask_def dest_def [symmetric] log1_def [symmetric]
          split: if_splits)
    then show ?thesis using l1 l2 by (auto simp: passed_def)
  next
    case True
    define ctx0 where "ctx0 = \<lparr>destFile = dest, entryBytesSoFar = 0, totalBytesSoFar = liveTotalBytes s,
      entryLimit = maxEntryUncompressedBytes lim, totalLimit = maxTotalUncompressedBytes lim,
      limitExceeded = False, live_log = OpenWrite dest # log1\<rparr>"
    obtain z ctx ok where x: "mz_zip_reader_extract_to_callback inflator dict (ss_zip s) i
        (liveExtractWriteCallback E) ctx0 0 = Some (z, ctx, ok)"
      and s': "s' = \<lparr>ss_zip = z, liveTotalBytes = totalBytesSoFar ctx, ss_log = CloseFile dest # live_log ctx\<rparr>"
      using r True
      by (cases "mz_zip_reader_extract_to_callback inflator dict (ss_zip s) i (liveExtractWriteCallback E) ctx0 0")
        (auto simp: extract_file_def Let_def ask_def dest_def [symmetric] log1_def [symmetric] ctx0_def [symmetric])
    obtain cs where cs: "ctx = feed (liveExtractWriteCallback E) 0 ctx0 cs"
      using extract_to_callback_delivered [OF x] by (auto simp: delivered_def)
    have "live_inv E lim plugins zipPath root log0 dest ctx0"
      unfolding ctx0_def by (rule live_inv_start [OF l1 c(2)])
    then have "live_inv E lim plugins zipPath root log0 dest ctx"
      unfolding cs by (rule feed_invariant [rotated]) (rule live_callback_inv [OF _ safe dest_def])
    then have "staging_ops E lim plugins zipPath root log0 (totalBytesSoFar ctx) (live_log ctx)"
      by (simp add: live_inv_def)
    then have "staging_ops E lim plugins zipPath root log0 (totalBytesSoFar ctx) (CloseFile dest # live_log ctx)"
      by (rule staging_ops_step) (use c in simp_all)
    then show ?thesis by (simp add: s' passed_def)
  qed
qed

lemma entry_error_safe: "entry_error E lim stat = None \<Longrightarrow> isSafeRelativePath (qt_fromUtf8 E (c_str (m_filename stat)))"
  by (auto simp: entry_error_def Let_def split: if_splits)

lemma extract_one_passed:
  assumes p: "passed E lim plugins zipPath root log0 s"
    and r: "extract_one E lim inflator dict root i s = Some (s', e)"
  shows "passed E lim plugins zipPath root log0 s'"
proof -
  obtain z res where st: "mz_zip_reader_file_stat (ss_zip s) i = Some (z, res)"
    using r by (cases "mz_zip_reader_file_stat (ss_zip s) i") (auto simp: extract_one_def)
  have p': "passed E lim plugins zipPath root log0 (s\<lparr>ss_zip := z\<rparr>)" using p by (simp add: passed_def)
  show ?thesis
  proof (cases res)
    case (Inl e)
    then show ?thesis using r st p' by (simp add: extract_one_def)
  next
    case (Inr stat)
    define name where "name = qt_fromUtf8 E (c_str (m_filename stat))"
    show ?thesis
    proof (cases "entry_error E lim stat")
      case (Some e)
      then show ?thesis using r st p' Inr by (simp add: extract_one_def Let_def)
    next
      case None
      then have safe: "isSafeRelativePath name" unfolding name_def by (rule entry_error_safe)
      show ?thesis
      proof (cases "m_is_directory stat")
        case True
        then have s': "s' = s\<lparr>ss_zip := z, ss_log := Mkpath root name # ss_log s\<rparr>"
          using r st Inr None by (simp add: extract_one_def Let_def ask_def name_def)
        have "staging_ops E lim plugins zipPath root log0 (liveTotalBytes s) (Mkpath root name # ss_log s)"
          by (rule staging_ops_step) (use p safe in \<open>simp_all add: passed_def\<close>)
        then show ?thesis by (simp add: s' passed_def)
      next
        case False
        then have "extract_file E lim inflator dict root i name (s\<lparr>ss_zip := z\<rparr>) = Some (s', e)"
          using r st Inr None by (simp add: extract_one_def Let_def name_def)
        then show ?thesis by (rule extract_file_passed [OF p' safe])
      qed
    qed
  qed
qed

lemma extract_all_passed:
  "passed E lim plugins zipPath root log0 s \<Longrightarrow>
    extract_all E lim inflator dict root i left s = Some (s', e) \<Longrightarrow> passed E lim plugins zipPath root log0 s'"
proof (induction left arbitrary: i s)
  case (Suc left)
  obtain s1 e1 where one: "extract_one E lim inflator dict root i s = Some (s1, e1)"
    using Suc.prems(2) by (cases "extract_one E lim inflator dict root i s") auto
  have "passed E lim plugins zipPath root log0 s1" by (rule extract_one_passed [OF Suc.prems(1) one])
  then show ?case using Suc.prems(2) one Suc.IH [of s1 "i + 1"] by (simp split: if_splits)
qed simp

section \<open>The staging phase\<close>

lemma passed_start: "passed E lim plugins zipPath root log \<lparr>ss_zip = z, liveTotalBytes = 0, ss_log = log\<rparr>"
  unfolding passed_def staging_ops_def by (rule exI [of _ "[]"]) simp

lemma staging_ops_before:
  assumes "staging_ops E lim plugins zipPath root log1 sofar log" "log1 = pre @ log0"
    and "list_all (confined E plugins zipPath root) pre" "\<forall>op \<in> set pre. \<not> is_write op"
    and "0 \<le> sofar"
  shows "\<exists>ops. log = ops @ log0 \<and> list_all (confined E plugins zipPath root) ops \<and>
    written ops \<le> max 0 (maxTotalUncompressedBytes lim) \<and> files_within (max 0 (maxEntryUncompressedBytes lim)) ops"
proof -
  let ?m = "max 0 (maxEntryUncompressedBytes lim)"
  obtain ops where ops: "log = ops @ log1" "list_all (confined E plugins zipPath root) ops"
    "written ops \<le> max 0 (maxTotalUncompressedBytes lim)" "files_within ?m ops"
    using assms(1) by (auto simp: staging_ops_def)
  have pre: "written pre = 0 \<and> open_bytes pre = 0 \<and> files_within ?m pre"
    using assms(4)
  proof (induction pre)
    case (Cons op pre)
    then show ?case by (cases op) auto
  qed simp
  have w: "written (xs @ pre) = written xs" for xs
    using pre by (induction xs rule: written.induct) auto
  have o: "open_bytes (xs @ pre) = open_bytes xs" for xs
    using pre by (induction xs rule: open_bytes.induct) auto
  have "files_within ?m (xs @ pre) \<longleftrightarrow> files_within ?m xs" for xs
  proof (induction xs)
    case (Cons op xs)
    then show ?case using o [of "op # xs"] by simp
  qed (use pre in simp)
  then show ?thesis using ops assms(2,3) w by (intro exI [of _ "ops @ pre"]) auto
qed

text \<open>What the staging phase has done: the operations, newest first, and the result.\<close>

definition staging_done ::
    "env \<Rightarrow> limits \<Rightarrow> qstring \<Rightarrow> qstring \<Rightarrow> io_log \<Rightarrow> io_log \<Rightarrow> install_error + staged \<Rightarrow> bool" where
  "staging_done E lim plugins zipPath log0 log r \<longleftrightarrow>
     (\<exists>ops u. let root = qt_filePath E plugins (qs ''.staging/'' @ u) in
        log = ops @ log0 \<and> list_all (confined E plugins zipPath root) ops \<and>
        written ops \<le> max 0 (maxTotalUncompressedBytes lim) \<and>
        files_within (max 0 (maxEntryUncompressedBytes lim)) ops \<and>
        (case r of
           Inl e \<Rightarrow> e \<in> {ArchiveNotFound, NoPluginsDir, NoStagingDir} \<and> OpenZip zipPath \<notin> set ops \<and> written ops = 0 \<or>
             ops \<noteq> [] \<and> hd ops = RemoveRecursively root
         | Inr st \<Rightarrow> st_stagingDir st = root \<and> st_pluginId st \<noteq> [] \<and> id_matches (st_pluginId st)))"

lemma read_manifest_result:
  "read_manifest E root log = (log', r) \<Longrightarrow> log' = ReadAll (qt_filePath E root (qs ''manifest.json'')) # log \<and>
     (case r of Inl e \<Rightarrow> True
      | Inr st \<Rightarrow> st_stagingDir st = root \<and> st_pluginId st \<noteq> [] \<and> id_matches (st_pluginId st))"
  by (auto simp: read_manifest_def ask_data_def Let_def split: option.splits sum.splits if_splits)

lemma stage_archive_done:
  assumes r: "stage_archive E lim inflator dict z0 zipPath root log = Some (log', r)"
  shows "\<exists>sofar. 0 \<le> sofar \<and> staging_ops E lim plugins zipPath root (OpenZip zipPath # log) sofar log' \<and>
    (case r of
       Inl e \<Rightarrow> log' \<noteq> [] \<and> hd log' = RemoveRecursively root \<and> (\<exists>l. log' = RemoveRecursively root # l)
     | Inr st \<Rightarrow> st_stagingDir st = root \<and> st_pluginId st \<noteq> [] \<and> id_matches (st_pluginId st))"
proof -
  define log1 where "log1 = OpenZip zipPath # log"
  have start: "staging_ops E lim plugins zipPath root log1 0 log1"
    unfolding staging_ops_def by (rule exI [of _ "[]"]) simp
  have cleaned: ?thesis if "staging_ops E lim plugins zipPath root log1 sofar l" "fail_clean root l e = (log', r)"
    for sofar l e
  proof -
    have l: "log' = RemoveRecursively root # l" "r = Inl e" using that(2) by (simp_all add: fail_clean_def)
    have "staging_ops E lim plugins zipPath root log1 sofar log'"
      unfolding l by (rule staging_ops_step [OF that(1)]) simp_all
    then have "staging_ops E lim plugins zipPath root log1 (max 0 sofar) log'" by (rule staging_ops_more) simp
    then show ?thesis using l by (intro exI [of _ "max 0 sofar"]) (simp add: log1_def)
  qed
  obtain z res where i: "mz_zip_reader_init_file (mz_zip_zero_struct z0) (env_data E log1) (env_yes E log1) 0 = Some (z, res)"
    using r by (cases "mz_zip_reader_init_file (mz_zip_zero_struct z0) (env_data E log1) (env_yes E log1) 0")
      (auto simp: stage_archive_def ask_data_def Let_def log1_def)
  note body = r [unfolded stage_archive_def ask_data_def Let_def log1_def [symmetric] prod.case i option.case]
  show ?thesis
  proof (cases res)
    case (Inl e)
    then show ?thesis using body by (intro cleaned [OF start]) simp
  next
    case (Inr u)
    show ?thesis
    proof (cases "maxEntryCount lim < s32 (int (mz_zip_reader_get_num_files z))")
      case True
      then show ?thesis using body Inr by (intro cleaned [OF start]) simp
    next
      case False
      let ?s0 = "\<lparr>ss_zip = z, liveTotalBytes = 0, ss_log = log1\<rparr>"
      obtain s e where all: "extract_all E lim inflator dict root 0 (mz_zip_reader_get_num_files z) ?s0 = Some (s, e)"
        using body Inr False
        by (cases "extract_all E lim inflator dict root 0 (mz_zip_reader_get_num_files z) ?s0") auto
      have "passed E lim plugins zipPath root log1 s" by (rule extract_all_passed [OF passed_start all])
      then have s: "staging_ops E lim plugins zipPath root log1 (liveTotalBytes s) (ss_log s)"
        by (simp add: passed_def)
      show ?thesis
      proof (cases e)
        case (Some e')
        then show ?thesis using body Inr False all by (intro cleaned [OF s]) simp
      next
        case None
        obtain l res' where m: "read_manifest E root (ss_log s) = (l, res')" by (cases "read_manifest E root (ss_log s)")
        note rm = read_manifest_result [OF m]
        have l: "staging_ops E lim plugins zipPath root log1 (liveTotalBytes s) l"
          using rm staging_ops_step [OF s] by simp
        show ?thesis
        proof (cases res')
          case (Inl e)
          then show ?thesis using body Inr False all None m by (intro cleaned [OF l]) simp
        next
          case ok: (Inr st)
          then have "log' = l" "r = Inr st" using body Inr False all None m by simp_all
          moreover have "staging_ops E lim plugins zipPath root log1 (max 0 (liveTotalBytes s)) l"
            by (rule staging_ops_more [OF l]) simp
          ultimately show ?thesis using rm ok by (intro exI [of _ "max 0 (liveTotalBytes s)"]) (simp add: log1_def)
        qed
      qed
    qed
  qed
qed

lemma extractToStaging_done:
  assumes r: "extractToStaging E lim inflator dict z0 plugins zipPath log = Some (log', r)"
  shows "staging_done E lim plugins zipPath log log' r"
proof -
  define log1 where "log1 = Exists zipPath # log"
  define log2 where "log2 = Mkpath plugins (qs ''.'') # log1"
  define log3 where "log3 = NewUuid # log2"
  define root where "root = qt_filePath E plugins (qs ''.staging/'' @ env_uuid E log3)"
  define log4 where "log4 = Mkpath root (qs ''.'') # log3"
  note defs = log1_def log2_def log3_def log4_def
  have early: ?thesis if "log' = ops @ log" "list_all (confined E plugins zipPath root) ops"
      "\<forall>op \<in> set ops. \<not> is_write op \<and> op \<noteq> OpenZip zipPath" "r = Inl e"
      "e \<in> {ArchiveNotFound, NoPluginsDir, NoStagingDir}" for ops e
  proof -
    have "written xs = 0 \<and> open_bytes xs = 0 \<and> files_within (max 0 (maxEntryUncompressedBytes lim)) xs"
      if "\<forall>op \<in> set xs. \<not> is_write op" for xs
      using that
    proof (induction xs)
      case (Cons op xs)
      then show ?case by (cases op) auto
    qed simp
    then show ?thesis unfolding staging_done_def Let_def root_def [symmetric]
      by (intro exI [of _ ops] exI [of _ "env_uuid E log3"]) (use that in \<open>auto simp: root_def\<close>)
  qed
  show ?thesis
  proof (cases "env_yes E log1 \<and> env_yes E log2 \<and> env_yes E log4")
    case False
    then consider "log' = [Exists zipPath] @ log" "r = Inl ArchiveNotFound"
      | "log' = [Mkpath plugins (qs ''.''), Exists zipPath] @ log" "r = Inl NoPluginsDir"
      | "log' = [Mkpath root (qs ''.''), NewUuid, Mkpath plugins (qs ''.''), Exists zipPath] @ log" "r = Inl NoStagingDir"
      using r by (auto simp: extractToStaging_def ask_def Let_def defs root_def split: if_splits)
    then show ?thesis
    proof cases
      case 1
      then show ?thesis by (intro early [OF 1(1), where e = ArchiveNotFound]) simp_all
    next
      case 2
      then show ?thesis by (intro early [OF 2(1), where e = NoPluginsDir]) simp_all
    next
      case 3
      then show ?thesis by (intro early [OF 3(1), where e = NoStagingDir]) simp_all
    qed
  next
    case True
    then have st: "stage_archive E lim inflator dict z0 zipPath root log4 = Some (log', r)"
      using r by (simp add: extractToStaging_def ask_def Let_def defs root_def)
    define pre where "pre = [OpenZip zipPath, Mkpath root (qs ''.''), NewUuid, Mkpath plugins (qs ''.''), Exists zipPath]"
    have pre: "OpenZip zipPath # log4 = pre @ log" "list_all (confined E plugins zipPath root) pre"
      "\<forall>op \<in> set pre. \<not> is_write op" by (simp_all add: pre_def defs)
    obtain sofar where d: "0 \<le> sofar" "staging_ops E lim plugins zipPath root (OpenZip zipPath # log4) sofar log'"
      "case r of
         Inl e \<Rightarrow> log' \<noteq> [] \<and> hd log' = RemoveRecursively root \<and> (\<exists>l. log' = RemoveRecursively root # l)
       | Inr st \<Rightarrow> st_stagingDir st = root \<and> st_pluginId st \<noteq> [] \<and> id_matches (st_pluginId st)"
      using stage_archive_done [OF st, of plugins] by auto
    obtain ops where ops: "log' = ops @ log" "list_all (confined E plugins zipPath root) ops"
      "written ops \<le> max 0 (maxTotalUncompressedBytes lim)" "files_within (max 0 (maxEntryUncompressedBytes lim)) ops"
      using staging_ops_before [OF d(2) pre d(1)] by blast
    obtain ops0 where "log' = ops0 @ pre @ log" using d(2) pre(1) by (auto simp: staging_ops_def)
    then have "ops \<noteq> []" using ops(1) by (auto simp: pre_def)
    then have "hd log' = hd ops" using ops(1) by simp
    then show ?thesis unfolding staging_done_def Let_def
      by (intro exI [of _ ops] exI [of _ "env_uuid E log3"])
        (use ops d(3) \<open>ops \<noteq> []\<close> in \<open>auto simp: root_def split: sum.splits\<close>)
  qed
qed

text \<open>An environment where every operation succeeds, the archive is empty and the manifest names the plugin \<^verbatim>\<open>p\<close>.\<close>

definition demo_env :: env where
  "demo_env = blank_env\<lparr>env_count := (\<lambda>log. case log of WriteFile p bs # _ \<Rightarrow> int (length bs) | _ \<Rightarrow> 0),
     env_uuid := (\<lambda>_. qs ''u''),
     env_data := (\<lambda>log. case log of OpenZip p # _ \<Rightarrow> Some empty_zip | _ \<Rightarrow> Some []),
     qt_parseJson := (\<lambda>_. Inr [(qs ''id'', QString (qs ''p''))])\<rparr>"

definition demo_decomp :: tinfl_decompressor where
  "demo_decomp = \<lparr>m_state = 0, m_num_bits = 0, m_zhdr0 = 0, m_zhdr1 = 0, m_z_adler32 = 0, m_final = 0, m_type = 0,
     m_check_adler32 = 0, m_dist = 0, m_counter = 0, m_num_extra = 0, m_table_sizes = [0, 0, 0], m_bit_buf = 0,
     m_dist_from_out_buf_start = 0, m_look_up = [], m_tree_0 = [], m_tree_1 = [], m_tree_2 = [],
     m_code_size_0 = [], m_code_size_1 = [], m_code_size_2 = [], m_raw_header = [], m_len_codes = []\<rparr>"

definition demo_root :: qstring where
  "demo_root = qs ''plugins/.staging/u''"

lemma demo_open:
  "map_option (map_prod m_total_files id) (mz_zip_reader_init_file (mz_zip_zero_struct cleared) (Some empty_zip) True 0) =
    Some (0, Inr ())"
  by code_simp

abbreviation demo_log :: io_log where
  "demo_log \<equiv> [ReadAll (demo_root @ qs ''/manifest.json''), OpenZip (qs ''a.zip''), Mkpath demo_root (qs ''.''), NewUuid,
     Mkpath (qs ''plugins'') (qs ''.''), Exists (qs ''a.zip'')]"

lemma demo_run_in:
  assumes y: "y [Exists (qs ''a.zip'')]" "\<And>p q log. y (Mkpath p q # log)" "\<And>p log. y (OpenZip p # log)"
  shows "extractToStaging (demo_env\<lparr>env_yes := y\<rparr>) default_limits demo_decomp [] cleared (qs ''plugins'') (qs ''a.zip'') [] =
     Some (demo_log, Inr \<lparr>st_pluginId = qs ''p'', st_version = [], st_stagingDir = demo_root\<rparr>)"
proof -
  define E where "E = demo_env\<lparr>env_yes := y\<rparr>"
  obtain z where z: "mz_zip_reader_init_file (mz_zip_zero_struct cleared) (Some empty_zip) True 0 = Some (z, Inr ())"
    "m_total_files z = 0" using demo_open by auto
  have n: "mz_zip_reader_get_num_files z = 0" using z(2) by (simp add: mz_zip_reader_get_num_files_def)
  have m: "read_manifest E demo_root log =
      (ReadAll (demo_root @ qs ''/manifest.json'') # log,
       Inr \<lparr>st_pluginId = qs ''p'', st_version = [], st_stagingDir = demo_root\<rparr>)" for log
    by (simp add: read_manifest_def E_def demo_env_def blank_env_def ask_data_def qvalue_def id_matches_def id_char_def
        qs_def)
  have "env_data E (OpenZip p # log) = Some empty_zip" "env_yes E = y"
    "qt_filePath E (qs ''plugins'') (qs ''.staging/'' @ env_uuid E log) = demo_root" for p log
    by (simp_all add: E_def demo_env_def blank_env_def demo_root_def qs_def)
  then show ?thesis unfolding E_def [symmetric]
    by (simp add: extractToStaging_def stage_archive_def ask_def ask_data_def y z n m default_limits_def s32_def)
qed

lemma demo_run:
  "extractToStaging demo_env default_limits demo_decomp [] cleared (qs ''plugins'') (qs ''a.zip'') [] =
     Some (demo_log, Inr \<lparr>st_pluginId = qs ''p'', st_version = [], st_stagingDir = demo_root\<rparr>)"
proof -
  have "demo_env = demo_env\<lparr>env_yes := \<lambda>_. True\<rparr>" by (simp add: demo_env_def blank_env_def)
  then show ?thesis using demo_run_in [of "\<lambda>_. True"] by simp
qed

text \<open>C6. Until the commit, an installation only creates and writes below its own staging directory, under
  entry names that stay below it, and removes nothing but that directory: whatever the archive holds and
  whatever the file system answers.\<close>

theorem staging_confined:
  assumes "extractToStaging E lim inflator dict z0 plugins zipPath log = Some (log', r)"
  shows "\<exists>ops u. log' = ops @ log \<and>
    list_all (confined E plugins zipPath (qt_filePath E plugins (qs ''.staging/'' @ u))) ops"
  using extractToStaging_done [OF assms] by (auto simp: staging_done_def Let_def)

lemma staging_confined_witness:
  "\<exists>ops u. [ReadAll (demo_root @ qs ''/manifest.json''), OpenZip (qs ''a.zip''), Mkpath demo_root (qs ''.''), NewUuid,
        Mkpath (qs ''plugins'') (qs ''.''), Exists (qs ''a.zip'')] = ops @ [] \<and>
    list_all (confined demo_env (qs ''plugins'') (qs ''a.zip'')
      (qt_filePath demo_env (qs ''plugins'') (qs ''.staging/'' @ u))) ops"
  by (rule staging_confined [OF demo_run])

text \<open>C7. Zip bombs: the bytes an installation writes in all are at most the limit for the archive, and the bytes
  it writes to any one file at most the limit for an entry, even when every header of the archive lies.\<close>

theorem staging_limits:
  assumes "extractToStaging E lim inflator dict z0 plugins zipPath log = Some (log', r)"
  shows "\<exists>ops. log' = ops @ log \<and> written ops \<le> max 0 (maxTotalUncompressedBytes lim) \<and>
    files_within (max 0 (maxEntryUncompressedBytes lim)) ops"
  using extractToStaging_done [OF assms] by (auto simp: staging_done_def Let_def)

lemma staging_limits_witness:
  "\<exists>ops. [ReadAll (demo_root @ qs ''/manifest.json''), OpenZip (qs ''a.zip''), Mkpath demo_root (qs ''.''), NewUuid,
        Mkpath (qs ''plugins'') (qs ''.''), Exists (qs ''a.zip'')] = ops @ [] \<and>
    written ops \<le> max 0 (maxTotalUncompressedBytes default_limits) \<and>
    files_within (max 0 (maxEntryUncompressedBytes default_limits)) ops"
  by (rule staging_limits [OF demo_run])



section \<open>The commit\<close>

text \<open>
  The directories on disk as the history leaves them: a rename that succeeded moves its source, a removal
  that was asked for takes its target away, whatever else happens has no effect on plugin directories.
\<close>

fun disk :: "env \<Rightarrow> (qstring \<Rightarrow> 'd option) \<Rightarrow> io_log \<Rightarrow> qstring \<Rightarrow> 'd option" where
  "disk E d [] = d"
| "disk E d (Rename p q # log) =
     (if env_yes E (Rename p q # log) then (disk E d log)(q := disk E d log p, p := None) else disk E d log)"
| "disk E d (RemoveRecursively p # log) = (disk E d log)(p := None)"
| "disk E d (op # log) = disk E d log"

text \<open>C9. The commit: after a success the staged plugin is in place. After a failure it is still staged, and a
  plugin installed before is in place too, or under its \<^verbatim>\<open>.old-<uuid>\<close> name when putting it back failed as
  well. No other directory is touched. The answers to \<^verbatim>\<open>exists\<close> must be right, and the staging
  directory, the plugin's directory and the unused \<^verbatim>\<open>.old-<uuid>\<close> name distinct.\<close>

theorem commit_keeps_plugins:
  assumes run: "commit E plugins pluginId staging log = (log', r)"
    and exists: "env_yes E (Exists finalDir # log) \<longleftrightarrow> disk E d log finalDir \<noteq> None"
    and final: "finalDir = qt_filePath E plugins pluginId"
    and old: "oldDir = qt_filePath E plugins (pluginId @ qs ''.old-'' @ env_uuid E (NewUuid # Exists finalDir # log))"
    and distinct: "distinct [finalDir, staging, oldDir]"
  shows "(case r of
      Inr dir \<Rightarrow> dir = finalDir \<and> disk E d log' finalDir = disk E d log staging \<and> disk E d log' staging = None
    | Inl e \<Rightarrow> disk E d log' staging = disk E d log staging \<and>
        (disk E d log' finalDir = disk E d log finalDir \<or> disk E d log' oldDir = disk E d log finalDir)) \<and>
    (\<forall>p. p \<notin> {finalDir, staging, oldDir} \<longrightarrow> disk E d log' p = disk E d log p)"
proof -
  note d = distinct [simplified] and body = run [unfolded commit_def ask_def Let_def prod.case]
  define l1 where "l1 = Exists finalDir # log"
  define l2 where "l2 = Rename finalDir oldDir # NewUuid # l1"
  define l3 where "l3 = Rename staging finalDir # l2"
  define l4 where "l4 = Rename staging finalDir # l1"
  show ?thesis
  proof (cases "env_yes E l1")
    case True
    consider "\<not> env_yes E l2" "log' = l2" "r = Inl (CannotMoveAside finalDir)"
      | "env_yes E l2" "\<not> env_yes E l3" "log' = Rename oldDir finalDir # l3" "r = Inl (CannotMoveIntoPlace finalDir)"
      | "env_yes E l2" "env_yes E l3" "log' = RemoveRecursively oldDir # l3" "r = Inr finalDir"
      using body True by (auto simp: l1_def l2_def l3_def final old split: if_splits)
    then show ?thesis
      by cases (use d in \<open>auto simp: l1_def l2_def l3_def\<close>)
  next
    case False
    then have "log' = l4" "r = (if env_yes E l4 then Inr finalDir else Inl (CannotMoveIntoPlace finalDir))"
      using body by (auto simp: l1_def l4_def final split: if_splits)
    then show ?thesis using d by (auto simp: l1_def l4_def)
  qed
qed

text \<open>A file system where only the second rename of the replacement of \<^verbatim>\<open>p\<close> fails.\<close>

definition demo_busy :: env where
  "demo_busy = demo_env\<lparr>env_yes := (\<lambda>log. hd log \<noteq> Rename demo_root (qs ''plugins/p''))\<rparr>"

definition demo_dirs :: "qstring \<Rightarrow> nat option" where
  "demo_dirs = [qs ''plugins/p'' \<mapsto> 1, demo_root \<mapsto> 2]"

lemma commit_keeps_plugins_witness:
  "disk demo_busy demo_dirs (fst (commit demo_busy (qs ''plugins'') (qs ''p'') demo_root [])) demo_root = Some 2 \<and>
   (disk demo_busy demo_dirs (fst (commit demo_busy (qs ''plugins'') (qs ''p'') demo_root [])) (qs ''plugins/p'') = Some 1 \<or>
    disk demo_busy demo_dirs (fst (commit demo_busy (qs ''plugins'') (qs ''p'') demo_root [])) (qs ''plugins/p.old-u'') = Some 1)"
proof -
  obtain log' where run: "commit demo_busy (qs ''plugins'') (qs ''p'') demo_root [] =
      (log', Inl (CannotMoveIntoPlace (qs ''plugins/p'')))"
    by (simp add: commit_def ask_def Let_def demo_busy_def demo_env_def blank_env_def demo_root_def qs_def)
  have ex: "env_yes demo_busy [Exists (qs ''plugins/p'')] \<longleftrightarrow> disk demo_busy demo_dirs [] (qs ''plugins/p'') \<noteq> None"
    by (simp add: demo_busy_def demo_dirs_def demo_root_def qs_def)
  have final: "qs ''plugins/p'' = qt_filePath demo_busy (qs ''plugins'') (qs ''p'')"
    and old: "qs ''plugins/p.old-u'' = qt_filePath demo_busy (qs ''plugins'')
      (qs ''p'' @ qs ''.old-'' @ env_uuid demo_busy [NewUuid, Exists (qs ''plugins/p'')])"
    and d: "distinct [qs ''plugins/p'', demo_root, qs ''plugins/p.old-u'']"
    by (simp_all add: demo_busy_def demo_env_def blank_env_def demo_root_def qs_def)
  have "demo_dirs demo_root = Some 2" "demo_dirs (qs ''plugins/p'') = Some 1"
    by (simp_all add: demo_dirs_def demo_root_def qs_def)
  then show ?thesis
    using commit_keeps_plugins [OF run ex final old d] by (simp only: run fst_conv disk.simps sum.case)
qed

text \<open>C36. \<^verbatim>\<open>install\<close> leaks: when the commit's rename fails, it returns the error and leaves the staging directory
  where it was; nothing after the failed rename removes it.\<close>

theorem failed_commit_leaks_staging:
  assumes staged: "extractToStaging E lim inflator dict z0 plugins zipPath log = Some (log1, Inr st)"
    and final: "finalDir = qt_filePath E plugins (st_pluginId st)"
    and free: "\<And>l. \<not> env_yes E (Exists finalDir # l)"
    and fails: "\<And>l. \<not> env_yes E (Rename (st_stagingDir st) finalDir # l)"
  shows "\<exists>log'. install E lim inflator dict z0 plugins zipPath log =
      Some (log', Inl (CannotMoveIntoPlace finalDir)) \<and>
    disk E d log' (st_stagingDir st) = disk E d log1 (st_stagingDir st)"
  using free fails by (simp add: install_def commit_def ask_def staged flip: final)

definition demo_stuck :: env where
  "demo_stuck = demo_env\<lparr>env_yes := (\<lambda>log. case log of Rename p q # _ \<Rightarrow> False | Exists p # _ \<Rightarrow> p = qs ''a.zip'' | _ \<Rightarrow> True)\<rparr>"

lemma failed_commit_leaks_staging_witness:
  "\<exists>log'. install demo_stuck default_limits demo_decomp [] cleared (qs ''plugins'') (qs ''a.zip'') [] =
      Some (log', Inl (CannotMoveIntoPlace (qs ''plugins/p''))) \<and>
    disk demo_stuck demo_dirs log' demo_root = Some 2"
proof -
  let ?st = "\<lparr>st_pluginId = qs ''p'', st_version = [], st_stagingDir = demo_root\<rparr>"
  have "\<exists>log'. install demo_stuck default_limits demo_decomp [] cleared (qs ''plugins'') (qs ''a.zip'') [] =
      Some (log', Inl (CannotMoveIntoPlace (qs ''plugins/p''))) \<and>
    disk demo_stuck demo_dirs log' (st_stagingDir ?st) = disk demo_stuck demo_dirs demo_log (st_stagingDir ?st)"
  proof (rule failed_commit_leaks_staging)
    show "extractToStaging demo_stuck default_limits demo_decomp [] cleared (qs ''plugins'') (qs ''a.zip'') [] =
        Some (demo_log, Inr ?st)"
      unfolding demo_stuck_def by (rule demo_run_in) simp_all
    show "qs ''plugins/p'' = qt_filePath demo_stuck (qs ''plugins'') (st_pluginId ?st)"
      by (simp add: demo_stuck_def demo_env_def blank_env_def qs_def)
  qed (simp_all add: demo_stuck_def qs_def)
  then show ?thesis by (simp add: demo_dirs_def demo_root_def qs_def)
qed

end
