(* ===== verification/InstallTotal.thy ===== *)
theory InstallTotal
  imports InstallerSafety ExtractSafe
begin

text \<open>
  The installer always returns: for every archive, every answer of the file system and every limit on
  an entry's size, staging and installing have defined behaviour and end. The archive is a file, so
  extraction from it is total (\<open>ExtractSafe\<close>); the loop over the entries keeps it open and well formed.
\<close>

definition ready :: "mz_zip_archive \<Rightarrow> bool" where
  "ready z \<longleftrightarrow> wf_archive z \<and> pMem_of z = None"

lemma ready_same: "ready z \<Longrightarrow> same_zip z z' \<Longrightarrow> ready z'"
  using wf_same [of z z'] pMem_same [of z z'] by (simp add: ready_def)

text \<open>No file is longer than a signed 64-bit offset reaches.\<close>

definition files_small :: "env \<Rightarrow> bool" where
  "files_small E \<longleftrightarrow> (\<forall>log bs. env_data E log = Some bs \<longrightarrow> length bs < 2 ^ 63)"

text \<open>What the installer needs: the decompressor's arrays, the dictionary's size, and a limit that is not negative.\<close>

definition can_inflate :: "tinfl_decompressor \<Rightarrow> bytes \<Rightarrow> limits \<Rightarrow> bool" where
  "can_inflate infl dict lim \<longleftrightarrow> decomp_shape infl \<and> length dict = TINFL_LZ_DICT_SIZE \<and>
     0 \<le> maxEntryUncompressedBytes lim \<and> maxEntryUncompressedBytes lim < 2 ^ 63"

lemma entry_error_size:
  assumes "entry_error E lim s = None" "can_inflate infl dict lim"
  shows "m_uncomp_size s + 32768 < 2 ^ 64"
proof -
  let ?m = "maxEntryUncompressedBytes lim"
  have "m_uncomp_size s \<le> nat (?m mod 2 ^ 64)" using assms(1) by (auto simp: entry_error_def Let_def split: if_splits)
  moreover have "?m mod 2 ^ 64 = ?m" using assms(2) by (simp add: can_inflate_def)
  moreover have "nat ?m < 2 ^ 63" using assms(2) by (simp add: can_inflate_def nat_less_iff)
  ultimately show ?thesis by simp
qed

lemma extract_file_total:
  assumes "ready (ss_zip s)" "can_inflate infl dict lim"
    "\<And>z1 stat. mz_zip_reader_file_stat (ss_zip s) i = Some (z1, Inr stat) \<Longrightarrow> m_uncomp_size stat + 32768 < 2 ^ 64"
  shows "\<exists>s' e. extract_file E lim infl dict root i name s = Some (s', e) \<and> ready (ss_zip s')"
proof -
  define dest log1 log2 where "dest = qt_filePath E root name" and "log1 = Mkpath [] (qt_absolutePath E dest) # ss_log s"
    and "log2 = OpenWrite dest # log1"
  note body = extract_file_def Let_def ask_def dest_def [symmetric] log1_def [symmetric] prod.case log2_def [symmetric]
  define c0 where "c0 = \<lparr>destFile = dest, entryBytesSoFar = 0, totalBytesSoFar = liveTotalBytes s,
      entryLimit = maxEntryUncompressedBytes lim, totalLimit = maxTotalUncompressedBytes lim, limitExceeded = False, live_log = log2\<rparr>"
  have "\<exists>z' c ok. mz_zip_reader_extract_to_callback infl dict (ss_zip s) i (liveExtractWriteCallback E) c0 0 = Some (z', c, ok) \<and>
      same_zip (ss_zip s) z'"
    by (rule extract_to_callback_total) (use assms in \<open>auto simp: ready_def can_inflate_def\<close>)
  then obtain z' c ok where x: "mz_zip_reader_extract_to_callback infl dict (ss_zip s) i (liveExtractWriteCallback E) c0 0 = Some (z', c, ok)"
      "ready z'" using ready_same [OF assms(1)] by blast
  show ?thesis
  proof (cases "env_yes E log1 \<and> env_yes E log2")
    case False
    then show ?thesis unfolding body using assms(1) by auto
  next
    case True
    then show ?thesis unfolding body c0_def [symmetric] x(1) using x(2) by simp
  qed
qed

lemma extract_one_total:
  assumes "ready (ss_zip s)" "can_inflate infl dict lim"
  shows "\<exists>s' e. extract_one E lim infl dict root i s = Some (s', e) \<and> ready (ss_zip s')"
proof -
  have wf: "wf_archive (ss_zip s)" using assms(1) by (simp add: ready_def)
  show ?thesis
  proof (cases rule: file_stat_cases [OF wf, of i, case_names failed found])
    case (failed z1 e)
    then show ?thesis using ready_same [OF assms(1)] by (simp add: extract_one_def)
  next
    case (found z1 stat)
    note z1 = ready_same [OF assms(1) found(2)]
    show ?thesis
    proof (cases "entry_error E lim stat = None \<and> \<not> m_is_directory stat")
      case False
      then show ?thesis using found(1) z1 by (auto simp: extract_one_def Let_def ask_def split: option.split)
    next
      case True
      have small: "m_uncomp_size s' + 32768 < 2 ^ 64" if "mz_zip_reader_file_stat z1 i = Some (z2, Inr s')" for z2 s'
        using file_stat_same [OF wf found(2,1)] that entry_error_size [of E lim stat infl dict] True assms(2) by auto
      have "\<exists>s' e. extract_file E lim infl dict root i name (s\<lparr>ss_zip := z1\<rparr>) = Some (s', e) \<and> ready (ss_zip s')" for name
        by (rule extract_file_total) (use z1 assms(2) small in auto)
      then show ?thesis using True found(1) by (simp add: extract_one_def Let_def)
    qed
  qed
qed

lemma extract_all_total:
  "ready (ss_zip s) \<Longrightarrow> can_inflate infl dict lim \<Longrightarrow> \<exists>s' e. extract_all E lim infl dict root i left s = Some (s', e)"
proof (induction left arbitrary: i s)
  case (Suc left)
  obtain s1 e where "extract_one E lim infl dict root i s = Some (s1, e)" "ready (ss_zip s1)"
    using extract_one_total [OF Suc.prems] by blast
  then show ?case using Suc.IH [OF _ Suc.prems(2), of s1 "i + 1"] by auto
qed simp

lemma opened_ready:
  assumes "m_pState z = None" "\<And>bs. contents = Some bs \<Longrightarrow> length bs < 2 ^ 63"
  shows "\<exists>z' r. mz_zip_reader_init_file z contents ok flags = Some (z', r) \<and> (r = Inr () \<longrightarrow> ready z')"
proof (cases contents)
  case None
  then show ?thesis by (simp add: mz_zip_reader_init_file_def mz_zip_reader_init_file_v2_def mz_zip_set_error_def)
next
  case (Some bs)
  have "zpost (mz_zip_reader_init_file z contents ok flags) (opened flags)"
    unfolding mz_zip_reader_init_file_def Some by (rule init_file_post) (use assms Some in simp_all)
  then obtain z' r where r: "mz_zip_reader_init_file z contents ok flags = Some (z', r)" "opened flags z' r"
    by (auto simp: zpost_def split: option.splits)
  then have "ready z'" if "r = Inr ()"
    using that init_file_not_mem [OF assms(1)] by (simp add: opened_def ready_def)
  then show ?thesis using r(1) by blast
qed

lemma stage_archive_total:
  assumes "can_inflate infl dict lim" "files_small E"
  shows "\<exists>log' r. stage_archive E lim infl dict z0 zipPath root log = Some (log', r)"
proof -
  define log1 where "log1 = OpenZip zipPath # log"
  have "m_pState (mz_zip_zero_struct z0) = None" by (simp add: mz_zip_zero_struct_def)
  then obtain z r where z: "mz_zip_reader_init_file (mz_zip_zero_struct z0) (env_data E log1) (env_yes E log1) 0 = Some (z, r)"
      "r = Inr () \<longrightarrow> ready z"
    using opened_ready [of "mz_zip_zero_struct z0" "env_data E log1" "env_yes E log1" 0] assms(2) by (auto simp: files_small_def)
  note body = stage_archive_def ask_data_def Let_def log1_def [symmetric] prod.case z(1) option.case
  show ?thesis
  proof (cases r)
    case (Inl e)
    then show ?thesis unfolding body by (simp add: fail_clean_def)
  next
    case (Inr u)
    then obtain s e where "extract_all E lim infl dict root 0 (mz_zip_reader_get_num_files z)
        \<lparr>ss_zip = z, liveTotalBytes = 0, ss_log = log1\<rparr> = Some (s, e)"
      using extract_all_total [OF _ assms(1), of "\<lparr>ss_zip = z, liveTotalBytes = 0, ss_log = log1\<rparr>" E root 0 "mz_zip_reader_get_num_files z"] z(2) by auto
    then show ?thesis
      unfolding body using Inr by (auto simp: fail_clean_def split: option.split prod.split sum.split)
  qed
qed

lemma staging_total:
  assumes "can_inflate infl dict lim" "files_small E"
  shows "\<exists>log' r. extractToStaging E lim infl dict z0 plugins zipPath log = Some (log', r)"
  using stage_archive_total [OF assms] by (simp add: extractToStaging_def ask_def Let_def)

lemma install_total:
  assumes "can_inflate infl dict lim" "files_small E"
  shows "\<exists>log' r. install E lim infl dict z0 plugins zipPath log = Some (log', r)"
proof -
  obtain log1 r where s: "extractToStaging E lim infl dict z0 plugins zipPath log = Some (log1, r)"
    using staging_total [OF assms] by blast
  show ?thesis
    by (cases r) (auto simp: install_def s ask_def Let_def split: prod.split sum.split)
qed

section \<open>Property\<close>

text \<open>C10. An installation always ends with a result. Whatever the bytes of the archive, the answers of the
  file system, the plugin's name and the state of the plugins directory, \<^verbatim>\<open>install\<close> returns: no read leaves a
  buffer, no loop of the reader or the decompressor runs on, and the result is an error or the installed
  plugin. The limit on an entry's size must not be negative, and no file longer than $2^{63}$ bytes.\<close>

theorem install_returns:
  assumes "can_inflate infl dict lim" "files_small E"
  shows "\<exists>log' r. install E lim infl dict z0 plugins zipPath log = Some (log', r)"
  by (rule install_total [OF assms])

lemma install_returns_witness:
  "\<exists>log' r. install demo_env default_limits fresh_inflator (replicate 32768 0) cleared (qs ''plugins'') (qs ''a.zip'') [] =
    Some (log', r)"
proof (rule install_returns)
  show "can_inflate fresh_inflator (replicate 32768 0) default_limits"
    using fresh_inflator_shape by (simp add: can_inflate_def default_limits_def)
  show "files_small demo_env"
    by (auto simp: files_small_def demo_env_def empty_zip_def split: list.splits io_op.splits)
qed

end
