(* ===== verification/DaemonPaths.thy ===== *)
theory DaemonPaths
  imports QtBase
begin

text \<open>
  \<^verbatim>\<open>src/DaemonPaths.cpp\<close>: where the daemon, its interpreter and the plugins live. The interpreter inside a
  virtual environment is spelled out in three classes the same way; \<open>venv_python\<close> is that path.
\<close>

definition kUvBinaryName :: "env \<Rightarrow> qstring" where
  "kUvBinaryName E = (if q_os_win E then qs ''uv.exe'' else qs ''uv'')"

definition baseDir :: "env \<Rightarrow> qstring" where
  "baseDir E = qt_filePath E (qt_appDataLocation E) (qs ''DazPythonBridge'')"

definition uvBinaryPath :: "env \<Rightarrow> qstring" where
  "uvBinaryPath E = qt_filePath E (baseDir E) (qs ''bin/'' @ kUvBinaryName E)"

definition runVenvDir :: "env \<Rightarrow> qstring" where
  "runVenvDir E = qt_filePath E (baseDir E) (qs ''run_venv'')"

definition pluginsDir :: "env \<Rightarrow> qstring" where
  "pluginsDir E = qt_filePath E (baseDir E) (qs ''plugins'')"

definition pluginVenvDir :: "env \<Rightarrow> qstring \<Rightarrow> qstring" where
  "pluginVenvDir E pluginId = qt_filePath E (pluginsDir E) (pluginId @ qs ''/venv'')"

definition ensureBaseDirExists :: "env \<Rightarrow> io_log \<Rightarrow> bool \<times> io_log" where
  "ensureBaseDirExists E log =
     (let (ok, log) = ask E (Mkpath [] (baseDir E)) log
      in if \<not> ok then (False, log)
         else ask E (Mkpath [] (qt_filePath E (baseDir E) (qs ''bin''))) log)"

definition venv_python :: "env \<Rightarrow> qstring \<Rightarrow> qstring" where
  "venv_python E venvDir =
     qt_filePath E venvDir (if q_os_win E then qs ''Scripts/python.exe'' else qs ''bin/python'')"

lemma ensureBaseDirExists_log:
  "\<exists>ops. snd (ensureBaseDirExists E log) = ops @ log \<and> (\<forall>op \<in> set ops. \<exists>d. op = Mkpath [] d)"
proof (cases "env_yes E (Mkpath [] (baseDir E) # log)")
  case True
  then show ?thesis
    by (intro exI [of _ "[Mkpath [] (qt_filePath E (baseDir E) (qs ''bin'')), Mkpath [] (baseDir E)]"])
      (simp add: ensureBaseDirExists_def ask_def Let_def)
next
  case False
  then show ?thesis
    by (intro exI [of _ "[Mkpath [] (baseDir E)]"]) (simp add: ensureBaseDirExists_def ask_def Let_def)
qed

end
