(* ===== verification/AuthService.thy ===== *)
theory AuthService
  imports QtBase
begin

text \<open>
  \<^verbatim>\<open>src/SecureRandom.cpp\<close> and \<^verbatim>\<open>src/AuthenticationService.cpp\<close>: the token the plugin and the daemon share.
  A random source is an operation of the history that answers with bytes; \<^verbatim>\<open>qWarning\<close> is left out. The lock
  around the token has no counterpart.
\<close>

section \<open>Random bytes\<close>

text \<open>A source that answered with as many bytes as were asked for.\<close>

definition read_random :: "env \<Rightarrow> io_op \<Rightarrow> nat \<Rightarrow> io_log \<Rightarrow> bytes option \<times> io_log" where
  "read_random E op count log =
     (let (r, log) = ask_data E op log
      in (case r of Some bs \<Rightarrow> if length bs = count then Some bs else None | None \<Rightarrow> None, log))"

definition MAX_RETRIES :: nat where "MAX_RETRIES = 3"

text \<open>The loop over the attempts; \<open>left\<close> of them remain. \<open>Sleep\<close> is in milliseconds.\<close>

fun random_attempts :: "env \<Rightarrow> nat \<Rightarrow> nat \<Rightarrow> io_log \<Rightarrow> bytes option \<times> io_log" where
  "random_attempts E count 0 log = (None, log)"
| "random_attempts E count (Suc left) log =
     (let attempt = MAX_RETRIES - left;
          (opened, log) = ask E (if q_os_win E then AcquireContext else OpenRead (qs ''/dev/urandom'')) log;
          (r, log) = (if \<not> opened then (None, log)
            else read_random E (if q_os_win E then GenRandom count else ReadBytes (qs ''/dev/urandom'') count) count log)
      in case r of
           Some bs \<Rightarrow> (Some bs, log)
         | None \<Rightarrow> random_attempts E count left (if attempt < MAX_RETRIES then Sleep (10 * attempt) # log else log))"

definition random_fallback :: "env \<Rightarrow> nat \<Rightarrow> io_log \<Rightarrow> bytes option \<times> io_log" where
  "random_fallback E count log =
     (if q_os_win E then read_random E (RtlGenRandom count) count log
      else let (opened, log) = ask E (OpenRead (qs ''/dev/random'')) log
      in if opened then read_random E (ReadBytes (qs ''/dev/random'') count) count log else (None, log))"

definition generateBytes :: "env \<Rightarrow> int \<Rightarrow> io_log \<Rightarrow> bytes \<times> io_log" where
  "generateBytes E count log =
     (if count \<le> 0 then ([], log)
      else case random_attempts E (nat count) MAX_RETRIES log of
          (Some bs, log) \<Rightarrow> (bs, log)
        | (None, log) \<Rightarrow> (case random_fallback E (nat count) log of
              (Some bs, log) \<Rightarrow> (bs, log)
            | (None, log) \<Rightarrow> ([], log)))"

text \<open>\<^verbatim>\<open>QByteArray::toHex\<close>.\<close>

definition hex_char :: "nat \<Rightarrow> qchar" where
  "hex_char n = of_nat (if n < 10 then 48 + n else 87 + n)"

definition toHex :: "bytes \<Rightarrow> qstring" where
  "toHex bs = concat (map (\<lambda>b. [hex_char (unat b div 16), hex_char (unat b mod 16)]) bs)"

definition generateHexToken :: "env \<Rightarrow> int \<Rightarrow> io_log \<Rightarrow> qstring \<times> io_log" where
  "generateHexToken E byteCount log =
     (let (randomBytes, log) = generateBytes E byteCount log
      in (if randomBytes = [] then [] else toHex randomBytes, log))"

section \<open>The token\<close>

record auth_service =
  m_sToken :: qstring

datatype auth_message =
    InsecurePermissions qstring
  | RunChmod qstring
  | TokenInvalid
  | NoTokenFile
  | NoCrypto
  | TokenSaved qstring
  | SaveFailed qstring
  | ChmodFailed qstring
  | RestrictManually qstring
  | Empty_message

definition generateToken :: "env \<Rightarrow> io_log \<Rightarrow> qstring \<times> io_log" where
  "generateToken E log = generateHexToken E 16 log"

definition token_path :: "env \<Rightarrow> qstring" where
  "token_path E = qt_homePath E @ qs ''/.daz3d'' @ qs ''/dazpythonbridge_token.txt''"

definition getTokenFilePath :: "env \<Rightarrow> io_log \<Rightarrow> qstring \<times> io_log" where
  "getTokenFilePath E log =
     (let dazDir = qt_homePath E @ qs ''/.daz3d'';
          (there, log) = ask E (Exists dazDir) log
      in (token_path E, if there then log else Mkpath [] dazDir # log))"

text \<open>The bytes of \<^verbatim>\<open>m_sToken << "\n"\<close> in text mode.\<close>

definition token_line :: "env \<Rightarrow> qstring \<Rightarrow> bytes" where
  "token_line E tok = qt_toUtf8 E tok @ (if q_os_win E then [13, 10] else [10])"

definition saveToken :: "env \<Rightarrow> auth_service \<Rightarrow> io_log \<Rightarrow> bool \<times> auth_message \<times> io_log" where
  "saveToken E a log =
     (let (tokenPath, log) = getTokenFilePath E log;
          (opened, log) = ask E (OpenWrite tokenPath) log
      in if \<not> opened then (False, SaveFailed tokenPath, log)
         else let log = CloseFile tokenPath # WriteFile tokenPath (token_line E (m_sToken a)) # log
         in if q_os_win E then (True, RestrictManually tokenPath, log)
            else let (ok, log) = ask E (Chmod tokenPath) log
            in (True, if ok then Empty_message else ChmodFailed tokenPath, log))"

text \<open>The token of an existing file, with the messages.\<close>

definition load_token :: "env \<Rightarrow> qstring \<Rightarrow> io_log \<Rightarrow> qstring option \<times> auth_message list \<times> io_log" where
  "load_token E tokenPath log =
     (let (there, log) = ask E (Exists tokenPath) log
      in if \<not> there then (None, [NoTokenFile], log)
         else let (open_to_others, log) = (if q_os_win E then (False, log) else ask E (Permissions tokenPath) log);
                  msgs = (if open_to_others then [InsecurePermissions tokenPath, RunChmod tokenPath] else []);
                  (contents, log) = ask_data E (ReadAll tokenPath) log
         in case contents of
              None \<Rightarrow> (None, msgs, log)
            | Some bs \<Rightarrow>
                let loaded = trimmed E (qt_readLine E bs)
                in if loaded \<noteq> [] \<and> 32 \<le> length loaded then (Some loaded, msgs, log)
                   else (None, msgs @ [TokenInvalid], log))"

definition loadOrGenerateToken ::
    "env \<Rightarrow> auth_service \<Rightarrow> io_log \<Rightarrow> bool \<times> auth_service \<times> auth_message list \<times> io_log" where
  "loadOrGenerateToken E a log =
     (let (tokenPath, log) = getTokenFilePath E log;
          (r, msgs, log) = load_token E tokenPath log
      in case r of
           Some loaded \<Rightarrow> (True, a\<lparr>m_sToken := loaded\<rparr>, msgs, log)
         | None \<Rightarrow>
             let (newToken, log) = generateToken E log
             in if newToken = [] then (False, a, msgs @ [NoCrypto], log)
                else let a = a\<lparr>m_sToken := newToken\<rparr>;
                         (saved, saveMsg, log) = saveToken E a log
                in (True, a, msgs @ [if saved then TokenSaved tokenPath else saveMsg], log))"

definition getToken :: "auth_service \<Rightarrow> qstring" where
  "getToken a = m_sToken a"

definition setToken :: "auth_service \<Rightarrow> qstring \<Rightarrow> auth_service" where
  "setToken a tok = a\<lparr>m_sToken := tok\<rparr>"

section \<open>Properties\<close>

definition is_hex :: "qchar \<Rightarrow> bool" where
  "is_hex c \<longleftrightarrow> 48 \<le> unat c \<and> unat c \<le> 57 \<or> 97 \<le> unat c \<and> unat c \<le> 102"

lemma hex_char_is_hex: "n < 16 \<Longrightarrow> is_hex (hex_char n)"
proof -
  assume "n < 16"
  then have "n \<in> set [0..<16]" by simp
  moreover have "\<forall>k \<in> set [0..<16]. is_hex (hex_char k)" by code_simp
  ultimately show ?thesis by blast
qed

lemma length_toHex: "length (toHex bs) = 2 * length bs"
  by (induction bs) (simp_all add: toHex_def)

lemma toHex_is_hex: "list_all is_hex (toHex bs)"
proof (induction bs)
  case (Cons b bs)
  have "unat b div 16 < 16" using unat_u8_less [of b] by (simp add: less_mult_imp_div_less)
  then show ?case using Cons by (simp add: toHex_def hex_char_is_hex)
qed (simp add: toHex_def)

lemma read_random_length: "read_random E op n log = (Some bs, log') \<Longrightarrow> length bs = n"
  by (auto simp: read_random_def ask_data_def Let_def split: option.splits if_splits)

lemma random_attempts_length: "random_attempts E n left log = (Some bs, log') \<Longrightarrow> length bs = n"
proof (induction left arbitrary: log)
  case (Suc left)
  obtain opened l1 where o: "ask E (if q_os_win E then AcquireContext else OpenRead (qs ''/dev/urandom'')) log = (opened, l1)"
    by (metis surj_pair)
  obtain r l2 where r: "(if \<not> opened then (None, l1)
      else read_random E (if q_os_win E then GenRandom n else ReadBytes (qs ''/dev/urandom'') n) n l1) = (r, l2)"
    by (metis surj_pair)
  note body = Suc.prems [unfolded random_attempts.simps Let_def o prod.case r]
  show ?case
  proof (cases r)
    case (Some cs)
    then have "cs = bs" using body by simp
    moreover have "read_random E (if q_os_win E then GenRandom n else ReadBytes (qs ''/dev/urandom'') n) n l1 = (Some cs, l2)"
      using r Some by (cases opened) simp_all
    ultimately show ?thesis using read_random_length by blast
  next
    case None
    show ?thesis by (rule Suc.IH) (use body None in simp)
  qed
qed simp

lemma random_fallback_length: "random_fallback E n log = (Some bs, log') \<Longrightarrow> length bs = n"
  by (auto simp: random_fallback_def ask_def Let_def split: if_splits dest: read_random_length)

lemma generateBytes_length:
  "fst (generateBytes E count log) = [] \<or> int (length (fst (generateBytes E count log))) = count"
proof (cases "count \<le> 0")
  case True
  then show ?thesis by (simp add: generateBytes_def)
next
  case False
  obtain r l where r: "random_attempts E (nat count) MAX_RETRIES log = (r, l)"
    by (cases "random_attempts E (nat count) MAX_RETRIES log")
  obtain r' l' where r': "random_fallback E (nat count) l = (r', l')" by (cases "random_fallback E (nat count) l")
  show ?thesis
  proof (cases r)
    case (Some bs)
    then have "length bs = nat count" using r random_attempts_length by blast
    then show ?thesis using False r Some by (simp add: generateBytes_def)
  next
    case None
    then show ?thesis using False r r' random_fallback_length [of E "nat count" l]
      by (cases r') (auto simp: generateBytes_def)
  qed
qed

lemma generateToken_form:
  assumes "generateToken E log = (tok, log')" "tok \<noteq> []"
  shows "length tok = 32 \<and> list_all is_hex tok"
proof -
  obtain bs l where b: "generateBytes E 16 log = (bs, l)" by (cases "generateBytes E 16 log")
  then have "tok = toHex bs" "bs \<noteq> []" using assms
    by (auto simp: generateToken_def generateHexToken_def Let_def split: if_splits)
  moreover have "int (length bs) = 16" using generateBytes_length [of E 16 log] b \<open>bs \<noteq> []\<close> by simp
  ultimately show ?thesis using length_toHex [of bs] toHex_is_hex [of bs] by simp
qed

text \<open>C24. Loading or generating the token: after a success the service holds a token of at least 32 characters,
  either the trimmed first line of the token file or 32 fresh hexadecimal digits; it fails only when no valid
  token is stored and every random source failed, and then leaves the service as it was.\<close>

theorem token_loaded:
  "case loadOrGenerateToken E a log of (ok, a', msgs, log') \<Rightarrow>
    (if ok then 32 \<le> length (m_sToken a') \<and>
       ((\<exists>bs l. env_data E (ReadAll (token_path E) # l) = Some bs \<and> m_sToken a' = trimmed E (qt_readLine E bs)) \<or>
        length (m_sToken a') = 32 \<and> list_all is_hex (m_sToken a'))
     else a' = a \<and> msgs \<noteq> [] \<and> last msgs = NoCrypto)"
proof -
  obtain p l1 where p: "getTokenFilePath E log = (p, l1)" by (cases "getTokenFilePath E log")
  then have path: "p = token_path E" by (simp add: getTokenFilePath_def ask_def Let_def)
  obtain r msgs l2 where r: "load_token E p l1 = (r, msgs, l2)" by (cases "load_token E p l1")
  show ?thesis
  proof (cases r)
    case (Some loaded)
    have "\<exists>bs l. env_data E (ReadAll p # l) = Some bs \<and> loaded = trimmed E (qt_readLine E bs) \<and> 32 \<le> length loaded"
      using r Some by (auto simp: load_token_def ask_def ask_data_def Let_def split: if_splits option.splits)
    then show ?thesis using p r Some path by (auto simp: loadOrGenerateToken_def)
  next
    case None
    obtain tok l3 where t: "generateToken E l2 = (tok, l3)" by (cases "generateToken E l2")
    show ?thesis
    proof (cases "tok = []")
      case True
      then show ?thesis using p r None t by (simp add: loadOrGenerateToken_def)
    next
      case False
      obtain sv m l4 where s: "saveToken E (a\<lparr>m_sToken := tok\<rparr>) l3 = (sv, m, l4)"
        by (cases "saveToken E (a\<lparr>m_sToken := tok\<rparr>) l3")
      show ?thesis using p r None t False s generateToken_form [OF t False]
        by (simp add: loadOrGenerateToken_def)
    qed
  qed
qed


text \<open>A home directory without and with a token file, for the witness.\<close>

definition token_env :: env where
  "token_env = blank_env\<lparr>env_data := (\<lambda>_. Some (replicate 32 97 @ [10])),
     qt_readLine := (\<lambda>bs. map ucast (takeWhile (\<lambda>b. b \<noteq> 10) bs))\<rparr>"


end
