(* ===== verification/EventRuns.thy ===== *)
theory EventRuns
  imports QtBase
begin

text \<open>
  The classes driven by Qt's event loop: a component is a step function from an event and its state to the new
  state and what it sends out, in order: signals, requests, processes. \<open>run\<close> feeds it a sequence of events.
  The interface \<open>single_flight\<close> is what the polling classes have in common: a flag that is set exactly while
  a request is unanswered.
\<close>

fun run :: "('e \<Rightarrow> 's \<Rightarrow> 's \<times> 'o list) \<Rightarrow> 'e list \<Rightarrow> 's \<Rightarrow> 's \<times> 'o list" where
  "run stp [] s = (s, [])"
| "run stp (e # es) s =
     (let (s, os) = stp e s; (s, os') = run stp es s in (s, os @ os'))"

lemma run_Cons [simp]:
  "fst (run stp (e # es) s) = fst (run stp es (fst (stp e s)))"
  "snd (run stp (e # es) s) = snd (stp e s) @ snd (run stp es (fst (stp e s)))"
  by (simp_all add: split_beta)

declare run.simps(2) [simp del]

lemma run_append:
  "fst (run stp (es @ es') s) = fst (run stp es' (fst (run stp es s)))"
  "snd (run stp (es @ es') s) = snd (run stp es s) @ snd (run stp es' (fst (run stp es s)))"
  by (induction es arbitrary: s) simp_all

text \<open>
  The requests without an answer after a run, with \<open>n\<close> of them before; a run is legal when the network
  answers nothing but what is outstanding.
\<close>

fun outstanding :: "('e \<Rightarrow> 's \<Rightarrow> 's \<times> 'o list) \<Rightarrow> ('o \<Rightarrow> bool) \<Rightarrow> ('e \<Rightarrow> bool) \<Rightarrow> nat \<Rightarrow> 'e list \<Rightarrow> 's \<Rightarrow> nat" where
  "outstanding stp request reply n [] s = n"
| "outstanding stp request reply n (e # es) s =
     outstanding stp request reply (n - (if reply e then 1 else 0) + length (filter request (snd (stp e s)))) es
       (fst (stp e s))"

fun legal :: "('e \<Rightarrow> 's \<Rightarrow> 's \<times> 'o list) \<Rightarrow> ('o \<Rightarrow> bool) \<Rightarrow> ('e \<Rightarrow> bool) \<Rightarrow> nat \<Rightarrow> 'e list \<Rightarrow> 's \<Rightarrow> bool" where
  "legal stp request reply n [] s = True"
| "legal stp request reply n (e # es) s \<longleftrightarrow> (reply e \<longrightarrow> 0 < n) \<and>
     legal stp request reply (n - (if reply e then 1 else 0) + length (filter request (snd (stp e s)))) es
       (fst (stp e s))"

locale single_flight =
  fixes stp :: "'e \<Rightarrow> 's \<Rightarrow> 's \<times> 'o list"
    and busy :: "'s \<Rightarrow> bool"
    and request :: "'o \<Rightarrow> bool"
    and reply :: "'e \<Rightarrow> bool"
  assumes balance: "length (filter request (snd (stp e s))) + of_bool (busy s \<and> \<not> reply e) = of_bool (busy (fst (stp e s)))"
begin

lemma step_balance:
  assumes "reply e \<Longrightarrow> busy s"
  shows "of_bool (busy s) - (if reply e then 1 else 0) + length (filter request (snd (stp e s))) =
    of_bool (busy (fst (stp e s)))"
  using assms balance [of e s] by (cases "reply e"; cases "busy s") simp_all

theorem flag_counts:
  "legal stp request reply (of_bool (busy s)) es s \<Longrightarrow>
    outstanding stp request reply (of_bool (busy s)) es s = of_bool (busy (fst (run stp es s)))"
proof (induction es arbitrary: s)
  case (Cons e es)
  have b: "of_bool (busy s) - (if reply e then 1 else 0) + length (filter request (snd (stp e s))) =
      of_bool (busy (fst (stp e s)))"
    using Cons.prems by (intro step_balance) auto
  show ?case using Cons.IH [of "fst (stp e s)"] Cons.prems by (simp add: b del: of_bool_eq_iff)
qed simp

corollary at_most_one:
  "legal stp request reply (of_bool (busy s)) es s \<Longrightarrow>
    outstanding stp request reply (of_bool (busy s)) es s \<le> 1"
  by (simp add: flag_counts)

text \<open>Requests and answers in a legal run.\<close>

lemma requests_answers:
  "legal stp request reply (of_bool (busy s)) es s \<Longrightarrow>
    length (filter request (snd (run stp es s))) + of_bool (busy s) =
      length (filter reply es) + of_bool (busy (fst (run stp es s)))"
proof (induction es arbitrary: s)
  case (Cons e es)
  have b: "of_bool (busy s) - (if reply e then 1 else 0) + length (filter request (snd (stp e s))) =
      of_bool (busy (fst (stp e s)))"
    using Cons.prems by (intro step_balance) auto
  have "length (filter request (snd (run stp es (fst (stp e s))))) + of_bool (busy (fst (stp e s))) =
      length (filter reply es) + of_bool (busy (fst (run stp es (fst (stp e s)))))"
    using Cons.IH [of "fst (stp e s)"] Cons.prems by (simp add: b del: of_bool_eq_iff)
  moreover have "reply e \<longrightarrow> busy s" using Cons.prems by auto
  ultimately show ?case using b by (cases "reply e"; cases "busy s") simp_all
qed simp

end

end
