(* ===== verification/Polling.thy ===== *)
theory Polling
  imports EventRuns JsonStd
begin

text \<open>
  \<^verbatim>\<open>src/DaemonHealthMonitor.cpp\<close>, \<^verbatim>\<open>src/PluginStatusManager.cpp\<close> and \<^verbatim>\<open>src/InlineRunner.cpp\<close>: the classes
  that talk to the daemon over HTTP. An answer event carries what its slot reads of the reply, or \<^term>\<open>None\<close> when
  \<^verbatim>\<open>sender()\<close> is no reply.
\<close>

definition baseUrl :: qstring where
  "baseUrl = qs ''http://127.0.0.1:18812''"

record http_reply =
  noError :: bool
  errorString :: qstring
  reply_body :: bytes

section \<open>The health monitor\<close>

record health_monitor =
  hm_isUp :: bool
  hm_requestInFlight :: bool
  hm_authToken :: qstring
  hm_timer :: "int option"

datatype health_event =
    Health_start int
  | Health_stop
  | Health_timeout
  | Health_setAuthToken qstring
  | Health_reply "bool option"

datatype health_out =
    Health_request io_op
  | Health_changed bool

definition health_init :: health_monitor where
  "health_init = \<lparr>hm_isUp = False, hm_requestInFlight = False, hm_authToken = [], hm_timer = None\<rparr>"

definition poll :: "env \<Rightarrow> health_monitor \<Rightarrow> health_monitor \<times> health_out list" where
  "poll E m =
     (if hm_requestInFlight m then (m, [])
      else (m\<lparr>hm_requestInFlight := True\<rparr>,
        [Health_request (HttpGet (qs ''http://127.0.0.1:18812/health'') (token_header E (hm_authToken m)))]))"

text \<open>\<open>Health_changed True\<close> is the signal \<^verbatim>\<open>healthUp\<close>, \<open>Health_changed False\<close> is \<^verbatim>\<open>healthDown\<close>.\<close>

definition health_onReplyFinished :: "bool option \<Rightarrow> health_monitor \<Rightarrow> health_monitor \<times> health_out list" where
  "health_onReplyFinished reply m =
     (case reply of
        None \<Rightarrow> (m, [])
      | Some ok \<Rightarrow>
          let m = m\<lparr>hm_requestInFlight := False\<rparr>
          in if ok \<and> \<not> hm_isUp m then (m\<lparr>hm_isUp := True\<rparr>, [Health_changed True])
             else if \<not> ok \<and> hm_isUp m then (m\<lparr>hm_isUp := False\<rparr>, [Health_changed False])
             else (m, []))"

fun health_step :: "env \<Rightarrow> health_event \<Rightarrow> health_monitor \<Rightarrow> health_monitor \<times> health_out list" where
  "health_step E (Health_start intervalMs) m = poll E (m\<lparr>hm_timer := Some intervalMs\<rparr>)"
| "health_step E Health_stop m = (m\<lparr>hm_timer := None\<rparr>, [])"
| "health_step E Health_timeout m = poll E m"
| "health_step E (Health_setAuthToken tok) m = (m\<lparr>hm_authToken := tok\<rparr>, [])"
| "health_step E (Health_reply r) m = health_onReplyFinished r m"

fun is_health_request :: "health_out \<Rightarrow> bool" where
  "is_health_request (Health_request r) = True"
| "is_health_request _ = False"

fun is_health_reply :: "health_event \<Rightarrow> bool" where
  "is_health_reply (Health_reply (Some ok)) = True"
| "is_health_reply _ = False"

interpretation health: single_flight "health_step E" hm_requestInFlight is_health_request is_health_reply
proof
  fix e and m :: health_monitor
  show "length (filter is_health_request (snd (health_step E e m))) +
      of_bool (hm_requestInFlight m \<and> \<not> is_health_reply e) = of_bool (hm_requestInFlight (fst (health_step E e m)))"
  proof (cases e)
    case (Health_reply r)
    then show ?thesis by (cases r) (simp_all add: health_onReplyFinished_def Let_def)
  qed (simp_all add: poll_def)
qed

section \<open>The plugin list\<close>

record plugin_status =
  ps_pluginId :: qstring
  ps_state :: qstring
  ps_pid :: int
  ps_memoryBytes :: int
  ps_lastUsed :: qdouble

datatype action = Action_Start | Action_Stop | Action_Restart | Action_Enable | Action_Disable

record status_manager =
  sm_requestInFlight :: bool
  sm_authToken :: qstring
  sm_timer :: "int option"

datatype status_event =
    Status_start int
  | Status_stop
  | Status_refresh
  | Status_setAuthToken qstring
  | Status_performAction qstring action
  | Status_list_reply "http_reply option"
  | Status_action_reply "(http_reply \<times> qstring \<times> action) option"

datatype status_out =
    Status_request io_op
  | Status_action_request qstring action io_op
  | PluginsUpdated "plugin_status list"
  | ActionFinished qstring action bool qstring

definition parsePlugin :: "env \<Rightarrow> (qstring \<times> qvariant) list \<Rightarrow> plugin_status" where
  "parsePlugin E obj =
     (let pid = qvalue obj (qs ''pid'');
          memoryBytes = qvalue obj (qs ''memory_bytes'');
          lastUsed = qvalue obj (qs ''last_used'')
      in \<lparr>ps_pluginId = qt_toString E (qvalue obj (qs ''plugin_id'')),
          ps_state = qt_toString E (qvalue obj (qs ''state'')),
          ps_pid = (if pid = QInvalid then - 1 else qt_toLongLong E pid),
          ps_memoryBytes = (if memoryBytes = QInvalid then - 1 else qt_toLongLong E memoryBytes),
          ps_lastUsed = (if lastUsed = QInvalid then (0, 0) else qt_toDouble E lastUsed)\<rparr>)"

definition refresh :: "env \<Rightarrow> status_manager \<Rightarrow> status_manager \<times> status_out list" where
  "refresh E m =
     (if sm_requestInFlight m then (m, [])
      else (m\<lparr>sm_requestInFlight := True\<rparr>,
        [Status_request (HttpGet (baseUrl @ qs ''/plugins'') (token_header E (sm_authToken m)))]))"

definition onListReplyFinished ::
    "env \<Rightarrow> http_reply option \<Rightarrow> status_manager \<Rightarrow> status_manager \<times> status_out list" where
  "onListReplyFinished E reply m =
     (case reply of
        None \<Rightarrow> (m, [])
      | Some r \<Rightarrow>
          let m = m\<lparr>sm_requestInFlight := False\<rparr>
          in if \<not> noError r then (m, [])
             else (case qt_parseJson E (reply_body r) of
               Inl e \<Rightarrow> (m, [])
             | Inr body \<Rightarrow>
                 (m, [PluginsUpdated (map (\<lambda>v. parsePlugin E (qt_toMap v)) (qt_toList (qvalue body (qs ''plugins''))))])))"

fun actionPath :: "action \<Rightarrow> qstring" where
  "actionPath Action_Start = qs ''start''"
| "actionPath Action_Stop = qs ''stop''"
| "actionPath Action_Restart = qs ''restart''"
| "actionPath Action_Enable = qs ''enable''"
| "actionPath Action_Disable = qs ''disable''"

definition performAction ::
    "env \<Rightarrow> qstring \<Rightarrow> action \<Rightarrow> status_manager \<Rightarrow> status_manager \<times> status_out list" where
  "performAction E pluginId a m =
     (m, [Status_action_request pluginId a
       (HttpPost (baseUrl @ qs ''/plugins/'' @ pluginId @ qs ''/'' @ actionPath a) (token_header E (sm_authToken m)) [])])"

text \<open>The error message of a failed action: the daemon's \<^verbatim>\<open>detail\<close>, or the network's.\<close>

definition action_error :: "env \<Rightarrow> http_reply \<Rightarrow> qstring" where
  "action_error E r =
     (let detail = (case qt_parseJson E (reply_body r) of
        Inl e \<Rightarrow> []
      | Inr body \<Rightarrow> qt_toString E (qvalue body (qs ''detail'')))
      in if detail = [] then errorString r else detail)"

definition onActionReplyFinished ::
    "env \<Rightarrow> (http_reply \<times> qstring \<times> action) option \<Rightarrow> status_manager \<Rightarrow> status_manager \<times> status_out list" where
  "onActionReplyFinished E reply m =
     (case reply of
        None \<Rightarrow> (m, [])
      | Some (r, pluginId, a) \<Rightarrow>
          let success = noError r;
              errorMessage = (if success then [] else action_error E r);
              (m, os) = refresh E m
          in (m, ActionFinished pluginId a success errorMessage # os))"

fun status_step :: "env \<Rightarrow> status_event \<Rightarrow> status_manager \<Rightarrow> status_manager \<times> status_out list" where
  "status_step E (Status_start intervalMs) m = refresh E (m\<lparr>sm_timer := Some intervalMs\<rparr>)"
| "status_step E Status_stop m = (m\<lparr>sm_timer := None\<rparr>, [])"
| "status_step E Status_refresh m = refresh E m"
| "status_step E (Status_setAuthToken tok) m = (m\<lparr>sm_authToken := tok\<rparr>, [])"
| "status_step E (Status_performAction pluginId a) m = performAction E pluginId a m"
| "status_step E (Status_list_reply r) m = onListReplyFinished E r m"
| "status_step E (Status_action_reply r) m = onActionReplyFinished E r m"

fun is_list_request :: "status_out \<Rightarrow> bool" where
  "is_list_request (Status_request r) = True"
| "is_list_request _ = False"

fun is_list_reply :: "status_event \<Rightarrow> bool" where
  "is_list_reply (Status_list_reply (Some r)) = True"
| "is_list_reply _ = False"

interpretation plugin_list: single_flight "status_step E" sm_requestInFlight is_list_request is_list_reply
proof
  fix e and m :: status_manager
  show "length (filter is_list_request (snd (status_step E e m))) +
      of_bool (sm_requestInFlight m \<and> \<not> is_list_reply e) = of_bool (sm_requestInFlight (fst (status_step E e m)))"
  proof (cases e)
    case (Status_list_reply r)
    then show ?thesis by (cases r) (simp_all add: onListReplyFinished_def Let_def split: sum.splits)
  next
    case (Status_action_reply r)
    then show ?thesis by (cases r) (auto simp: onActionReplyFinished_def refresh_def Let_def)
  qed (simp_all add: refresh_def performAction_def)
qed

section \<open>Running a script\<close>

record inline_runner =
  ir_authToken :: qstring
  ir_requestInFlight :: bool

datatype runner_event =
    Run_setAuthToken qstring
  | Run_execute qstring
  | Run_reply "http_reply option"

datatype runner_out =
    Run_request io_op
  | RunFinished bool qstring "qstring list" qstring

definition jsonText :: "env \<Rightarrow> qvariant \<Rightarrow> qstring" where
  "jsonText E v =
     (case v of
        QString s \<Rightarrow> s
      | QInvalid \<Rightarrow> qs ''null''
      | _ \<Rightarrow> qt_fromUtf8 E (variantToJson (qt_toUtf8 E) v))"

definition run_payload :: "env \<Rightarrow> qstring \<Rightarrow> bytes" where
  "run_payload E code = variantToJsonBytes E (QMap [(qs ''code'', QString code)])"

definition execute :: "env \<Rightarrow> qstring \<Rightarrow> inline_runner \<Rightarrow> inline_runner \<times> runner_out list" where
  "execute E code m =
     (if ir_requestInFlight m then (m, [])
      else (m\<lparr>ir_requestInFlight := True\<rparr>,
        [Run_request (HttpPost (baseUrl @ qs ''/run'') (token_header E (ir_authToken m)) (run_payload E code))]))"

definition run_result :: "env \<Rightarrow> http_reply \<Rightarrow> runner_out" where
  "run_result E r =
     (if \<not> noError r
      then RunFinished False (qs ''null'') []
        (case qt_parseJson E (reply_body r) of
           Inl e \<Rightarrow> errorString r
         | Inr body \<Rightarrow> if map_of body (qs ''detail'') \<noteq> None then qt_toString E (qvalue body (qs ''detail''))
             else errorString r)
      else case qt_parseJson E (reply_body r) of
          Inl e \<Rightarrow> RunFinished False (qs ''null'') [] (qs ''Malformed response from daemon'')
        | Inr body \<Rightarrow>
            RunFinished (qt_toBool E (qvalue body (qs ''success''))) (jsonText E (qvalue body (qs ''result'')))
              (map (qt_toString E) (qt_toList (qvalue body (qs ''output'')))) (qt_toString E (qvalue body (qs ''error''))))"

definition run_onReplyFinished :: "env \<Rightarrow> http_reply option \<Rightarrow> inline_runner \<Rightarrow> inline_runner \<times> runner_out list" where
  "run_onReplyFinished E reply m =
     (case reply of
        None \<Rightarrow> (m, [])
      | Some r \<Rightarrow> (m\<lparr>ir_requestInFlight := False\<rparr>, [run_result E r]))"

fun runner_step :: "env \<Rightarrow> runner_event \<Rightarrow> inline_runner \<Rightarrow> inline_runner \<times> runner_out list" where
  "runner_step E (Run_setAuthToken tok) m = (m\<lparr>ir_authToken := tok\<rparr>, [])"
| "runner_step E (Run_execute code) m = execute E code m"
| "runner_step E (Run_reply r) m = run_onReplyFinished E r m"

fun is_run_request :: "runner_out \<Rightarrow> bool" where
  "is_run_request (Run_request r) = True"
| "is_run_request _ = False"

fun is_run_reply :: "runner_event \<Rightarrow> bool" where
  "is_run_reply (Run_reply (Some r)) = True"
| "is_run_reply _ = False"

lemma run_result_no_request [simp]: "\<not> is_run_request (run_result E r)"
  by (auto simp: run_result_def split: sum.splits)

interpretation runner: single_flight "runner_step E" ir_requestInFlight is_run_request is_run_reply
proof
  fix e and m :: inline_runner
  show "length (filter is_run_request (snd (runner_step E e m))) +
      of_bool (ir_requestInFlight m \<and> \<not> is_run_reply e) = of_bool (ir_requestInFlight (fst (runner_step E e m)))"
  proof (cases e)
    case (Run_reply r)
    then show ?thesis by (cases r) (simp_all add: run_onReplyFinished_def)
  qed (simp_all add: execute_def)
qed

section \<open>Properties\<close>

definition status_init :: status_manager where
  "status_init = \<lparr>sm_requestInFlight = False, sm_authToken = [], sm_timer = None\<rparr>"

definition runner_init :: inline_runner where
  "runner_init = \<lparr>ir_authToken = [], ir_requestInFlight = False\<rparr>"



text \<open>The answers among the events, and the transitions among the signals.\<close>

fun answers :: "health_event list \<Rightarrow> bool list" where
  "answers [] = []"
| "answers (Health_reply (Some ok) # es) = ok # answers es"
| "answers (e # es) = answers es"

fun transitions :: "health_out list \<Rightarrow> bool list" where
  "transitions [] = []"
| "transitions (Health_changed up # os) = up # transitions os"
| "transitions (Health_request r # os) = transitions os"

lemma transitions_append [simp]: "transitions (os @ os') = transitions os @ transitions os'"
  by (induction os rule: transitions.induct) simp_all

lemma transitions_poll [simp]: "transitions (snd (poll E m)) = []" "hm_isUp (fst (poll E m)) = hm_isUp m"
  by (simp_all add: poll_def)

lemma remdups_adj_head: "remdups_adj (x # xs) = x # tl (remdups_adj (x # xs))"
  using hd_remdups_adj [of "x # xs"] by (cases "remdups_adj (x # xs)") auto

text \<open>C27. The health signals report exactly the changes of the daemon's answers: whatever else happens, the
  sequence of \<^verbatim>\<open>healthUp\<close> and \<^verbatim>\<open>healthDown\<close> is the sequence of answers with repetitions of the current state
  left out, so the two alternate and none is sent for a poll that confirms the state.\<close>

theorem health_signals:
  "transitions (snd (run (health_step E) es m)) = tl (remdups_adj (hm_isUp m # answers es))"
proof (induction es arbitrary: m)
  case (Cons e es)
  show ?case
  proof (cases "\<exists>ok. e = Health_reply (Some ok)")
    case True
    then obtain ok where e: "e = Health_reply (Some ok)" by blast
    have r: "remdups_adj (ok # answers es) = ok # tl (remdups_adj (ok # answers es))"
      by (rule remdups_adj_head)
    show ?thesis
    proof (cases "ok = hm_isUp m")
      case True
      then show ?thesis using Cons [of "m\<lparr>hm_requestInFlight := False\<rparr>"]
        by (simp add: e health_onReplyFinished_def)
    next
      case False
      then show ?thesis using Cons [of "m\<lparr>hm_requestInFlight := False, hm_isUp := ok\<rparr>"] r
        by (cases ok) (simp_all add: e health_onReplyFinished_def)
    qed
  next
    case False
    have "transitions (snd (health_step E e m)) = []" "hm_isUp (fst (health_step E e m)) = hm_isUp m"
      using False by (cases e; auto simp: health_onReplyFinished_def split: option.splits)+
    moreover have "answers (e # es) = answers es" using False by (cases e) (auto split: option.splits elim: answers.elims)
    ultimately show ?thesis using Cons by simp
  qed
qed simp

fun runs_finished :: "runner_out list \<Rightarrow> nat" where
  "runs_finished [] = 0"
| "runs_finished (RunFinished ok r out e # os) = Suc (runs_finished os)"
| "runs_finished (Run_request r # os) = runs_finished os"

lemma runs_finished_append: "runs_finished (os @ os') = runs_finished os + runs_finished os'"
  by (induction os rule: runs_finished.induct) simp_all

lemma run_result_finishes: "runs_finished [run_result E r] = 1"
  by (auto simp: run_result_def split: sum.splits)

lemma runs_finished_replies:
  "runs_finished (snd (run (runner_step E) es m)) = length (filter is_run_reply es)"
proof (induction es arbitrary: m)
  case (Cons e es)
  have "runs_finished (snd (runner_step E e m)) = (if is_run_reply e then 1 else 0)"
  proof (cases e)
    case (Run_reply r)
    then show ?thesis using run_result_finishes by (cases r) (auto simp: run_onReplyFinished_def)
  qed (simp_all add: execute_def)
  then show ?case using Cons by (simp add: runs_finished_append)
qed simp

text \<open>C28. Every script that is sent gets exactly one \<^verbatim>\<open>runFinished\<close>: in any interleaving of calls and answers
  the signals are as many as the requests, less the one still running. A call while one is running sends
  nothing.\<close>

theorem runs_answered:
  assumes "legal (runner_step E) is_run_request is_run_reply 0 es runner_init"
  shows "runs_finished (snd (run (runner_step E) es runner_init)) +
      (if ir_requestInFlight (fst (run (runner_step E) es runner_init)) then 1 else 0) =
    length (filter is_run_request (snd (run (runner_step E) es runner_init)))"
  using runner.requests_answers [of E runner_init es] assms
  by (auto simp: runs_finished_replies runner_init_def)

lemma runs_answered_witness:
  "runs_finished (snd (run (runner_step blank_env) [Run_execute [], Run_execute [1], Run_reply (Some \<lparr>noError = False,
      errorString = [], reply_body = []\<rparr>), Run_execute [2]] runner_init)) + 1 =
    length (filter is_run_request (snd (run (runner_step blank_env) [Run_execute [], Run_execute [1],
      Run_reply (Some \<lparr>noError = False, errorString = [], reply_body = []\<rparr>), Run_execute [2]] runner_init)))"
proof -
  define es where "es = [Run_execute [], Run_execute [1], Run_reply (Some \<lparr>noError = False,
      errorString = [], reply_body = []\<rparr>), Run_execute [2]]"
  have l: "legal (runner_step blank_env) is_run_request is_run_reply 0 es runner_init"
    by (simp add: es_def execute_def runner_init_def run_onReplyFinished_def)
  have "ir_requestInFlight (fst (run (runner_step blank_env) es runner_init))"
    by (simp add: es_def execute_def runner_init_def run_onReplyFinished_def)
  then show ?thesis using runs_answered [OF l] by (simp add: es_def)
qed


end
