(* ===== verification/DaemonProcess.thy ===== *)
theory DaemonProcess
  imports DaemonPaths
begin

text \<open>
  \<^verbatim>\<open>src/DaemonProcess.cpp\<close>: the supervisor of the daemon. \<open>dp_process\<close> is \<^verbatim>\<open>m_process\<close>, null or a process in
  one of Qt's states. A step returns \<^term>\<open>None\<close> where the code dereferences a null pointer.
\<close>

datatype process_state = NotRunning | Starting | Running

record daemon_process =
  dp_process :: "process_state option"
  dp_stopRequested :: bool
  dp_stdoutBuffer :: bytes
  dp_stderrBuffer :: bytes

datatype process_out =
    Process_op io_op
  | Process_started
  | Process_crashed int bool
  | LogLine qstring

definition daemon_init :: daemon_process where
  "daemon_init = \<lparr>dp_process = None, dp_stopRequested = False, dp_stdoutBuffer = [], dp_stderrBuffer = []\<rparr>"

definition isRunning :: "daemon_process \<Rightarrow> bool" where
  "isRunning d = (case dp_process d of None \<Rightarrow> False | Some st \<Rightarrow> st \<noteq> NotRunning)"

text \<open>\<open>pid\<close> is what \<^verbatim>\<open>QProcess::processId\<close> answers.\<close>

definition processId :: "int \<Rightarrow> daemon_process \<Rightarrow> int" where
  "processId pid d = (if dp_process d = None then 0 else pid)"

definition daemon_arguments :: "qstring list" where
  "daemon_arguments = [qs ''-m'', qs ''uvicorn'', qs ''daemon.app:app'', qs ''--host'', qs ''127.0.0.1'',
     qs ''--port'', qs ''18812'']"

definition start :: "env \<Rightarrow> daemon_process \<Rightarrow> daemon_process \<times> process_out list" where
  "start E d =
     (if isRunning d then (d, [])
      else (d\<lparr>dp_stopRequested := False, dp_process := Some Starting, dp_stdoutBuffer := [], dp_stderrBuffer := []\<rparr>,
        [Process_op (StartProcess (venv_python E (runVenvDir E)) daemon_arguments)]))"

definition onStarted :: "daemon_process \<Rightarrow> daemon_process \<times> process_out list" where
  "onStarted d = (d, [Process_started])"

definition onFinished :: "int \<Rightarrow> bool \<Rightarrow> daemon_process \<Rightarrow> daemon_process \<times> process_out list" where
  "onFinished exitCode status d =
     (d\<lparr>dp_process := None\<rparr>, if \<not> dp_stopRequested d then [Process_crashed exitCode status] else [])"

section \<open>Log lines\<close>

definition chomp :: "bytes \<Rightarrow> bytes" where
  "chomp line = (if line \<noteq> [] \<and> last line = 13 then butlast line else line)"

text \<open>The loop of \<^verbatim>\<open>emitBufferedLines\<close>: the lines and the rest of the buffer.\<close>

function take_lines :: "bytes \<Rightarrow> bytes list \<times> bytes" where
  "take_lines buffer =
     (let line = takeWhile (\<lambda>b. b \<noteq> 10) buffer
      in if line = buffer then ([], buffer)
         else let (lines, rest) = take_lines (drop (length line + 1) buffer) in (chomp line # lines, rest))"
  by pat_completeness auto
termination
proof (relation "measure length", goal_cases)
  case 1
  then show ?case by simp
next
  case (2 buffer line)
  then show ?case by (cases buffer) auto
qed

declare take_lines.simps [simp del]

definition emitBufferedLines :: "env \<Rightarrow> bytes \<Rightarrow> bytes \<Rightarrow> bytes \<times> process_out list" where
  "emitBufferedLines E buffer chunk =
     (let (lines, rest) = take_lines (buffer @ chunk) in (rest, map (\<lambda>l. LogLine (qt_fromUtf8 E l)) lines))"

definition onReadyReadStandardOutput :: "env \<Rightarrow> bytes \<Rightarrow> daemon_process \<Rightarrow> daemon_process \<times> process_out list" where
  "onReadyReadStandardOutput E chunk d =
     (if dp_process d = None then (d, [])
      else let (rest, os) = emitBufferedLines E (dp_stdoutBuffer d) chunk in (d\<lparr>dp_stdoutBuffer := rest\<rparr>, os))"

definition onReadyReadStandardError :: "env \<Rightarrow> bytes \<Rightarrow> daemon_process \<Rightarrow> daemon_process \<times> process_out list" where
  "onReadyReadStandardError E chunk d =
     (if dp_process d = None then (d, [])
      else let (rest, os) = emitBufferedLines E (dp_stderrBuffer d) chunk in (d\<lparr>dp_stderrBuffer := rest\<rparr>, os))"

section \<open>Stopping\<close>

text \<open>
  \<^verbatim>\<open>waitForFinished\<close> delivers the process's signals while it waits: its output, and \<^verbatim>\<open>finished\<close> when the process
  ends in time. \<open>wait_end\<close> says whether that is after \<^verbatim>\<open>terminate\<close>, after \<^verbatim>\<open>kill\<close> or not at all, with the exit
  code and status.
\<close>

datatype wait_end =
    Ends_on_terminate int bool
  | Ends_on_kill int bool
  | Survives

fun read_chunks :: "env \<Rightarrow> (bool \<times> bytes) list \<Rightarrow> daemon_process \<Rightarrow> daemon_process \<times> process_out list" where
  "read_chunks E [] d = (d, [])"
| "read_chunks E ((err, chunk) # cs) d =
     (let (d, os) = (if err then onReadyReadStandardError E chunk d else onReadyReadStandardOutput E chunk d);
          (d, os') = read_chunks E cs d
      in (d, os @ os'))"

definition stop ::
    "env \<Rightarrow> (bool \<times> bytes) list \<Rightarrow> wait_end \<Rightarrow> daemon_process \<Rightarrow> (daemon_process \<times> process_out list) option" where
  "stop E chunks w d =
     (case dp_process d of
        None \<Rightarrow> Some (d, [])
      | Some st \<Rightarrow>
          let d = d\<lparr>dp_stopRequested := True\<rparr>;
              (d, os) = (if st = NotRunning then (d, []) else read_chunks E chunks d);
              (killed, d) =
                (if st = NotRunning then (True, d)
                 else case w of
                     Ends_on_terminate c s \<Rightarrow> (False, fst (onFinished c s d))
                   | Ends_on_kill c s \<Rightarrow> (True, fst (onFinished c s d))
                   | Survives \<Rightarrow> (True, d))
          in if dp_process d = None then None
             else Some (d\<lparr>dp_process := None\<rparr>,
               [Process_op Terminate] @ os @ (if killed then [Process_op Kill] else [])))"

section \<open>Events\<close>

datatype process_event =
    Daemon_start
  | Daemon_stop "(bool \<times> bytes) list" wait_end
  | Daemon_started
  | Daemon_failed_to_start
  | Daemon_finished int bool
  | Daemon_output bool bytes

text \<open>A process that fails to start is not running, and sends no \<^verbatim>\<open>finished\<close>.\<close>

fun daemon_step :: "env \<Rightarrow> process_event \<Rightarrow> daemon_process \<Rightarrow> (daemon_process \<times> process_out list) option" where
  "daemon_step E Daemon_start d = Some (start E d)"
| "daemon_step E (Daemon_stop cs w) d = stop E cs w d"
| "daemon_step E Daemon_started d = Some (onStarted (d\<lparr>dp_process := map_option (\<lambda>_. Running) (dp_process d)\<rparr>))"
| "daemon_step E Daemon_failed_to_start d = Some (d\<lparr>dp_process := map_option (\<lambda>_. NotRunning) (dp_process d)\<rparr>, [])"
| "daemon_step E (Daemon_finished c s) d = Some (onFinished c s d)"
| "daemon_step E (Daemon_output err chunk) d =
     Some (if err then onReadyReadStandardError E chunk d else onReadyReadStandardOutput E chunk d)"

section \<open>Properties\<close>

text \<open>The pieces of a stream between line feeds; the last one has no line feed yet.\<close>

fun pieces :: "bytes \<Rightarrow> bytes list" where
  "pieces [] = [[]]"
| "pieces (c # cs) = (if c = 10 then [] # pieces cs else (c # hd (pieces cs)) # tl (pieces cs))"

lemma pieces_nonempty [simp]: "pieces s \<noteq> []"
  by (cases s) simp_all

lemma pieces_plain: "10 \<notin> set w \<Longrightarrow> pieces w = [w]"
  by (induction w) auto

lemma pieces_line: "10 \<notin> set w \<Longrightarrow> pieces (w @ 10 # s) = w # pieces s"
  by (induction w) auto

lemma pieces_append: "pieces (a @ b) = butlast (pieces a) @ pieces (last (pieces a) @ b)"
proof (induction a)
  case (Cons c a)
  then show ?case by (cases "pieces a") auto
qed simp

lemma pieces_no_newline: "p \<in> set (pieces s) \<Longrightarrow> 10 \<notin> set p"
proof (induction s arbitrary: p)
  case (Cons c s)
  then show ?case by (cases "pieces s") (auto split: if_splits)
qed simp

lemma take_lines_pieces: "take_lines b = (map chomp (butlast (pieces b)), last (pieces b))"
proof (induction b rule: length_induct)
  case (1 b)
  define line where "line = takeWhile (\<lambda>c. c \<noteq> 10) b"
  have line: "10 \<notin> set line" by (auto simp: line_def dest: set_takeWhileD)
  show ?case
  proof (cases "line = b")
    case True
    then show ?thesis using line by (simp add: take_lines.simps [of b] pieces_plain flip: line_def)
  next
    case False
    then obtain r where r: "b = line @ 10 # r"
      unfolding line_def by (metis (mono_tags, lifting) append.right_neutral dropWhile_eq_Cons_conv list.exhaust takeWhile_dropWhile_id)
    have "take_lines r = (map chomp (butlast (pieces r)), last (pieces r))" using 1 r by simp
    moreover have "drop (length line + 1) b = r" by (subst r) simp
    moreover have "take_lines b =
        (let (lines, rest) = take_lines (drop (length line + 1) b) in (chomp line # lines, rest))"
      using False by (subst take_lines.simps) (simp add: Let_def flip: line_def)
    moreover have "pieces b = line # pieces r" unfolding r by (rule pieces_line [OF line])
    ultimately show ?thesis by simp
  qed
qed

fun feed_chunks :: "env \<Rightarrow> bytes \<Rightarrow> bytes list \<Rightarrow> bytes \<times> process_out list" where
  "feed_chunks E buffer [] = (buffer, [])"
| "feed_chunks E buffer (c # cs) =
     (let (rest, os) = emitBufferedLines E buffer c; (rest, os') = feed_chunks E rest cs in (rest, os @ os'))"

lemma feed_chunks_pieces:
  "10 \<notin> set buffer \<Longrightarrow> feed_chunks E buffer cs =
    (last (pieces (buffer @ concat cs)),
     map (\<lambda>l. LogLine (qt_fromUtf8 E (chomp l))) (butlast (pieces (buffer @ concat cs))))"
proof (induction cs arbitrary: buffer)
  case (Cons c cs)
  define p where "p = pieces (buffer @ c)"
  have "10 \<notin> set (last p)" using pieces_no_newline [of _ "buffer @ c"] by (simp add: p_def)
  then have "feed_chunks E (last p) cs = (last (pieces (last p @ concat cs)),
      map (\<lambda>l. LogLine (qt_fromUtf8 E (chomp l))) (butlast (pieces (last p @ concat cs))))" by (rule Cons.IH)
  moreover have "pieces (buffer @ concat (c # cs)) = butlast p @ pieces (last p @ concat cs)"
    using pieces_append [of "buffer @ c" "concat cs"] by (simp add: p_def)
  ultimately show ?case
    by (simp add: emitBufferedLines_def take_lines_pieces butlast_append Let_def flip: p_def)
qed (simp add: pieces_plain)

text \<open>C30. The log lines do not depend on how the daemon's output arrives: for any division of a stream into chunks
  the signals are the lines of the whole stream, each without its line feed and one carriage return before it,
  and what is kept is the unfinished last line.\<close>

theorem log_lines:
  "feed_chunks E [] cs = (last (pieces (concat cs)),
     map (\<lambda>l. LogLine (qt_fromUtf8 E (chomp l))) (butlast (pieces (concat cs))))"
  by (simp add: feed_chunks_pieces)

lemma read_chunks_process: "dp_process (fst (read_chunks E cs d)) = dp_process d"
proof (induction cs arbitrary: d)
  case (Cons c cs)
  obtain err chunk where c: "c = (err, chunk)" by (cases c)
  show ?case using Cons
    by (auto simp: c split_beta Let_def onReadyReadStandardError_def onReadyReadStandardOutput_def)
qed simp

text \<open>C31. Stopping the daemon dereferences a null pointer exactly when it works: if the process runs and ends while
  \<^verbatim>\<open>stop\<close> waits for it, the slot called in between has already cleared \<^verbatim>\<open>m_process\<close>. Only a process that
  was not running, or survives both waits, is let go of properly.\<close>

theorem stop_null_dereference:
  "stop E cs w d = None \<longleftrightarrow> isRunning d \<and> w \<noteq> Survives"
proof (cases "dp_process d")
  case None
  then show ?thesis by (simp add: stop_def isRunning_def)
next
  case (Some st)
  then show ?thesis
    using read_chunks_process [of E cs "d\<lparr>dp_stopRequested := True\<rparr>"]
    by (cases w) (auto simp: stop_def isRunning_def onFinished_def Let_def split_beta)
qed

fun daemon_run :: "env \<Rightarrow> process_event list \<Rightarrow> daemon_process \<Rightarrow> daemon_process option" where
  "daemon_run E [] d = Some d"
| "daemon_run E (e # es) d = (case daemon_step E e d of None \<Rightarrow> None | Some (d, os) \<Rightarrow> daemon_run E es d)"

fun is_stop :: "process_event \<Rightarrow> bool" where
  "is_stop (Daemon_stop cs w) = True"
| "is_stop _ = False"

lemma daemon_step_stopRequested:
  assumes "\<not> is_stop e" "daemon_step E e d = Some (d', os)" "\<not> dp_stopRequested d"
  shows "\<not> dp_stopRequested d'"
  using assms
  by (cases e) (auto simp: start_def onStarted_def onFinished_def onReadyReadStandardError_def
      onReadyReadStandardOutput_def Let_def split_beta split: if_splits)

lemma daemon_run_stopRequested:
  "\<forall>e \<in> set es. \<not> is_stop e \<Longrightarrow> daemon_run E es d = Some d' \<Longrightarrow> \<not> dp_stopRequested d \<Longrightarrow> \<not> dp_stopRequested d'"
proof (induction es arbitrary: d)
  case (Cons e es)
  obtain d1 os where s: "daemon_step E e d = Some (d1, os)" "daemon_run E es d1 = Some d'"
    using Cons.prems(2) by (auto split: option.splits)
  show ?case using Cons.IH [OF _ s(2)] daemon_step_stopRequested [OF _ s(1)] Cons.prems by simp
qed simp

text \<open>C32. An end nobody asked for is reported: after the daemon has been started and whatever else has happened
  but a \<^verbatim>\<open>stop\<close>, the end of the process is reported as a crash with its exit code and status.\<close>

theorem crash_reported:
  assumes "\<not> isRunning d" and "\<forall>e \<in> set es. \<not> is_stop e"
    and "daemon_run E (Daemon_start # es) d = Some d'"
  shows "daemon_step E (Daemon_finished c s) d' = Some (d'\<lparr>dp_process := None\<rparr>, [Process_crashed c s])"
proof -
  have "\<not> dp_stopRequested (fst (start E d))" using assms(1) by (simp add: start_def)
  moreover have "daemon_run E es (fst (start E d)) = Some d'" using assms(3) by (simp add: split_beta)
  ultimately have "\<not> dp_stopRequested d'" using daemon_run_stopRequested [OF assms(2)] by blast
  then show ?thesis by (simp add: onFinished_def)
qed

lemma crash_reported_witness:
  "daemon_step blank_env (Daemon_finished 1 True) (daemon_init\<lparr>dp_process := Some Running\<rparr>) =
    Some (daemon_init, [Process_crashed 1 True])"
proof -
  have "daemon_step blank_env (Daemon_finished 1 True) (daemon_init\<lparr>dp_process := Some Running\<rparr>) =
      Some (daemon_init\<lparr>dp_process := Some Running, dp_process := None\<rparr>, [Process_crashed 1 True])"
    by (rule crash_reported [of daemon_init "[Daemon_started]" blank_env])
      (simp_all add: daemon_init_def isRunning_def start_def onStarted_def)
  then show ?thesis by (simp add: daemon_init_def)
qed

end
