(* ===== verification/Bootstrap.thy ===== *)
theory Bootstrap
  imports DaemonPaths JsonStd
begin

text \<open>
  \<^verbatim>\<open>src/UvBootstrapper.cpp\<close> and \<^verbatim>\<open>src/PluginDependencyInstaller.cpp\<close>: chains of processes, each started when the
  one before has finished. The end of a process is an event with its exit code, whether it ended normally,
  and what \<^verbatim>\<open>m_process\<close>, the process started last, then has as standard error and error string. A process
  that fails to start sends no such event.
\<close>

record process_end =
  exitCode :: int
  normalExit :: bool
  standardError :: bytes
  processError :: qstring

text \<open>\<^verbatim>\<open>status != QProcess::NormalExit || exitCode != 0\<close>, and the message \<^verbatim>\<open>fail(step, process)\<close> reports.\<close>

definition failed :: "process_end \<Rightarrow> bool" where
  "failed p \<longleftrightarrow> \<not> normalExit p \<or> exitCode p \<noteq> 0"

definition process_message :: "env \<Rightarrow> process_end \<Rightarrow> qstring" where
  "process_message E p =
     (let message = qt_fromUtf8 E (standardError p) in if message = [] then processError p else message)"

section \<open>The bootstrapper\<close>

datatype boot_step = Install_uv | Install_python | Create_venv | Install_deps

fun step_name :: "boot_step \<Rightarrow> qstring" where
  "step_name Install_uv = qs ''install-uv''"
| "step_name Install_python = qs ''install-python''"
| "step_name Create_venv = qs ''create-venv''"
| "step_name Install_deps = qs ''install-deps''"

datatype chain_signal =
    StepStarted qstring
  | StepSucceeded qstring
  | StepFailed qstring qstring
  | Ready
  | Finished qstring bool qstring

text \<open>\<open>ub_running\<close> are the child processes that have not ended, latest first.\<close>

record bootstrapper =
  ub_daemonSourceDir :: qstring
  ub_running :: "boot_step list"
  ub_log :: io_log

definition start_step :: "boot_step \<Rightarrow> io_log \<Rightarrow> bootstrapper \<Rightarrow> bootstrapper \<times> chain_signal list" where
  "start_step st ops s =
     (s\<lparr>ub_running := st # ub_running s, ub_log := ops @ ub_log s\<rparr>, [StepStarted (step_name st)])"

definition ub_ask :: "env \<Rightarrow> io_op \<Rightarrow> bootstrapper \<Rightarrow> bool \<times> bootstrapper" where
  "ub_ask E op s = (let (r, log) = ask E op (ub_log s) in (r, s\<lparr>ub_log := log\<rparr>))"

definition venvPythonPath :: "env \<Rightarrow> qstring" where
  "venvPythonPath E = venv_python E (runVenvDir E)"

definition installDeps :: "env \<Rightarrow> bootstrapper \<Rightarrow> bootstrapper \<times> chain_signal list" where
  "installDeps E s = start_step Install_deps
     [StartProcess (uvBinaryPath E) [qs ''pip'', qs ''install'', qs ''--python'', venvPythonPath E, qs ''--reinstall'',
        ub_daemonSourceDir s]] s"

definition createVenv :: "env \<Rightarrow> bootstrapper \<Rightarrow> bootstrapper \<times> chain_signal list" where
  "createVenv E s =
     (let (there, s) = ub_ask E (Exists (venvPythonPath E)) s
      in if there then installDeps E s
         else start_step Create_venv
           [StartProcess (uvBinaryPath E) [qs ''venv'', runVenvDir E, qs ''--python'', qs ''3.11'']] s)"

definition installPython :: "env \<Rightarrow> bootstrapper \<Rightarrow> bootstrapper \<times> chain_signal list" where
  "installPython E s = start_step Install_python
     [StartProcess (uvBinaryPath E) [qs ''python'', qs ''install'', qs ''3.11'']] s"

definition install_uv_command :: "env \<Rightarrow> io_log" where
  "install_uv_command E =
     [if q_os_win E
      then StartProcess (qs ''powershell.exe'') [qs ''-NoProfile'', qs ''-ExecutionPolicy'', qs ''Bypass'', qs ''-Command'',
        qs ''irm https://astral.sh/uv/install.ps1 | iex'']
      else StartProcess (qs ''/bin/sh'') [qs ''-c'', qs ''curl -LsSf https://astral.sh/uv/install.sh | sh''],
      SetEnvironment [(qs ''UV_INSTALL_DIR'', qt_filePath E (baseDir E) (qs ''bin'')), (qs ''UV_NO_MODIFY_PATH'', qs ''1'')]]"

definition installUv :: "env \<Rightarrow> bootstrapper \<Rightarrow> bootstrapper \<times> chain_signal list" where
  "installUv E s =
     (let (there, s) = ub_ask E (Exists (uvBinaryPath E)) s
      in if there then installPython E s else start_step Install_uv (install_uv_command E) s)"

definition ensureReady :: "env \<Rightarrow> bootstrapper \<Rightarrow> bootstrapper \<times> chain_signal list" where
  "ensureReady E s =
     (if ub_daemonSourceDir s = []
      then (s, [StepFailed (qs ''ensure-base-dir'') (qs ''setDaemonSourceDir() was not called before ensureReady()'')])
      else let (ok, log) = ensureBaseDirExists E (ub_log s); s = s\<lparr>ub_log := log\<rparr>
      in if \<not> ok then (s, [StepFailed (qs ''ensure-base-dir'') (qs ''could not create '' @ baseDir E)])
         else installUv E s)"

definition boot_fails :: "env \<Rightarrow> boot_step \<Rightarrow> process_end \<Rightarrow> bootstrapper \<Rightarrow> bootstrapper \<times> chain_signal list" where
  "boot_fails E st p s = (s, [StepFailed (step_name st) (process_message E p)])"

definition boot_succeeds ::
    "boot_step \<Rightarrow> (bootstrapper \<Rightarrow> bootstrapper \<times> chain_signal list) \<Rightarrow> bootstrapper \<Rightarrow>
     bootstrapper \<times> chain_signal list" where
  "boot_succeeds st k s = (let (s, os) = k s in (s, StepSucceeded (step_name st) # os))"

definition onInstallUvFinished ::
    "env \<Rightarrow> process_end \<Rightarrow> bootstrapper \<Rightarrow> bootstrapper \<times> chain_signal list" where
  "onInstallUvFinished E p s =
     (if failed p then boot_fails E Install_uv p s
      else let (there, s) = ub_ask E (Exists (uvBinaryPath E)) s
      in if \<not> there then boot_fails E Install_uv p s else boot_succeeds Install_uv (installPython E) s)"

definition onInstallPythonFinished ::
    "env \<Rightarrow> process_end \<Rightarrow> bootstrapper \<Rightarrow> bootstrapper \<times> chain_signal list" where
  "onInstallPythonFinished E p s =
     (if failed p then boot_fails E Install_python p s else boot_succeeds Install_python (createVenv E) s)"

definition onCreateVenvFinished ::
    "env \<Rightarrow> process_end \<Rightarrow> bootstrapper \<Rightarrow> bootstrapper \<times> chain_signal list" where
  "onCreateVenvFinished E p s =
     (if failed p then boot_fails E Create_venv p s else boot_succeeds Create_venv (installDeps E) s)"

definition onInstallDepsFinished ::
    "env \<Rightarrow> process_end \<Rightarrow> bootstrapper \<Rightarrow> bootstrapper \<times> chain_signal list" where
  "onInstallDepsFinished E p s =
     (if failed p then boot_fails E Install_deps p s else boot_succeeds Install_deps (\<lambda>s. (s, [Ready])) s)"

text \<open>The slot a process's end is connected to.\<close>

fun boot_finished ::
    "env \<Rightarrow> boot_step \<Rightarrow> process_end \<Rightarrow> bootstrapper \<Rightarrow> bootstrapper \<times> chain_signal list" where
  "boot_finished E Install_uv p s = onInstallUvFinished E p (s\<lparr>ub_running := remove1 Install_uv (ub_running s)\<rparr>)"
| "boot_finished E Install_python p s =
     onInstallPythonFinished E p (s\<lparr>ub_running := remove1 Install_python (ub_running s)\<rparr>)"
| "boot_finished E Create_venv p s = onCreateVenvFinished E p (s\<lparr>ub_running := remove1 Create_venv (ub_running s)\<rparr>)"
| "boot_finished E Install_deps p s = onInstallDepsFinished E p (s\<lparr>ub_running := remove1 Install_deps (ub_running s)\<rparr>)"

section \<open>The chain as a whole\<close>

text \<open>
  One bootstrap from start to end: \<open>ends\<close> says how the process of each step ends, \<open>n\<close> bounds the processes.
\<close>

fun drive :: "env \<Rightarrow> (boot_step \<Rightarrow> process_end) \<Rightarrow> nat \<Rightarrow> bootstrapper \<Rightarrow> bootstrapper \<times> chain_signal list" where
  "drive E ends 0 s = (s, [])"
| "drive E ends (Suc n) s =
     (case ub_running s of
        [] \<Rightarrow> (s, [])
      | st # _ \<Rightarrow>
          let (s, os) = boot_finished E st (ends st) s; (s, os') = drive E ends n s in (s, os @ os'))"

definition bootstrap ::
    "env \<Rightarrow> (boot_step \<Rightarrow> process_end) \<Rightarrow> nat \<Rightarrow> bootstrapper \<Rightarrow> bootstrapper \<times> chain_signal list" where
  "bootstrap E ends n s = (let (s, os) = ensureReady E s; (s, os') = drive E ends n s in (s, os @ os'))"

text \<open>
  What it should do, said without processes: carry out a plan, stopping at the first step that fails;
  \<open>problem\<close> gives the failure message of a step, if it fails.
\<close>

fun carry_out :: "(boot_step \<Rightarrow> qstring option) \<Rightarrow> boot_step list \<Rightarrow> chain_signal list" where
  "carry_out problem [] = [Ready]"
| "carry_out problem (st # plan) = StepStarted (step_name st) #
     (case problem st of
        Some message \<Rightarrow> [StepFailed (step_name st) message]
      | None \<Rightarrow> StepSucceeded (step_name st) # carry_out problem plan)"

definition plan :: "bool \<Rightarrow> bool \<Rightarrow> boot_step list" where
  "plan have_uv have_venv =
     (if have_uv then [] else [Install_uv]) @ [Install_python] @ (if have_venv then [] else [Create_venv]) @ [Install_deps]"

definition problem_of :: "env \<Rightarrow> (boot_step \<Rightarrow> process_end) \<Rightarrow> bool \<Rightarrow> boot_step \<Rightarrow> qstring option" where
  "problem_of E ends uv_there st =
     (if failed (ends st) \<or> st = Install_uv \<and> \<not> uv_there then Some (process_message E (ends st)) else None)"

lemmas boot_defs = boot_fails_def boot_succeeds_def start_step_def ub_ask_def ask_def

lemma drive_deps:
  "ub_running s = [Install_deps] \<Longrightarrow> \<exists>s'. drive E ends (Suc n) s =
    (s', tl (carry_out (problem_of E ends b) [Install_deps])) \<and> ub_running s' = []"
  by (cases n) (auto simp: onInstallDepsFinished_def boot_defs problem_of_def)

lemma drive_venv:
  assumes "ub_running s = [Create_venv]"
  shows "\<exists>s'. drive E ends (Suc (Suc n)) s = (s', tl (carry_out (problem_of E ends b) [Create_venv, Install_deps])) \<and>
    ub_running s' = []"
proof (cases "failed (ends Create_venv)")
  case True
  then show ?thesis using assms by (auto simp: onCreateVenvFinished_def boot_defs problem_of_def)
next
  case False
  define s1 where "s1 = fst (installDeps E (s\<lparr>ub_running := []\<rparr>))"
  have "ub_running s1 = [Install_deps]" by (simp add: s1_def installDeps_def start_step_def)
  then obtain s' where s': "drive E ends (Suc n) s1 = (s', tl (carry_out (problem_of E ends b) [Install_deps]))"
    "ub_running s' = []" using drive_deps by blast
  have "boot_finished E Create_venv (ends Create_venv) s =
      (s1, [StepSucceeded (step_name Create_venv), StepStarted (step_name Install_deps)])"
    using False assms by (simp add: onCreateVenvFinished_def boot_succeeds_def s1_def installDeps_def start_step_def)
  then show ?thesis using s' assms False by (simp add: problem_of_def)
qed

lemma drive_python:
  assumes "ub_running s = [Install_python]"
  shows "\<exists>s' log. drive E ends (Suc (Suc (Suc n))) s =
      (s', tl (carry_out (problem_of E ends b) (plan True (env_yes E (Exists (venvPythonPath E) # log))))) \<and>
      ub_running s' = []"
proof (cases "failed (ends Install_python)")
  case True
  then show ?thesis using assms by (auto simp: onInstallPythonFinished_def boot_defs problem_of_def plan_def)
next
  case False
  define s0 where "s0 = s\<lparr>ub_running := [], ub_log := Exists (venvPythonPath E) # ub_log s\<rparr>"
  show ?thesis
  proof (cases "env_yes E (Exists (venvPythonPath E) # ub_log s)")
    case True
    define s1 where "s1 = fst (installDeps E s0)"
    have r: "ub_running s1 = [Install_deps]" by (simp add: s1_def s0_def installDeps_def start_step_def)
    obtain s' where s': "drive E ends (Suc (Suc n)) s1 = (s', tl (carry_out (problem_of E ends b) [Install_deps]))"
      "ub_running s' = []" using drive_deps [OF r, of E ends "Suc n" b] by blast
    have "boot_finished E Install_python (ends Install_python) s =
        (s1, [StepSucceeded (step_name Install_python), StepStarted (step_name Install_deps)])"
      using False True assms
      by (simp add: onInstallPythonFinished_def boot_defs createVenv_def s1_def s0_def installDeps_def)
    then show ?thesis using s' assms False
      by (intro exI [of _ s'] exI [of _ "ub_log s"]) (simp add: problem_of_def plan_def True)
  next
    case no: False
    define s1 where "s1 = fst (createVenv E (s\<lparr>ub_running := []\<rparr>))"
    have r: "ub_running s1 = [Create_venv]" using no by (simp add: s1_def createVenv_def boot_defs)
    obtain s' where s': "drive E ends (Suc (Suc n)) s1 =
        (s', tl (carry_out (problem_of E ends b) [Create_venv, Install_deps]))"
      "ub_running s' = []" using drive_venv [OF r, of E ends n b] by blast
    have "boot_finished E Install_python (ends Install_python) s =
        (s1, [StepSucceeded (step_name Install_python), StepStarted (step_name Create_venv)])"
      using False no assms by (simp add: onInstallPythonFinished_def boot_defs createVenv_def s1_def)
    then show ?thesis using s' assms False
      by (intro exI [of _ s'] exI [of _ "ub_log s"]) (simp add: problem_of_def plan_def no)
  qed
qed

lemma drive_uv:
  assumes "ub_running s = [Install_uv]"
  shows "\<exists>s' log log'. drive E ends (Suc (Suc (Suc (Suc n)))) s =
      (s', tl (carry_out (problem_of E ends (env_yes E (Exists (uvBinaryPath E) # log')))
        (plan False (env_yes E (Exists (venvPythonPath E) # log))))) \<and> ub_running s' = []"
proof (cases "failed (ends Install_uv) \<or> \<not> env_yes E (Exists (uvBinaryPath E) # ub_log s)")
  case True
  have "drive E ends (Suc (Suc (Suc (Suc n)))) s = (fst (boot_finished E Install_uv (ends Install_uv) s),
      [StepFailed (step_name Install_uv) (process_message E (ends Install_uv))])"
    using True assms by (auto simp: onInstallUvFinished_def boot_defs)
  moreover have "ub_running (fst (boot_finished E Install_uv (ends Install_uv) s)) = []"
    using True assms by (auto simp: onInstallUvFinished_def boot_defs)
  ultimately show ?thesis using True
    by (intro exI [of _ "fst (boot_finished E Install_uv (ends Install_uv) s)"] exI [of _ "[]"] exI [of _ "ub_log s"])
      (auto simp: problem_of_def plan_def)
next
  case False
  define uv where "uv = env_yes E (Exists (uvBinaryPath E) # ub_log s)"
  define s1 where "s1 = fst (installPython E (s\<lparr>ub_running := [], ub_log := Exists (uvBinaryPath E) # ub_log s\<rparr>))"
  have r: "ub_running s1 = [Install_python]" by (simp add: s1_def installPython_def start_step_def)
  obtain s' log where s': "drive E ends (Suc (Suc (Suc n))) s1 =
      (s', tl (carry_out (problem_of E ends uv) (plan True (env_yes E (Exists (venvPythonPath E) # log)))))"
    "ub_running s' = []" using drive_python [OF r, of E ends n uv] by blast
  have "boot_finished E Install_uv (ends Install_uv) s =
      (s1, [StepSucceeded (step_name Install_uv), StepStarted (step_name Install_python)])"
    using False assms by (simp add: onInstallUvFinished_def boot_defs installPython_def s1_def)
  then show ?thesis using s' assms False
    by (intro exI [of _ s'] exI [of _ log] exI [of _ "ub_log s"])
      (simp add: problem_of_def plan_def uv_def)
qed

text \<open>C33. Bootstrapping refines its plan: whatever the file system answers and however the processes end, the signals
  of \<^verbatim>\<open>ensureReady\<close> and the slots after it are those of carrying out the missing steps in order: uv if it is
  not there, Python, the environment if it is not there, the daemon package; each reported as started and as
  succeeded or failed; \<^verbatim>\<open>ready\<close> at the end and only when all have succeeded. No process is left running.\<close>

theorem bootstrap_refines_plan:
  assumes "ub_running s = []" and "ub_daemonSourceDir s \<noteq> []"
  shows "\<exists>s' log log'. bootstrap E ends 4 s =
      (s', if fst (ensureBaseDirExists E (ub_log s))
           then carry_out (problem_of E ends (env_yes E (Exists (uvBinaryPath E) # log')))
             (plan (env_yes E (Exists (uvBinaryPath E) # snd (ensureBaseDirExists E (ub_log s))))
               (env_yes E (Exists (venvPythonPath E) # log)))
           else [StepFailed (qs ''ensure-base-dir'') (qs ''could not create '' @ baseDir E)]) \<and>
    ub_running s' = []"
proof -
  obtain ok log0 where b: "ensureBaseDirExists E (ub_log s) = (ok, log0)" by (cases "ensureBaseDirExists E (ub_log s)")
  have n: "4 = Suc (Suc (Suc (Suc 0)))" by simp
  show ?thesis
  proof (cases ok)
    case False
    have "drive E ends k (s\<lparr>ub_log := log0\<rparr>) = (s\<lparr>ub_log := log0\<rparr>, [])" for k
      using assms(1) by (cases k) simp_all
    then show ?thesis using assms b False by (simp add: bootstrap_def ensureReady_def)
  next
    case True
    define log1 where "log1 = Exists (uvBinaryPath E) # log0"
    show ?thesis
    proof (cases "env_yes E log1")
      case uv: True
      define s1 where "s1 = fst (installPython E (s\<lparr>ub_log := log1\<rparr>))"
      have e: "ensureReady E s = (s1, [StepStarted (step_name Install_python)])"
        using assms b True uv by (simp add: ensureReady_def installUv_def installPython_def boot_defs s1_def log1_def)
      have "ub_running s1 = [Install_python]" using assms by (simp add: s1_def installPython_def start_step_def)
      then obtain s' log where "drive E ends 4 s1 =
          (s', tl (carry_out (problem_of E ends True) (plan True (env_yes E (Exists (venvPythonPath E) # log)))))"
        "ub_running s' = []" using drive_python [of s1 E ends "Suc 0" True] unfolding n by blast
      then show ?thesis using b e True uv
        by (intro exI [of _ s'] exI [of _ log] exI [of _ log0])
          (simp add: bootstrap_def plan_def log1_def)
    next
      case no: False
      define s1 where "s1 = fst (start_step Install_uv (install_uv_command E) (s\<lparr>ub_log := log1\<rparr>))"
      have e: "ensureReady E s = (s1, [StepStarted (step_name Install_uv)])"
        using assms b True no by (simp add: ensureReady_def installUv_def boot_defs s1_def log1_def)
      have "ub_running s1 = [Install_uv]" using assms by (simp add: s1_def start_step_def)
      then obtain s' log log' where "drive E ends 4 s1 =
          (s', tl (carry_out (problem_of E ends (env_yes E (Exists (uvBinaryPath E) # log')))
            (plan False (env_yes E (Exists (venvPythonPath E) # log)))))"
        "ub_running s' = []" using drive_uv [of s1 E ends 0] unfolding n by blast
      then show ?thesis using b e True no
        by (intro exI [of _ s'] exI [of _ log] exI [of _ log'])
          (simp add: bootstrap_def plan_def log1_def)
    qed
  qed
qed

text \<open>A first start where the last step fails.\<close>

definition demo_ends :: "boot_step \<Rightarrow> process_end" where
  "demo_ends st = \<lparr>exitCode = (if st = Install_deps then 1 else 0), normalExit = True, standardError = [33],
     processError = []\<rparr>"

definition demo_boot :: bootstrapper where
  "demo_boot = \<lparr>ub_daemonSourceDir = qs ''src'', ub_running = [], ub_log = []\<rparr>"

lemma bootstrap_refines_plan_witness:
  "\<exists>s'. bootstrap blank_env demo_ends 4 demo_boot =
     (s', [StepStarted (qs ''install-python''), StepSucceeded (qs ''install-python''),
       StepStarted (qs ''install-deps''), StepFailed (qs ''install-deps'') [33]]) \<and> ub_running s' = []"
proof -
  have "fst (ensureBaseDirExists blank_env [])" "env_yes blank_env log" for log
    by (simp_all add: ensureBaseDirExists_def ask_def blank_env_def)
  moreover have "ub_log demo_boot = []" by (simp add: demo_boot_def)
  moreover have "carry_out (problem_of blank_env demo_ends True) (plan True True) =
      [StepStarted (qs ''install-python''), StepSucceeded (qs ''install-python''),
       StepStarted (qs ''install-deps''), StepFailed (qs ''install-deps'') [33]]"
    by (simp add: plan_def problem_of_def failed_def demo_ends_def process_message_def blank_env_def)
  ultimately show ?thesis using bootstrap_refines_plan [of demo_boot blank_env demo_ends]
    by (simp add: demo_boot_def qs_def)
qed

end
