(* ===== verification/PluginDeps.thy ===== *)
theory PluginDeps
  imports Bootstrap
begin

text \<open>
  \<^verbatim>\<open>src/PluginDependencyInstaller.cpp\<close>: a plugin's own environment and its requirements, with the outcome
  written to the plugin's directory.
\<close>

record dep_installer =
  pd_pluginId :: qstring
  pd_pluginDir :: qstring
  pd_running :: "boot_step list"
  pd_log :: io_log

definition requirementsPath :: "env \<Rightarrow> dep_installer \<Rightarrow> qstring" where
  "requirementsPath E s = qt_filePath E (pd_pluginDir s) (qs ''requirements.txt'')"

definition dep_venvPythonPath :: "env \<Rightarrow> dep_installer \<Rightarrow> qstring" where
  "dep_venvPythonPath E s = venv_python E (pluginVenvDir E (pd_pluginId s))"

text \<open>The members of a \<^verbatim>\<open>QVariantMap\<close> come in the order of their keys.\<close>

definition status_json :: "env \<Rightarrow> bool \<Rightarrow> qstring \<Rightarrow> qstring \<Rightarrow> qvariant" where
  "status_json E success stp errorMessage =
     QMap ((if success then [] else [(qs ''error'', QString errorMessage)]) @
       [(qs ''state'', QString (if success then qs ''ok'' else qs ''failed''))] @
       (if success then [] else [(qs ''step'', QString stp)]))"

definition statusPath :: "env \<Rightarrow> dep_installer \<Rightarrow> qstring" where
  "statusPath E s = qt_filePath E (pd_pluginDir s) (qs ''install_status.json'')"

definition writeStatusFile :: "env \<Rightarrow> bool \<Rightarrow> qstring \<Rightarrow> qstring \<Rightarrow> dep_installer \<Rightarrow> dep_installer" where
  "writeStatusFile E success stp errorMessage s =
     (let (opened, log) = ask E (OpenWrite (statusPath E s)) (pd_log s)
      in s\<lparr>pd_log := (if opened
           then [CloseFile (statusPath E s),
             WriteFile (statusPath E s) (variantToJsonBytes E (status_json E success stp errorMessage))] @ log
           else log)\<rparr>)"

definition dep_fail :: "env \<Rightarrow> boot_step \<Rightarrow> process_end \<Rightarrow> dep_installer \<Rightarrow> dep_installer \<times> chain_signal list" where
  "dep_fail E st p s =
     (let message = process_message E p
      in (writeStatusFile E False (step_name st) message s,
          [StepFailed (step_name st) message, Finished (pd_pluginId s) False message]))"

definition succeed :: "env \<Rightarrow> dep_installer \<Rightarrow> dep_installer \<times> chain_signal list" where
  "succeed E s = (writeStatusFile E True [] [] s, [Finished (pd_pluginId s) True []])"

definition dep_createVenv :: "env \<Rightarrow> dep_installer \<Rightarrow> dep_installer \<times> chain_signal list" where
  "dep_createVenv E s =
     (s\<lparr>pd_running := Create_venv # pd_running s,
        pd_log := StartProcess (uvBinaryPath E)
          [qs ''venv'', pluginVenvDir E (pd_pluginId s), qs ''--python'', qs ''3.11'', qs ''--clear''] # pd_log s\<rparr>,
      [StepStarted (step_name Create_venv)])"

definition dep_run :: "env \<Rightarrow> qstring \<Rightarrow> qstring \<Rightarrow> dep_installer \<Rightarrow> dep_installer \<times> chain_signal list" where
  "dep_run E pluginId pluginDir s = dep_createVenv E (s\<lparr>pd_pluginId := pluginId, pd_pluginDir := pluginDir\<rparr>)"

definition dep_installDeps :: "env \<Rightarrow> dep_installer \<Rightarrow> dep_installer \<times> chain_signal list" where
  "dep_installDeps E s =
     (let (there, log) = ask E (Exists (requirementsPath E s)) (pd_log s); s = s\<lparr>pd_log := log\<rparr>
      in if \<not> there then succeed E s
         else (s\<lparr>pd_running := Install_deps # pd_running s,
             pd_log := StartProcess (uvBinaryPath E) [qs ''pip'', qs ''install'', qs ''--python'', dep_venvPythonPath E s,
               qs ''-r'', requirementsPath E s] # pd_log s\<rparr>,
           [StepStarted (step_name Install_deps)]))"

definition dep_onCreateVenvFinished ::
    "env \<Rightarrow> process_end \<Rightarrow> dep_installer \<Rightarrow> dep_installer \<times> chain_signal list" where
  "dep_onCreateVenvFinished E p s =
     (if failed p then dep_fail E Create_venv p s
      else let (s, os) = dep_installDeps E s in (s, StepSucceeded (step_name Create_venv) # os))"

definition dep_onInstallDepsFinished ::
    "env \<Rightarrow> process_end \<Rightarrow> dep_installer \<Rightarrow> dep_installer \<times> chain_signal list" where
  "dep_onInstallDepsFinished E p s =
     (if failed p then dep_fail E Install_deps p s
      else let (s, os) = succeed E s in (s, StepSucceeded (step_name Install_deps) # os))"

text \<open>The end of a process; this class has only the two slots.\<close>

definition dep_finished ::
    "env \<Rightarrow> boot_step \<Rightarrow> process_end \<Rightarrow> dep_installer \<Rightarrow> dep_installer \<times> chain_signal list" where
  "dep_finished E st p s =
     (let s = s\<lparr>pd_running := remove1 st (pd_running s)\<rparr>
      in if st = Create_venv then dep_onCreateVenvFinished E p s else dep_onInstallDepsFinished E p s)"

fun dep_drive :: "env \<Rightarrow> (boot_step \<Rightarrow> process_end) \<Rightarrow> nat \<Rightarrow> dep_installer \<Rightarrow> dep_installer \<times> chain_signal list" where
  "dep_drive E ends 0 s = (s, [])"
| "dep_drive E ends (Suc n) s =
     (case pd_running s of
        [] \<Rightarrow> (s, [])
      | st # _ \<Rightarrow>
          let (s, os) = dep_finished E st (ends st) s; (s, os') = dep_drive E ends n s in (s, os @ os'))"

text \<open>A whole installation of dependencies.\<close>

definition resolve_deps ::
    "env \<Rightarrow> (boot_step \<Rightarrow> process_end) \<Rightarrow> qstring \<Rightarrow> qstring \<Rightarrow> dep_installer \<Rightarrow> dep_installer \<times> chain_signal list" where
  "resolve_deps E ends pluginId pluginDir s =
     (let (s, os) = dep_run E pluginId pluginDir s; (s, os') = dep_drive E ends 2 s in (s, os @ os'))"

section \<open>Properties\<close>

text \<open>The outcome: the step that fails first, if one does.\<close>

definition dep_problem :: "env \<Rightarrow> (boot_step \<Rightarrow> process_end) \<Rightarrow> bool \<Rightarrow> (boot_step \<times> qstring) option" where
  "dep_problem E ends has_requirements =
     (if failed (ends Create_venv) then Some (Create_venv, process_message E (ends Create_venv))
      else if has_requirements \<and> failed (ends Install_deps) then Some (Install_deps, process_message E (ends Install_deps))
      else None)"

text \<open>The write of the status file an outcome calls for, read back by a JSON reader.\<close>

definition status_of :: "env \<Rightarrow> (boot_step \<times> qstring) option \<Rightarrow> json" where
  "status_of E problem = (let u8 = qt_toUtf8 E in JObj (case problem of
     None \<Rightarrow> [(u8 (qs ''state''), JStr (u8 (qs ''ok'')))]
   | Some (st, message) \<Rightarrow> [(u8 (qs ''error''), JStr (u8 message)), (u8 (qs ''state''), JStr (u8 (qs ''failed''))),
       (u8 (qs ''step''), JStr (u8 (step_name st)))]))"

definition status_written :: "env \<Rightarrow> qstring \<Rightarrow> (boot_step \<times> qstring) option \<Rightarrow> io_log \<Rightarrow> bool" where
  "status_written E dir problem log \<longleftrightarrow>
     (let path = qt_filePath E dir (qs ''install_status.json'')
      in (\<exists>l. log = OpenWrite path # l \<and> \<not> env_yes E (OpenWrite path # l)) \<or>
         (\<exists>text l. log = [CloseFile path, WriteFile path text, OpenWrite path] @ l \<and>
           json_value (length text) text = Some (status_of E problem, [])))"

lemma status_json_reads:
  "json_value (length (variantToJsonBytes E (status_json E ok stp msg))) (variantToJsonBytes E (status_json E ok stp msg)) =
    Some (json_of (qt_toUtf8 E) (status_json E ok stp msg), [])"
proof -
  have "value_reads (qt_toUtf8 E) (status_json E ok stp msg)"
    by (rule writer_reads_back(1)) (simp add: status_json_def)
  then show ?thesis unfolding value_reads_def variantToJsonBytes_def
    by (metis append_Nil2 no_digit_simps(1) order_refl)
qed

lemma write_status:
  assumes "problem = (if ok then None else Some (st, msg))" "stp = (if ok then [] else step_name st)"
  shows "status_written E (pd_pluginDir s) problem (pd_log (writeStatusFile E ok stp msg s))"
proof -
  have "json_of (qt_toUtf8 E) (status_json E ok stp msg) = status_of E problem"
    using assms by (simp add: status_json_def status_of_def Let_def)
  then show ?thesis using status_json_reads [of E ok stp msg]
    by (auto simp: writeStatusFile_def ask_def Let_def status_written_def statusPath_def)
qed

lemma writeStatusFile_simps [simp]:
  "pd_running (writeStatusFile E ok stp msg s) = pd_running s" "pd_pluginDir (writeStatusFile E ok stp msg s) = pd_pluginDir s"
  by (simp_all add: writeStatusFile_def ask_def Let_def)

definition signals_of :: "qstring \<Rightarrow> bool \<Rightarrow> (boot_step \<times> qstring) option \<Rightarrow> chain_signal list" where
  "signals_of pluginId has_requirements problem =
     (let venv = step_name Create_venv; deps = step_name Install_deps
      in case problem of
        None \<Rightarrow> [StepStarted venv, StepSucceeded venv] @
          (if has_requirements then [StepStarted deps, StepSucceeded deps] else []) @ [Finished pluginId True []]
      | Some (st, message) \<Rightarrow> [StepStarted venv] @
          (if st = Create_venv then [] else [StepSucceeded venv, StepStarted deps]) @
          [StepFailed (step_name st) message, Finished pluginId False message])"

lemma drive_install_deps:
  fixes E :: env and ends :: "boot_step \<Rightarrow> process_end"
  assumes "pd_running s = [Install_deps]"
  defines "m \<equiv> process_message E (ends Install_deps)"
  shows "\<exists>s'. dep_drive E ends (Suc n) s = (s',
      if failed (ends Install_deps) then [StepFailed (step_name Install_deps) m, Finished (pd_pluginId s) False m]
      else [StepSucceeded (step_name Install_deps), Finished (pd_pluginId s) True []]) \<and> pd_running s' = [] \<and>
    status_written E (pd_pluginDir s) (if failed (ends Install_deps) then Some (Install_deps, m) else None) (pd_log s')"
proof (cases "failed (ends Install_deps)")
  case True
  define s' where "s' = writeStatusFile E False (step_name Install_deps) m (s\<lparr>pd_running := []\<rparr>)"
  have "status_written E (pd_pluginDir (s\<lparr>pd_running := []\<rparr>)) (Some (Install_deps, m)) (pd_log s')"
    unfolding s'_def by (rule write_status [where st = Install_deps]) simp_all
  then show ?thesis using True assms
    by (intro exI [of _ s'], cases n)
      (simp_all add: dep_finished_def dep_onInstallDepsFinished_def dep_fail_def s'_def Let_def)
next
  case False
  define s' where "s' = writeStatusFile E True [] [] (s\<lparr>pd_running := []\<rparr>)"
  have "status_written E (pd_pluginDir (s\<lparr>pd_running := []\<rparr>)) None (pd_log s')"
    unfolding s'_def by (rule write_status) simp_all
  then show ?thesis using False assms
    by (intro exI [of _ s'], cases n)
      (simp_all add: dep_finished_def dep_onInstallDepsFinished_def succeed_def s'_def Let_def)
qed

lemma drive_create_venv_fails:
  fixes E :: env and ends :: "boot_step \<Rightarrow> process_end"
  assumes "pd_running s = [Create_venv]" "failed (ends Create_venv)"
  defines "m \<equiv> process_message E (ends Create_venv)"
  shows "\<exists>s'. dep_drive E ends 2 s = (s', [StepFailed (step_name Create_venv) m, Finished (pd_pluginId s) False m]) \<and>
    pd_running s' = [] \<and> status_written E (pd_pluginDir s) (Some (Create_venv, m)) (pd_log s')"
proof -
  define s' where "s' = writeStatusFile E False (step_name Create_venv) m (s\<lparr>pd_running := []\<rparr>)"
  have "status_written E (pd_pluginDir (s\<lparr>pd_running := []\<rparr>)) (Some (Create_venv, m)) (pd_log s')"
    unfolding s'_def by (rule write_status [where st = Create_venv]) simp_all
  then show ?thesis using assms
    by (intro exI [of _ s'])
      (simp add: eval_nat_numeral dep_finished_def dep_onCreateVenvFinished_def dep_fail_def s'_def Let_def)
qed

lemma drive_no_requirements:
  assumes "pd_running s = [Create_venv]" "\<not> failed (ends Create_venv)"
    and "\<not> env_yes E (Exists (requirementsPath E s) # pd_log s)"
  shows "\<exists>s'. dep_drive E ends 2 s = (s', [StepSucceeded (step_name Create_venv), Finished (pd_pluginId s) True []]) \<and>
    pd_running s' = [] \<and> status_written E (pd_pluginDir s) None (pd_log s')"
proof -
  define s1 where "s1 = s\<lparr>pd_running := [], pd_log := Exists (requirementsPath E s) # pd_log s\<rparr>"
  define s' where "s' = writeStatusFile E True [] [] s1"
  have "status_written E (pd_pluginDir s1) None (pd_log s')"
    unfolding s'_def by (rule write_status) simp_all
  moreover have "dep_finished E Create_venv (ends Create_venv) s =
      (s', [StepSucceeded (step_name Create_venv), Finished (pd_pluginId s) True []])"
    using assms by (simp add: dep_finished_def dep_onCreateVenvFinished_def dep_installDeps_def requirementsPath_def
        ask_def succeed_def s'_def s1_def)
  ultimately show ?thesis using assms(1)
    by (intro exI [of _ s']) (simp add: eval_nat_numeral s'_def s1_def)
qed

lemma drive_with_requirements:
  assumes "pd_running s = [Create_venv]" "\<not> failed (ends Create_venv)"
    and "env_yes E (Exists (requirementsPath E s) # pd_log s)"
  shows "\<exists>s1. dep_drive E ends 2 s = (fst (dep_drive E ends 1 s1),
      [StepSucceeded (step_name Create_venv), StepStarted (step_name Install_deps)] @ snd (dep_drive E ends 1 s1)) \<and>
    pd_running s1 = [Install_deps] \<and> pd_pluginId s1 = pd_pluginId s \<and> pd_pluginDir s1 = pd_pluginDir s"
proof -
  define s1 where "s1 = fst (dep_installDeps E (s\<lparr>pd_running := []\<rparr>))"
  have "dep_finished E Create_venv (ends Create_venv) s =
      (s1, [StepSucceeded (step_name Create_venv), StepStarted (step_name Install_deps)])"
    using assms by (simp add: dep_finished_def dep_onCreateVenvFinished_def dep_installDeps_def requirementsPath_def
        ask_def s1_def)
  moreover have "dep_drive E ends 2 s = (let (s, os) = dep_finished E Create_venv (ends Create_venv) s;
      (s, os') = dep_drive E ends 1 s in (s, os @ os'))"
    using assms(1) by (simp add: eval_nat_numeral del: dep_drive.simps(1))
  moreover have "pd_running s1 = [Install_deps] \<and> pd_pluginId s1 = pd_pluginId s \<and> pd_pluginDir s1 = pd_pluginDir s"
    using assms(3) by (simp add: s1_def dep_installDeps_def ask_def requirementsPath_def)
  ultimately show ?thesis by (intro exI [of _ s1]) (simp add: split_beta Let_def)
qed

lemma resolve_deps_outcome:
  assumes "pd_running s = []"
  shows "\<exists>s' has_requirements log. resolve_deps E ends pluginId dir s =
      (s', signals_of pluginId has_requirements (dep_problem E ends has_requirements)) \<and>
    has_requirements = env_yes E (Exists (qt_filePath E dir (qs ''requirements.txt'')) # log) \<and>
    status_written E dir (dep_problem E ends has_requirements) (pd_log s') \<and> pd_running s' = []"
proof -
  define s1 where "s1 = fst (dep_run E pluginId dir s)"
  have s1: "dep_run E pluginId dir s = (s1, [StepStarted (step_name Create_venv)])" "pd_running s1 = [Create_venv]"
    "pd_pluginId s1 = pluginId" "pd_pluginDir s1 = dir"
    using assms by (simp_all add: s1_def dep_run_def dep_createVenv_def)
  define req where "req = env_yes E (Exists (qt_filePath E dir (qs ''requirements.txt'')) # pd_log s1)"
  have r: "req = env_yes E (Exists (requirementsPath E s1) # pd_log s1)" by (simp add: req_def requirementsPath_def s1)
  have "\<exists>s' os. dep_drive E ends 2 s1 = (s', os) \<and>
      StepStarted (step_name Create_venv) # os = signals_of pluginId req (dep_problem E ends req) \<and>
      status_written E dir (dep_problem E ends req) (pd_log s') \<and> pd_running s' = []"
  proof (cases "failed (ends Create_venv)")
    case True
    then show ?thesis using drive_create_venv_fails [where s = s1 and ends = ends and E = E] True s1
      by (auto simp: dep_problem_def signals_of_def Let_def)
  next
    case venv: False
    show ?thesis
    proof (cases req)
      case False
      then show ?thesis using drive_no_requirements [where s = s1 and ends = ends and E = E] r venv s1
        by (auto simp: dep_problem_def signals_of_def Let_def)
    next
      case True
      then obtain s2 where s2: "dep_drive E ends 2 s1 = (fst (dep_drive E ends 1 s2),
          [StepSucceeded (step_name Create_venv), StepStarted (step_name Install_deps)] @ snd (dep_drive E ends 1 s2))"
        "pd_running s2 = [Install_deps]" "pd_pluginId s2 = pluginId" "pd_pluginDir s2 = dir"
        using drive_with_requirements [where s = s1 and ends = ends and E = E] venv r s1 by auto
      then show ?thesis using drive_install_deps [OF s2(2), of E ends 0] venv True
        by (auto simp: dep_problem_def signals_of_def Let_def)
    qed
  qed
  then obtain s' os where d: "dep_drive E ends 2 s1 = (s', os)"
    "StepStarted (step_name Create_venv) # os = signals_of pluginId req (dep_problem E ends req)"
    "status_written E dir (dep_problem E ends req) (pd_log s')" "pd_running s' = []" by blast
  have "resolve_deps E ends pluginId dir s = (s', StepStarted (step_name Create_venv) # os)"
    by (simp add: resolve_deps_def s1(1) d(1))
  then show ?thesis
    by (intro exI [of _ s'] exI [of _ req] exI [of _ "pd_log s1"]) (use d in \<open>simp add: req_def\<close>)
qed

lemma resolve_deps_signals:
  "pd_running s = [] \<Longrightarrow> \<exists>req problem. snd (resolve_deps E ends pluginId dir s) = signals_of pluginId req problem"
  using resolve_deps_outcome [of s E ends pluginId dir] by force



end
