(* ===== verification/PluginInstaller.thy ===== *)
theory PluginInstaller
  imports InstallerSafety PluginDeps
begin

text \<open>
  \<^verbatim>\<open>src/PluginInstaller.cpp\<close>: a whole installation: staging, stopping the worker of a plugin that is replaced,
  the commit, the dependencies. One history runs through all parts. Of the dependency installer's signals only
  \<^verbatim>\<open>finished\<close> is connected.
\<close>

record plugin_installer =
  pi_pluginsDir :: qstring
  pi_limits :: limits
  pi_authToken :: qstring
  pi_staged :: "staged option"
  pi_oldVersion :: "qstring option"
  pi_waiting :: bool
  pi_deps :: "dep_installer option"
  pi_log :: io_log

datatype installer_signal =
    ExtractionFailed install_error
  | Reinstalled qstring qstring qstring
  | InstallFinished qstring bool "install_error + qstring"

text \<open>\<^term>\<open>None\<close> is the null string.\<close>

definition readManifestVersion :: "env \<Rightarrow> qstring \<Rightarrow> io_log \<Rightarrow> qstring option \<times> io_log" where
  "readManifestVersion E manifestPath log =
     (let (contents, log) = ask_data E (ReadAll manifestPath) log
      in (case contents of
            None \<Rightarrow> None
          | Some bs \<Rightarrow> (case qt_parseJson E bs of
              Inl e \<Rightarrow> None
            | Inr manifest \<Rightarrow>
                let v = qvalue manifest (qs ''version'') in if v = QInvalid then None else Some (qt_toString E v)), log))"

fun forwarded :: "chain_signal list \<Rightarrow> installer_signal list" where
  "forwarded [] = []"
| "forwarded (Finished pluginId ok msg # os) = InstallFinished pluginId ok (Inr msg) # forwarded os"
| "forwarded (_ # os) = forwarded os"

definition new_dep_installer :: "io_log \<Rightarrow> dep_installer" where
  "new_dep_installer log = \<lparr>pd_pluginId = [], pd_pluginDir = [], pd_running = [], pd_log = log\<rparr>"

definition commitAndResolveDeps :: "env \<Rightarrow> staged \<Rightarrow> plugin_installer \<Rightarrow> plugin_installer \<times> installer_signal list" where
  "commitAndResolveDeps E st s =
     (case commit E (pi_pluginsDir s) (st_pluginId st) (st_stagingDir st) (pi_log s) of
        (log, Inl e) \<Rightarrow>
          (s\<lparr>pi_log := RemoveRecursively (st_stagingDir st) # log\<rparr>, [InstallFinished (st_pluginId st) False (Inl e)])
      | (log, Inr finalDir) \<Rightarrow>
          let (d, os) = dep_run E (st_pluginId st) finalDir (new_dep_installer log)
          in (s\<lparr>pi_deps := Some d, pi_log := pd_log d\<rparr>,
              (case pi_oldVersion s of None \<Rightarrow> [] | Some old \<Rightarrow> [Reinstalled (st_pluginId st) old (st_version st)]) @
              forwarded os))"

definition stop_url :: "qstring \<Rightarrow> qstring" where
  "stop_url pluginId = qs ''http://127.0.0.1:18812/plugins/'' @ pluginId @ qs ''/stop''"

definition pi_install ::
    "env \<Rightarrow> tinfl_decompressor \<Rightarrow> bytes \<Rightarrow> mz_zip_archive \<Rightarrow> qstring \<Rightarrow> plugin_installer \<Rightarrow>
     (plugin_installer \<times> installer_signal list) option" where
  "pi_install E inflator dict z0 zipPath s = do {
     (log, r) \<leftarrow> extractToStaging E (pi_limits s) inflator dict z0 (pi_pluginsDir s) zipPath (pi_log s);
     (case r of
        Inl e \<Rightarrow> Some (s\<lparr>pi_staged := None, pi_oldVersion := None, pi_log := log\<rparr>,
          [ExtractionFailed e, InstallFinished [] False (Inl e)])
      | Inr st \<Rightarrow>
          let s = s\<lparr>pi_staged := Some st, pi_oldVersion := None\<rparr>;
              finalDir = qt_filePath E (pi_pluginsDir s) (st_pluginId st);
              (there, log) = ask E (Exists finalDir) log
          in if \<not> there then Some (commitAndResolveDeps E st (s\<lparr>pi_log := log\<rparr>))
             else let (v, log) = readManifestVersion E (qt_filePath E finalDir (qs ''manifest.json'')) log
             in Some (s\<lparr>pi_oldVersion := Some (case v of None \<Rightarrow> [] | Some v \<Rightarrow> v), pi_waiting := True,
                  pi_log := HttpPost (stop_url (st_pluginId st)) (token_header E (pi_authToken s)) [] # log\<rparr>, []))
   }"

text \<open>The argument says whether \<^verbatim>\<open>sender()\<close> is a reply; what it answered does not matter.\<close>

definition onStopReplyFinished :: "env \<Rightarrow> bool \<Rightarrow> plugin_installer \<Rightarrow> plugin_installer \<times> installer_signal list" where
  "onStopReplyFinished E is_reply s =
     (if \<not> is_reply then (s, [])
      else case pi_staged s of
          None \<Rightarrow> (s, [])
        | Some st \<Rightarrow> commitAndResolveDeps E st (s\<lparr>pi_waiting := False\<rparr>))"

text \<open>The end of a process of the dependency installer.\<close>

definition pi_process_finished ::
    "env \<Rightarrow> boot_step \<Rightarrow> process_end \<Rightarrow> plugin_installer \<Rightarrow> plugin_installer \<times> installer_signal list" where
  "pi_process_finished E stp p s =
     (case pi_deps s of
        None \<Rightarrow> (s, [])
      | Some d \<Rightarrow>
          let (d, os) = dep_finished E stp p (d\<lparr>pd_log := pi_log s\<rparr>)
          in (s\<lparr>pi_deps := Some d, pi_log := pd_log d\<rparr>, forwarded os))"

section \<open>A whole installation\<close>

fun pi_drive :: "env \<Rightarrow> (boot_step \<Rightarrow> process_end) \<Rightarrow> nat \<Rightarrow> plugin_installer \<Rightarrow> plugin_installer \<times> installer_signal list" where
  "pi_drive E ends 0 s = (s, [])"
| "pi_drive E ends (Suc n) s =
     (case pi_deps s of
        None \<Rightarrow> (s, [])
      | Some d \<Rightarrow> (case pd_running d of
          [] \<Rightarrow> (s, [])
        | st # _ \<Rightarrow>
            let (s, os) = pi_process_finished E st (ends st) s; (s, os') = pi_drive E ends n s in (s, os @ os')))"

definition whole_install ::
    "env \<Rightarrow> (boot_step \<Rightarrow> process_end) \<Rightarrow> tinfl_decompressor \<Rightarrow> bytes \<Rightarrow> mz_zip_archive \<Rightarrow> qstring \<Rightarrow>
     plugin_installer \<Rightarrow> (plugin_installer \<times> installer_signal list) option" where
  "whole_install E ends inflator dict z0 zipPath s = do {
     (s, os) \<leftarrow> pi_install E inflator dict z0 zipPath s;
     (let (s, os1) = (if pi_waiting s then onStopReplyFinished E True s else (s, []));
          (s, os2) = pi_drive E ends 2 s
      in Some (s, os @ os1 @ os2))
   }"

section \<open>Properties\<close>

lemma forwarded_append: "forwarded (xs @ ys) = forwarded xs @ forwarded ys"
  by (induction xs rule: forwarded.induct) simp_all

text \<open>The driver of the dependency installer runs inside.\<close>

lemma pi_drive_deps:
  "pi_deps s = Some d \<Longrightarrow> pd_log d = pi_log s \<Longrightarrow> dep_drive E ends n d = (d', os) \<Longrightarrow>
    pi_drive E ends n s = (s\<lparr>pi_deps := Some d', pi_log := pd_log d'\<rparr>, forwarded os)"
proof (induction n arbitrary: s d d' os)
  case (Suc n)
  show ?case
  proof (cases "pd_running d")
    case Nil
    then show ?thesis using Suc.prems by simp
  next
    case (Cons st rest)
    obtain d1 os1 where d1: "dep_finished E st (ends st) d = (d1, os1)" by (cases "dep_finished E st (ends st) d")
    obtain d2 os2 where d2: "dep_drive E ends n d1 = (d2, os2)" by (cases "dep_drive E ends n d1")
    have "d' = d2" "os = os1 @ os2" using Suc.prems(3) Cons d1 d2 by simp_all
    moreover have "d\<lparr>pd_log := pi_log s\<rparr> = d" using Suc.prems(2) by (metis dep_installer.surjective dep_installer.update_convs(4))
    ultimately show ?thesis
      using Suc.IH [of "s\<lparr>pi_deps := Some d1, pi_log := pd_log d1\<rparr>" d1 d2 os2] Suc.prems(1) Cons d1 d2
      by (simp add: pi_process_finished_def forwarded_append)
  qed
qed simp

lemma forwarded_signals:
  "\<exists>ok msg. forwarded (signals_of pluginId req problem) = [InstallFinished pluginId ok (Inr msg)]"
  by (auto simp: signals_of_def Let_def split: option.splits)

fun is_finished :: "installer_signal \<Rightarrow> bool" where
  "is_finished (InstallFinished pluginId ok msg) = True"
| "is_finished _ = False"

text \<open>
  What a commit and everything after it sends: possibly \<^verbatim>\<open>reinstalled\<close>, then one \<^verbatim>\<open>finished\<close>.
\<close>

definition ends_once :: "installer_signal list \<Rightarrow> bool" where
  "ends_once os \<longleftrightarrow> os \<noteq> [] \<and> is_finished (last os) \<and> list_all (\<lambda>x. \<not> is_finished x) (butlast os)"

lemma ends_once_snoc: "list_all (\<lambda>x. \<not> is_finished x) pre \<Longrightarrow> ends_once (pre @ [InstallFinished pluginId ok msg])"
  by (simp add: ends_once_def)

text \<open>Nothing is going on.\<close>

definition idle :: "plugin_installer \<Rightarrow> bool" where
  "idle s \<longleftrightarrow> \<not> pi_waiting s \<and> (case pi_deps s of None \<Rightarrow> True | Some d \<Rightarrow> pd_running d = [])"

lemma pi_drive_idle: "idle s \<Longrightarrow> pi_drive E ends n s = (s, [])"
  by (cases n) (auto simp: idle_def split: option.splits)

lemma commit_then_deps:
  fixes E :: env and st :: staged
  assumes "idle s"
  defines "c \<equiv> commitAndResolveDeps E st s"
  shows "ends_once (snd c @ snd (pi_drive E ends 2 (fst c)))"
    and "last (snd c @ snd (pi_drive E ends 2 (fst c))) = InstallFinished pluginId False (Inl e) \<Longrightarrow>
      hd (pi_log (fst (pi_drive E ends 2 (fst c)))) = RemoveRecursively (st_stagingDir st)"
proof -
  obtain log r where cm: "commit E (pi_pluginsDir s) (st_pluginId st) (st_stagingDir st) (pi_log s) = (log, r)"
    by (cases "commit E (pi_pluginsDir s) (st_pluginId st) (st_stagingDir st) (pi_log s)")
  have "ends_once (snd c @ snd (pi_drive E ends 2 (fst c))) \<and>
    (last (snd c @ snd (pi_drive E ends 2 (fst c))) = InstallFinished pluginId False (Inl e) \<longrightarrow>
      hd (pi_log (fst (pi_drive E ends 2 (fst c)))) = RemoveRecursively (st_stagingDir st))"
  proof (cases r)
    case (Inl e')
    then have c: "c = (s\<lparr>pi_log := RemoveRecursively (st_stagingDir st) # log\<rparr>, [InstallFinished (st_pluginId st) False (Inl e')])"
      using cm by (simp add: c_def commitAndResolveDeps_def)
    have "idle (s\<lparr>pi_log := l\<rparr>)" for l using assms(1) by (simp add: idle_def)
    then show ?thesis using ends_once_snoc [of "[]"] by (simp add: c pi_drive_idle)
  next
    case (Inr finalDir)
    obtain d os where run: "dep_run E (st_pluginId st) finalDir (new_dep_installer log) = (d, os)"
      by (cases "dep_run E (st_pluginId st) finalDir (new_dep_installer log)")
    obtain d' os' where drv: "dep_drive E ends 2 d = (d', os')" by (cases "dep_drive E ends 2 d")
    have "resolve_deps E ends (st_pluginId st) finalDir (new_dep_installer log) = (d', os @ os')"
      by (simp add: resolve_deps_def run drv)
    then obtain req problem where "os @ os' = signals_of (st_pluginId st) req problem"
      using resolve_deps_signals [of "new_dep_installer log" E ends "st_pluginId st" finalDir]
      by (auto simp: new_dep_installer_def)
    then obtain ok msg where f: "forwarded os @ forwarded os' = [InstallFinished (st_pluginId st) ok (Inr msg)]"
      using forwarded_signals by (metis forwarded_append)
    define pre where "pre = (case pi_oldVersion s of None \<Rightarrow> [] | Some old \<Rightarrow> [Reinstalled (st_pluginId st) old (st_version st)])"
    have c: "c = (s\<lparr>pi_deps := Some d, pi_log := pd_log d\<rparr>, pre @ forwarded os)"
      using cm Inr run by (simp add: c_def commitAndResolveDeps_def pre_def)
    have "snd (pi_drive E ends 2 (fst c)) = forwarded os'" using drv pi_drive_deps by (simp add: c)
    then have all: "snd c @ snd (pi_drive E ends 2 (fst c)) = pre @ [InstallFinished (st_pluginId st) ok (Inr msg)]"
      using f by (simp add: c)
    have "list_all (\<lambda>x. \<not> is_finished x) pre" by (auto simp: pre_def split: option.splits)
    then show ?thesis using ends_once_snoc by (simp add: all)
  qed
  then show "ends_once (snd c @ snd (pi_drive E ends 2 (fst c)))"
    and "last (snd c @ snd (pi_drive E ends 2 (fst c))) = InstallFinished pluginId False (Inl e) \<Longrightarrow>
      hd (pi_log (fst (pi_drive E ends 2 (fst c)))) = RemoveRecursively (st_stagingDir st)"
    by blast+
qed

text \<open>What the staging phase leaves to the installer.\<close>

lemma staging_outcome:
  assumes "extractToStaging E lim inflator dict z0 plugins zipPath log = Some (log', r)"
  shows "case r of
      Inl e \<Rightarrow> e \<in> {ArchiveNotFound, NoPluginsDir, NoStagingDir} \<or>
        (\<exists>u. hd log' = RemoveRecursively (qt_filePath E plugins (qs ''.staging/'' @ u)))
    | Inr st \<Rightarrow> \<exists>u. st_stagingDir st = qt_filePath E plugins (qs ''.staging/'' @ u)"
  using extractToStaging_done [OF assms]
  by (auto simp: staging_done_def Let_def hd_append split: sum.splits)

text \<open>After a successful staging an installation is a commit from an idle state.\<close>

lemma whole_install_commits:
  assumes "whole_install E ends inflator dict z0 zipPath s = Some (s', os)" and "idle s"
    and st: "extractToStaging E (pi_limits s) inflator dict z0 (pi_pluginsDir s) zipPath (pi_log s) = Some (log, Inr st')"
  shows "\<exists>s1. idle s1 \<and> s' = fst (pi_drive E ends 2 (fst (commitAndResolveDeps E st' s1))) \<and>
    os = snd (commitAndResolveDeps E st' s1) @ snd (pi_drive E ends 2 (fst (commitAndResolveDeps E st' s1)))"
proof -
  define finalDir where "finalDir = qt_filePath E (pi_pluginsDir s) (st_pluginId st')"
  define log1 where "log1 = Exists finalDir # log"
  show ?thesis
  proof (cases "env_yes E log1")
    case False
    define s1 where "s1 = s\<lparr>pi_staged := Some st', pi_oldVersion := None, pi_log := log1\<rparr>"
    have "pi_install E inflator dict z0 zipPath s = Some (commitAndResolveDeps E st' s1)"
      using st False by (simp add: pi_install_def ask_def s1_def log1_def finalDir_def)
    moreover have "pi_waiting (fst (commitAndResolveDeps E st' s1)) = pi_waiting s"
      by (auto simp: commitAndResolveDeps_def s1_def split_beta Let_def split: sum.splits)
    moreover have "idle s1" using assms(2) by (simp add: idle_def s1_def)
    ultimately show ?thesis using assms
      by (intro exI [of _ s1]) (auto simp: whole_install_def idle_def s1_def split_beta Let_def)
  next
    case True
    obtain v log2 where v: "readManifestVersion E (qt_filePath E finalDir (qs ''manifest.json'')) log1 = (v, log2)"
      by (cases "readManifestVersion E (qt_filePath E finalDir (qs ''manifest.json'')) log1")
    define s1 where "s1 = s\<lparr>pi_staged := Some st', pi_oldVersion := Some (case v of None \<Rightarrow> [] | Some v \<Rightarrow> v),
      pi_waiting := True, pi_log := HttpPost (stop_url (st_pluginId st')) (token_header E (pi_authToken s)) [] # log2\<rparr>"
    have "pi_install E inflator dict z0 zipPath s = Some (s1, [])"
      using st True v by (simp add: pi_install_def ask_def s1_def log1_def finalDir_def)
    moreover have "onStopReplyFinished E True s1 = commitAndResolveDeps E st' (s1\<lparr>pi_waiting := False\<rparr>)"
      by (simp add: onStopReplyFinished_def s1_def)
    moreover have "idle (s1\<lparr>pi_waiting := False\<rparr>)" using assms(2) by (simp add: idle_def s1_def)
    ultimately show ?thesis using assms(1)
      by (intro exI [of _ "s1\<lparr>pi_waiting := False\<rparr>"]) (auto simp: whole_install_def s1_def split_beta Let_def)
  qed
qed


definition demo_installer :: plugin_installer where
  "demo_installer = \<lparr>pi_pluginsDir = qs ''plugins'', pi_limits = default_limits, pi_authToken = [], pi_staged = None,
     pi_oldVersion = None, pi_waiting = False, pi_deps = None, pi_log = []\<rparr>"


end
