(* ===== verification/Pane.thy ===== *)
theory Pane
  imports Polling Bootstrap DaemonProcess AuthService
begin

text \<open>
  \<^verbatim>\<open>src/DzPythonBridgePane.cpp\<close>: what the pane shows and does. The widgets are the fields of \<open>pane\<close>: texts, the
  table's rows and current row, the state of the five action buttons. Qt's rendering of the clock and of a
  number of megabytes are parameters, and so is the row that becomes current when the current one is cut off.
\<close>

record pane =
  daemonStatus :: "qstring \<times> qstring"
  logView :: "qstring list"
  tableRows :: "qstring list list"
  currentRow :: int
  actionButtons :: "bool list"
  tableToolTip :: qstring
  scriptText :: qstring
  executeEnabled :: bool
  runOutput :: qstring

record pane_qt =
  now :: "nat \<Rightarrow> qstring"
  megabytes :: "int \<Rightarrow> qstring"
  row_after_cut :: "int \<Rightarrow> nat \<Rightarrow> int"

section \<open>Texts\<close>

definition kEmDash :: qchar where "kEmDash = 0x2014"

definition qnumber :: "int \<Rightarrow> qstring" where
  "qnumber i = map ucast (to_string i)"

definition formatMemory :: "pane_qt \<Rightarrow> int \<Rightarrow> qstring" where
  "formatMemory Q bs = (if bs < 0 then [kEmDash] else megabytes Q bs @ qs '' MB'')"

definition formatPid :: "int \<Rightarrow> qstring" where
  "formatPid pid = (if pid < 0 then [kEmDash] else qnumber pid)"

definition formatLastUsed :: "qdouble \<Rightarrow> qstring" where
  "formatLastUsed d = (case d of (m, k) \<Rightarrow> if m \<le> 0 then qs ''never'' else qnumber (m div 2 ^ k) @ qs ''s ago'')"

definition red :: qstring where "red = qs ''#c0392b''"
definition amber :: qstring where "amber = qs ''#b8860b''"
definition green :: qstring where "green = qs ''#2e7d32''"

section \<open>Status and log\<close>

definition setDaemonStatus :: "qstring \<Rightarrow> qstring \<Rightarrow> pane \<Rightarrow> pane" where
  "setDaemonStatus txt color p = p\<lparr>daemonStatus := (qs ''Daemon: '' @ txt, color)\<rparr>"

definition appendLog :: "pane_qt \<Rightarrow> qstring \<Rightarrow> qstring \<Rightarrow> pane \<Rightarrow> pane" where
  "appendLog Q source message p =
     p\<lparr>logView := logView p @ [qs ''['' @ now Q (length (logView p)) @ qs ''] ['' @ source @ qs ''] '' @ message]\<rparr>"

definition onBootstrapStepStarted :: "pane_qt \<Rightarrow> qstring \<Rightarrow> pane \<Rightarrow> pane" where
  "onBootstrapStepStarted Q stp p =
     appendLog Q (qs ''BOOTSTRAP'') (stp @ qs '': started'')
       (setDaemonStatus (qs ''bootstrapping ('' @ stp @ qs '')...'') amber p)"

definition onBootstrapStepSucceeded :: "pane_qt \<Rightarrow> qstring \<Rightarrow> pane \<Rightarrow> pane" where
  "onBootstrapStepSucceeded Q stp p = appendLog Q (qs ''BOOTSTRAP'') (stp @ qs '': ok'') p"

definition onBootstrapStepFailed :: "pane_qt \<Rightarrow> qstring \<Rightarrow> qstring \<Rightarrow> pane \<Rightarrow> pane" where
  "onBootstrapStepFailed Q stp errorMessage p =
     appendLog Q (qs ''BOOTSTRAP'') (stp @ qs '': FAILED -- '' @ errorMessage)
       (setDaemonStatus (qs ''bootstrap failed ('' @ stp @ qs '')'') red p)"

text \<open>Without the call that starts the daemon.\<close>

definition onBootstrapReady :: "pane_qt \<Rightarrow> pane \<Rightarrow> pane" where
  "onBootstrapReady Q p =
     setDaemonStatus (qs ''starting...'') amber (appendLog Q (qs ''BOOTSTRAP'') (qs ''ready -- launching daemon'') p)"

definition onDaemonStarted :: "pane_qt \<Rightarrow> int \<Rightarrow> pane \<Rightarrow> pane" where
  "onDaemonStarted Q pid p =
     setDaemonStatus (qs ''starting (waiting for health check)...'') amber
       (appendLog Q (qs ''DAEMON'') (qs ''process started (pid '' @ qnumber pid @ qs '')'') p)"

definition onDaemonCrashed :: "pane_qt \<Rightarrow> int \<Rightarrow> pane \<Rightarrow> pane" where
  "onDaemonCrashed Q code p =
     appendLog Q (qs ''DAEMON'') (qs ''process exited unexpectedly, code '' @ qnumber code)
       (setDaemonStatus (qs ''crashed (exit code '' @ qnumber code @ qs '')'') red p)"

definition onDaemonLogLine :: "pane_qt \<Rightarrow> qstring \<Rightarrow> pane \<Rightarrow> pane" where
  "onDaemonLogLine Q line p = appendLog Q (qs ''DAEMON'') line p"

definition onHealthUp :: "pane_qt \<Rightarrow> pane \<Rightarrow> pane" where
  "onHealthUp Q p = appendLog Q (qs ''HEALTH'') (qs ''daemon is up'') (setDaemonStatus (qs ''running'') green p)"

definition onHealthDown :: "pane_qt \<Rightarrow> pane \<Rightarrow> pane" where
  "onHealthDown Q p =
     appendLog Q (qs ''HEALTH'') (qs ''daemon is not responding'') (setDaemonStatus (qs ''unreachable'') red p)"

section \<open>The plugin table\<close>

text \<open>The text of the row's first cell; null for no row or no item.\<close>

definition selectedPluginId :: "pane \<Rightarrow> qstring" where
  "selectedPluginId p =
     (if currentRow p < 0 \<or> int (length (tableRows p)) \<le> currentRow p then []
      else case tableRows p ! nat (currentRow p) of [] \<Rightarrow> [] | c # _ \<Rightarrow> c)"

definition updateActionButtonsEnabled :: "pane \<Rightarrow> pane" where
  "updateActionButtonsEnabled p = p\<lparr>actionButtons := replicate 5 (selectedPluginId p \<noteq> [])\<rparr>"

definition onTableSelectionChanged :: "pane \<Rightarrow> pane" where
  "onTableSelectionChanged p = updateActionButtonsEnabled p"

definition status_row :: "pane_qt \<Rightarrow> plugin_status \<Rightarrow> qstring list" where
  "status_row Q st = [ps_pluginId st, ps_state st, formatPid (ps_pid st), formatMemory Q (ps_memoryBytes st),
     formatLastUsed (ps_lastUsed st)]"

text \<open>The last row with the id that was selected before.\<close>

fun restored_row :: "qstring \<Rightarrow> nat \<Rightarrow> plugin_status list \<Rightarrow> int \<Rightarrow> int" where
  "restored_row previous row [] restored = restored"
| "restored_row previous row (st # sts) restored =
     restored_row previous (row + 1) sts (if ps_pluginId st = previous then int row else restored)"

definition setRowCount :: "pane_qt \<Rightarrow> nat \<Rightarrow> pane \<Rightarrow> pane" where
  "setRowCount Q n p = p\<lparr>currentRow := (if currentRow p < int n then currentRow p else row_after_cut Q (currentRow p) n)\<rparr>"

definition selectRow :: "int \<Rightarrow> pane \<Rightarrow> pane" where
  "selectRow r p = onTableSelectionChanged (p\<lparr>currentRow := r\<rparr>)"

definition onPluginsUpdated :: "pane_qt \<Rightarrow> plugin_status list \<Rightarrow> pane \<Rightarrow> pane" where
  "onPluginsUpdated Q plugins p =
     (let previouslySelected = selectedPluginId p;
          p = (setRowCount Q (length plugins) p)\<lparr>tableRows := map (status_row Q) plugins\<rparr>;
          restoredRow = restored_row previouslySelected 0 plugins (- 1);
          p = (if 0 \<le> restoredRow then selectRow restoredRow p else p)
      in updateActionButtonsEnabled p)"

definition onActionFinished :: "qstring \<Rightarrow> bool \<Rightarrow> qstring \<Rightarrow> pane \<Rightarrow> pane" where
  "onActionFinished pluginId success errorMessage p =
     (if \<not> success then p\<lparr>tableToolTip := pluginId @ qs '': '' @ errorMessage\<rparr> else p)"

text \<open>The call to the status manager, if there is one.\<close>

definition performActionOnSelection :: "action \<Rightarrow> pane \<Rightarrow> status_event list" where
  "performActionOnSelection a p =
     (let pluginId = selectedPluginId p in if pluginId = [] then [] else [Status_performAction pluginId a])"

section \<open>Running a script\<close>

text \<open>The call to the runner is \<open>Run_execute (scriptText p)\<close>.\<close>

definition onExecuteClicked :: "pane \<Rightarrow> pane \<times> runner_event" where
  "onExecuteClicked p = (p\<lparr>executeEnabled := False, runOutput := qs ''Running...''\<rparr>, Run_execute (scriptText p))"

fun join_lines :: "qstring list \<Rightarrow> qstring" where
  "join_lines [] = []"
| "join_lines [l] = l"
| "join_lines (l # ls) = l @ [0x0A] @ join_lines ls"

definition run_text :: "bool \<Rightarrow> qstring \<Rightarrow> qstring list \<Rightarrow> qstring \<Rightarrow> qstring" where
  "run_text success resultJson output error =
     (let txt = join_lines output; txt = (if txt \<noteq> [] then txt @ [0x0A] else txt)
      in txt @ (if success then qs ''=> '' @ resultJson else qs ''Error: '' @ error))"

definition onRunFinished :: "bool \<Rightarrow> qstring \<Rightarrow> qstring list \<Rightarrow> qstring \<Rightarrow> pane \<Rightarrow> pane" where
  "onRunFinished success resultJson output error p =
     p\<lparr>executeEnabled := True, runOutput := run_text success resultJson output error\<rparr>"

section \<open>The wiring\<close>

text \<open>The pane with the objects it owns.\<close>

record pane_system =
  ui :: pane
  authService :: auth_service
  pane_bootstrapper :: bootstrapper
  daemonProcess :: daemon_process
  healthMonitor :: health_monitor
  statusManager :: status_manager
  inlineRunner :: inline_runner

definition setUi :: "(pane \<Rightarrow> pane) \<Rightarrow> pane_system \<Rightarrow> pane_system" where
  "setUi f s = s\<lparr>ui := f (ui s)\<rparr>"

text \<open>The connections of the constructor: what a signal does to the pane. \<open>pid\<close> is the daemon's process id.\<close>

fun on_process_out :: "pane_qt \<Rightarrow> int \<Rightarrow> process_out \<Rightarrow> pane_system \<Rightarrow> pane_system" where
  "on_process_out Q pid Process_started s = setUi (onDaemonStarted Q (processId pid (daemonProcess s))) s"
| "on_process_out Q pid (Process_crashed c st) s = setUi (onDaemonCrashed Q c) s"
| "on_process_out Q pid (LogLine l) s = setUi (onDaemonLogLine Q l) s"
| "on_process_out Q pid (Process_op op) s = s"

fun on_chain_signal :: "env \<Rightarrow> pane_qt \<Rightarrow> int \<Rightarrow> chain_signal \<Rightarrow> pane_system \<Rightarrow> pane_system" where
  "on_chain_signal E Q pid (StepStarted stp) s = setUi (onBootstrapStepStarted Q stp) s"
| "on_chain_signal E Q pid (StepSucceeded stp) s = setUi (onBootstrapStepSucceeded Q stp) s"
| "on_chain_signal E Q pid (StepFailed stp msg) s = setUi (onBootstrapStepFailed Q stp msg) s"
| "on_chain_signal E Q pid Ready s =
     (let s = setUi (onBootstrapReady Q) s; (d, os) = start E (daemonProcess s)
      in fold (on_process_out Q pid) os (s\<lparr>daemonProcess := d\<rparr>))"
| "on_chain_signal E Q pid (Finished pluginId ok msg) s = s"

fun on_health_out :: "pane_qt \<Rightarrow> health_out \<Rightarrow> pane_system \<Rightarrow> pane_system" where
  "on_health_out Q (Health_changed up) s = setUi (if up then onHealthUp Q else onHealthDown Q) s"
| "on_health_out Q (Health_request op) s = s"

fun on_status_out :: "pane_qt \<Rightarrow> status_out \<Rightarrow> pane_system \<Rightarrow> pane_system" where
  "on_status_out Q (PluginsUpdated plugins) s = setUi (onPluginsUpdated Q plugins) s"
| "on_status_out Q (ActionFinished pluginId a ok msg) s = setUi (onActionFinished pluginId ok msg) s"
| "on_status_out Q (Status_request op) s = s"
| "on_status_out Q (Status_action_request pluginId a op) s = s"

fun on_runner_out :: "runner_out \<Rightarrow> pane_system \<Rightarrow> pane_system" where
  "on_runner_out (RunFinished ok r out e) s = setUi (onRunFinished ok r out e) s"
| "on_runner_out (Run_request op) s = s"

text \<open>What the objects do of themselves, and what the user does.\<close>

definition pane_health :: "env \<Rightarrow> pane_qt \<Rightarrow> health_event \<Rightarrow> pane_system \<Rightarrow> pane_system" where
  "pane_health E Q e s =
     (let (m, os) = health_step E e (healthMonitor s) in fold (on_health_out Q) os (s\<lparr>healthMonitor := m\<rparr>))"

definition pane_status :: "env \<Rightarrow> pane_qt \<Rightarrow> status_event \<Rightarrow> pane_system \<Rightarrow> pane_system" where
  "pane_status E Q e s =
     (let (m, os) = status_step E e (statusManager s) in fold (on_status_out Q) os (s\<lparr>statusManager := m\<rparr>))"

definition pane_runner :: "env \<Rightarrow> runner_event \<Rightarrow> pane_system \<Rightarrow> pane_system" where
  "pane_runner E e s =
     (let (m, os) = runner_step E e (inlineRunner s) in fold on_runner_out os (s\<lparr>inlineRunner := m\<rparr>))"

definition pane_bootstrap ::
    "env \<Rightarrow> pane_qt \<Rightarrow> int \<Rightarrow> (bootstrapper \<Rightarrow> bootstrapper \<times> chain_signal list) \<Rightarrow> pane_system \<Rightarrow> pane_system" where
  "pane_bootstrap E Q pid f s =
     (let (b, os) = f (pane_bootstrapper s) in fold (on_chain_signal E Q pid) os (s\<lparr>pane_bootstrapper := b\<rparr>))"

definition pane_daemon :: "env \<Rightarrow> pane_qt \<Rightarrow> int \<Rightarrow> process_event \<Rightarrow> pane_system \<Rightarrow> pane_system option" where
  "pane_daemon E Q pid e s =
     (case daemon_step E e (daemonProcess s) of
        None \<Rightarrow> None
      | Some (d, os) \<Rightarrow> Some (fold (on_process_out Q pid) os (s\<lparr>daemonProcess := d\<rparr>)))"

text \<open>The constructor. \<open>resources\<close> is \<^verbatim>\<open>dzApp->getResourcesPath()\<close>; the token's messages are dropped.\<close>

definition ui_init :: pane where
  "ui_init = updateActionButtonsEnabled
     \<lparr>daemonStatus = (qs ''Daemon: initializing...'', []), logView = [], tableRows = [], currentRow = - 1,
      actionButtons = replicate 5 True, tableToolTip = [], scriptText = [], executeEnabled = True, runOutput = []\<rparr>"

definition DzPythonBridgePane :: "env \<Rightarrow> pane_qt \<Rightarrow> int \<Rightarrow> qstring \<Rightarrow> pane_system" where
  "DzPythonBridgePane E Q pid resources =
     (let (loaded, a, msgs, log) = loadOrGenerateToken E \<lparr>m_sToken = []\<rparr> [];
          s = \<lparr>ui = ui_init, authService = a,
               pane_bootstrapper = \<lparr>ub_daemonSourceDir = [], ub_running = [], ub_log = log\<rparr>,
               daemonProcess = daemon_init, healthMonitor = health_init, statusManager = status_init,
               inlineRunner = runner_init\<rparr>;
          s = pane_health E Q (Health_setAuthToken (getToken a)) s;
          s = pane_health E Q (Health_start 5000) s;
          daemonSourceDir = qt_filePath E resources (qs ''BlueMoonFoundry/DazPythonBridge'');
          s = pane_bootstrap E Q pid (\<lambda>b. (b\<lparr>ub_daemonSourceDir := daemonSourceDir\<rparr>, [])) s;
          s = setUi (setDaemonStatus (qs ''bootstrapping...'') amber) s;
          s = setUi (appendLog Q (qs ''PANE'')
            (qs ''Starting daemon bootstrap (daemon source: '' @ daemonSourceDir @ qs '')'')) s;
          s = pane_bootstrap E Q pid (ensureReady E) s;
          s = pane_status E Q (Status_setAuthToken (getToken a)) s;
          s = pane_status E Q (Status_start 5000) s
      in pane_runner E (Run_setAuthToken (getToken a)) s)"

text \<open>For the witnesses.\<close>

definition demo_qt :: pane_qt where
  "demo_qt = \<lparr>now = \<lambda>_. [], megabytes = \<lambda>_. [], row_after_cut = \<lambda>_ _. - 1\<rparr>"

definition demo_plugin :: "qstring \<Rightarrow> plugin_status" where
  "demo_plugin n = \<lparr>ps_pluginId = n, ps_state = [], ps_pid = - 1, ps_memoryBytes = - 1, ps_lastUsed = (0, 0)\<rparr>"

definition demo_table :: pane where
  "demo_table = ui_init\<lparr>tableRows := map (\<lambda>n. status_row demo_qt (demo_plugin n)) [[97], [98], [99]], currentRow := 1\<rparr>"

section \<open>The table\<close>

lemma restored_row_missing: "previous \<notin> ps_pluginId ` set sts \<Longrightarrow> restored_row previous row sts r = r"
  by (induction sts arbitrary: row) auto

lemma restored_row_found:
  "previous \<in> ps_pluginId ` set sts \<Longrightarrow>
    \<exists>i < length sts. restored_row previous row sts r = int (row + i) \<and> ps_pluginId (sts ! i) = previous"
proof (induction sts arbitrary: row r)
  case (Cons st sts)
  show ?case
  proof (cases "previous \<in> ps_pluginId ` set sts")
    case True
    then obtain i where i: "i < length sts" "restored_row previous (row + 1) sts
        (if ps_pluginId st = previous then int row else r) = int (row + 1 + i)" "ps_pluginId (sts ! i) = previous"
      using Cons.IH [of "row + 1"] by blast
    then show ?thesis by (intro exI [of _ "Suc i"]) simp
  next
    case False
    then have "ps_pluginId st = previous" using Cons.prems by auto
    then show ?thesis using False by (intro exI [of _ 0]) (simp add: restored_row_missing)
  qed
qed simp

lemma selected_in_rows:
  "tableRows p = map (status_row Q) sts \<Longrightarrow> i < length sts \<Longrightarrow> currentRow p = int i \<Longrightarrow>
    selectedPluginId p = ps_pluginId (sts ! i)"
  by (simp add: selectedPluginId_def status_row_def)

lemma selected_buttons [simp]: "selectedPluginId (p\<lparr>actionButtons := b\<rparr>) = selectedPluginId p"
  by (simp add: selectedPluginId_def)

text \<open>C37. A refresh of the table keeps the selection on the same plugin if that is still listed, wherever its row
  has moved, and afterwards the five action buttons are enabled exactly when a plugin is selected.\<close>

theorem selection_kept:
  "(let p' = onPluginsUpdated Q plugins p in
     (selectedPluginId p \<in> ps_pluginId ` set plugins \<longrightarrow> selectedPluginId p' = selectedPluginId p) \<and>
     tableRows p' = map (status_row Q) plugins \<and> actionButtons p' = replicate 5 (selectedPluginId p' \<noteq> []))"
proof -
  define p1 where "p1 = (setRowCount Q (length plugins) p)\<lparr>tableRows := map (status_row Q) plugins\<rparr>"
  define r where "r = restored_row (selectedPluginId p) 0 plugins (- 1)"
  have p': "onPluginsUpdated Q plugins p = updateActionButtonsEnabled (if 0 \<le> r then selectRow r p1 else p1)"
    by (simp add: onPluginsUpdated_def p1_def r_def Let_def)
  have "selectedPluginId (selectRow r p1) = selectedPluginId p \<and> 0 \<le> r" if listed: "selectedPluginId p \<in> ps_pluginId ` set plugins"
  proof -
    obtain i where "i < length plugins" "r = int i" "ps_pluginId (plugins ! i) = selectedPluginId p"
      using restored_row_found [OF listed, of 0 "- 1"] by (auto simp: r_def)
    then show ?thesis using selected_in_rows [of "p1\<lparr>currentRow := r\<rparr>" Q plugins i]
      by (simp add: selectRow_def onTableSelectionChanged_def updateActionButtonsEnabled_def p1_def)
  qed
  then show ?thesis
    by (auto simp: p' updateActionButtonsEnabled_def selectRow_def onTableSelectionChanged_def p1_def Let_def)
qed

lemma demo_table_selected: "selectedPluginId demo_table = [98]" "currentRow demo_table = int 1"
  by (simp_all add: selectedPluginId_def demo_table_def status_row_def demo_plugin_def)

lemma selection_kept_witness:
  "selectedPluginId (onPluginsUpdated demo_qt [demo_plugin [98], demo_plugin [97]] demo_table) = [98]"
proof -
  have "selectedPluginId demo_table \<in> ps_pluginId ` set [demo_plugin [98], demo_plugin [97]]"
    by (simp add: demo_table_selected demo_plugin_def)
  then show ?thesis using selection_kept [of demo_qt "[demo_plugin [98], demo_plugin [97]]" demo_table]
    by (simp only: Let_def demo_table_selected simp_thms)
qed

text \<open>C38. A refresh that no longer lists the selected plugin silently selects whichever plugin has moved into its row,
  and a click on an action button then acts on that one.\<close>

theorem selection_slips:
  assumes "selectedPluginId p \<notin> ps_pluginId ` set plugins" and "currentRow p = int i" and "i < length plugins"
    and "ps_pluginId (plugins ! i) \<noteq> []"
  shows "performActionOnSelection a (onPluginsUpdated Q plugins p) = [Status_performAction (ps_pluginId (plugins ! i)) a]"
proof -
  have "selectedPluginId (p\<lparr>currentRow := int i, tableRows := map (status_row Q) plugins\<rparr>) = ps_pluginId (plugins ! i)"
    by (rule selected_in_rows [of _ Q]) (use assms in simp_all)
  then show ?thesis using assms
    by (simp add: onPluginsUpdated_def restored_row_missing setRowCount_def updateActionButtonsEnabled_def
        performActionOnSelection_def Let_def)
qed

lemma selection_slips_witness:
  "performActionOnSelection Action_Stop (onPluginsUpdated demo_qt [demo_plugin [97], demo_plugin [99]] demo_table) =
    [Status_performAction [99] Action_Stop]"
  using selection_slips [of demo_table "[demo_plugin [97], demo_plugin [99]]" 1 Action_Stop demo_qt]
  by (simp add: demo_table_selected demo_plugin_def)

section \<open>The Execute button\<close>

text \<open>The steps of the pane around a script: editing, a click on the enabled button, the daemon's answer, and
  anything the other objects do.\<close>

inductive pane_step :: "env \<Rightarrow> pane_qt \<Rightarrow> pane_system \<Rightarrow> pane_system \<Rightarrow> bool" for E Q where
  edit: "pane_step E Q s (setUi (\<lambda>p. p\<lparr>scriptText := txt\<rparr>) s)"
| click: "executeEnabled (ui s) \<Longrightarrow>
    pane_step E Q s (pane_runner E (snd (onExecuteClicked (ui s))) (s\<lparr>ui := fst (onExecuteClicked (ui s))\<rparr>))"
| answer: "ir_requestInFlight (inlineRunner s) \<Longrightarrow> pane_step E Q s (pane_runner E (Run_reply (Some r)) s)"
| health: "pane_step E Q s (pane_health E Q h s)"
| status: "pane_step E Q s (pane_status E Q st s)"
| boot: "pane_step E Q s (pane_bootstrap E Q pid (boot_finished E stp end) s)"
| daemon: "pane_daemon E Q pid e s = Some s' \<Longrightarrow> pane_step E Q s s'"

inductive reachable :: "env \<Rightarrow> pane_qt \<Rightarrow> pane_system \<Rightarrow> bool" for E Q where
  opened: "reachable E Q (DzPythonBridgePane E Q pid resources)"
| stepped: "reachable E Q s \<Longrightarrow> pane_step E Q s s' \<Longrightarrow> reachable E Q s'"

text \<open>What only scripts touch.\<close>

definition script_part :: "pane_system \<Rightarrow> bool \<times> inline_runner" where
  "script_part s = (executeEnabled (ui s), inlineRunner s)"

lemma fold_keeps: "(\<And>x s. f (g x s) = f s) \<Longrightarrow> f (fold g xs s) = f s"
  by (induction xs arbitrary: s) simp_all

lemmas slot_defs = setUi_def onDaemonStarted_def onDaemonCrashed_def onDaemonLogLine_def onBootstrapStepStarted_def
  onBootstrapStepSucceeded_def onBootstrapStepFailed_def onBootstrapReady_def onHealthUp_def onHealthDown_def
  appendLog_def setDaemonStatus_def

lemma onPluginsUpdated_execute [simp]: "executeEnabled (onPluginsUpdated Q plugins p) = executeEnabled p"
  by (simp add: onPluginsUpdated_def Let_def updateActionButtonsEnabled_def selectRow_def onTableSelectionChanged_def
      setRowCount_def)

lemma script_part_process: "script_part (on_process_out Q pid x s) = script_part s"
  by (cases x) (simp_all add: script_part_def slot_defs)

lemma script_part_chain: "script_part (on_chain_signal E Q pid x s) = script_part s"
proof (cases x)
  case Ready
  show ?thesis
    using fold_keeps [of script_part "on_process_out Q pid", OF script_part_process]
    by (simp add: Ready split_beta Let_def) (simp add: script_part_def slot_defs)
qed (simp_all add: script_part_def slot_defs)

lemma script_part_health: "script_part (on_health_out Q x s) = script_part s"
  by (cases x) (simp_all add: script_part_def slot_defs)

lemma script_part_status: "script_part (on_status_out Q x s) = script_part s"
  by (cases x) (simp_all add: script_part_def slot_defs onActionFinished_def)

lemma script_part_others:
  "script_part (pane_health E Q h s) = script_part s"
  "script_part (pane_status E Q st s) = script_part s"
  "script_part (pane_bootstrap E Q pid f s) = script_part s"
  "pane_daemon E Q pid e s = Some s' \<Longrightarrow> script_part s' = script_part s"
  using fold_keeps [of script_part "on_health_out Q", OF script_part_health]
    fold_keeps [of script_part "on_status_out Q", OF script_part_status]
    fold_keeps [of script_part "on_chain_signal E Q pid", OF script_part_chain]
    fold_keeps [of script_part "on_process_out Q pid", OF script_part_process]
  by (auto simp: pane_health_def pane_status_def pane_bootstrap_def pane_daemon_def split_beta Let_def
      split: option.splits) (simp_all add: script_part_def)

lemma pane_runner_parts:
  "inlineRunner (pane_runner E e s) = fst (runner_step E e (inlineRunner s))"
  "executeEnabled (ui (pane_runner E e s)) =
     (executeEnabled (ui s) \<or> runs_finished (snd (runner_step E e (inlineRunner s))) \<noteq> 0)"
proof -
  have "inlineRunner (fold on_runner_out os t) = inlineRunner t \<and>
      executeEnabled (ui (fold on_runner_out os t)) = (executeEnabled (ui t) \<or> runs_finished os \<noteq> 0)" for os t
  proof (induction os arbitrary: t)
    case (Cons x os)
    then show ?case by (cases x) (simp_all add: setUi_def onRunFinished_def)
  qed simp
  then show "inlineRunner (pane_runner E e s) = fst (runner_step E e (inlineRunner s))"
    "executeEnabled (ui (pane_runner E e s)) =
       (executeEnabled (ui s) \<or> runs_finished (snd (runner_step E e (inlineRunner s))) \<noteq> 0)"
    by (simp_all add: pane_runner_def split_beta)
qed

definition button_free :: "pane_system \<Rightarrow> bool" where
  "button_free s \<longleftrightarrow> executeEnabled (ui s) = (\<not> ir_requestInFlight (inlineRunner s))"

lemma button_free_part: "script_part s' = script_part s \<Longrightarrow> button_free s' = button_free s"
  by (simp add: button_free_def script_part_def)

lemma opened_button_free: "button_free (DzPythonBridgePane E Q pid resources)"
proof -
  obtain loaded a msgs log where l: "loadOrGenerateToken E \<lparr>m_sToken = []\<rparr> [] = (loaded, a, msgs, log)"
    by (metis surj_pair)
  have keep: "button_free (setUi (setDaemonStatus t c) s) = button_free s"
    "button_free (setUi (appendLog Q src m) s) = button_free s" for t c src m s
    by (simp_all add: button_free_def setUi_def setDaemonStatus_def appendLog_def)
  have token: "button_free (pane_runner E (Run_setAuthToken tok) s) = button_free s" for tok s
    by (simp add: button_free_def pane_runner_parts)
  have "button_free \<lparr>ui = ui_init, authService = a, pane_bootstrapper = b, daemonProcess = d, healthMonitor = h,
      statusManager = m, inlineRunner = runner_init\<rparr>" for b d h m
    by (simp add: button_free_def ui_init_def updateActionButtonsEnabled_def runner_init_def)
  then show ?thesis
    by (simp add: DzPythonBridgePane_def l Let_def token keep button_free_part [OF script_part_others(1)]
        button_free_part [OF script_part_others(2)] button_free_part [OF script_part_others(3)])
qed

lemma step_button_free:
  assumes "pane_step E Q s s'" "button_free s"
  shows "button_free s'"
  using assms
proof cases
  case (edit t)
  then show ?thesis using assms(2) by (simp add: button_free_def setUi_def)
next
  case click
  then show ?thesis using assms(2)
    by (simp add: button_free_def pane_runner_parts onExecuteClicked_def execute_def)
next
  case (answer r)
  then show ?thesis using run_result_finishes [of E r]
    by (simp add: button_free_def pane_runner_parts run_onReplyFinished_def)
next
  case (health h)
  then show ?thesis using assms(2) button_free_part script_part_others(1) by metis
next
  case (status st)
  then show ?thesis using assms(2) button_free_part script_part_others(2) by metis
next
  case (boot pid stp p)
  then show ?thesis using assms(2) button_free_part script_part_others(3) by metis
next
  case (daemon pid e)
  then show ?thesis using assms(2) button_free_part script_part_others(4) by metis
qed

lemma reachable_button_free: "reachable E Q s \<Longrightarrow> button_free s"
  by (induction rule: reachable.induct) (auto intro: opened_button_free step_button_free)

text \<open>C39. In every reachable state of the pane the Execute button is enabled exactly when no script is running; so
  no click is lost: each one the user can make sends the script of the editor.\<close>

theorem execute_button:
  assumes "reachable E Q s"
  shows "executeEnabled (ui s) = (\<not> ir_requestInFlight (inlineRunner s)) \<and>
    (executeEnabled (ui s) \<longrightarrow> snd (runner_step E (snd (onExecuteClicked (ui s))) (inlineRunner s)) =
      [Run_request (HttpPost (baseUrl @ qs ''/run'') (token_header E (ir_authToken (inlineRunner s)))
        (run_payload E (scriptText (ui s))))])"
  using reachable_button_free [OF assms] by (simp add: button_free_def onExecuteClicked_def execute_def)

lemma execute_button_witness:
  "executeEnabled (ui (DzPythonBridgePane blank_env demo_qt 7 [])) =
    (\<not> ir_requestInFlight (inlineRunner (DzPythonBridgePane blank_env demo_qt 7 [])))"
  using execute_button [OF reachable.opened] by blast

section \<open>The status line\<close>

text \<open>C40. The status line can stay wrong for good: when the daemon answers health checks before its process reports
  that it has started (one left over from an earlier session does), the line then says it is waiting for the
  health check, and no later successful check corrects it, since the monitor reports changes only.\<close>

theorem status_stays_stale:
  assumes up: "hm_isUp (healthMonitor s)"
    and started: "pane_daemon E Q pid Daemon_started s = Some s1"
    and es: "\<forall>e \<in> set es. e = Health_timeout \<or> e = Health_reply (Some True)"
  shows "fst (daemonStatus (ui (fold (pane_health E Q) es s1))) = qs ''Daemon: starting (waiting for health check)...''"
proof -
  have s1: "fst (daemonStatus (ui s1)) = qs ''Daemon: starting (waiting for health check)...''" "hm_isUp (healthMonitor s1)"
    using up started by (auto simp: pane_daemon_def onStarted_def slot_defs qs_def)
  have keep: "daemonStatus (ui (pane_health E Q e t)) = daemonStatus (ui t) \<and> hm_isUp (healthMonitor (pane_health E Q e t))"
    if "e = Health_timeout \<or> e = Health_reply (Some True)" "hm_isUp (healthMonitor t)" for e t
    using that by (auto simp: pane_health_def poll_def health_onReplyFinished_def)
  have "daemonStatus (ui (fold (pane_health E Q) es t)) = daemonStatus (ui t)" if "hm_isUp (healthMonitor t)" for t
    using es that
  proof (induction es arbitrary: t)
    case (Cons e es)
    then show ?case using keep [of e t] by simp
  qed simp
  then show ?thesis using s1 by simp
qed

definition demo_system :: pane_system where
  "demo_system = \<lparr>ui = ui_init, authService = \<lparr>m_sToken = []\<rparr>,
     pane_bootstrapper = \<lparr>ub_daemonSourceDir = [], ub_running = [], ub_log = []\<rparr>,
     daemonProcess = daemon_init\<lparr>dp_process := Some Starting\<rparr>, healthMonitor = health_init\<lparr>hm_isUp := True\<rparr>,
     statusManager = status_init, inlineRunner = runner_init\<rparr>"

lemma status_stays_stale_witness:
  "\<exists>s1. pane_daemon blank_env demo_qt 7 Daemon_started demo_system = Some s1 \<and>
    fst (daemonStatus (ui (fold (pane_health blank_env demo_qt) [Health_timeout, Health_reply (Some True)] s1))) =
      qs ''Daemon: starting (waiting for health check)...''"
proof -
  obtain s1 where s1: "pane_daemon blank_env demo_qt 7 Daemon_started demo_system = Some s1"
    by (simp add: pane_daemon_def onStarted_def)
  have "hm_isUp (healthMonitor demo_system)" by (simp add: demo_system_def)
  from status_stays_stale [OF this s1, of "[Health_timeout, Health_reply (Some True)]"] s1 show ?thesis by simp
qed

end
