(* ===== verification/Spec2Isabelle.thy ===== *)
theory Spec2Isabelle
  imports Prelude Checksum ZipTypes ZipSort ZipReader ZipStat ZipLocate Tinfl HuffTable HuffBuild HuffDecode TinflInv TinflSteps TinflSafe Deflate InflateSim InflateRaw InflateHeader InflateHuff InflateMatch InflateCorrect ZipExtract ExtractSafe ExtractCorrect ZipIter ZipValidate QtBase JsonStd ZipInstaller InstallerSafety InstallTotal DaemonPaths AuthService EventRuns Polling DaemonProcess Bootstrap PluginDeps PluginInstaller Pane
begin

text \<open>
  The DAZ Studio Python bridge: a plugin for DAZ Studio (C++ with Qt, under \<^verbatim>\<open>src/\<close> and \<^verbatim>\<open>include/\<close>) that
  bootstraps and supervises a Python daemon, installs plugin archives, and shows both in a pane. It reads the
  archives with a copy of \<^verbatim>\<open>miniz\<close> (\<^verbatim>\<open>src/miniz.c\<close>), the bulk of its C code. This development models the
  archive reader and the plugin's own classes, and proves what makes them correct.

  \<^bold>\<open>The archive reader.\<close> Bytes are 8-bit words in lists; a read is checked (\<open>rd8\<close>, \<open>rd16\<close>, \<open>rd32\<close>, \<open>rd64\<close>) and a
  read or a pointer outside its buffer makes the result \<^term>\<open>None\<close>, so a theorem that a function's result is not
  \<^term>\<open>None\<close> says that it has no such behaviour. Unsigned C integers are naturals with the wrap-around
  written out (\<open>u16\<close>, \<open>u32\<close>, \<open>u64\<close>, \<open>sub64\<close>); the checksums are 32-bit words.
    \<^item> \<open>Prelude\<close>: integers, checked reads, their algebra. \<open>Checksum\<close>: \<^verbatim>\<open>mz_crc32\<close> and \<^verbatim>\<open>mz_adler32\<close>, equal to
      polynomial division and to the defining sums, and additive over chunks (locale \<open>chunked_checksum\<close>).
    \<^item> \<open>ZipTypes\<close>: \<^verbatim>\<open>mz_zip_archive\<close> with its state, modes, errors (\<open>zret\<close>), read callbacks (locale \<open>reader\<close>).
      \<open>ZipSort\<close>: the order on names and the heap sort of the index (locale \<open>comparator\<close>).
    \<^item> \<open>ZipReader\<close>: end records, zip64, the central directory, opening from memory and from a file. Its lemmas
      \<open>*_post\<close> describe one function each; together they give the safety of opening any bytes.
    \<^item> \<open>ZipStat\<close>: questions about an entry and \<^verbatim>\<open>mz_zip_reader_file_stat\<close>. \<open>ZipLocate\<close>: search by name, binary
      and linear. \<open>ZipValidate\<close>: \<^verbatim>\<open>mz_zip_validate_file\<close> and \<^verbatim>\<open>mz_zip_validate_archive\<close>.
    \<^item> \<open>TinflTables\<close>, \<open>Tinfl\<close>: the decompressor \<^verbatim>\<open>tinfl_decompress\<close> as a step function on its local variables,
      one constructor of the program counter per coroutine state, iterated by \<open>tinfl_run\<close>.
    \<^item> \<open>HuffTable\<close>, \<open>HuffBuild\<close>, \<open>HuffDecode\<close>: the Huffman tables the decompressor builds. Accepted code lengths
      are those of a complete code, or of at most one symbol (\<open>kraft_sum\<close>, \<open>used_syms\<close>); the tables then decode the
      canonical code of RFC 1951. The invariant \<open>tab_inv\<close> of the construction has the list of allocated nodes as a
      ghost.
    \<^item> \<open>TinflInv\<close>, \<open>TinflSteps\<close>, \<open>TinflSafe\<close>: the decompressor is safe and ends. \<open>inv\<close> says what holds at each place
      of the coroutine, \<open>progress\<close> is a well-founded order that every step descends (input bits left, room left in
      the output, place in the code, bits missing), \<open>resumable\<close> is what a saved structure satisfies between calls.
    \<^item> \<open>Deflate\<close>: the compressed format, written after RFC 1951 without tables or buffers; \<open>inflate_spec\<close> is the
      abstract specification of the decompressor. \<open>InflateSim\<close> gives each place of the coroutine its \<open>meaning\<close>, the
      rest of the decompression in terms of the format, and the relation \<open>sim\<close>, which every step keeps:
      \<open>InflateRaw\<close> (block headers, stored blocks, the end), \<open>InflateHeader\<close> (code lengths, tables), \<open>InflateHuff\<close>
      (symbols), \<open>InflateMatch\<close> (literals, matches, the fast path, the ring buffer). \<open>InflateCorrect\<close> composes the
      steps to runs and calls (\<open>between\<close> relates the saved structure to the format between two calls): the
      decompressor refines the format.
    \<^item> \<open>ZipExtract\<close>, \<open>ZipIter\<close>: extraction to memory, heap, callback, file, and the iterator. The lemma
      \<open>extract_to_callback_delivered\<close> says what a callback is fed and that a success has the size and CRC
      of the directory. The loops around the decompressor are partial functions; \<^term>\<open>None\<close> also stands for a
      loop that does not end.
    \<^item> \<open>ExtractSafe\<close>: these loops do end. For an archive in a file, extraction to a callback and to a buffer always
      returns and leaves the archive as it was, up to the error code; the lemmas \<open>*_total\<close> follow the code's
      functions, and \<open>weight\<close> measures the compressed bytes still to come. \<open>ExtractCorrect\<close>: on a deflated entry the
      callback is given, in pieces, exactly the decompressed bytes.

  \<^bold>\<open>The plugin's classes.\<close> Qt is not part of the repository. \<open>QtBase\<close> holds what the classes use of it: \<open>env\<close> is a
  record of Qt's conversions and of oracles that answer an operation from the whole history of operations
  (\<open>io_op\<close>), so the file system, the network and the processes may behave in any way and change at any time.
  Theorems speak of the operations performed and the signals sent. The build modelled is the one for Qt 6
  (\<^verbatim>\<open>DAZ_SDK_MAJOR_VERSION >= 6\<close>), for Windows and elsewhere (\<open>q_os_win\<close>).
    \<^item> \<open>JsonStd\<close>: the writer of \<^verbatim>\<open>include/JsonStd.h\<close>, against a reader written after RFC 8259.
    \<^item> \<open>ZipInstaller\<close>, \<open>InstallerSafety\<close>: \<^verbatim>\<open>src/ZipInstaller.cpp\<close> on top of the archive reader, and its
      guarantees: names, confinement, limits, clean-up, commit.
      \<open>InstallTotal\<close>: an installation always ends with a result.
    \<^item> \<open>AuthService\<close>: \<^verbatim>\<open>src/SecureRandom.cpp\<close>, \<^verbatim>\<open>src/AuthenticationService.cpp\<close>. \<open>DaemonPaths\<close>: the directories.
    \<^item> \<open>EventRuns\<close>: event-driven components, their runs, and the locale \<open>single_flight\<close>. \<open>Polling\<close>:
      \<^verbatim>\<open>src/DaemonHealthMonitor.cpp\<close>, \<^verbatim>\<open>src/PluginStatusManager.cpp\<close>, \<^verbatim>\<open>src/InlineRunner.cpp\<close>, which interpret it.
    \<^item> \<open>DaemonProcess\<close>: \<^verbatim>\<open>src/DaemonProcess.cpp\<close>. \<open>Bootstrap\<close>, \<open>PluginDeps\<close>: the chains of processes of
      \<^verbatim>\<open>src/UvBootstrapper.cpp\<close> and \<^verbatim>\<open>src/PluginDependencyInstaller.cpp\<close>; a chain has at most four processes,
      hence the bounds 4 and 2 of the drivers, and the theorems show that none is left running.
    \<^item> \<open>PluginInstaller\<close>: \<^verbatim>\<open>src/PluginInstaller.cpp\<close>, the composition of staging, commit and dependencies.
    \<^item> \<open>Pane\<close>: \<^verbatim>\<open>src/DzPythonBridgePane.cpp\<close>, the slots and the wiring of all objects, with the relation
      \<open>pane_step\<close> and its reachable states.

  \<^bold>\<open>Not modelled.\<close> The archive writer, the compressor \<^verbatim>\<open>tdefl\<close> and the zlib-style interface of \<^verbatim>\<open>miniz\<close>, which
  the plugin does not call; the layout of the widgets; the registration macros of the DAZ SDK; the Python daemon,
  which the plugin knows only by its HTTP answers; locking, as each object lives on one thread. Qt's JSON
  parser, its file system and its processes are parameters.
\<close>

end
